(* ===== verification/Prelude.thy ===== *)
theory Prelude
  imports Main "HOL-Library.Monad_Syntax"
begin

text \<open>
  Shared vocabulary of the development.

  The sources guard their data structures with \<open>assert\<close>: a violated assertion stops the
  program. A model of such code has type \<open>'a option\<close>, where \<open>None\<close> is "an assertion of
  the source failed" and \<open>Some x\<close> is a normal return. \<open>succeeds m P\<close> is the total-correctness
  judgement used everywhere: the code returns, and its result satisfies \<open>P\<close>.
  The theory also holds arithmetic facts on powers of two that several components need.
\<close>

named_theorems wp_intro "introduction rules for the judgement succeeds"
named_theorems bv_simps "arithmetic of the fixed width integers"

section \<open>Assertions and normal returns\<close>

definition succeeds :: "'a option \<Rightarrow> ('a \<Rightarrow> bool) \<Rightarrow> bool" where
  "succeeds m P \<longleftrightarrow> (\<exists>x. m = Some x \<and> P x)"

lemma succeeds_Some [simp]: "succeeds (Some x) P \<longleftrightarrow> P x"
  by (simp add: succeeds_def)

lemma succeeds_None [simp]: "\<not> succeeds None P"
  by (simp add: succeeds_def)

lemma succeeds_if [wp_intro]:
  "(b \<Longrightarrow> succeeds m P) \<Longrightarrow> (\<not> b \<Longrightarrow> succeeds n P) \<Longrightarrow> succeeds (if b then m else n) P"
  by simp

lemma succeeds_bind [wp_intro]:
  assumes "succeeds m Q" and "\<And>x. Q x \<Longrightarrow> succeeds (f x) P"
  shows "succeeds (m \<bind> f) P"
  using assms by (auto simp: succeeds_def)

lemma succeeds_bind_iff: "succeeds (m \<bind> f) P \<longleftrightarrow> succeeds m (\<lambda>x. succeeds (f x) P)"
  by (auto simp: succeeds_def bind_eq_Some_conv)

lemma succeeds_mono: "succeeds m P \<Longrightarrow> (\<And>x. P x \<Longrightarrow> Q x) \<Longrightarrow> succeeds m Q"
  by (auto simp: succeeds_def)

lemma succeedsE:
  assumes "succeeds m P"
  obtains x where "m = Some x" and "P x"
  using assms by (auto simp: succeeds_def)

lemma succeeds_not_None: "succeeds m P \<Longrightarrow> m \<noteq> None"
  by (auto simp: succeeds_def)

lemma succeedsD: "succeeds m P \<Longrightarrow> m = Some x \<Longrightarrow> P x"
  by (simp add: succeeds_def)

section \<open>Powers of two\<close>

lemma two_power_le_one: "(2::nat) ^ w \<le> Suc 0 \<longleftrightarrow> w = 0"
  using one_less_power [of "2::nat" w] by (cases "w = 0") (auto simp: not_le)

lemma two_power_split: "m \<le> n \<Longrightarrow> (2::nat) ^ n = 2 ^ m * 2 ^ (n - m)"
  by (simp flip: power_add)

lemma two_power_Suc_diff: "0 < n \<Longrightarrow> (2::'a::comm_semiring_1) ^ n = 2 * 2 ^ (n - 1)"
  by (cases n) simp_all

lemma div_two_power_less: "(a::nat) < 2 ^ (m + n) \<Longrightarrow> a div 2 ^ m < 2 ^ n"
  by (simp add: less_mult_imp_div_less power_add mult.commute)

lemma mult_add_less_two_power: "(a::nat) < 2 ^ m \<Longrightarrow> b < 2 ^ n \<Longrightarrow> a * 2 ^ n + b < 2 ^ (m + n)"
proof -
  assume a: "a < 2 ^ m" and b: "b < 2 ^ n"
  have "a * 2 ^ n + b < (a + 1) * 2 ^ n" using b by simp
  also have "\<dots> \<le> 2 ^ m * 2 ^ n" using a by (intro mult_right_mono) auto
  finally show ?thesis by (simp add: power_add)
qed

end
