(* ===== verification/BitVec.thy ===== *)
theory BitVec
  imports Prelude "HOL-Library.Signed_Division" "HOL-Library.Word"
begin

unbundle bit_operations_syntax

text \<open>
  The integers of the program. A constant of the symbolic machine is a \<open>w\<close>-bit integer
  (\<open>ConstantExpr\<close> of \<^verbatim>\<open>include/klee/Expr/Expr.h\<close> holds one): here a width \<open>w\<close> and a natural
  number below \<open>2 ^ w\<close>, with the wrap-around of every operation written out (the QF_BV
  reading of \<^verbatim>\<open>docs/SMT-COMP/BitVectors.smt\<close>). Division and remainder by zero have no
  result: the sources forbid them by assertion.
\<close>

section \<open>Integers of a given width\<close>

definition wrap :: "nat \<Rightarrow> int \<Rightarrow> nat" where
  "wrap w i = nat (i mod 2 ^ w)"

definition sval :: "nat \<Rightarrow> nat \<Rightarrow> int" where
  "sval w a = (if a < 2 ^ (w - 1) then int a else int a - 2 ^ w)"

definition bv_add :: "nat \<Rightarrow> nat \<Rightarrow> nat \<Rightarrow> nat" where
  "bv_add w a b = wrap w (int a + int b)"

definition bv_sub :: "nat \<Rightarrow> nat \<Rightarrow> nat \<Rightarrow> nat" where
  "bv_sub w a b = wrap w (int a - int b)"

definition bv_mul :: "nat \<Rightarrow> nat \<Rightarrow> nat \<Rightarrow> nat" where
  "bv_mul w a b = wrap w (int a * int b)"

definition bv_not :: "nat \<Rightarrow> nat \<Rightarrow> nat" where
  "bv_not w a = 2 ^ w - 1 - a"

definition bv_sdiv :: "nat \<Rightarrow> nat \<Rightarrow> nat \<Rightarrow> nat" where
  "bv_sdiv w a b = wrap w (sval w a sdiv sval w b)"

definition bv_srem :: "nat \<Rightarrow> nat \<Rightarrow> nat \<Rightarrow> nat" where
  "bv_srem w a b = wrap w (sval w a smod sval w b)"

text \<open>A shift by the width or more shifts every bit out.\<close>

definition bv_shl :: "nat \<Rightarrow> nat \<Rightarrow> nat \<Rightarrow> nat" where
  "bv_shl w a b = (if b < w then wrap w (int a * 2 ^ b) else 0)"

definition bv_lshr :: "nat \<Rightarrow> nat \<Rightarrow> nat \<Rightarrow> nat" where
  "bv_lshr w a b = (if b < w then a div 2 ^ b else 0)"

definition bv_ashr :: "nat \<Rightarrow> nat \<Rightarrow> nat \<Rightarrow> nat" where
  "bv_ashr w a b = (if b < w then wrap w (sval w a div 2 ^ b)
                    else if sval w a < 0 then 2 ^ w - 1 else 0)"

definition bv_concat :: "nat \<Rightarrow> nat \<Rightarrow> nat \<Rightarrow> nat" where
  "bv_concat wr a b = a * 2 ^ wr + b"

definition bv_extract :: "nat \<Rightarrow> nat \<Rightarrow> nat \<Rightarrow> nat" where
  "bv_extract off w a = a div 2 ^ off mod 2 ^ w"

definition bv_sext :: "nat \<Rightarrow> nat \<Rightarrow> nat \<Rightarrow> nat" where
  "bv_sext w wout a = wrap wout (sval w a)"

subsection \<open>Bounds\<close>

lemma wrap_less [simp, bv_simps]: "wrap w i < 2 ^ w"
proof -
  have "i mod 2 ^ w < 2 ^ w" by simp
  then show ?thesis by (simp add: wrap_def nat_less_iff)
qed

lemma int_wrap [bv_simps]: "int (wrap w i) = i mod 2 ^ w"
  by (simp add: wrap_def)

lemma wrap_id: "a < 2 ^ w \<Longrightarrow> wrap w (int a) = a"
  by (simp add: wrap_def nat_mod_distrib nat_power_eq)

lemma wrap_eq_mod: "wrap w (int a) = a mod 2 ^ w"
  by (simp add: wrap_def nat_mod_distrib nat_power_eq)

lemma wrap_eqI: "i mod 2 ^ w = j mod 2 ^ w \<Longrightarrow> wrap w i = wrap w j"
  by (simp add: wrap_def)

lemma wrap_eq_iff: "wrap w i = wrap w j \<longleftrightarrow> i mod 2 ^ w = j mod 2 ^ w"
  by (metis int_wrap wrap_eqI)

lemma bv_add_less [simp]: "bv_add w a b < 2 ^ w" by (simp add: bv_add_def)
lemma bv_sub_less [simp]: "bv_sub w a b < 2 ^ w" by (simp add: bv_sub_def)
lemma bv_mul_less [simp]: "bv_mul w a b < 2 ^ w" by (simp add: bv_mul_def)
lemma bv_sdiv_less [simp]: "bv_sdiv w a b < 2 ^ w" by (simp add: bv_sdiv_def)
lemma bv_srem_less [simp]: "bv_srem w a b < 2 ^ w" by (simp add: bv_srem_def)
lemma bv_shl_less [simp]: "bv_shl w a b < 2 ^ w" by (simp add: bv_shl_def)
lemma bv_sext_less [simp]: "bv_sext w wout a < 2 ^ wout" by (simp add: bv_sext_def)
lemma bv_not_less [simp]: "bv_not w a < 2 ^ w" by (simp add: bv_not_def less_imp_diff_less)
lemma bv_ashr_less [simp]: "bv_ashr w a b < 2 ^ w" by (simp add: bv_ashr_def)
lemma bv_extract_less [simp]: "bv_extract off w a < 2 ^ w" by (simp add: bv_extract_def)

lemma bv_lshr_less [simp]: "a < 2 ^ w \<Longrightarrow> bv_lshr w a b < 2 ^ w"
  by (simp add: bv_lshr_def le_less_trans [OF div_le_dividend])

lemma bv_concat_less [simp]: "a < 2 ^ wl \<Longrightarrow> b < 2 ^ wr \<Longrightarrow> bv_concat wr a b < 2 ^ (wl + wr)"
  unfolding bv_concat_def by (rule mult_add_less_two_power)

lemma nat_and_less [simp]: "(a::nat) < 2 ^ w \<Longrightarrow> a AND b < 2 ^ w"
  by (metis take_bit_and take_bit_nat_eq_self take_bit_nat_less_exp and_nat_def AND_upper1 le_less_trans
      nat_less_eq_zless of_nat_0_le_iff of_nat_and_eq zle_int)

lemma nat_or_less [simp]: "(a::nat) < 2 ^ w \<Longrightarrow> b < 2 ^ w \<Longrightarrow> a OR b < 2 ^ w"
  by (metis take_bit_or take_bit_nat_eq_self take_bit_nat_less_exp)

lemma nat_xor_less [simp]: "(a::nat) < 2 ^ w \<Longrightarrow> b < 2 ^ w \<Longrightarrow> a XOR b < 2 ^ w"
  by (metis take_bit_xor take_bit_nat_eq_self take_bit_nat_less_exp)

subsection \<open>Two's complement\<close>

lemma sval_bounds: "0 < w \<Longrightarrow> a < 2 ^ w \<Longrightarrow> - (2 ^ (w - 1)) \<le> sval w a \<and> sval w a < 2 ^ (w - 1)"
proof -
  assume w: "0 < w" and a: "a < 2 ^ w"
  have p: "(2::int) ^ w = 2 * 2 ^ (w - 1)" by (rule two_power_Suc_diff [OF w])
  have a': "int a < 2 ^ w" using a by (metis of_nat_less_iff of_nat_numeral of_nat_power)
  have "a < 2 ^ (w - 1) \<longleftrightarrow> int a < 2 ^ (w - 1)" by (metis of_nat_less_iff of_nat_numeral of_nat_power)
  then show ?thesis unfolding sval_def using p a' by auto
qed

lemma sval_mod: "a < 2 ^ w \<Longrightarrow> sval w a mod 2 ^ w = int a"
  by (auto simp: sval_def of_nat_less_iff [symmetric] simp del: of_nat_less_iff)

lemma wrap_sval [simp]: "a < 2 ^ w \<Longrightarrow> wrap w (sval w a) = a"
  by (simp add: wrap_def sval_mod)

lemma sval_inj: "a < 2 ^ w \<Longrightarrow> b < 2 ^ w \<Longrightarrow> sval w a = sval w b \<longleftrightarrow> a = b"
  by (metis wrap_sval)

lemma sval_0 [simp]: "sval w 0 = 0"
  by (simp add: sval_def)

lemma sval_eq_0 [simp]: "a < 2 ^ w \<Longrightarrow> sval w a = 0 \<longleftrightarrow> a = 0"
  using sval_inj [of a w 0] by simp

lemma sval_wrap:
  assumes "0 < w" "- (2 ^ (w - 1)) \<le> i" "i < 2 ^ (w - 1)"
  shows "sval w (wrap w i) = i"
proof -
  have p: "(2::int) ^ w = 2 * 2 ^ (w - 1)" by (rule two_power_Suc_diff [OF assms(1)])
  show ?thesis
  proof (cases "0 \<le> i")
    case True
    with assms p have "i mod 2 ^ w = i" by simp
    with True assms show ?thesis by (simp add: wrap_def sval_def nat_less_iff)
  next
    case False
    have "(i + 2 ^ w) mod 2 ^ w = i + 2 ^ w" using False assms p by (intro mod_pos_pos_trivial) auto
    then have m: "i mod 2 ^ w = i + 2 ^ w" by simp
    have "\<not> nat (i + 2 ^ w) < 2 ^ (w - 1)" using False assms p by (simp add: nat_less_iff)
    moreover have "(0::int) < 2 ^ (w - 1)" by simp
    then have "0 \<le> i + 2 ^ w" using assms(2) p by linarith
    ultimately show ?thesis by (simp add: wrap_def sval_def m)
  qed
qed

subsection \<open>Algebra\<close>

text \<open>
  Each law reduces to a law of the integers modulo \<open>2 ^ w\<close>; \<open>wrap_simps\<close> pushes the
  reduction outwards.
\<close>

lemma wrap_add_wrapL: "wrap w (int (wrap w i) + j) = wrap w (i + j)"
  by (simp add: wrap_eq_iff int_wrap mod_simps)

lemma wrap_add_wrapR: "wrap w (i + int (wrap w j)) = wrap w (i + j)"
  by (simp add: wrap_eq_iff int_wrap mod_simps)

lemma wrap_sub_wrapL: "wrap w (int (wrap w i) - j) = wrap w (i - j)"
  by (simp add: wrap_eq_iff int_wrap mod_simps)

lemma wrap_sub_wrapR: "wrap w (i - int (wrap w j)) = wrap w (i - j)"
  by (simp add: wrap_eq_iff int_wrap mod_simps)

lemmas wrap_simps = wrap_add_wrapL wrap_add_wrapR wrap_sub_wrapL wrap_sub_wrapR

lemma bv_add_commute: "bv_add w a b = bv_add w b a"
  by (simp add: bv_add_def add.commute)

lemma bv_add_assoc: "bv_add w (bv_add w a b) c = bv_add w a (bv_add w b c)"
  by (simp add: bv_add_def wrap_simps add.assoc)

lemma bv_add_left_commute: "bv_add w a (bv_add w b c) = bv_add w b (bv_add w a c)"
  by (metis bv_add_assoc bv_add_commute)

lemma bv_add_0 [simp]: "a < 2 ^ w \<Longrightarrow> bv_add w 0 a = a"
  by (simp add: bv_add_def wrap_id)

lemma bv_sub_self [simp]: "bv_sub w a a = 0"
  by (simp add: bv_sub_def wrap_def)

lemma bv_sub_as_add: "bv_sub w a b = bv_add w (bv_sub w 0 b) a"
  by (simp add: bv_add_def bv_sub_def wrap_simps)

text \<open>The four shapes in which constants migrate through sums and differences.\<close>

lemma bv_add_sub_assoc: "bv_add w a (bv_sub w b c) = bv_sub w (bv_add w a b) c"
  by (simp add: bv_add_def bv_sub_def wrap_simps algebra_simps)

lemma bv_sub_add_assoc: "bv_sub w a (bv_add w b c) = bv_sub w (bv_sub w a b) c"
  by (simp add: bv_add_def bv_sub_def wrap_simps algebra_simps)

lemma bv_sub_sub_assoc: "bv_sub w a (bv_sub w b c) = bv_add w (bv_sub w a b) c"
  by (simp add: bv_add_def bv_sub_def wrap_simps algebra_simps)

lemma bv_add_sub_commute: "bv_add w k (bv_sub w a b) = bv_sub w (bv_add w k a) b"
  by (rule bv_add_sub_assoc)

lemma bv_mul_1 [simp]: "a < 2 ^ w \<Longrightarrow> bv_mul w 1 a = a"
  by (simp add: bv_mul_def wrap_id)

lemma bv_mul_0 [simp]: "bv_mul w 0 a = 0"
  by (simp add: bv_mul_def wrap_def)

lemma bv_mul_commute: "bv_mul w a b = bv_mul w b a"
  by (simp add: bv_mul_def mult.commute)

lemma bv_add_eq_iff:
  assumes "a < 2 ^ w" "b < 2 ^ w" "c < 2 ^ w"
  shows "c = bv_add w a b \<longleftrightarrow> bv_sub w c a = b"
proof
  assume "c = bv_add w a b"
  then show "bv_sub w c a = b" using assms by (simp add: bv_add_def bv_sub_def wrap_simps wrap_id)
next
  assume "bv_sub w c a = b"
  then show "c = bv_add w a b" using assms by (auto simp: bv_add_def bv_sub_def wrap_simps wrap_id)
qed

lemma bv_sub_eq_iff:
  assumes "a < 2 ^ w" "b < 2 ^ w" "c < 2 ^ w"
  shows "c = bv_sub w a b \<longleftrightarrow> bv_sub w a c = b"
proof
  assume "c = bv_sub w a b"
  then show "bv_sub w a c = b" using assms by (simp add: bv_add_def bv_sub_def wrap_simps wrap_id)
next
  assume "bv_sub w a c = b"
  then show "c = bv_sub w a b" using assms by (auto simp: bv_add_def bv_sub_def wrap_simps wrap_id)
qed

lemma nat_and_allones: "a < 2 ^ w \<Longrightarrow> a AND (2 ^ w - 1) = (a::nat)"
  by (metis mask_eq_exp_minus_1 take_bit_eq_mask take_bit_nat_eq_self)

lemma nat_or_allones: "a < 2 ^ w \<Longrightarrow> a OR (2 ^ w - 1) = (2 ^ w - 1 :: nat)"
proof -
  assume a: "a < 2 ^ w"
  have "bit a n \<Longrightarrow> n < w" for n
    using a by (metis bit_take_bit_iff take_bit_nat_eq_self)
  then have "a OR mask w = mask w"
    by (intro bit_eqI) (auto simp: bit_or_iff bit_mask_iff)
  then show ?thesis by (simp add: mask_eq_exp_minus_1)
qed

end
