(* ===== verification/Expr.thy ===== *)
theory Expr
  imports BitVec
begin

text \<open>
  Symbolic expressions: \<^verbatim>\<open>include/klee/Expr/Expr.h\<close> and \<^verbatim>\<open>lib/Expr/Expr.cpp\<close>.

  The class hierarchy below \<open>Expr\<close> is the datatype \<open>expr\<close>; its binary classes share one
  constructor that carries the \<open>Kind\<close>, as the C++ classes share \<open>BinaryExpr\<close>. An
  \<open>UpdateList\<close> is a root \<open>array\<close> and a chain of \<open>UpdateNode\<close>s, most recent first. A
  \<open>ref<Expr>\<close> is a value of the datatype, and \<open>==\<close> on references is equality of the trees.

  The theory gives the width of an expression, the typing discipline that the assertions
  of the sources enforce (\<open>wf_expr\<close>), and the meaning of an expression under an assignment of
  bytes to the symbolic arrays (\<open>eval\<close>). The meaning is partial: a division by zero has no
  value. \<open>refines e e0\<close> says that \<open>e\<close> can stand wherever \<open>e0\<close> was meant.
\<close>

unbundle bit_operations_syntax

section \<open>Data\<close>

datatype binkind = Add | Sub | Mul | UDiv | SDiv | URem | SRem
  | And | Or | Xor | Shl | LShr | AShr
  | Eq | Ne | Ult | Ule | Ugt | Uge | Slt | Sle | Sgt | Sge

datatype castkind = ZExt | SExt

record array =
  arr_addr :: nat
  arr_name :: string
  arr_size :: nat
  arr_domain :: nat
  arr_range :: nat
  arr_constantValues :: "nat list"

datatype expr =
    ConstantExpr (cw: nat) (cv: nat)
  | NotOptimizedExpr expr
  | ReadExpr array updates expr
  | SelectExpr expr expr expr
  | ConcatExpr expr expr
  | ExtractExpr expr nat nat
  | CastExpr castkind expr nat
  | NotExpr expr
  | BinaryExpr binkind expr expr
and updates =
    NoUpdate
  | UpdateNode expr expr updates

abbreviation (input) "Bool \<equiv> (1::nat)"
abbreviation (input) "Int8 \<equiv> (8::nat)"
abbreviation (input) "Int16 \<equiv> (16::nat)"
abbreviation (input) "Int32 \<equiv> (32::nat)"
abbreviation (input) "Int64 \<equiv> (64::nat)"
abbreviation (input) "Fl80 \<equiv> (80::nat)"

fun isCmp :: "binkind \<Rightarrow> bool" where
  "isCmp k = (k \<in> {Eq, Ne, Ult, Ule, Ugt, Uge, Slt, Sle, Sgt, Sge})"

definition isSymbolicArray :: "array \<Rightarrow> bool" where
  "isSymbolicArray a \<longleftrightarrow> arr_constantValues a = []"

definition isConstantArray :: "array \<Rightarrow> bool" where
  "isConstantArray a \<longleftrightarrow> \<not> isSymbolicArray a"

text \<open>\<open>getWidth\<close> of every class.\<close>

fun getWidth :: "expr \<Rightarrow> nat" where
  "getWidth (ConstantExpr w v) = w"
| "getWidth (NotOptimizedExpr e) = getWidth e"
| "getWidth (ReadExpr a us i) = arr_range a"
| "getWidth (SelectExpr c t f) = getWidth t"
| "getWidth (ConcatExpr l r) = getWidth l + getWidth r"
| "getWidth (ExtractExpr e off w) = w"
| "getWidth (CastExpr k e w) = w"
| "getWidth (NotExpr e) = getWidth e"
| "getWidth (BinaryExpr k l r) = (if isCmp k then Bool else getWidth l)"

fun isConstantExpr :: "expr \<Rightarrow> bool" where
  "isConstantExpr (ConstantExpr w v) = True"
| "isConstantExpr _ = False"

fun getNumKids :: "expr \<Rightarrow> nat" where
  "getNumKids (ConstantExpr w v) = 0"
| "getNumKids (SelectExpr c t f) = 3"
| "getNumKids (ConcatExpr l r) = 2"
| "getNumKids (BinaryExpr k l r) = 2"
| "getNumKids _ = 1"

fun getKids :: "expr \<Rightarrow> expr list" where
  "getKids (ConstantExpr w v) = []"
| "getKids (NotOptimizedExpr e) = [e]"
| "getKids (ReadExpr a us i) = [i]"
| "getKids (SelectExpr c t f) = [c, t, f]"
| "getKids (ConcatExpr l r) = [l, r]"
| "getKids (ExtractExpr e off w) = [e]"
| "getKids (CastExpr k e w) = [e]"
| "getKids (NotExpr e) = [e]"
| "getKids (BinaryExpr k l r) = [l, r]"

lemma length_getKids: "length (getKids e) = getNumKids e"
  by (cases e) auto

text \<open>\<open>UpdateList::getSize\<close>, the length of the chain.\<close>

fun getSize :: "updates \<Rightarrow> nat" where
  "getSize NoUpdate = 0"
| "getSize (UpdateNode i v next) = getSize next + 1"

section \<open>Typing discipline\<close>

definition wf_array :: "array \<Rightarrow> bool" where
  "wf_array a \<longleftrightarrow> 0 < arr_range a \<and> 0 < arr_domain a \<and> arr_domain a \<le> 32
     \<and> (arr_constantValues a = [] \<or> length (arr_constantValues a) = arr_size a)
     \<and> (\<forall>v \<in> set (arr_constantValues a). v < 2 ^ arr_range a)"

fun wf_expr :: "expr \<Rightarrow> bool" and wf_updates :: "array \<Rightarrow> updates \<Rightarrow> bool" where
  "wf_expr (ConstantExpr w v) \<longleftrightarrow> 0 < w \<and> v < 2 ^ w"
| "wf_expr (NotOptimizedExpr e) \<longleftrightarrow> wf_expr e"
| "wf_expr (ReadExpr a us i) \<longleftrightarrow>
     wf_array a \<and> wf_updates a us \<and> wf_expr i \<and> getWidth i = arr_domain a"
| "wf_expr (SelectExpr c t f) \<longleftrightarrow>
     wf_expr c \<and> wf_expr t \<and> wf_expr f \<and> getWidth c = Bool \<and> getWidth t = getWidth f"
| "wf_expr (ConcatExpr l r) \<longleftrightarrow> wf_expr l \<and> wf_expr r"
| "wf_expr (ExtractExpr e off w) \<longleftrightarrow> wf_expr e \<and> 0 < w \<and> off + w \<le> getWidth e"
| "wf_expr (CastExpr k e w) \<longleftrightarrow> wf_expr e \<and> getWidth e < w"
| "wf_expr (NotExpr e) \<longleftrightarrow> wf_expr e"
| "wf_expr (BinaryExpr k l r) \<longleftrightarrow> wf_expr l \<and> wf_expr r \<and> getWidth l = getWidth r"
| "wf_updates a NoUpdate \<longleftrightarrow> True"
| "wf_updates a (UpdateNode i v next) \<longleftrightarrow>
     wf_expr i \<and> getWidth i = arr_domain a \<and> wf_expr v \<and> getWidth v = arr_range a
     \<and> wf_updates a next"

lemma wf_getWidth_pos: "wf_expr e \<Longrightarrow> 0 < getWidth e"
  by (induction e rule: getWidth.induct) (auto simp: wf_array_def)

section \<open>Meaning\<close>

type_synonym assignment = "array \<Rightarrow> nat \<Rightarrow> nat"

definition wf_asg :: "assignment \<Rightarrow> bool" where
  "wf_asg \<sigma> \<longleftrightarrow> (\<forall>a i. \<sigma> a i < 2 ^ arr_range a)"

text \<open>The byte an array holds initially: a constant array knows its own contents.\<close>

definition arr_init :: "assignment \<Rightarrow> array \<Rightarrow> nat \<Rightarrow> nat" where
  "arr_init \<sigma> a i = (if isConstantArray a \<and> i < arr_size a
                     then arr_constantValues a ! i else \<sigma> a i)"

text \<open>The value of a binary operation on operands of width \<open>w\<close>.\<close>

fun bin_value :: "binkind \<Rightarrow> nat \<Rightarrow> nat \<Rightarrow> nat \<Rightarrow> nat option" where
  "bin_value Add w a b = Some (bv_add w a b)"
| "bin_value Sub w a b = Some (bv_sub w a b)"
| "bin_value Mul w a b = Some (bv_mul w a b)"
| "bin_value UDiv w a b = (if b = 0 then None else Some (a div b))"
| "bin_value SDiv w a b = (if b = 0 then None else Some (bv_sdiv w a b))"
| "bin_value URem w a b = (if b = 0 then None else Some (a mod b))"
| "bin_value SRem w a b = (if b = 0 then None else Some (bv_srem w a b))"
| "bin_value And w a b = Some (a AND b)"
| "bin_value Or w a b = Some (a OR b)"
| "bin_value Xor w a b = Some (a XOR b)"
| "bin_value Shl w a b = Some (bv_shl w a b)"
| "bin_value LShr w a b = Some (bv_lshr w a b)"
| "bin_value AShr w a b = Some (bv_ashr w a b)"
| "bin_value Eq w a b = Some (of_bool (a = b))"
| "bin_value Ne w a b = Some (of_bool (a \<noteq> b))"
| "bin_value Ult w a b = Some (of_bool (a < b))"
| "bin_value Ule w a b = Some (of_bool (a \<le> b))"
| "bin_value Ugt w a b = Some (of_bool (b < a))"
| "bin_value Uge w a b = Some (of_bool (b \<le> a))"
| "bin_value Slt w a b = Some (of_bool (sval w a < sval w b))"
| "bin_value Sle w a b = Some (of_bool (sval w a \<le> sval w b))"
| "bin_value Sgt w a b = Some (of_bool (sval w b < sval w a))"
| "bin_value Sge w a b = Some (of_bool (sval w b \<le> sval w a))"

text \<open>
  An operand of a conjunction or disjunction can settle the result alone, and the smart
  constructors rely on it (\<open>AndExpr::createPartial\<close>, the boolean cases of \<open>SelectExpr::create\<close>), so
  an operand without a value does no harm there.
\<close>

fun absorb :: "binkind \<Rightarrow> nat \<Rightarrow> nat \<Rightarrow> nat option" where
  "absorb And w a = (if a = 0 then Some 0 else None)"
| "absorb Or w a = (if a = 2 ^ w - 1 then Some a else None)"
| "absorb _ w a = None"

fun bin_eval :: "binkind \<Rightarrow> nat \<Rightarrow> nat option \<Rightarrow> nat option \<Rightarrow> nat option" where
  "bin_eval k w (Some a) (Some b) = bin_value k w a b"
| "bin_eval k w (Some a) None = absorb k w a"
| "bin_eval k w None (Some b) = absorb k w b"
| "bin_eval k w None None = None"

fun cast_value :: "castkind \<Rightarrow> nat \<Rightarrow> nat \<Rightarrow> nat \<Rightarrow> nat" where
  "cast_value ZExt w wout a = a"
| "cast_value SExt w wout a = bv_sext w wout a"

fun eval :: "assignment \<Rightarrow> expr \<Rightarrow> nat option"
and read_updates :: "assignment \<Rightarrow> array \<Rightarrow> updates \<Rightarrow> nat \<Rightarrow> nat option" where
  "eval \<sigma> (ConstantExpr w v) = Some v"
| "eval \<sigma> (NotOptimizedExpr e) = eval \<sigma> e"
| "eval \<sigma> (ReadExpr a us i) = eval \<sigma> i \<bind> read_updates \<sigma> a us"
| "eval \<sigma> (SelectExpr c t f) = eval \<sigma> c \<bind> (\<lambda>b. if b = 1 then eval \<sigma> t else eval \<sigma> f)"
| "eval \<sigma> (ConcatExpr l r) =
     eval \<sigma> l \<bind> (\<lambda>a. eval \<sigma> r \<bind> (\<lambda>b. Some (bv_concat (getWidth r) a b)))"
| "eval \<sigma> (ExtractExpr e off w) = eval \<sigma> e \<bind> (\<lambda>a. Some (bv_extract off w a))"
| "eval \<sigma> (CastExpr k e w) = eval \<sigma> e \<bind> (\<lambda>a. Some (cast_value k (getWidth e) w a))"
| "eval \<sigma> (NotExpr e) = eval \<sigma> e \<bind> (\<lambda>a. Some (bv_not (getWidth e) a))"
| "eval \<sigma> (BinaryExpr k l r) = bin_eval k (getWidth l) (eval \<sigma> l) (eval \<sigma> r)"
| "read_updates \<sigma> a NoUpdate j = Some (arr_init \<sigma> a j)"
| "read_updates \<sigma> a (UpdateNode i v next) j =
     eval \<sigma> i \<bind> (\<lambda>k. if k = j then eval \<sigma> v else read_updates \<sigma> a next j)"

subsection \<open>Values fit their width\<close>

lemma arr_init_less: "wf_array a \<Longrightarrow> wf_asg \<sigma> \<Longrightarrow> arr_init \<sigma> a j < 2 ^ arr_range a"
  by (auto simp: arr_init_def wf_array_def wf_asg_def isConstantArray_def isSymbolicArray_def)

lemma bin_value_less:
  assumes "bin_value k w a b = Some v" "a < 2 ^ w" "b < 2 ^ w" "0 < w"
  shows "v < 2 ^ (if isCmp k then 1 else w)"
  using assms
  by (cases k) (auto simp: less_le_trans le_less_trans [OF div_le_dividend]
      le_less_trans [OF mod_less_eq_dividend] split: if_splits)

lemma absorb_SomeD:
  "absorb k w a = Some v \<Longrightarrow> v = a \<and> (k = And \<and> a = 0 \<or> k = Or \<and> a = 2 ^ w - 1)"
  by (cases k) (auto split: if_splits)

lemma absorb_None: "k \<noteq> And \<Longrightarrow> k \<noteq> Or \<Longrightarrow> absorb k w a = None"
  by (cases k) auto

lemma bin_eval_strict:
  "k \<noteq> And \<and> k \<noteq> Or \<Longrightarrow> bin_eval k w p q = p \<bind> (\<lambda>a. q \<bind> (\<lambda>b. bin_value k w a b))"
  by (cases "(k, w, p, q)" rule: bin_eval.cases) (auto simp: absorb_None)

text \<open>An absorbing operand determines the result whatever the other operand is.\<close>

lemma absorb_bin_value:
  assumes "absorb k w a = Some v" "b < 2 ^ w"
  shows "bin_value k w a b = Some v" "bin_value k w b a = Some v"
  using assms by (auto dest!: absorb_SomeD simp: nat_or_allones [unfolded One_nat_def] or.commute [of "2 ^ w - Suc 0"])

lemma bin_eval_cases:
  assumes "bin_eval k w p q = Some v"
  obtains (both) a b where "p = Some a" "q = Some b" "bin_value k w a b = Some v"
  | (left) "p = Some v" "q = None" "absorb k w v = Some v"
  | (right) "p = None" "q = Some v" "absorb k w v = Some v"
  using assms by (cases "(k, w, p, q)" rule: bin_eval.cases) (auto dest: absorb_SomeD)

lemma bin_eval_mono:
  assumes "bin_eval k w p q = Some v" "\<And>a. p = Some a \<Longrightarrow> p' = Some a" "\<And>b. q = Some b \<Longrightarrow> q' = Some b"
    and "\<And>a. p' = Some a \<Longrightarrow> a < 2 ^ w" "\<And>b. q' = Some b \<Longrightarrow> b < 2 ^ w"
  shows "bin_eval k w p' q' = Some v"
  using assms(1)
proof (cases rule: bin_eval_cases)
  case left
  with assms show ?thesis by (cases q') (auto simp: absorb_bin_value)
next
  case right
  with assms show ?thesis by (cases p') (auto simp: absorb_bin_value)
qed (use assms in auto)

lemma bin_eval_less:
  assumes "bin_eval k w p q = Some v" "\<And>a. p = Some a \<Longrightarrow> a < 2 ^ w" "\<And>b. q = Some b \<Longrightarrow> b < 2 ^ w" "0 < w"
  shows "v < 2 ^ (if isCmp k then 1 else w)"
  using assms(1)
proof (cases rule: bin_eval_cases)
  case (both a b)
  with assms bin_value_less [of k w a b v] show ?thesis by simp
qed (use assms in \<open>auto dest!: absorb_SomeD\<close>)

lemma cast_value_less: "a < 2 ^ w \<Longrightarrow> w < wout \<Longrightarrow> cast_value k w wout a < 2 ^ wout"
  by (cases k) (auto intro: less_le_trans power_increasing)

lemma eval_less:
  "wf_expr e \<Longrightarrow> wf_asg \<sigma> \<Longrightarrow> eval \<sigma> e = Some v \<Longrightarrow> v < 2 ^ getWidth e"
  "wf_updates a us \<Longrightarrow> wf_array a \<Longrightarrow> wf_asg \<sigma> \<Longrightarrow> read_updates \<sigma> a us j = Some v \<Longrightarrow>
     v < 2 ^ arr_range a"
proof (induction \<sigma> e and \<sigma> a us j arbitrary: v and v rule: eval_read_updates.induct)
  case (9 \<sigma> k l r)
  have "v < 2 ^ (if isCmp k then 1 else getWidth l)"
    by (rule bin_eval_less [of k _ "eval \<sigma> l" "eval \<sigma> r"]) (use 9 in \<open>simp_all add: wf_getWidth_pos\<close>)
  then show ?case by simp
qed (auto simp: bind_eq_Some_conv arr_init_less cast_value_less split: if_splits)

section \<open>An example array\<close>

text \<open>A symbolic array of four bytes, for concrete instances of the theorems.\<close>

definition ex_array :: array where
  "ex_array = \<lparr> arr_addr = 1, arr_name = ''A'', arr_size = 4, arr_domain = 32, arr_range = 8,
     arr_constantValues = [] \<rparr>"

definition ex_read :: "nat \<Rightarrow> expr" where
  "ex_read i = ReadExpr ex_array NoUpdate (ConstantExpr 32 i)"

lemma ex_array_simps [simp]:
  "arr_size ex_array = 4" "arr_domain ex_array = 32" "arr_range ex_array = 8" "arr_constantValues ex_array = []"
  "wf_array ex_array" "\<not> isConstantArray ex_array"
  by (simp_all add: ex_array_def wf_array_def isConstantArray_def isSymbolicArray_def)

lemma ex_read_simps [simp]:
  "getWidth (ex_read i) = 8" "wf_expr (ex_read i) \<longleftrightarrow> i < 2 ^ 32" "\<not> isConstantExpr (ex_read i)"
  "eval \<sigma> (ex_read i) = Some (\<sigma> ex_array i)"
  by (auto simp: ex_read_def arr_init_def)

section \<open>Type soundness\<close>



end
