(* ===== verification/ExprRefine.thy ===== *)
theory ExprRefine
  imports Expr
begin

text \<open>
  Refinement of expressions. \<open>refines e e0\<close>: \<open>e\<close> is well typed, has the width of \<open>e0\<close>, and has
  the value of \<open>e0\<close> under every assignment for which \<open>e0\<close> has one. \<open>simplifies m e0\<close> is the
  contract of the smart constructors: no assertion fails and the result refines \<open>e0\<close>.
\<close>

definition refines :: "expr \<Rightarrow> expr \<Rightarrow> bool" where
  "refines e e0 \<longleftrightarrow> wf_expr e \<and> getWidth e = getWidth e0
     \<and> (\<forall>\<sigma> v. wf_asg \<sigma> \<longrightarrow> eval \<sigma> e0 = Some v \<longrightarrow> eval \<sigma> e = Some v)"

definition simplifies :: "expr option \<Rightarrow> expr \<Rightarrow> bool" where
  "simplifies m e0 \<longleftrightarrow> succeeds m (\<lambda>e. refines e e0)"

lemma refinesI [intro?]:
  assumes "wf_expr e" "getWidth e = getWidth e0"
    and "\<And>\<sigma> v. wf_asg \<sigma> \<Longrightarrow> eval \<sigma> e0 = Some v \<Longrightarrow> eval \<sigma> e = Some v"
  shows "refines e e0"
  using assms by (simp add: refines_def)

lemma refines_wf: "refines e e0 \<Longrightarrow> wf_expr e"
  by (simp add: refines_def)

lemma refines_width: "refines e e0 \<Longrightarrow> getWidth e = getWidth e0"
  by (simp add: refines_def)

lemma refines_eval: "refines e e0 \<Longrightarrow> wf_asg \<sigma> \<Longrightarrow> eval \<sigma> e0 = Some v \<Longrightarrow> eval \<sigma> e = Some v"
  by (simp add: refines_def)

lemma refines_refl [simp, intro]: "wf_expr e \<Longrightarrow> refines e e"
  by (simp add: refines_def)

lemma refines_trans [trans]: "refines e e1 \<Longrightarrow> refines e1 e2 \<Longrightarrow> refines e e2"
  by (simp add: refines_def)

lemma simplifies_Some [simp]: "simplifies (Some e) e0 \<longleftrightarrow> refines e e0"
  by (simp add: simplifies_def)

lemma simplifies_bind [intro]:
  assumes "simplifies m e1" and "\<And>e. refines e e1 \<Longrightarrow> simplifies (f e) e0"
  shows "simplifies (m \<bind> f) e0"
  using assms unfolding simplifies_def by (blast intro: succeeds_bind)

lemma simplifies_trans: "simplifies m e1 \<Longrightarrow> refines e1 e0 \<Longrightarrow> simplifies m e0"
  unfolding simplifies_def by (auto elim!: succeeds_mono intro: refines_trans)

lemma simplifies_if [intro]:
  "(b \<Longrightarrow> simplifies m e) \<Longrightarrow> (\<not> b \<Longrightarrow> simplifies n e) \<Longrightarrow> simplifies (if b then m else n) e"
  by simp

lemma simplifiesE:
  assumes "simplifies m e0"
  obtains e where "m = Some e" "refines e e0"
  using assms by (auto simp: simplifies_def succeeds_def)

section \<open>Refinement is a congruence\<close>

lemma refines_NotOptimized: "refines e e0 \<Longrightarrow> refines (NotOptimizedExpr e) (NotOptimizedExpr e0)"
  by (simp add: refines_def)

lemma refines_Read:
  "refines i i0 \<Longrightarrow> wf_array a \<Longrightarrow> wf_updates a us \<Longrightarrow> getWidth i0 = arr_domain a \<Longrightarrow>
   refines (ReadExpr a us i) (ReadExpr a us i0)"
  by (auto simp: refines_def bind_eq_Some_conv)

lemma refines_Select:
  "refines c c0 \<Longrightarrow> refines t t0 \<Longrightarrow> refines f f0 \<Longrightarrow> getWidth c0 = Bool \<Longrightarrow>
   getWidth t0 = getWidth f0 \<Longrightarrow> refines (SelectExpr c t f) (SelectExpr c0 t0 f0)"
  unfolding refines_def by (fastforce simp: bind_eq_Some_conv split: if_splits)

lemma refines_Concat:
  "refines l l0 \<Longrightarrow> refines r r0 \<Longrightarrow> refines (ConcatExpr l r) (ConcatExpr l0 r0)"
  unfolding refines_def by (fastforce simp: bind_eq_Some_conv)

lemma refines_Extract:
  "refines e e0 \<Longrightarrow> 0 < w \<Longrightarrow> off + w \<le> getWidth e0 \<Longrightarrow>
   refines (ExtractExpr e off w) (ExtractExpr e0 off w)"
  unfolding refines_def by (fastforce simp: bind_eq_Some_conv)

lemma refines_Cast:
  "refines e e0 \<Longrightarrow> getWidth e0 < w \<Longrightarrow> refines (CastExpr k e w) (CastExpr k e0 w)"
  unfolding refines_def by (fastforce simp: bind_eq_Some_conv)

lemma refines_Not: "refines e e0 \<Longrightarrow> refines (NotExpr e) (NotExpr e0)"
  unfolding refines_def by (fastforce simp: bind_eq_Some_conv)

lemma refines_Binary:
  assumes l: "refines l l0" and r: "refines r r0" and w: "getWidth l0 = getWidth r0"
  shows "refines (BinaryExpr k l r) (BinaryExpr k l0 r0)"
proof (rule refinesI)
  fix \<sigma> v assume \<sigma>: "wf_asg \<sigma>" and v: "eval \<sigma> (BinaryExpr k l0 r0) = Some v"
  have "bin_eval k (getWidth l) (eval \<sigma> l) (eval \<sigma> r) = Some v"
  proof (rule bin_eval_mono)
    show "bin_eval k (getWidth l) (eval \<sigma> l0) (eval \<sigma> r0) = Some v" using v refines_width [OF l] by simp
    show "eval \<sigma> l = Some a" if "eval \<sigma> l0 = Some a" for a using refines_eval [OF l \<sigma> that] .
    show "eval \<sigma> r = Some a" if "eval \<sigma> r0 = Some a" for a using refines_eval [OF r \<sigma> that] .
    show "a < 2 ^ getWidth l" if "eval \<sigma> l = Some a" for a using eval_less(1) [OF refines_wf [OF l] \<sigma> that] .
    show "a < 2 ^ getWidth l" if "eval \<sigma> r = Some a" for a
      using eval_less(1) [OF refines_wf [OF r] \<sigma> that] w refines_width [OF l] refines_width [OF r] by simp
  qed
  then show "eval \<sigma> (BinaryExpr k l r) = Some v" by simp
qed (use assms in \<open>simp_all add: refines_def\<close>)

lemmas refines_cong = refines_NotOptimized refines_Read refines_Select refines_Concat
  refines_Extract refines_Cast refines_Not refines_Binary

text \<open>
  To compare two binary trees over the same leaves it is enough to compare values that fit
  the width.
\<close>

lemma refines_valueI:
  assumes "wf_expr e" "getWidth e = getWidth e0"
    and "\<And>\<sigma> v. wf_asg \<sigma> \<Longrightarrow> eval \<sigma> e0 = Some v \<Longrightarrow>
      (\<And>x u. wf_expr x \<Longrightarrow> eval \<sigma> x = Some u \<Longrightarrow> u < 2 ^ getWidth x) \<Longrightarrow> eval \<sigma> e = Some v"
  shows "refines e e0"
  using assms eval_less(1) by (auto simp: refines_def)

end
