(* ===== verification/ExprCreate.thy ===== *)
theory ExprCreate
  imports ExprRefine
begin

text \<open>
  The smart constructors of \<^verbatim>\<open>lib/Expr/Expr.cpp\<close>: constant folding, the canonical form of sums
  and differences, boolean rewriting, extraction from concatenations, and reads through an
  update list. Every expression of the program is built by them. An assertion of the
  source (\<open>type mismatch\<close>, \<open>invalid extract\<close>, a zero divisor) is the result \<open>None\<close>.

  The C++ functions call each other freely; the model keeps their bodies and orders them by
  what they recurse on. A call whose left (right) operand is a known constant is the
  restriction of the constructor to that case, written \<open>_cl\<close> (\<open>_cr\<close>), and a lemma shows that it
  agrees with the full constructor.
\<close>

unbundle bit_operations_syntax

section \<open>Operations on constants\<close>

definition ConstantExpr_isZero :: "nat \<Rightarrow> nat \<Rightarrow> bool" where
  "ConstantExpr_isZero w v \<longleftrightarrow> v = 0"

definition ConstantExpr_isOne :: "nat \<Rightarrow> nat \<Rightarrow> bool" where
  "ConstantExpr_isOne w v \<longleftrightarrow> v = 1"

definition ConstantExpr_isTrue :: "nat \<Rightarrow> nat \<Rightarrow> bool" where
  "ConstantExpr_isTrue w v \<longleftrightarrow> w = Bool \<and> v \<noteq> 0"

definition ConstantExpr_isFalse :: "nat \<Rightarrow> nat \<Rightarrow> bool" where
  "ConstantExpr_isFalse w v \<longleftrightarrow> w = Bool \<and> v = 0"

definition ConstantExpr_isAllOnes :: "nat \<Rightarrow> nat \<Rightarrow> bool" where
  "ConstantExpr_isAllOnes w v \<longleftrightarrow> v = 2 ^ w - 1"

lemmas ConstantExpr_tests = ConstantExpr_isZero_def ConstantExpr_isOne_def
  ConstantExpr_isTrue_def ConstantExpr_isFalse_def ConstantExpr_isAllOnes_def

text \<open>\<open>Expr::isZero\<close>, \<open>isTrue\<close>, \<open>isFalse\<close>: the latter two assert a boolean.\<close>

fun Expr_isZero :: "expr \<Rightarrow> bool" where
  "Expr_isZero (ConstantExpr w v) = ConstantExpr_isZero w v"
| "Expr_isZero _ = False"

fun Expr_isTrue :: "expr \<Rightarrow> bool option" where
  "Expr_isTrue e = (if getWidth e \<noteq> Bool then None
     else case e of ConstantExpr w v \<Rightarrow> Some (ConstantExpr_isTrue w v) | _ \<Rightarrow> Some False)"

fun Expr_isFalse :: "expr \<Rightarrow> bool option" where
  "Expr_isFalse e = (if getWidth e \<noteq> Bool then None
     else case e of ConstantExpr w v \<Rightarrow> Some (ConstantExpr_isFalse w v) | _ \<Rightarrow> Some False)"

definition ConstantExpr_Concat :: "nat \<Rightarrow> nat \<Rightarrow> nat \<Rightarrow> nat \<Rightarrow> expr" where
  "ConstantExpr_Concat wl a wr b =
     ConstantExpr (wl + wr) (push_bit wr a mod 2 ^ (wl + wr) OR b)"

definition ConstantExpr_Extract :: "nat \<Rightarrow> nat \<Rightarrow> nat \<Rightarrow> nat \<Rightarrow> expr" where
  "ConstantExpr_Extract w a off wout = ConstantExpr wout (bv_ashr w a off mod 2 ^ wout)"

definition ConstantExpr_ZExt :: "nat \<Rightarrow> nat \<Rightarrow> nat \<Rightarrow> expr" where
  "ConstantExpr_ZExt w a wout = ConstantExpr wout (a mod 2 ^ wout)"

definition ConstantExpr_SExt :: "nat \<Rightarrow> nat \<Rightarrow> nat \<Rightarrow> expr" where
  "ConstantExpr_SExt w a wout = ConstantExpr wout (bv_sext w wout a)"

definition ConstantExpr_Not :: "nat \<Rightarrow> nat \<Rightarrow> expr" where
  "ConstantExpr_Not w a = ConstantExpr w (bv_not w a)"

definition ConstantExpr_Neg :: "nat \<Rightarrow> nat \<Rightarrow> expr" where
  "ConstantExpr_Neg w a = ConstantExpr w (wrap w (- int a))"

text \<open>The binary operations; division and remainder assert a divisor other than zero.\<close>

fun ConstantExpr_op :: "binkind \<Rightarrow> nat \<Rightarrow> nat \<Rightarrow> nat \<Rightarrow> expr option" where
  "ConstantExpr_op Add w a b = Some (ConstantExpr w (bv_add w a b))"
| "ConstantExpr_op Sub w a b = Some (ConstantExpr w (bv_sub w a b))"
| "ConstantExpr_op Mul w a b = Some (ConstantExpr w (bv_mul w a b))"
| "ConstantExpr_op UDiv w a b = (if b = 0 then None else Some (ConstantExpr w (a div b)))"
| "ConstantExpr_op SDiv w a b = (if b = 0 then None else Some (ConstantExpr w (bv_sdiv w a b)))"
| "ConstantExpr_op URem w a b = (if b = 0 then None else Some (ConstantExpr w (a mod b)))"
| "ConstantExpr_op SRem w a b = (if b = 0 then None else Some (ConstantExpr w (bv_srem w a b)))"
| "ConstantExpr_op And w a b = Some (ConstantExpr w (a AND b))"
| "ConstantExpr_op Or w a b = Some (ConstantExpr w (a OR b))"
| "ConstantExpr_op Xor w a b = Some (ConstantExpr w (a XOR b))"
| "ConstantExpr_op Shl w a b = Some (ConstantExpr w (bv_shl w a b))"
| "ConstantExpr_op LShr w a b = Some (ConstantExpr w (bv_lshr w a b))"
| "ConstantExpr_op AShr w a b = Some (ConstantExpr w (bv_ashr w a b))"
| "ConstantExpr_op Eq w a b = Some (ConstantExpr Bool (of_bool (a = b)))"
| "ConstantExpr_op Ne w a b = Some (ConstantExpr Bool (of_bool (a \<noteq> b)))"
| "ConstantExpr_op Ult w a b = Some (ConstantExpr Bool (of_bool (a < b)))"
| "ConstantExpr_op Ule w a b = Some (ConstantExpr Bool (of_bool (a \<le> b)))"
| "ConstantExpr_op Ugt w a b = Some (ConstantExpr Bool (of_bool (a > b)))"
| "ConstantExpr_op Uge w a b = Some (ConstantExpr Bool (of_bool (a \<ge> b)))"
| "ConstantExpr_op Slt w a b = Some (ConstantExpr Bool (of_bool (sval w a < sval w b)))"
| "ConstantExpr_op Sle w a b = Some (ConstantExpr Bool (of_bool (sval w a \<le> sval w b)))"
| "ConstantExpr_op Sgt w a b = Some (ConstantExpr Bool (of_bool (sval w a > sval w b)))"
| "ConstantExpr_op Sge w a b = Some (ConstantExpr Bool (of_bool (sval w a \<ge> sval w b)))"

section \<open>The macros that dispatch on constant operands\<close>

text \<open>
  \<open>dyn_cast<ConstantExpr>(e)\<close>, and the test \<open>e->getKind() == k && isa<ConstantExpr>(e->getKid(0))\<close>
  that recognises a binary expression with a constant on the left.
\<close>

fun dyn_cast_ConstantExpr :: "expr \<Rightarrow> (nat \<times> nat) option" where
  "dyn_cast_ConstantExpr (ConstantExpr w c) = Some (w, c)"
| "dyn_cast_ConstantExpr _ = None"

definition constant_on_left :: "binkind \<Rightarrow> expr \<Rightarrow> (nat \<times> nat \<times> expr) option" where
  "constant_on_left k e = (case e of
     BinaryExpr k' l r \<Rightarrow>
       if k' = k then map_option (\<lambda>(w, c). (w, c, r)) (dyn_cast_ConstantExpr l) else None
   | _ \<Rightarrow> None)"

lemma dyn_cast_ConstantExpr_Some [simp]:
  "dyn_cast_ConstantExpr e = Some (w, c) \<longleftrightarrow> e = ConstantExpr w c"
  by (cases e) auto

lemma dyn_cast_ConstantExpr_None: "dyn_cast_ConstantExpr e = None \<longleftrightarrow> \<not> isConstantExpr e"
  by (cases e) auto

lemma constant_on_left_Some [simp]:
  "constant_on_left k e = Some (w, c, r) \<longleftrightarrow> e = BinaryExpr k (ConstantExpr w c) r"
  by (auto simp: constant_on_left_def split: expr.splits if_splits)

text \<open>\<open>BCREATE_R\<close> and \<open>CMPCREATE_T\<close>: a partial constructor for a constant on either side.\<close>

definition BCREATE_R ::
  "binkind \<Rightarrow> (expr \<Rightarrow> nat \<Rightarrow> nat \<Rightarrow> expr option) \<Rightarrow> (nat \<Rightarrow> nat \<Rightarrow> expr \<Rightarrow> expr option)
   \<Rightarrow> (expr \<Rightarrow> expr \<Rightarrow> expr option) \<Rightarrow> expr \<Rightarrow> expr \<Rightarrow> expr option" where
  "BCREATE_R op createPartial createPartialR create l r =
     (if getWidth l \<noteq> getWidth r then None
      else case dyn_cast_ConstantExpr l of
        Some (wl, cl) \<Rightarrow> (case dyn_cast_ConstantExpr r of
          Some (wr, cr) \<Rightarrow> ConstantExpr_op op wl cl cr
        | None \<Rightarrow> createPartialR wl cl r)
      | None \<Rightarrow> (case dyn_cast_ConstantExpr r of
          Some (wr, cr) \<Rightarrow> createPartial l wr cr
        | None \<Rightarrow> create l r))"

text \<open>\<open>BCREATE\<close> and \<open>CMPCREATE\<close>: only two constants are folded.\<close>

definition BCREATE ::
  "binkind \<Rightarrow> (expr \<Rightarrow> expr \<Rightarrow> expr option) \<Rightarrow> expr \<Rightarrow> expr \<Rightarrow> expr option" where
  "BCREATE op create l r =
     (if getWidth l \<noteq> getWidth r then None
      else case dyn_cast_ConstantExpr l of
        Some (wl, cl) \<Rightarrow> (case dyn_cast_ConstantExpr r of
          Some (wr, cr) \<Rightarrow> ConstantExpr_op op wl cl cr
        | None \<Rightarrow> create l r)
      | None \<Rightarrow> create l r)"

section \<open>Bitwise operations\<close>

definition AndExpr_createPartial :: "expr \<Rightarrow> nat \<Rightarrow> nat \<Rightarrow> expr option" where
  "AndExpr_createPartial l w c =
     (if ConstantExpr_isAllOnes w c then Some l
      else if ConstantExpr_isZero w c then Some (ConstantExpr w c)
      else Some (BinaryExpr And l (ConstantExpr w c)))"

definition AndExpr_createPartialR :: "nat \<Rightarrow> nat \<Rightarrow> expr \<Rightarrow> expr option" where
  "AndExpr_createPartialR w c r = AndExpr_createPartial r w c"

definition AndExpr_create :: "expr \<Rightarrow> expr \<Rightarrow> expr option" where
  "AndExpr_create = BCREATE_R And AndExpr_createPartial AndExpr_createPartialR
     (\<lambda>l r. Some (BinaryExpr And l r))"

definition OrExpr_createPartial :: "expr \<Rightarrow> nat \<Rightarrow> nat \<Rightarrow> expr option" where
  "OrExpr_createPartial l w c =
     (if ConstantExpr_isAllOnes w c then Some (ConstantExpr w c)
      else if ConstantExpr_isZero w c then Some l
      else Some (BinaryExpr Or l (ConstantExpr w c)))"

definition OrExpr_createPartialR :: "nat \<Rightarrow> nat \<Rightarrow> expr \<Rightarrow> expr option" where
  "OrExpr_createPartialR w c r = OrExpr_createPartial r w c"

definition OrExpr_create :: "expr \<Rightarrow> expr \<Rightarrow> expr option" where
  "OrExpr_create = BCREATE_R Or OrExpr_createPartial OrExpr_createPartialR
     (\<lambda>l r. Some (BinaryExpr Or l r))"

definition NotExpr_create :: "expr \<Rightarrow> expr option" where
  "NotExpr_create e = (case e of ConstantExpr w a \<Rightarrow> Some (ConstantExpr_Not w a) | _ \<Rightarrow> Some (NotExpr e))"

definition NotOptimizedExpr_create :: "expr \<Rightarrow> expr option" where
  "NotOptimizedExpr_create e = Some (NotOptimizedExpr e)"

section \<open>Equality\<close>

text \<open>The command line option \<open>const-array-opt\<close>, off by default.\<close>

definition ConstArrayOpt :: bool where
  "ConstArrayOpt = False"

definition EqExpr_create_static :: "expr \<Rightarrow> expr \<Rightarrow> expr option" where
  "EqExpr_create_static l r = (if l = r then Some (ConstantExpr Bool 1) else Some (BinaryExpr Eq l r))"

text \<open>
  \<open>TryConstArrayOpt\<close>. The loop over the positions of the constant array carries the number of
  matches and the disjunction built so far; \<open>eqIndex i\<close> is \<open>EqExpr::create(rd->index, i)\<close>.
\<close>

fun TryConstArrayOpt_loop ::
  "(nat \<Rightarrow> expr option) \<Rightarrow> expr option \<Rightarrow> expr \<Rightarrow> expr list \<Rightarrow> nat \<Rightarrow> nat \<Rightarrow> expr \<Rightarrow> expr option" where
  "TryConstArrayOpt_loop eqIndex giveUp cl [] i numMatches res = Some res"
| "TryConstArrayOpt_loop eqIndex giveUp cl (v # vs) i numMatches res =
     (if cl = v then
        if numMatches + 1 > 100 then giveUp
        else do {
          mayBe \<leftarrow> eqIndex i;
          res' \<leftarrow> OrExpr_create res mayBe;
          TryConstArrayOpt_loop eqIndex giveUp cl vs (i + 1) (numMatches + 1) res'
        }
      else TryConstArrayOpt_loop eqIndex giveUp cl vs (i + 1) numMatches res)"

definition TryConstArrayOpt ::
  "(nat \<Rightarrow> expr option) \<Rightarrow> nat \<Rightarrow> nat \<Rightarrow> array \<Rightarrow> updates \<Rightarrow> expr \<Rightarrow> expr option" where
  "TryConstArrayOpt eqIndex w c a us idx =
     (let asIs = EqExpr_create_static (ConstantExpr w c) (ReadExpr a us idx)
      in if isSymbolicArray a \<or> getSize us \<noteq> 0 then asIs
         else TryConstArrayOpt_loop eqIndex asIs (ConstantExpr w c)
                (map (ConstantExpr (arr_range a)) (take (arr_size a) (arr_constantValues a))) 0 0
                (ConstantExpr Bool 0))"

text \<open>
  \<open>EqExpr_createPartialR\<close>, and \<open>EqExpr::create\<close> with a constant on the right.
\<close>

fun EqExpr_createPartialR :: "nat \<Rightarrow> nat \<Rightarrow> expr \<Rightarrow> expr option"
and EqExpr_create_cr :: "expr \<Rightarrow> nat \<Rightarrow> nat \<Rightarrow> expr option" where
  "EqExpr_createPartialR w c r =
     (if w = Bool then
        if ConstantExpr_isTrue w c then Some r
        else (case r of
            BinaryExpr Eq ll rr \<Rightarrow> (case dyn_cast_ConstantExpr ll of
              Some (w', c') \<Rightarrow>
                if w' = Bool \<and> ConstantExpr_isFalse w' c' then Some rr
                else EqExpr_create_static (ConstantExpr w c) r
            | None \<Rightarrow> EqExpr_create_static (ConstantExpr w c) r)
          | BinaryExpr Or a b \<Rightarrow> do {
              na \<leftarrow> EqExpr_create_cr a (getWidth a) 0;
              nb \<leftarrow> EqExpr_create_cr b (getWidth b) 0;
              AndExpr_create na nb }
          | _ \<Rightarrow> EqExpr_create_static (ConstantExpr w c) r)
      else (case r of
          CastExpr SExt src wd \<Rightarrow>
            let fromBits = getWidth src; trunc = c mod 2 ^ fromBits
            in if ConstantExpr w c = ConstantExpr_SExt fromBits trunc w
               then EqExpr_create_cr src fromBits trunc
               else Some (ConstantExpr Bool 0)
        | CastExpr ZExt src wd \<Rightarrow>
            let fromBits = getWidth src; trunc = c mod 2 ^ fromBits
            in if ConstantExpr w c = ConstantExpr_ZExt fromBits trunc w
               then EqExpr_create_cr src fromBits trunc
               else Some (ConstantExpr Bool 0)
        | BinaryExpr Add ll rr \<Rightarrow> (case dyn_cast_ConstantExpr ll of
              Some (w1, c1) \<Rightarrow> if w \<noteq> w1 then None else EqExpr_createPartialR w (bv_sub w c c1) rr
            | None \<Rightarrow> EqExpr_create_static (ConstantExpr w c) r)
        | BinaryExpr Sub ll rr \<Rightarrow> (case dyn_cast_ConstantExpr ll of
              Some (w1, c1) \<Rightarrow> if w1 \<noteq> w then None else EqExpr_createPartialR w (bv_sub w c1 c) rr
            | None \<Rightarrow> EqExpr_create_static (ConstantExpr w c) r)
        | ReadExpr a us idx \<Rightarrow>
            if ConstArrayOpt
            then TryConstArrayOpt (\<lambda>i. EqExpr_create_cr idx (getWidth idx) (i mod 2 ^ getWidth idx)) w c a us idx
            else EqExpr_create_static (ConstantExpr w c) r
        | _ \<Rightarrow> EqExpr_create_static (ConstantExpr w c) r))"
| "EqExpr_create_cr e w c =
     (if getWidth e \<noteq> w then None
      else case dyn_cast_ConstantExpr e of
        Some (we, ce) \<Rightarrow> ConstantExpr_op Eq we ce c
      | None \<Rightarrow> EqExpr_createPartialR w c e)"

declare EqExpr_createPartialR.simps [simp del] EqExpr_create_cr.simps [simp del]

definition EqExpr_createPartial :: "expr \<Rightarrow> nat \<Rightarrow> nat \<Rightarrow> expr option" where
  "EqExpr_createPartial l w c = EqExpr_createPartialR w c l"

definition EqExpr_create :: "expr \<Rightarrow> expr \<Rightarrow> expr option" where
  "EqExpr_create = BCREATE_R Eq EqExpr_createPartial EqExpr_createPartialR EqExpr_create_static"

definition createIsZero :: "expr \<Rightarrow> expr option" where
  "createIsZero e = EqExpr_create e (ConstantExpr (getWidth e) 0)"

definition createImplies :: "expr \<Rightarrow> expr \<Rightarrow> expr option" where
  "createImplies hyp conc = createIsZero hyp \<bind> (\<lambda>n. OrExpr_create n conc)"

definition NeExpr_create :: "expr \<Rightarrow> expr \<Rightarrow> expr option" where
  "NeExpr_create l r = EqExpr_create l r \<bind> (\<lambda>e. EqExpr_create (ConstantExpr Bool 0) e)"


section \<open>Exclusive or, and products\<close>

definition XorExpr_createPartialR :: "nat \<Rightarrow> nat \<Rightarrow> expr \<Rightarrow> expr option" where
  "XorExpr_createPartialR w c r =
     (if ConstantExpr_isZero w c then Some r
      else if w = Bool then EqExpr_createPartial r Bool 0
      else Some (BinaryExpr Xor (ConstantExpr w c) r))"

definition XorExpr_createPartial :: "expr \<Rightarrow> nat \<Rightarrow> nat \<Rightarrow> expr option" where
  "XorExpr_createPartial l w c = XorExpr_createPartialR w c l"

definition XorExpr_create_static :: "expr \<Rightarrow> expr \<Rightarrow> expr option" where
  "XorExpr_create_static l r = Some (BinaryExpr Xor l r)"

definition XorExpr_create :: "expr \<Rightarrow> expr \<Rightarrow> expr option" where
  "XorExpr_create = BCREATE_R Xor XorExpr_createPartial XorExpr_createPartialR XorExpr_create_static"

definition MulExpr_createPartialR :: "nat \<Rightarrow> nat \<Rightarrow> expr \<Rightarrow> expr option" where
  "MulExpr_createPartialR w c r =
     (if w = Bool then AndExpr_createPartialR w c r
      else if ConstantExpr_isOne w c then Some r
      else if ConstantExpr_isZero w c then Some (ConstantExpr w c)
      else Some (BinaryExpr Mul (ConstantExpr w c) r))"

definition MulExpr_createPartial :: "expr \<Rightarrow> nat \<Rightarrow> nat \<Rightarrow> expr option" where
  "MulExpr_createPartial l w c = MulExpr_createPartialR w c l"

definition MulExpr_create_static :: "expr \<Rightarrow> expr \<Rightarrow> expr option" where
  "MulExpr_create_static l r =
     (if getWidth l = Bool then Some (BinaryExpr And l r) else Some (BinaryExpr Mul l r))"

definition MulExpr_create :: "expr \<Rightarrow> expr \<Rightarrow> expr option" where
  "MulExpr_create = BCREATE_R Mul MulExpr_createPartial MulExpr_createPartialR MulExpr_create_static"

section \<open>Sums and differences\<close>

text \<open>
  With a constant on the left: \<open>AddExpr_createPartialR\<close>, \<open>SubExpr_createPartialR\<close>, and the
  restriction of \<open>AddExpr::create\<close>, \<open>SubExpr::create\<close> to a constant left operand.
\<close>

fun AddExpr_createPartialR :: "nat \<Rightarrow> nat \<Rightarrow> expr \<Rightarrow> expr option"
and SubExpr_createPartialR :: "nat \<Rightarrow> nat \<Rightarrow> expr \<Rightarrow> expr option"
and AddExpr_create_cl :: "nat \<Rightarrow> nat \<Rightarrow> expr \<Rightarrow> expr option"
and SubExpr_create_cl :: "nat \<Rightarrow> nat \<Rightarrow> expr \<Rightarrow> expr option" where
  "AddExpr_createPartialR w c r =
     (if w = Bool then XorExpr_createPartialR w c r
      else if ConstantExpr_isZero w c then Some r
      else (case constant_on_left Add r of
          Some (w1, c1, rr) \<Rightarrow> if w \<noteq> w1 then None else AddExpr_create_cl w (bv_add w c c1) rr
        | None \<Rightarrow> (case constant_on_left Sub r of
          Some (w1, c1, rr) \<Rightarrow> if w \<noteq> w1 then None else SubExpr_create_cl w (bv_add w c c1) rr
        | None \<Rightarrow> Some (BinaryExpr Add (ConstantExpr w c) r))))"
| "SubExpr_createPartialR w c r =
     (if w = Bool then XorExpr_createPartialR w c r
      else (case constant_on_left Add r of
          Some (w1, c1, rr) \<Rightarrow> if w \<noteq> w1 then None else SubExpr_create_cl w (bv_sub w c c1) rr
        | None \<Rightarrow> (case constant_on_left Sub r of
          Some (w1, c1, rr) \<Rightarrow> if w \<noteq> w1 then None else AddExpr_create_cl w (bv_sub w c c1) rr
        | None \<Rightarrow> Some (BinaryExpr Sub (ConstantExpr w c) r))))"
| "AddExpr_create_cl w c r =
     (if w \<noteq> getWidth r then None
      else case dyn_cast_ConstantExpr r of
        Some (wr, cr) \<Rightarrow> ConstantExpr_op Add w c cr
      | None \<Rightarrow> AddExpr_createPartialR w c r)"
| "SubExpr_create_cl w c r =
     (if w \<noteq> getWidth r then None
      else case dyn_cast_ConstantExpr r of
        Some (wr, cr) \<Rightarrow> ConstantExpr_op Sub w c cr
      | None \<Rightarrow> SubExpr_createPartialR w c r)"

declare AddExpr_createPartialR.simps [simp del] SubExpr_createPartialR.simps [simp del]
  AddExpr_create_cl.simps [simp del] SubExpr_create_cl.simps [simp del]

definition AddExpr_createPartial :: "expr \<Rightarrow> nat \<Rightarrow> nat \<Rightarrow> expr option" where
  "AddExpr_createPartial l w c = AddExpr_createPartialR w c l"

definition SubExpr_createPartial :: "expr \<Rightarrow> nat \<Rightarrow> nat \<Rightarrow> expr option" where
  "SubExpr_createPartial l w c = AddExpr_createPartial l w (bv_sub w 0 c)"

text \<open>\<open>SubExpr::create\<close> with a constant on the right.\<close>

definition SubExpr_create_cr :: "expr \<Rightarrow> nat \<Rightarrow> nat \<Rightarrow> expr option" where
  "SubExpr_create_cr l w c =
     (if getWidth l \<noteq> w then None
      else case dyn_cast_ConstantExpr l of
        Some (wl, cl) \<Rightarrow> ConstantExpr_op Sub wl cl c
      | None \<Rightarrow> SubExpr_createPartial l w c)"

text \<open>
  The general case. A call \<open>AddExpr::create(k, t)\<close> with a constant \<open>k\<close> taken from an operand
  is \<open>AddExpr_create_cl\<close> on the sum \<open>t\<close> of the rest.
\<close>

function AddExpr_create :: "expr \<Rightarrow> expr \<Rightarrow> expr option"
and SubExpr_create :: "expr \<Rightarrow> expr \<Rightarrow> expr option" where
  "AddExpr_create l r =
     (if getWidth l \<noteq> getWidth r then None
      else case dyn_cast_ConstantExpr l of
        Some (wl, cl) \<Rightarrow> (case dyn_cast_ConstantExpr r of
          Some (wr, cr) \<Rightarrow> ConstantExpr_op Add wl cl cr
        | None \<Rightarrow> AddExpr_createPartialR wl cl r)
      | None \<Rightarrow> (case dyn_cast_ConstantExpr r of
          Some (wr, cr) \<Rightarrow> AddExpr_createPartial l wr cr
        | None \<Rightarrow>
          if getWidth l = Bool then XorExpr_create_static l r
          else (case constant_on_left Add l of
              Some (k, c, a) \<Rightarrow> AddExpr_create a r \<bind> AddExpr_create_cl k c
            | None \<Rightarrow> (case constant_on_left Sub l of
              Some (k, c, a) \<Rightarrow> SubExpr_create r a \<bind> AddExpr_create_cl k c
            | None \<Rightarrow> (case constant_on_left Add r of
              Some (k, c, b) \<Rightarrow> AddExpr_create l b \<bind> AddExpr_create_cl k c
            | None \<Rightarrow> (case constant_on_left Sub r of
              Some (k, c, b) \<Rightarrow> SubExpr_create l b \<bind> AddExpr_create_cl k c
            | None \<Rightarrow> Some (BinaryExpr Add l r)))))))"
| "SubExpr_create l r =
     (if getWidth l \<noteq> getWidth r then None
      else case dyn_cast_ConstantExpr l of
        Some (wl, cl) \<Rightarrow> (case dyn_cast_ConstantExpr r of
          Some (wr, cr) \<Rightarrow> ConstantExpr_op Sub wl cl cr
        | None \<Rightarrow> SubExpr_createPartialR wl cl r)
      | None \<Rightarrow> (case dyn_cast_ConstantExpr r of
          Some (wr, cr) \<Rightarrow> SubExpr_createPartial l wr cr
        | None \<Rightarrow>
          if getWidth l = Bool then XorExpr_create_static l r
          else if l = r then Some (ConstantExpr (getWidth l) 0)
          else (case constant_on_left Add l of
              Some (k, c, a) \<Rightarrow> SubExpr_create a r \<bind> AddExpr_create_cl k c
            | None \<Rightarrow> (case constant_on_left Sub l of
              Some (k, c, a) \<Rightarrow> AddExpr_create a r \<bind> SubExpr_create_cl k c
            | None \<Rightarrow> (case constant_on_left Add r of
              Some (k, c, b) \<Rightarrow> SubExpr_create l b \<bind> (\<lambda>t. SubExpr_create_cr t k c)
            | None \<Rightarrow> (case constant_on_left Sub r of
              Some (k, c, b) \<Rightarrow> AddExpr_create l b \<bind> (\<lambda>t. SubExpr_create_cr t k c)
            | None \<Rightarrow> Some (BinaryExpr Sub l r)))))))"
  by pat_completeness auto
termination
  by (relation "measure (case_sum (\<lambda>(l, r). size l + size r) (\<lambda>(l, r). size l + size r))") auto

declare AddExpr_create.simps [simp del] SubExpr_create.simps [simp del]

end
