(* ===== verification/ExprCreateStruct.thy ===== *)
theory ExprCreateStruct
  imports ExprCreate
begin

text \<open>
  The remaining smart constructors of \<^verbatim>\<open>lib/Expr/Expr.cpp\<close>: division, shifts and comparisons
  (with their boolean special cases), \<open>SelectExpr\<close>, \<open>ConcatExpr\<close> and \<open>ExtractExpr\<close> (mutually
  recursive), the casts, \<open>ReadExpr\<close>, and the dispatchers \<open>createFromKind\<close>, \<open>rebuild\<close> and
  \<open>createTempRead\<close>.
\<close>

section \<open>Division, remainder and shifts\<close>

definition UDivExpr_create :: "expr \<Rightarrow> expr \<Rightarrow> expr option" where
  "UDivExpr_create = BCREATE UDiv
     (\<lambda>l r. if getWidth l = Bool then Some l else Some (BinaryExpr UDiv l r))"

definition SDivExpr_create :: "expr \<Rightarrow> expr \<Rightarrow> expr option" where
  "SDivExpr_create = BCREATE SDiv
     (\<lambda>l r. if getWidth l = Bool then Some l else Some (BinaryExpr SDiv l r))"

definition URemExpr_create :: "expr \<Rightarrow> expr \<Rightarrow> expr option" where
  "URemExpr_create = BCREATE URem
     (\<lambda>l r. if getWidth l = Bool then Some (ConstantExpr Bool 0) else Some (BinaryExpr URem l r))"

definition SRemExpr_create :: "expr \<Rightarrow> expr \<Rightarrow> expr option" where
  "SRemExpr_create = BCREATE SRem
     (\<lambda>l r. if getWidth l = Bool then Some (ConstantExpr Bool 0) else Some (BinaryExpr SRem l r))"

definition ShlExpr_create :: "expr \<Rightarrow> expr \<Rightarrow> expr option" where
  "ShlExpr_create = BCREATE Shl
     (\<lambda>l r. if getWidth l = Bool then createIsZero r \<bind> AndExpr_create l
            else Some (BinaryExpr Shl l r))"

definition LShrExpr_create :: "expr \<Rightarrow> expr \<Rightarrow> expr option" where
  "LShrExpr_create = BCREATE LShr
     (\<lambda>l r. if getWidth l = Bool then createIsZero r \<bind> AndExpr_create l
            else Some (BinaryExpr LShr l r))"

definition AShrExpr_create :: "expr \<Rightarrow> expr \<Rightarrow> expr option" where
  "AShrExpr_create = BCREATE AShr
     (\<lambda>l r. if getWidth l = Bool then Some l else Some (BinaryExpr AShr l r))"

section \<open>Comparisons\<close>

definition UltExpr_create :: "expr \<Rightarrow> expr \<Rightarrow> expr option" where
  "UltExpr_create = BCREATE Ult
     (\<lambda>l r. if getWidth l = Bool then createIsZero l \<bind> (\<lambda>n. AndExpr_create n r)
            else Some (BinaryExpr Ult l r))"

definition UleExpr_create :: "expr \<Rightarrow> expr \<Rightarrow> expr option" where
  "UleExpr_create = BCREATE Ule
     (\<lambda>l r. if getWidth l = Bool then createIsZero l \<bind> (\<lambda>n. OrExpr_create n r)
            else Some (BinaryExpr Ule l r))"

definition SltExpr_create :: "expr \<Rightarrow> expr \<Rightarrow> expr option" where
  "SltExpr_create = BCREATE Slt
     (\<lambda>l r. if getWidth l = Bool then createIsZero r \<bind> AndExpr_create l
            else Some (BinaryExpr Slt l r))"

definition SleExpr_create :: "expr \<Rightarrow> expr \<Rightarrow> expr option" where
  "SleExpr_create = BCREATE Sle
     (\<lambda>l r. if getWidth l = Bool then createIsZero r \<bind> OrExpr_create l
            else Some (BinaryExpr Sle l r))"

definition UgtExpr_create :: "expr \<Rightarrow> expr \<Rightarrow> expr option" where
  "UgtExpr_create l r = UltExpr_create r l"

definition UgeExpr_create :: "expr \<Rightarrow> expr \<Rightarrow> expr option" where
  "UgeExpr_create l r = UleExpr_create r l"

definition SgtExpr_create :: "expr \<Rightarrow> expr \<Rightarrow> expr option" where
  "SgtExpr_create l r = SltExpr_create r l"

definition SgeExpr_create :: "expr \<Rightarrow> expr \<Rightarrow> expr option" where
  "SgeExpr_create l r = SleExpr_create r l"

section \<open>Selection\<close>

definition SelectExpr_create :: "expr \<Rightarrow> expr \<Rightarrow> expr \<Rightarrow> expr option" where
  "SelectExpr_create c t f =
     (if getWidth c \<noteq> Bool \<or> getWidth t \<noteq> getWidth f then None
      else case dyn_cast_ConstantExpr c of
        Some (w, v) \<Rightarrow> Some (if ConstantExpr_isTrue w v then t else f)
      | None \<Rightarrow>
        if t = f then Some t
        else if getWidth t = Bool then
          (case dyn_cast_ConstantExpr t of
            Some (w, v) \<Rightarrow>
              if ConstantExpr_isTrue w v then OrExpr_create c f
              else createIsZero c \<bind> (\<lambda>n. AndExpr_create n f)
          | None \<Rightarrow> (case dyn_cast_ConstantExpr f of
              Some (w, v) \<Rightarrow>
                if ConstantExpr_isTrue w v then createIsZero c \<bind> (\<lambda>n. OrExpr_create n t)
                else AndExpr_create c t
            | None \<Rightarrow> Some (SelectExpr c t f)))
        else Some (SelectExpr c t f))"

section \<open>Concatenation and extraction\<close>

definition dyn_cast_ExtractExpr :: "expr \<Rightarrow> (expr \<times> nat \<times> nat) option" where
  "dyn_cast_ExtractExpr e = (case e of ExtractExpr x off w \<Rightarrow> Some (x, off, w) | _ \<Rightarrow> None)"

definition dyn_cast_ConcatExpr :: "expr \<Rightarrow> (expr \<times> expr) option" where
  "dyn_cast_ConcatExpr e = (case e of ConcatExpr l r \<Rightarrow> Some (l, r) | _ \<Rightarrow> None)"

lemma dyn_cast_ExtractExpr_Some [simp]:
  "dyn_cast_ExtractExpr e = Some (x, off, w) \<longleftrightarrow> e = ExtractExpr x off w"
  by (auto simp: dyn_cast_ExtractExpr_def split: expr.splits)

lemma dyn_cast_ConcatExpr_Some [simp]:
  "dyn_cast_ConcatExpr e = Some (l, r) \<longleftrightarrow> e = ConcatExpr l r"
  by (auto simp: dyn_cast_ConcatExpr_def split: expr.splits)

text \<open>\<open>Merge contiguous Extracts\<close>: two extractions from one expression that adjoin.\<close>

definition contiguousExtracts :: "expr \<Rightarrow> expr \<Rightarrow> (expr \<times> nat) option" where
  "contiguousExtracts l r = (case dyn_cast_ExtractExpr l of
     None \<Rightarrow> None
   | Some (el, offl, wl) \<Rightarrow> (case dyn_cast_ExtractExpr r of
       None \<Rightarrow> None
     | Some (er, offr, wr) \<Rightarrow> if el = er \<and> offr + wr = offl then Some (el, offr) else None))"

lemma contiguousExtracts_Some [simp]:
  "contiguousExtracts l r = Some (x, off) \<longleftrightarrow>
     (\<exists>wl wr. l = ExtractExpr x (off + wr) wl \<and> r = ExtractExpr x off wr)"
  by (auto simp: contiguousExtracts_def dyn_cast_ExtractExpr_def split: expr.splits if_splits)

function ConcatExpr_create :: "expr \<Rightarrow> expr \<Rightarrow> expr option"
and ExtractExpr_create :: "expr \<Rightarrow> nat \<Rightarrow> nat \<Rightarrow> expr option" where
  "ConcatExpr_create l r =
     (if isConstantExpr l \<and> isConstantExpr r then Some (ConstantExpr_Concat (cw l) (cv l) (cw r) (cv r))
      else case contiguousExtracts l r of
        Some (x, off) \<Rightarrow> ExtractExpr_create x off (getWidth l + getWidth r)
      | None \<Rightarrow> Some (ConcatExpr l r))"
| "ExtractExpr_create e off w =
     (if \<not> (0 < w \<and> off + w \<le> getWidth e) then None
      else if w = getWidth e then Some e
      else case dyn_cast_ConstantExpr e of
        Some (we, a) \<Rightarrow> Some (ConstantExpr_Extract we a off w)
      | None \<Rightarrow> (case dyn_cast_ConcatExpr e of
          Some (l, r) \<Rightarrow>
            if off \<ge> getWidth r then ExtractExpr_create l (off - getWidth r) w
            else if off + w \<le> getWidth r then ExtractExpr_create r off w
            else ExtractExpr_create l 0 (w + off - getWidth r) \<bind> (\<lambda>a.
                 ExtractExpr_create r off (getWidth r - off) \<bind> (\<lambda>b.
                 ConcatExpr_create a b))
        | None \<Rightarrow> Some (ExtractExpr e off w)))"
  by pat_completeness auto


text \<open>
  The recursion is nested: \<open>ExtractExpr::create\<close> hands the results of two recursive calls to
  \<open>ConcatExpr::create\<close>, which may extract again. It ends because an extraction that comes out
  of \<open>ExtractExpr::create(x, ...)\<close> extracts from an expression no larger than \<open>x\<close>.
\<close>

lemma ConcatExpr_ExtractExpr_create_size:
  shows "ConcatExpr_create_ExtractExpr_create_dom (Inl (l, r)) \<Longrightarrow>
      ConcatExpr_create l r = Some (ExtractExpr x off' w') \<Longrightarrow>
      \<exists>y offl wl. l = ExtractExpr y offl wl \<and> size x \<le> size y"
    and "ConcatExpr_create_ExtractExpr_create_dom (Inr (e, off, w)) \<Longrightarrow>
      ExtractExpr_create e off w = Some (ExtractExpr x off' w') \<Longrightarrow> size x \<le> size e"
proof (induction l r and e off w arbitrary: x off' w' and x off' w'
    rule: ConcatExpr_create_ExtractExpr_create.pinduct)
  case (1 l r)
  from 1(3) show ?case
    by (auto simp: ConcatExpr_create.psimps [OF 1(1)] ConstantExpr_Concat_def
        split: option.splits if_splits dest!: 1(2) [rotated -1])
next
  case (2 e off w)
  note eq = 2(7) [unfolded ExtractExpr_create.psimps [OF 2(1)]]
  show ?case
  proof (cases "(0 < w \<and> off + w \<le> getWidth e) \<and> w \<noteq> getWidth e \<and> dyn_cast_ConstantExpr e = None
      \<and> dyn_cast_ConcatExpr e \<noteq> None")
    case False
    with eq show ?thesis by (auto simp: ConstantExpr_Extract_def split: if_splits option.splits)
  next
    case True
    then obtain l r where e: "dyn_cast_ConcatExpr e = Some (l, r)" by auto
    with True eq have "(if off \<ge> getWidth r then ExtractExpr_create l (off - getWidth r) w
            else if off + w \<le> getWidth r then ExtractExpr_create r off w
            else ExtractExpr_create l 0 (w + off - getWidth r) \<bind> (\<lambda>a.
                 ExtractExpr_create r off (getWidth r - off) \<bind> (\<lambda>b.
                 ConcatExpr_create a b))) = Some (ExtractExpr x off' w')" by simp
    with True e show ?thesis
      using 2(2) [OF _ _ _ e refl] 2(3) [OF _ _ _ e refl] 2(4) [OF _ _ _ e refl] 2(6) [OF _ _ _ e refl]
      by (fastforce simp: bind_eq_Some_conv split: if_splits)
  qed
qed

lemma extract_measure:
  "(case a of ExtractExpr x off w \<Rightarrow> 2 * size x + 1 | _ \<Rightarrow> 0) < 2 * size (ConcatExpr l r)"
  if "\<And>x off w. a = ExtractExpr x off w \<Longrightarrow> size x \<le> size l"
  using that by (auto split: expr.splits)

termination ConcatExpr_create
proof (relation "measure (case_sum
    (\<lambda>(l, r). case l of ExtractExpr x off w \<Rightarrow> 2 * size x + 1 | _ \<Rightarrow> 0) (\<lambda>(e, off, w). 2 * size e))")
  fix e off w x l r a and b :: expr
  assume x: "dyn_cast_ConcatExpr e = Some x" "(l, r) = x"
    and dom: "ConcatExpr_create_ExtractExpr_create_dom (Inr (l, 0, w + off - getWidth r))"
    and a: "ExtractExpr_create l 0 (w + off - getWidth r) = Some a"
  have sz: "a = ExtractExpr y offy wy \<Longrightarrow> size y \<le> size l" for y offy wy
    using ConcatExpr_ExtractExpr_create_size(2) [OF dom] a by simp
  from x have "e = ConcatExpr l r" by auto
  then show "(Inl (a, b), Inr (e, off, w)) \<in> measure (case_sum
    (\<lambda>(l, r). case l of ExtractExpr x off w \<Rightarrow> 2 * size x + 1 | _ \<Rightarrow> 0) (\<lambda>(e, off, w). 2 * size e))"
    using extract_measure [of a l r, OF sz] by simp
qed auto

declare ConcatExpr_create.simps [simp del] ExtractExpr_create.simps [simp del]


text \<open>Chains of concatenations, unbalanced to the right.\<close>

fun ConcatExpr_createN :: "expr list \<Rightarrow> expr option" where
  "ConcatExpr_createN [] = None"
| "ConcatExpr_createN [e] = Some e"
| "ConcatExpr_createN (e # es) = ConcatExpr_createN es \<bind> ConcatExpr_create e"

definition ConcatExpr_create4 :: "expr \<Rightarrow> expr \<Rightarrow> expr \<Rightarrow> expr \<Rightarrow> expr option" where
  "ConcatExpr_create4 k1 k2 k3 k4 =
     ConcatExpr_create k3 k4 \<bind> (\<lambda>t. ConcatExpr_create k2 t \<bind> ConcatExpr_create k1)"

definition ConcatExpr_create8 ::
  "expr \<Rightarrow> expr \<Rightarrow> expr \<Rightarrow> expr \<Rightarrow> expr \<Rightarrow> expr \<Rightarrow> expr \<Rightarrow> expr \<Rightarrow> expr option" where
  "ConcatExpr_create8 k1 k2 k3 k4 k5 k6 k7 k8 =
     ConcatExpr_create4 k5 k6 k7 k8 \<bind> (\<lambda>t. ConcatExpr_create k4 t \<bind> (\<lambda>t.
     ConcatExpr_create k3 t \<bind> (\<lambda>t. ConcatExpr_create k2 t \<bind> ConcatExpr_create k1)))"

section \<open>Casts\<close>

definition ZExtExpr_create :: "expr \<Rightarrow> nat \<Rightarrow> expr option" where
  "ZExtExpr_create e w =
     (if w = getWidth e then Some e
      else if w < getWidth e then ExtractExpr_create e 0 w
      else case dyn_cast_ConstantExpr e of
        Some (we, a) \<Rightarrow> Some (ConstantExpr_ZExt we a w)
      | None \<Rightarrow> Some (CastExpr ZExt e w))"

definition SExtExpr_create :: "expr \<Rightarrow> nat \<Rightarrow> expr option" where
  "SExtExpr_create e w =
     (if w = getWidth e then Some e
      else if w < getWidth e then ExtractExpr_create e 0 w
      else case dyn_cast_ConstantExpr e of
        Some (we, a) \<Rightarrow> Some (ConstantExpr_SExt we a w)
      | None \<Rightarrow> Some (CastExpr SExt e w))"

section \<open>Reads\<close>

text \<open>
  The loop of \<open>ReadExpr::create\<close> over the update list: it finds the value written at the
  index, or stops at \<open>un\<close>, either the first write that may or may not hit the index (flag
  \<open>updateListHasSymbolicWrites\<close>) or the end of the list.
\<close>

datatype read_scan = Found expr | Stopped updates bool

fun ReadExpr_scan :: "expr \<Rightarrow> updates \<Rightarrow> read_scan option" where
  "ReadExpr_scan index NoUpdate = Some (Stopped NoUpdate False)"
| "ReadExpr_scan index (UpdateNode i v next) =
     EqExpr_create index i \<bind> (\<lambda>cond.
       case dyn_cast_ConstantExpr cond of
         Some (w, c) \<Rightarrow> if ConstantExpr_isTrue w c then Some (Found v) else ReadExpr_scan index next
       | None \<Rightarrow> Some (Stopped (UpdateNode i v next) True))"

definition ReadExpr_create :: "array \<Rightarrow> updates \<Rightarrow> expr \<Rightarrow> expr option" where
  "ReadExpr_create a us index = ReadExpr_scan index us \<bind> (\<lambda>scan. case scan of
     Found v \<Rightarrow> Some v
   | Stopped un hasSymbolicWrites \<Rightarrow>
       (case dyn_cast_ConstantExpr index of
          Some (w, c) \<Rightarrow>
            if w > 64 then None
            else if isConstantArray a \<and> \<not> hasSymbolicWrites \<and> c < arr_size a
              then Some (ConstantExpr (arr_range a) (arr_constantValues a ! c))
            else if c < arr_size a then Some (ReadExpr a un index)
            else Some (ReadExpr a us index)
        | None \<Rightarrow> Some (ReadExpr a us index)))"

definition UpdateList_extend :: "array option \<Rightarrow> updates \<Rightarrow> expr \<Rightarrow> expr \<Rightarrow> updates option" where
  "UpdateList_extend root us index v =
     (case root of
        Some a \<Rightarrow> if arr_domain a = getWidth index \<and> arr_range a = getWidth v then Some (UpdateNode index v us) else None
      | None \<Rightarrow> Some (UpdateNode index v us))"

text \<open>\<open>Expr::createTempRead\<close>: the little endian value of width \<open>w\<close> at offset 0 of an array.\<close>

definition readByte :: "array \<Rightarrow> nat \<Rightarrow> expr option" where
  "readByte a i = ReadExpr_create a NoUpdate (ConstantExpr Int32 i)"

definition createTempRead :: "array \<Rightarrow> nat \<Rightarrow> expr option" where
  "createTempRead a w =
     (if w = Bool then readByte a 0 \<bind> (\<lambda>b. ZExtExpr_create b Bool)
      else if w = Int8 then readByte a 0
      else if w = Int16 then
        readByte a 1 \<bind> (\<lambda>b1. readByte a 0 \<bind> (\<lambda>b0. ConcatExpr_create b1 b0))
      else if w = Int32 then
        readByte a 3 \<bind> (\<lambda>b3. readByte a 2 \<bind> (\<lambda>b2. readByte a 1 \<bind> (\<lambda>b1. readByte a 0 \<bind> (\<lambda>b0.
        ConcatExpr_create4 b3 b2 b1 b0))))
      else if w = Int64 then
        readByte a 7 \<bind> (\<lambda>b7. readByte a 6 \<bind> (\<lambda>b6. readByte a 5 \<bind> (\<lambda>b5. readByte a 4 \<bind> (\<lambda>b4.
        readByte a 3 \<bind> (\<lambda>b3. readByte a 2 \<bind> (\<lambda>b2. readByte a 1 \<bind> (\<lambda>b1. readByte a 0 \<bind> (\<lambda>b0.
        ConcatExpr_create8 b7 b6 b5 b4 b3 b2 b1 b0))))))))
      else None)"

section \<open>Dispatch on the kind\<close>

datatype kind = KConstant | KNotOptimized | KRead | KSelect | KConcat | KExtract
  | KCast castkind | KNot | KBinary binkind

fun getKind :: "expr \<Rightarrow> kind" where
  "getKind (ConstantExpr w c) = KConstant"
| "getKind (NotOptimizedExpr e) = KNotOptimized"
| "getKind (ReadExpr a us i) = KRead"
| "getKind (SelectExpr c t f) = KSelect"
| "getKind (ConcatExpr l r) = KConcat"
| "getKind (ExtractExpr e off w) = KExtract"
| "getKind (CastExpr k e w) = KCast k"
| "getKind (NotExpr e) = KNot"
| "getKind (BinaryExpr k l r) = KBinary k"

fun BinaryExpr_create :: "binkind \<Rightarrow> expr \<Rightarrow> expr \<Rightarrow> expr option" where
  "BinaryExpr_create Add = AddExpr_create"
| "BinaryExpr_create Sub = SubExpr_create"
| "BinaryExpr_create Mul = MulExpr_create"
| "BinaryExpr_create UDiv = UDivExpr_create"
| "BinaryExpr_create SDiv = SDivExpr_create"
| "BinaryExpr_create URem = URemExpr_create"
| "BinaryExpr_create SRem = SRemExpr_create"
| "BinaryExpr_create And = AndExpr_create"
| "BinaryExpr_create Or = OrExpr_create"
| "BinaryExpr_create Xor = XorExpr_create"
| "BinaryExpr_create Shl = ShlExpr_create"
| "BinaryExpr_create LShr = LShrExpr_create"
| "BinaryExpr_create AShr = AShrExpr_create"
| "BinaryExpr_create Eq = EqExpr_create"
| "BinaryExpr_create Ne = NeExpr_create"
| "BinaryExpr_create Ult = UltExpr_create"
| "BinaryExpr_create Ule = UleExpr_create"
| "BinaryExpr_create Ugt = UgtExpr_create"
| "BinaryExpr_create Uge = UgeExpr_create"
| "BinaryExpr_create Slt = SltExpr_create"
| "BinaryExpr_create Sle = SleExpr_create"
| "BinaryExpr_create Sgt = SgtExpr_create"
| "BinaryExpr_create Sge = SgeExpr_create"

fun CastExpr_create :: "castkind \<Rightarrow> expr \<Rightarrow> nat \<Rightarrow> expr option" where
  "CastExpr_create ZExt = ZExtExpr_create"
| "CastExpr_create SExt = SExtExpr_create"

datatype create_arg = ArgExpr expr | ArgWidth nat

fun createFromKind :: "kind \<Rightarrow> create_arg list \<Rightarrow> expr option" where
  "createFromKind KNotOptimized [ArgExpr e] = NotOptimizedExpr_create e"
| "createFromKind KSelect [ArgExpr c, ArgExpr t, ArgExpr f] = SelectExpr_create c t f"
| "createFromKind KConcat [ArgExpr l, ArgExpr r] = ConcatExpr_create l r"
| "createFromKind (KCast k) [ArgExpr e, ArgWidth w] = CastExpr_create k e w"
| "createFromKind (KBinary k) [ArgExpr l, ArgExpr r] = BinaryExpr_create k l r"
| "createFromKind _ _ = None"

text \<open>The virtual method \<open>rebuild\<close> of every class.\<close>

fun rebuild :: "expr \<Rightarrow> expr list \<Rightarrow> expr option" where
  "rebuild (NotOptimizedExpr e) [k0] = NotOptimizedExpr_create k0"
| "rebuild (ReadExpr a us i) [k0] = ReadExpr_create a us k0"
| "rebuild (SelectExpr c t f) [k0, k1, k2] = SelectExpr_create k0 k1 k2"
| "rebuild (ConcatExpr l r) [k0, k1] = ConcatExpr_create k0 k1"
| "rebuild (ExtractExpr e off w) [k0] = ExtractExpr_create k0 off w"
| "rebuild (CastExpr k e w) [k0] = CastExpr_create k k0 w"
| "rebuild (NotExpr e) [k0] = NotExpr_create k0"
| "rebuild (BinaryExpr k l r) [k0, k1] = BinaryExpr_create k k0 k1"
| "rebuild _ _ = None"

end
