(* ===== verification/ExprCreateCorrect.thy ===== *)
theory ExprCreateCorrect
  imports ExprCreateStruct
begin

text \<open>
  The smart constructors are correct: on well typed operands no assertion fails and the
  result refines the plain node, that is, it is well typed, has the same width, and has
  the same value under every assignment for which the plain node has one.
\<close>

unbundle bit_operations_syntax

section \<open>Rules for binary nodes\<close>

lemma eval_Binary_cases:
  assumes "eval \<sigma> (BinaryExpr k l r) = Some v" "wf_asg \<sigma>" "wf_expr l" "wf_expr r" "getWidth l = getWidth r"
  obtains (both) a b where "eval \<sigma> l = Some a" "eval \<sigma> r = Some b" "a < 2 ^ getWidth r" "b < 2 ^ getWidth r"
      "bin_value k (getWidth r) a b = Some v"
  | (left) "eval \<sigma> l = Some v" "eval \<sigma> r = None" "absorb k (getWidth r) v = Some v"
  | (right) "eval \<sigma> l = None" "eval \<sigma> r = Some v" "absorb k (getWidth r) v = Some v"
proof -
  from assms(1) have "bin_eval k (getWidth r) (eval \<sigma> l) (eval \<sigma> r) = Some v" using assms(5) by simp
  then show ?thesis
  proof (cases rule: bin_eval_cases)
    case (both a b)
    moreover from this assms(2-5) have "a < 2 ^ getWidth r" "b < 2 ^ getWidth r"
      using eval_less(1) [of l \<sigma> a] eval_less(1) [of r \<sigma> b] by simp_all
    ultimately show ?thesis using that(1) by blast
  qed (use that in blast)+
qed

lemma refines_BinaryI':
  assumes "wf_expr l" "wf_expr r" "getWidth l = getWidth r" "wf_expr e"
    and "getWidth e = (if isCmp k then 1 else getWidth r)"
    and "\<And>\<sigma> a b v. wf_asg \<sigma> \<Longrightarrow> eval \<sigma> l = Some a \<Longrightarrow> eval \<sigma> r = Some b \<Longrightarrow> a < 2 ^ getWidth r \<Longrightarrow>
      b < 2 ^ getWidth r \<Longrightarrow> bin_value k (getWidth r) a b = Some v \<Longrightarrow> eval \<sigma> e = Some v"
    and "\<And>\<sigma> v. wf_asg \<sigma> \<Longrightarrow> eval \<sigma> l = Some v \<Longrightarrow> eval \<sigma> r = None \<Longrightarrow> absorb k (getWidth r) v = Some v \<Longrightarrow>
      eval \<sigma> e = Some v"
    and "\<And>\<sigma> v. wf_asg \<sigma> \<Longrightarrow> eval \<sigma> l = None \<Longrightarrow> eval \<sigma> r = Some v \<Longrightarrow> absorb k (getWidth r) v = Some v \<Longrightarrow>
      eval \<sigma> e = Some v"
  shows "refines e (BinaryExpr k l r)"
proof (rule refinesI)
  fix \<sigma> v assume "wf_asg \<sigma>" "eval \<sigma> (BinaryExpr k l r) = Some v"
  then show "eval \<sigma> e = Some v"
    using assms by (elim eval_Binary_cases) auto
qed (use assms in auto)

lemma refines_BinaryI:
  assumes "wf_expr l" "wf_expr r" "getWidth l = getWidth r" "wf_expr e"
    and "getWidth e = (if isCmp k then 1 else getWidth r)" "k \<noteq> And \<and> k \<noteq> Or"
    and "\<And>\<sigma> a b v. wf_asg \<sigma> \<Longrightarrow> eval \<sigma> l = Some a \<Longrightarrow> eval \<sigma> r = Some b \<Longrightarrow> a < 2 ^ getWidth r \<Longrightarrow>
      b < 2 ^ getWidth r \<Longrightarrow> bin_value k (getWidth r) a b = Some v \<Longrightarrow> eval \<sigma> e = Some v"
  shows "refines e (BinaryExpr k l r)"
  by (rule refines_BinaryI' [OF assms(1-5)]) (use assms(6) in \<open>auto simp: absorb_None intro: assms(7)\<close>)

lemma wf_ConstantExpr: "wf_expr (ConstantExpr w c) \<longleftrightarrow> 0 < w \<and> c < 2 ^ w"
  by simp

lemma ConstantExpr_op_eq:
  "ConstantExpr_op k w a b = map_option (ConstantExpr (if isCmp k then 1 else w)) (bin_value k w a b)"
  by (cases k) auto

definition isDivision :: "binkind \<Rightarrow> bool" where
  "isDivision k \<longleftrightarrow> k \<in> {UDiv, SDiv, URem, SRem}"

lemma bin_value_defined: "bin_value k w a b = None \<longleftrightarrow> isDivision k \<and> b = 0"
  by (cases k) (auto simp: isDivision_def)

lemma ConstantExpr_op_simplifies:
  assumes "0 < w" "a < 2 ^ w" "b < 2 ^ w" "isDivision k \<Longrightarrow> b \<noteq> 0"
  shows "simplifies (ConstantExpr_op k w a b) (BinaryExpr k (ConstantExpr w a) (ConstantExpr w b))"
proof -
  obtain v where v: "bin_value k w a b = Some v"
    using assms(4) bin_value_defined [of k w a b] by auto
  with assms have "v < 2 ^ (if isCmp k then 1 else w)" by (intro bin_value_less)
  with v assms show ?thesis
    by (auto simp: ConstantExpr_op_eq simp del: isCmp.simps intro!: refinesI)
qed

section \<open>The macros\<close>

lemma nonconst_iff: "dyn_cast_ConstantExpr e = None \<longleftrightarrow> \<not> isConstantExpr e"
  by (cases e) auto

lemma BCREATE_R_simplifies:
  assumes "wf_expr l" "wf_expr r" "getWidth l = getWidth r" "\<not> isDivision k"
    and "\<And>w c. l = ConstantExpr w c \<Longrightarrow> \<not> isConstantExpr r \<Longrightarrow>
      simplifies (partialR w c r) (BinaryExpr k (ConstantExpr w c) r)"
    and "\<And>w c. r = ConstantExpr w c \<Longrightarrow> \<not> isConstantExpr l \<Longrightarrow>
      simplifies (partial l w c) (BinaryExpr k l (ConstantExpr w c))"
    and "\<not> isConstantExpr l \<Longrightarrow> \<not> isConstantExpr r \<Longrightarrow> simplifies (create l r) (BinaryExpr k l r)"
  shows "simplifies (BCREATE_R k partial partialR create l r) (BinaryExpr k l r)"
  using assms unfolding BCREATE_R_def
  by (auto split: option.splits simp: nonconst_iff intro!: ConstantExpr_op_simplifies)

lemma BCREATE_simplifies:
  assumes "wf_expr l" "wf_expr r" "getWidth l = getWidth r"
    and "isConstantExpr l \<Longrightarrow> isDivision k \<Longrightarrow> r \<noteq> ConstantExpr (getWidth l) 0"
    and "\<not> (isConstantExpr l \<and> isConstantExpr r) \<Longrightarrow> simplifies (create l r) (BinaryExpr k l r)"
  shows "simplifies (BCREATE k create l r) (BinaryExpr k l r)"
  using assms unfolding BCREATE_def
  by (auto split: option.splits simp: nonconst_iff intro!: ConstantExpr_op_simplifies)

section \<open>Bitwise operations\<close>

lemma bin_value_commute: "k \<in> {Add, Mul, And, Or, Xor, Eq, Ne} \<Longrightarrow> bin_value k w a b = bin_value k w b a"
  by (auto simp: bv_add_commute bv_mul_commute and.commute or.commute xor.commute)

lemma refines_commute:
  assumes "k \<in> {Add, Mul, And, Or, Xor, Eq, Ne}" "wf_expr l" "wf_expr r" "getWidth l = getWidth r"
  shows "refines (BinaryExpr k r l) (BinaryExpr k l r)"
  using assms(2-4)
proof (rule refines_BinaryI')
  fix \<sigma> a b v
  assume "eval \<sigma> l = Some a" "eval \<sigma> r = Some b" "bin_value k (getWidth r) a b = Some v"
  then show "eval \<sigma> (BinaryExpr k r l) = Some v"
    using bin_value_commute [OF assms(1)] by simp
qed (use assms in auto)

lemma AndExpr_createPartial_simplifies:
  assumes "wf_expr l" "0 < w" "c < 2 ^ w" "getWidth l = w"
  shows "simplifies (AndExpr_createPartial l w c) (BinaryExpr And l (ConstantExpr w c))"
  using assms unfolding AndExpr_createPartial_def
  by (auto simp: ConstantExpr_tests nat_and_allones [unfolded One_nat_def] two_power_le_one intro!: refines_BinaryI' dest!: absorb_SomeD)

lemma AndExpr_create_simplifies:
  assumes "wf_expr l" "wf_expr r" "getWidth l = getWidth r"
  shows "simplifies (AndExpr_create l r) (BinaryExpr And l r)"
  unfolding AndExpr_create_def
proof (rule BCREATE_R_simplifies [OF assms])
  fix w c assume "l = ConstantExpr w c"
  with assms show "simplifies (AndExpr_createPartialR w c r) (BinaryExpr And (ConstantExpr w c) r)"
    unfolding AndExpr_createPartialR_def
    by (intro simplifies_trans [OF AndExpr_createPartial_simplifies refines_commute]) auto
qed (use assms in \<open>auto simp: isDivision_def AndExpr_createPartial_simplifies\<close>)

lemma OrExpr_createPartial_simplifies:
  assumes "wf_expr l" "0 < w" "c < 2 ^ w" "getWidth l = w"
  shows "simplifies (OrExpr_createPartial l w c) (BinaryExpr Or l (ConstantExpr w c))"
  using assms unfolding OrExpr_createPartial_def
  by (auto simp: ConstantExpr_tests nat_or_allones [unfolded One_nat_def] two_power_le_one intro!: refines_BinaryI' dest!: absorb_SomeD)

lemma OrExpr_create_simplifies:
  assumes "wf_expr l" "wf_expr r" "getWidth l = getWidth r"
  shows "simplifies (OrExpr_create l r) (BinaryExpr Or l r)"
  unfolding OrExpr_create_def
proof (rule BCREATE_R_simplifies [OF assms])
  fix w c assume "l = ConstantExpr w c"
  with assms show "simplifies (OrExpr_createPartialR w c r) (BinaryExpr Or (ConstantExpr w c) r)"
    unfolding OrExpr_createPartialR_def
    by (intro simplifies_trans [OF OrExpr_createPartial_simplifies refines_commute]) auto
qed (use assms in \<open>auto simp: isDivision_def OrExpr_createPartial_simplifies\<close>)

lemma NotExpr_create_simplifies:
  assumes "wf_expr e"
  shows "simplifies (NotExpr_create e) (NotExpr e)"
  using assms by (cases e) (auto simp: NotExpr_create_def ConstantExpr_Not_def intro!: refinesI)

lemma NotOptimizedExpr_create_simplifies:
  "wf_expr e \<Longrightarrow> simplifies (NotOptimizedExpr_create e) (NotOptimizedExpr e)"
  by (simp add: NotOptimizedExpr_create_def)


section \<open>Equality\<close>

lemma wrap_mod_smaller: "m \<le> n \<Longrightarrow> wrap n i mod 2 ^ m = wrap m i"
proof -
  assume "m \<le> n"
  then have "int (wrap n i mod 2 ^ m) = int (wrap m i)"
    by (simp add: int_wrap zmod_int mod_mod_cancel le_imp_power_dvd)
  then show ?thesis by (simp only: of_nat_eq_iff)
qed

lemma bv_sext_mod: "m \<le> n \<Longrightarrow> x < 2 ^ m \<Longrightarrow> bv_sext m n x mod 2 ^ m = x"
  by (simp add: bv_sext_def wrap_mod_smaller)

lemma cast_value_mod: "m \<le> n \<Longrightarrow> x < 2 ^ m \<Longrightarrow> cast_value k m n x mod 2 ^ m = x"
  by (cases k) (simp_all add: bv_sext_mod)

lemma EqExpr_create_static_simplifies:
  assumes "wf_expr l" "wf_expr r" "getWidth l = getWidth r"
  shows "simplifies (EqExpr_create_static l r) (BinaryExpr Eq l r)"
  using assms by (auto simp: EqExpr_create_static_def intro!: refines_BinaryI)

text \<open>The rewrites of \<open>EqExpr_createPartialR\<close>, one by one.\<close>

lemma refines_eq_true:
  assumes "wf_expr r" "getWidth r = 1" "c < 2" "c \<noteq> 0"
  shows "refines r (BinaryExpr Eq (ConstantExpr 1 c) r)"
proof (rule refines_BinaryI)
  fix \<sigma> a b v
  assume "eval \<sigma> (ConstantExpr 1 c) = Some a" "eval \<sigma> r = Some b" "b < 2 ^ getWidth r"
    "bin_value Eq (getWidth r) a b = Some v"
  with assms show "eval \<sigma> r = Some v" by (cases b) auto
qed (use assms in auto)

lemma refines_not_not:
  assumes "wf_expr r" "getWidth r = 1"
  shows "refines r (BinaryExpr Eq (ConstantExpr 1 0) (BinaryExpr Eq (ConstantExpr 1 0) r))"
proof (rule refines_BinaryI)
  fix \<sigma> a b v
  assume "wf_asg \<sigma>" "eval \<sigma> (ConstantExpr 1 0) = Some a"
    "eval \<sigma> (BinaryExpr Eq (ConstantExpr 1 0) r) = Some b"
    "bin_value Eq (getWidth (BinaryExpr Eq (ConstantExpr 1 0) r)) a b = Some v"
  with assms show "eval \<sigma> r = Some v"
    using eval_less(1) [of r \<sigma>] by (fastforce simp: bin_eval_strict bind_eq_Some_conv less_2_cases_iff)
qed (use assms in auto)

lemma refines_not_or:
  assumes "wf_expr a" "wf_expr b" "getWidth a = 1" "getWidth b = 1"
  shows "refines (BinaryExpr And (BinaryExpr Eq a (ConstantExpr 1 0)) (BinaryExpr Eq b (ConstantExpr 1 0)))
    (BinaryExpr Eq (ConstantExpr 1 0) (BinaryExpr Or a b))"
proof (rule refinesI)
  fix \<sigma> v
  assume \<sigma>: "wf_asg \<sigma>" and v: "eval \<sigma> (BinaryExpr Eq (ConstantExpr 1 0) (BinaryExpr Or a b)) = Some v"
  then obtain u where u: "eval \<sigma> (BinaryExpr Or a b) = Some u" "v = of_bool (u = 0)"
    by (auto simp: bin_eval_strict bind_eq_Some_conv)
  have ab: "getWidth a = getWidth b" using assms by simp
  from u(1) \<sigma> assms(1,2) ab show "eval \<sigma> (BinaryExpr And (BinaryExpr Eq a (ConstantExpr 1 0))
      (BinaryExpr Eq b (ConstantExpr 1 0))) = Some v"
    by (cases rule: eval_Binary_cases) (use assms u(2) in \<open>auto simp: less_2_cases_iff split: if_splits\<close>)
qed (use assms in auto)

lemma refines_eq_cast:
  assumes "wf_expr (CastExpr k e w)" "c < 2 ^ w" "c = cast_value k (getWidth e) w t"
    "t = c mod 2 ^ getWidth e"
  shows "refines (BinaryExpr Eq e (ConstantExpr (getWidth e) t)) (BinaryExpr Eq (ConstantExpr w c) (CastExpr k e w))"
proof (rule refines_BinaryI)
  fix \<sigma> a b v
  assume "wf_asg \<sigma>" "eval \<sigma> (ConstantExpr w c) = Some a" "eval \<sigma> (CastExpr k e w) = Some b"
    "bin_value Eq (getWidth (CastExpr k e w)) a b = Some v"
  moreover from this obtain x where x: "eval \<sigma> e = Some x" "b = cast_value k (getWidth e) w x"
    by (auto simp: bind_eq_Some_conv)
  moreover have "x < 2 ^ getWidth e" using assms(1) x(1) \<open>wf_asg \<sigma>\<close> by (auto intro: eval_less(1))
  moreover from this assms(1) x(2) have "c = b \<longleftrightarrow> x = t"
    unfolding assms(4) by (metis assms(3,4) cast_value_mod less_imp_le wf_expr.simps(7))
  ultimately show "eval \<sigma> (BinaryExpr Eq e (ConstantExpr (getWidth e) t)) = Some v" by simp
next
  have "t < 2 ^ getWidth e" unfolding assms(4) by simp
  then show "wf_expr (BinaryExpr Eq e (ConstantExpr (getWidth e) t))"
    using assms(1) wf_getWidth_pos by auto
qed (use assms(1,2) in auto)

lemma refines_eq_cast_never:
  assumes "wf_expr (CastExpr k e w)" "c < 2 ^ w" "c \<noteq> cast_value k (getWidth e) w (c mod 2 ^ getWidth e)"
  shows "refines (ConstantExpr 1 0) (BinaryExpr Eq (ConstantExpr w c) (CastExpr k e w))"
proof (rule refines_BinaryI)
  fix \<sigma> a b v
  assume "wf_asg \<sigma>" "eval \<sigma> (ConstantExpr w c) = Some a" "eval \<sigma> (CastExpr k e w) = Some b"
    "bin_value Eq (getWidth (CastExpr k e w)) a b = Some v"
  moreover from this obtain x where x: "eval \<sigma> e = Some x" "b = cast_value k (getWidth e) w x"
    by (auto simp: bind_eq_Some_conv)
  moreover have "x < 2 ^ getWidth e" using assms(1) x(1) \<open>wf_asg \<sigma>\<close> by (auto intro: eval_less(1))
  moreover from this assms(1) x(2) have "c \<noteq> b"
    by (metis assms(3) cast_value_mod less_imp_le wf_expr.simps(7))
  ultimately show "eval \<sigma> (ConstantExpr 1 0) = Some v" by simp
qed (use assms in auto)

lemma refines_eq_add:
  assumes "wf_expr r" "w = getWidth r" "c < 2 ^ w" "c1 < 2 ^ w"
  shows "refines (BinaryExpr Eq (ConstantExpr w (bv_sub w c c1)) r)
    (BinaryExpr Eq (ConstantExpr w c) (BinaryExpr Add (ConstantExpr w c1) r))"
proof (rule refinesI)
  fix \<sigma> v
  assume "wf_asg \<sigma>" "eval \<sigma> (BinaryExpr Eq (ConstantExpr w c) (BinaryExpr Add (ConstantExpr w c1) r)) = Some v"
  with assms show "eval \<sigma> (BinaryExpr Eq (ConstantExpr w (bv_sub w c c1)) r) = Some v"
    using eval_less(1) [of r \<sigma>] by (fastforce simp: bin_eval_strict bind_eq_Some_conv bv_add_eq_iff)
qed (use assms wf_getWidth_pos in auto)

lemma refines_eq_sub:
  assumes "wf_expr r" "w = getWidth r" "c < 2 ^ w" "c1 < 2 ^ w"
  shows "refines (BinaryExpr Eq (ConstantExpr w (bv_sub w c1 c)) r)
    (BinaryExpr Eq (ConstantExpr w c) (BinaryExpr Sub (ConstantExpr w c1) r))"
proof (rule refinesI)
  fix \<sigma> v
  assume "wf_asg \<sigma>" "eval \<sigma> (BinaryExpr Eq (ConstantExpr w c) (BinaryExpr Sub (ConstantExpr w c1) r)) = Some v"
  with assms show "eval \<sigma> (BinaryExpr Eq (ConstantExpr w (bv_sub w c1 c)) r) = Some v"
    using eval_less(1) [of r \<sigma>] by (fastforce simp: bin_eval_strict bind_eq_Some_conv bv_sub_eq_iff)
qed (use assms wf_getWidth_pos in auto)


lemma EqExpr_create_cr_simplifies_if:
  assumes "\<And>w c. 0 < w \<Longrightarrow> c < 2 ^ w \<Longrightarrow> getWidth e = w \<Longrightarrow>
      simplifies (EqExpr_createPartialR w c e) (BinaryExpr Eq (ConstantExpr w c) e)"
    and "wf_expr e" "getWidth e = w" "c < 2 ^ w"
  shows "simplifies (EqExpr_create_cr e w c) (BinaryExpr Eq e (ConstantExpr w c))"
proof (cases "dyn_cast_ConstantExpr e")
  case None
  have "simplifies (EqExpr_createPartialR w c e) (BinaryExpr Eq (ConstantExpr w c) e)"
    using assms wf_getWidth_pos by auto
  then have "simplifies (EqExpr_createPartialR w c e) (BinaryExpr Eq e (ConstantExpr w c))"
    by (rule simplifies_trans) (use assms wf_getWidth_pos in \<open>auto intro!: refines_commute\<close>)
  with None assms(3) show ?thesis by (simp add: EqExpr_create_cr.simps)
next
  case (Some p)
  with assms obtain ce where e: "e = ConstantExpr w ce" by (cases p) auto
  have "simplifies (ConstantExpr_op Eq w ce c) (BinaryExpr Eq e (ConstantExpr w c))"
    unfolding e using assms e by (intro ConstantExpr_op_simplifies) (auto simp: isDivision_def)
  then show ?thesis by (simp add: EqExpr_create_cr.simps e)
qed

lemma not_or_simplifies:
  assumes "simplifies ma (BinaryExpr Eq a (ConstantExpr 1 0))" "simplifies mb (BinaryExpr Eq b (ConstantExpr 1 0))"
    and wf: "wf_expr a" "wf_expr b" "getWidth a = 1" "getWidth b = 1"
  shows "simplifies (ma \<bind> (\<lambda>na. mb \<bind> AndExpr_create na))
    (BinaryExpr Eq (ConstantExpr 1 0) (BinaryExpr Or a b))"
proof (rule simplifies_bind [OF assms(1)], rule simplifies_bind [OF assms(2)])
  fix na nb
  assume n: "refines na (BinaryExpr Eq a (ConstantExpr 1 0))" "refines nb (BinaryExpr Eq b (ConstantExpr 1 0))"
  then have "getWidth na = getWidth nb" "wf_expr na" "wf_expr nb"
    using n [THEN refines_width] n [THEN refines_wf] by simp_all
  then have "simplifies (AndExpr_create na nb) (BinaryExpr And na nb)"
    by (intro AndExpr_create_simplifies)
  moreover have "refines (BinaryExpr And na nb)
      (BinaryExpr And (BinaryExpr Eq a (ConstantExpr 1 0)) (BinaryExpr Eq b (ConstantExpr 1 0)))"
    using n by (intro refines_Binary) auto
  ultimately show "simplifies (AndExpr_create na nb) (BinaryExpr Eq (ConstantExpr 1 0) (BinaryExpr Or a b))"
    using refines_not_or [OF wf] by (blast intro: simplifies_trans refines_trans)
qed

lemma EqExpr_createPartialR_step:
  assumes IH: "\<And>y w c. size y < size r \<Longrightarrow> wf_expr y \<Longrightarrow> getWidth y = w \<Longrightarrow> 0 < w \<Longrightarrow> c < 2 ^ w \<Longrightarrow>
      simplifies (EqExpr_createPartialR w c y) (BinaryExpr Eq (ConstantExpr w c) y)"
    and wf: "wf_expr r" "getWidth r = w" "0 < w" "c < 2 ^ w"
  shows "simplifies (EqExpr_createPartialR w c r) (BinaryExpr Eq (ConstantExpr w c) r)"
proof -
  have cr: "simplifies (EqExpr_create_cr y w' c') (BinaryExpr Eq y (ConstantExpr w' c'))"
    if "size y < size r" "wf_expr y" "getWidth y = w'" "c' < 2 ^ w'" for y w' c'
    using that by (intro EqExpr_create_cr_simplifies_if IH)
  have static: "simplifies (EqExpr_create_static (ConstantExpr w c) r) (BinaryExpr Eq (ConstantExpr w c) r)"
    using wf by (intro EqExpr_create_static_simplifies) auto
  show ?thesis
  proof (cases "w = 1")
    case True
    show ?thesis
    proof (cases "c = 0")
      case False
      with True wf show ?thesis
        by (simp add: EqExpr_createPartialR.simps ConstantExpr_tests refines_eq_true [simplified])
    next
      case c: True
      show ?thesis
      proof (cases r)
        case (BinaryExpr k a b)
        show ?thesis
        proof (cases "k = Or")
          case True
          have "simplifies (EqExpr_create_cr a (getWidth a) 0 \<bind> (\<lambda>na.
              EqExpr_create_cr b (getWidth b) 0 \<bind> AndExpr_create na)) (BinaryExpr Eq (ConstantExpr w c) r)"
            using wf \<open>w = 1\<close> BinaryExpr True c cr [of a 1 0] cr [of b 1 0]
              not_or_simplifies [of "EqExpr_create_cr a 1 0" a "EqExpr_create_cr b 1 0" b] by simp
          with \<open>w = 1\<close> c BinaryExpr True show ?thesis
            by (simp add: EqExpr_createPartialR.simps ConstantExpr_tests)
        next
          case False
          with static \<open>w = 1\<close> c BinaryExpr wf show ?thesis
            using refines_not_not [of b, simplified]
            by (auto simp: EqExpr_createPartialR.simps ConstantExpr_tests split: binkind.splits option.splits)
        qed
      qed (use static \<open>w = 1\<close> c in \<open>auto simp: EqExpr_createPartialR.simps ConstantExpr_tests\<close>)
    qed
  next
    case False
    show ?thesis
    proof (cases r)
      case (CastExpr k e w')
      have "simplifies (if c = cast_value k (getWidth e) w (c mod 2 ^ getWidth e)
          then EqExpr_create_cr e (getWidth e) (c mod 2 ^ getWidth e) else Some (ConstantExpr 1 0))
          (BinaryExpr Eq (ConstantExpr w c) r)"
        using wf CastExpr
        by (auto simp del: getWidth.simps(9) intro!: simplifies_trans [OF cr] refines_eq_cast
            refines_eq_cast_never [unfolded One_nat_def]
            simp: getWidth.simps)
      moreover have "c mod 2 ^ getWidth e mod 2 ^ w = c mod 2 ^ getWidth e"
        using wf CastExpr by (intro mod_less less_le_trans [OF mod_less_divisor power_increasing]) auto
      ultimately show ?thesis using False CastExpr
        by (cases k) (simp_all add: EqExpr_createPartialR.simps ConstantExpr_SExt_def ConstantExpr_ZExt_def Let_def)
    next
      case (BinaryExpr k a b)
      have "simplifies (EqExpr_createPartialR w (bv_sub w c c1) b) (BinaryExpr Eq (ConstantExpr w c) r)"
        if "k = Add" "a = ConstantExpr w c1" for c1
        using wf BinaryExpr that by (intro simplifies_trans [OF IH]) (auto intro: refines_eq_add)
      moreover have "simplifies (EqExpr_createPartialR w (bv_sub w c1 c) b) (BinaryExpr Eq (ConstantExpr w c) r)"
        if "k = Sub" "a = ConstantExpr w c1" for c1
        using wf BinaryExpr that by (intro simplifies_trans [OF IH]) (auto intro: refines_eq_sub)
      ultimately show ?thesis using False static wf BinaryExpr
        by (auto simp: EqExpr_createPartialR.simps split: binkind.splits option.splits)
    qed (use static False in \<open>auto simp: EqExpr_createPartialR.simps ConstArrayOpt_def\<close>)
  qed
qed

lemma EqExpr_createPartialR_simplifies:
  "wf_expr r \<Longrightarrow> getWidth r = w \<Longrightarrow> 0 < w \<Longrightarrow> c < 2 ^ w \<Longrightarrow>
   simplifies (EqExpr_createPartialR w c r) (BinaryExpr Eq (ConstantExpr w c) r)"
proof (induction "size r" arbitrary: r w c rule: less_induct)
  case (less r)
  show ?case by (rule EqExpr_createPartialR_step [OF less.hyps less.prems])
qed

lemma EqExpr_create_simplifies:
  assumes "wf_expr l" "wf_expr r" "getWidth l = getWidth r"
  shows "simplifies (EqExpr_create l r) (BinaryExpr Eq l r)"
  unfolding EqExpr_create_def
proof (rule BCREATE_R_simplifies [OF assms])
  fix w c assume "r = ConstantExpr w c"
  with assms show "simplifies (EqExpr_createPartial l w c) (BinaryExpr Eq l (ConstantExpr w c))"
    unfolding EqExpr_createPartial_def
    by (intro simplifies_trans [OF EqExpr_createPartialR_simplifies refines_commute]) auto
qed (use assms in \<open>auto simp: isDivision_def EqExpr_createPartialR_simplifies EqExpr_create_static_simplifies\<close>)

end
