(* ===== verification/ExprArithCorrect.thy ===== *)
theory ExprArithCorrect
  imports ExprCreateCorrect
begin

text \<open>
  Correctness of the constructors for exclusive or, products, sums and differences: the
  canonical form that gathers constants on the left of a sum keeps the value.
\<close>

unbundle bit_operations_syntax

section \<open>Exclusive or and products\<close>

lemma createIsZero_simplifies:
  "wf_expr e \<Longrightarrow> simplifies (createIsZero e) (BinaryExpr Eq e (ConstantExpr (getWidth e) 0))"
  unfolding createIsZero_def by (intro EqExpr_create_simplifies) (auto simp: wf_getWidth_pos)

lemma refines_xor_true:
  assumes "wf_expr r" "getWidth r = 1"
  shows "refines (BinaryExpr Eq (ConstantExpr 1 0) r) (BinaryExpr Xor (ConstantExpr 1 1) r)"
proof (rule refines_BinaryI)
  fix \<sigma> a b v
  assume "eval \<sigma> (ConstantExpr 1 1) = Some a" "eval \<sigma> r = Some b" "b < 2 ^ getWidth r"
    "bin_value Xor (getWidth r) a b = Some v"
  moreover from this assms have "b = 0 \<or> b = 1" by auto
  ultimately show "eval \<sigma> (BinaryExpr Eq (ConstantExpr 1 0) r) = Some v" by auto
qed (use assms in auto)

lemma XorExpr_createPartialR_simplifies:
  assumes "wf_expr r" "getWidth r = w" "0 < w" "c < 2 ^ w"
  shows "simplifies (XorExpr_createPartialR w c r) (BinaryExpr Xor (ConstantExpr w c) r)"
proof (cases "c = 0")
  case True
  with assms show ?thesis
    by (auto simp: XorExpr_createPartialR_def ConstantExpr_tests intro!: refines_BinaryI)
next
  case False
  show ?thesis
  proof (cases "w = 1")
    case True
    with False assms have c: "c = 1" by simp
    have "simplifies (EqExpr_createPartialR 1 0 r) (BinaryExpr Xor (ConstantExpr w c) r)"
      using assms True c refines_xor_true
      by (intro simplifies_trans [OF EqExpr_createPartialR_simplifies]) auto
    with True c show ?thesis
      by (simp add: XorExpr_createPartialR_def ConstantExpr_tests EqExpr_createPartial_def)
  next
    case False
    with \<open>c \<noteq> 0\<close> assms show ?thesis by (simp add: XorExpr_createPartialR_def ConstantExpr_tests)
  qed
qed

lemma XorExpr_create_simplifies:
  assumes "wf_expr l" "wf_expr r" "getWidth l = getWidth r"
  shows "simplifies (XorExpr_create l r) (BinaryExpr Xor l r)"
  unfolding XorExpr_create_def
proof (rule BCREATE_R_simplifies [OF assms])
  fix w c assume "r = ConstantExpr w c"
  with assms show "simplifies (XorExpr_createPartial l w c) (BinaryExpr Xor l (ConstantExpr w c))"
    unfolding XorExpr_createPartial_def
    by (intro simplifies_trans [OF XorExpr_createPartialR_simplifies refines_commute]) auto
qed (use assms in \<open>auto simp: isDivision_def XorExpr_createPartialR_simplifies XorExpr_create_static_def\<close>)

text \<open>On booleans a sum and a difference are an exclusive or, a product is a conjunction.\<close>

lemma bin_value_bool:
  assumes "a < 2" "b < 2"
  shows "bin_value Add 1 a b = bin_value Xor 1 a b" "bin_value Sub 1 a b = bin_value Xor 1 a b"
    "bin_value Mul 1 a b = bin_value And 1 a b"
  using assms by (auto simp: less_2_cases_iff bv_add_def bv_sub_def bv_mul_def wrap_def)

lemma refines_bool:
  assumes "wf_expr l" "wf_expr r" "getWidth l = 1" "getWidth r = 1"
  shows "refines (BinaryExpr Xor l r) (BinaryExpr Add l r)" "refines (BinaryExpr Xor l r) (BinaryExpr Sub l r)"
    "refines (BinaryExpr And l r) (BinaryExpr Mul l r)"
  using assms bin_value_bool by (auto intro!: refines_BinaryI)

lemma MulExpr_createPartialR_simplifies:
  assumes "wf_expr r" "getWidth r = w" "0 < w" "c < 2 ^ w"
  shows "simplifies (MulExpr_createPartialR w c r) (BinaryExpr Mul (ConstantExpr w c) r)"
proof (cases "w = 1")
  case True
  have "simplifies (AndExpr_createPartial r w c) (BinaryExpr Mul (ConstantExpr w c) r)"
    using assms True
    by (intro simplifies_trans [OF AndExpr_createPartial_simplifies]
        refines_trans [OF refines_commute refines_bool(3)]) auto
  with True show ?thesis by (simp add: MulExpr_createPartialR_def AndExpr_createPartialR_def)
next
  case False
  with assms show ?thesis
    by (auto simp: MulExpr_createPartialR_def ConstantExpr_tests bv_mul_1 [unfolded One_nat_def] intro!: refines_BinaryI)
qed

lemma MulExpr_create_simplifies:
  assumes "wf_expr l" "wf_expr r" "getWidth l = getWidth r"
  shows "simplifies (MulExpr_create l r) (BinaryExpr Mul l r)"
  unfolding MulExpr_create_def
proof (rule BCREATE_R_simplifies [OF assms])
  fix w c assume "r = ConstantExpr w c"
  with assms show "simplifies (MulExpr_createPartial l w c) (BinaryExpr Mul l (ConstantExpr w c))"
    unfolding MulExpr_createPartial_def
    by (intro simplifies_trans [OF MulExpr_createPartialR_simplifies refines_commute]) auto
qed (use assms refines_bool in
    \<open>auto simp: isDivision_def MulExpr_createPartialR_simplifies MulExpr_create_static_def\<close>)

section \<open>Sums and differences\<close>

text \<open>
  The rewrites. Each is an identity of the ring of integers modulo \<open>2 ^ w\<close>, so it is
  enough to compare the values of the two trees on the values of the leaves.
\<close>

abbreviation (input) "add_e \<equiv> BinaryExpr Add"
abbreviation (input) "sub_e \<equiv> BinaryExpr Sub"

lemma refines_assoc:
  assumes wf: "wf_expr a" "wf_expr b" "wf_expr c" and w: "getWidth a = w" "getWidth b = w" "getWidth c = w"
  shows "refines (add_e (add_e a b) c) (add_e a (add_e b c))"
    "refines (sub_e (add_e a b) c) (add_e a (sub_e b c))"
    "refines (sub_e (sub_e a b) c) (sub_e a (add_e b c))"
    "refines (add_e (sub_e a b) c) (sub_e a (sub_e b c))"
  using wf w
  by (auto intro!: refinesI simp: bin_eval_strict bind_eq_Some_conv bv_add_assoc bv_add_sub_assoc bv_sub_add_assoc bv_sub_sub_assoc)

lemma refines_pull_left:
  assumes wf: "wf_expr k" "wf_expr a" "wf_expr b" and w: "getWidth k = w" "getWidth a = w" "getWidth b = w"
  shows "refines (add_e k (add_e a b)) (add_e (add_e k a) b)"
    "refines (add_e k (sub_e b a)) (add_e (sub_e k a) b)"
    "refines (add_e k (sub_e a b)) (sub_e (add_e k a) b)"
    "refines (sub_e k (add_e a b)) (sub_e (sub_e k a) b)"
  using wf w
  by (auto intro!: refinesI simp: bin_eval_strict bind_eq_Some_conv bv_add_def bv_sub_def wrap_simps algebra_simps)

lemma refines_pull_right:
  assumes wf: "wf_expr k" "wf_expr a" "wf_expr b" and w: "getWidth k = w" "getWidth a = w" "getWidth b = w"
  shows "refines (add_e k (add_e a b)) (add_e a (add_e k b))"
    "refines (add_e k (sub_e a b)) (add_e a (sub_e k b))"
    "refines (sub_e (sub_e a b) k) (sub_e a (add_e k b))"
    "refines (sub_e (add_e a b) k) (sub_e a (sub_e k b))"
  using wf w
  by (auto intro!: refinesI simp: bin_eval_strict bind_eq_Some_conv bv_add_def bv_sub_def wrap_simps algebra_simps)

lemma refines_sub_constant:
  assumes "wf_expr l" "getWidth l = w" "c < 2 ^ w"
  shows "refines (add_e (ConstantExpr w (bv_sub w 0 c)) l) (sub_e l (ConstantExpr w c))"
  using assms
  by (auto intro!: refinesI simp: bin_eval_strict bind_eq_Some_conv bv_add_def bv_sub_def wrap_simps algebra_simps wf_getWidth_pos)

text \<open>Folding the two constants of a nested sum or difference.\<close>

lemma refines_fold:
  assumes wf: "wf_expr b" "getWidth b = w" "c < 2 ^ w" "c1 < 2 ^ w"
  shows "refines (add_e (ConstantExpr w (bv_add w c c1)) b) (add_e (ConstantExpr w c) (add_e (ConstantExpr w c1) b))"
    "refines (sub_e (ConstantExpr w (bv_add w c c1)) b) (add_e (ConstantExpr w c) (sub_e (ConstantExpr w c1) b))"
    "refines (sub_e (ConstantExpr w (bv_sub w c c1)) b) (sub_e (ConstantExpr w c) (add_e (ConstantExpr w c1) b))"
    "refines (add_e (ConstantExpr w (bv_sub w c c1)) b) (sub_e (ConstantExpr w c) (sub_e (ConstantExpr w c1) b))"
  using wf
  by (auto intro!: refinesI simp: bin_eval_strict bind_eq_Some_conv bv_add_def bv_sub_def wrap_simps algebra_simps wf_getWidth_pos)


lemma constant_on_leftE:
  assumes "wf_expr e" "getWidth e = w" "k \<in> {Add, Sub}"
  obtains (none) "constant_on_left k e = None"
  | (some) c a where "e = BinaryExpr k (ConstantExpr w c) a" "constant_on_left k e = Some (w, c, a)"
      "wf_expr a" "getWidth a = w" "c < 2 ^ w" "size a < size e"
proof (cases "constant_on_left k e")
  case (Some p)
  then obtain w' c a where p: "constant_on_left k e = Some (w', c, a)" by (cases p) auto
  then have e: "e = BinaryExpr k (ConstantExpr w' c) a" by simp
  with assms have "w' = w" by auto
  with e p assms show ?thesis by (intro some) auto
qed (rule none)

lemma constant_on_left_other: "j \<noteq> k \<Longrightarrow> constant_on_left j (BinaryExpr k l r) = None"
  by (simp add: constant_on_left_def)

lemma constant_on_left_same: "constant_on_left k (BinaryExpr k (ConstantExpr w c) r) = Some (w, c, r)"
  by simp

subsection \<open>A constant on the left\<close>

definition partialR_ok :: "expr \<Rightarrow> bool" where
  "partialR_ok r \<longleftrightarrow> (\<forall>w c. 0 < w \<longrightarrow> c < 2 ^ w \<longrightarrow> wf_expr r \<longrightarrow> getWidth r = w \<longrightarrow>
     simplifies (AddExpr_createPartialR w c r) (add_e (ConstantExpr w c) r) \<and>
     simplifies (SubExpr_createPartialR w c r) (sub_e (ConstantExpr w c) r))"

lemma AddSub_create_cl_if:
  assumes "partialR_ok r" "wf_expr r" "getWidth r = w" "c < 2 ^ w"
  shows "simplifies (AddExpr_create_cl w c r) (add_e (ConstantExpr w c) r)"
    "simplifies (SubExpr_create_cl w c r) (sub_e (ConstantExpr w c) r)"
  using assms wf_getWidth_pos [of r]
  by (auto simp: AddExpr_create_cl.simps SubExpr_create_cl.simps partialR_ok_def isDivision_def
      simp del: ConstantExpr_op.simps split: option.splits intro!: ConstantExpr_op_simplifies)

lemma AddSub_create_cl_fold:
  assumes "partialR_ok b" "wf_expr b" "getWidth b = w" "c < 2 ^ w" "c1 < 2 ^ w"
  shows "simplifies (AddExpr_create_cl w (bv_add w c c1) b)
      (add_e (ConstantExpr w c) (add_e (ConstantExpr w c1) b))"
    "simplifies (SubExpr_create_cl w (bv_add w c c1) b)
      (add_e (ConstantExpr w c) (sub_e (ConstantExpr w c1) b))"
    "simplifies (SubExpr_create_cl w (bv_sub w c c1) b)
      (sub_e (ConstantExpr w c) (add_e (ConstantExpr w c1) b))"
    "simplifies (AddExpr_create_cl w (bv_sub w c c1) b)
      (sub_e (ConstantExpr w c) (sub_e (ConstantExpr w c1) b))"
  using assms refines_fold [of b w c c1] by (auto intro: simplifies_trans [OF AddSub_create_cl_if(1)]
      simplifies_trans [OF AddSub_create_cl_if(2)])

lemma partialR_ok_step:
  assumes IH: "\<And>y. size y < size r \<Longrightarrow> partialR_ok y"
  shows "partialR_ok r"
  unfolding partialR_ok_def
proof (intro allI impI)
  fix w c :: nat assume wf: "0 < w" "c < 2 ^ w" "wf_expr r" "getWidth r = w"
  show "simplifies (AddExpr_createPartialR w c r) (add_e (ConstantExpr w c) r) \<and>
     simplifies (SubExpr_createPartialR w c r) (sub_e (ConstantExpr w c) r)"
  proof (cases "w = 1")
    case True
    with wf show ?thesis
      using refines_bool [of "ConstantExpr w c" r] XorExpr_createPartialR_simplifies [of r w c]
      by (auto simp: AddExpr_createPartialR.simps SubExpr_createPartialR.simps intro: simplifies_trans)
  next
    case False
    have zero: "refines r (add_e (ConstantExpr w 0) r)" using wf by (auto intro!: refines_BinaryI)
    note simps = AddExpr_createPartialR.simps SubExpr_createPartialR.simps ConstantExpr_tests
      constant_on_left_other constant_on_left_same
    show ?thesis
    proof (cases rule: constant_on_leftE [OF wf(3,4) insertI1, case_names none some])
      case (some c1 b)
      show ?thesis using AddSub_create_cl_fold [OF IH [OF some(6)] some(3,4) wf(2) some(5)] zero False
        by (simp add: simps some(1))
    next
      case none
      note noAdd = none
      have Sub: "Sub \<in> {Add, Sub}" by simp
      show ?thesis
      proof (cases rule: constant_on_leftE [OF wf(3,4) Sub, case_names none some])
        case (some c1 b)
        show ?thesis using AddSub_create_cl_fold [OF IH [OF some(6)] some(3,4) wf(2) some(5)] zero False
          by (simp add: simps some(1))
      qed (use zero False wf noAdd in \<open>auto simp: simps\<close>)
    qed
  qed
qed

lemma partialR_ok: "partialR_ok r"
  by (induction "size r" arbitrary: r rule: less_induct) (rule partialR_ok_step)

lemmas AddSub_create_cl_simplifies = AddSub_create_cl_if [OF partialR_ok]

lemma AddExpr_createPartialR_simplifies:
  "wf_expr r \<Longrightarrow> getWidth r = w \<Longrightarrow> c < 2 ^ w \<Longrightarrow>
   simplifies (AddExpr_createPartialR w c r) (add_e (ConstantExpr w c) r)"
  using partialR_ok [of r] wf_getWidth_pos [of r] by (simp add: partialR_ok_def)

lemma SubExpr_createPartialR_simplifies:
  "wf_expr r \<Longrightarrow> getWidth r = w \<Longrightarrow> c < 2 ^ w \<Longrightarrow>
   simplifies (SubExpr_createPartialR w c r) (sub_e (ConstantExpr w c) r)"
  using partialR_ok [of r] wf_getWidth_pos [of r] by (simp add: partialR_ok_def)

subsection \<open>A constant on the right\<close>

lemma AddExpr_createPartial_simplifies:
  assumes "wf_expr l" "getWidth l = w" "c < 2 ^ w"
  shows "simplifies (AddExpr_createPartial l w c) (add_e l (ConstantExpr w c))"
  unfolding AddExpr_createPartial_def using assms wf_getWidth_pos [of l]
  by (intro simplifies_trans [OF AddExpr_createPartialR_simplifies refines_commute]) auto

lemma SubExpr_createPartial_simplifies:
  assumes "wf_expr l" "getWidth l = w" "c < 2 ^ w"
  shows "simplifies (SubExpr_createPartial l w c) (sub_e l (ConstantExpr w c))"
  unfolding SubExpr_createPartial_def AddExpr_createPartial_def using assms
  by (intro simplifies_trans [OF AddExpr_createPartialR_simplifies refines_sub_constant]) auto

lemma SubExpr_create_cr_simplifies:
  assumes "wf_expr l" "getWidth l = w" "c < 2 ^ w"
  shows "simplifies (SubExpr_create_cr l w c) (sub_e l (ConstantExpr w c))"
  using assms SubExpr_createPartial_simplifies
  by (auto simp: SubExpr_create_cr_def isDivision_def simp del: ConstantExpr_op.simps
      split: option.splits intro!: ConstantExpr_op_simplifies)


subsection \<open>The general case\<close>

text \<open>The constant that was split off is put back around the result of the recursive call.\<close>

lemma simplifies_then_constant:
  assumes m: "simplifies m t" and t: "getWidth t = w" and c: "c < 2 ^ w"
  shows "simplifies (m \<bind> AddExpr_create_cl w c) (add_e (ConstantExpr w c) t)"
    "simplifies (m \<bind> SubExpr_create_cl w c) (sub_e (ConstantExpr w c) t)"
    "simplifies (m \<bind> (\<lambda>e. SubExpr_create_cr e w c)) (sub_e t (ConstantExpr w c))"
proof -
  have e: "wf_expr e" "getWidth e = w" "refines (ConstantExpr w c) (ConstantExpr w c)" if "refines e t" for e
    using that t c wf_getWidth_pos [OF refines_wf [OF that]] by (auto simp: refines_wf refines_width)
  show "simplifies (m \<bind> AddExpr_create_cl w c) (add_e (ConstantExpr w c) t)"
    using e t c by (intro simplifies_bind [OF m] simplifies_trans [OF AddSub_create_cl_simplifies(1)] refines_Binary) auto
  show "simplifies (m \<bind> SubExpr_create_cl w c) (sub_e (ConstantExpr w c) t)"
    using e t c by (intro simplifies_bind [OF m] simplifies_trans [OF AddSub_create_cl_simplifies(2)] refines_Binary) auto
  show "simplifies (m \<bind> (\<lambda>e. SubExpr_create_cr e w c)) (sub_e t (ConstantExpr w c))"
    using e t c by (intro simplifies_bind [OF m] simplifies_trans [OF SubExpr_create_cr_simplifies] refines_Binary) auto
qed

definition AddSub_ok :: "expr \<Rightarrow> expr \<Rightarrow> bool" where
  "AddSub_ok l r \<longleftrightarrow> (wf_expr l \<longrightarrow> wf_expr r \<longrightarrow> getWidth l = getWidth r \<longrightarrow>
     simplifies (AddExpr_create l r) (add_e l r) \<and> simplifies (SubExpr_create l r) (sub_e l r))"

lemma AddSub_ok_left:
  assumes k: "k \<in> {Add, Sub}" and r: "wf_expr r" "getWidth r = w"
    and a: "wf_expr a" "getWidth a = w" "c < 2 ^ w" and IH: "AddSub_ok a r" "AddSub_ok r a"
  shows "simplifies ((if k = Add then AddExpr_create a r else SubExpr_create r a) \<bind> AddExpr_create_cl w c)
      (add_e (BinaryExpr k (ConstantExpr w c) a) r)"
    "simplifies (if k = Add then SubExpr_create a r \<bind> AddExpr_create_cl w c
        else AddExpr_create a r \<bind> SubExpr_create_cl w c)
      (sub_e (BinaryExpr k (ConstantExpr w c) a) r)"
proof -
  have wf: "wf_expr (ConstantExpr w c)" using a wf_getWidth_pos [of a] by auto
  note pull = refines_pull_left [OF wf a(1) r(1) _ a(2) r(2)]
  show "simplifies ((if k = Add then AddExpr_create a r else SubExpr_create r a) \<bind> AddExpr_create_cl w c)
      (add_e (BinaryExpr k (ConstantExpr w c) a) r)"
    using k IH a r pull
    by (auto simp: AddSub_ok_def intro: simplifies_trans [OF simplifies_then_constant(1)])
  show "simplifies (if k = Add then SubExpr_create a r \<bind> AddExpr_create_cl w c
        else AddExpr_create a r \<bind> SubExpr_create_cl w c)
      (sub_e (BinaryExpr k (ConstantExpr w c) a) r)"
    using k IH a r pull
    by (auto simp: AddSub_ok_def intro: simplifies_trans [OF simplifies_then_constant(1)]
        simplifies_trans [OF simplifies_then_constant(2)])
qed

lemma AddSub_ok_right:
  assumes k: "k \<in> {Add, Sub}" and l: "wf_expr l" "getWidth l = w"
    and b: "wf_expr b" "getWidth b = w" "c < 2 ^ w" and IH: "AddSub_ok l b"
  shows "simplifies ((if k = Add then AddExpr_create l b else SubExpr_create l b) \<bind> AddExpr_create_cl w c)
      (add_e l (BinaryExpr k (ConstantExpr w c) b))"
    "simplifies ((if k = Add then SubExpr_create l b else AddExpr_create l b) \<bind> (\<lambda>t. SubExpr_create_cr t w c))
      (sub_e l (BinaryExpr k (ConstantExpr w c) b))"
proof -
  have wf: "wf_expr (ConstantExpr w c)" using b wf_getWidth_pos [of b] by auto
  note pull = refines_pull_right [OF wf l(1) b(1) _ l(2) b(2)]
  show "simplifies ((if k = Add then AddExpr_create l b else SubExpr_create l b) \<bind> AddExpr_create_cl w c)
      (add_e l (BinaryExpr k (ConstantExpr w c) b))"
    using k IH b l pull
    by (auto simp: AddSub_ok_def intro: simplifies_trans [OF simplifies_then_constant(1)])
  show "simplifies ((if k = Add then SubExpr_create l b else AddExpr_create l b) \<bind> (\<lambda>t. SubExpr_create_cr t w c))
      (sub_e l (BinaryExpr k (ConstantExpr w c) b))"
    using k IH b l pull
    by (auto simp: AddSub_ok_def intro: simplifies_trans [OF simplifies_then_constant(3)])
qed


lemma AddSub_create_constant_cases:
  assumes "wf_expr l" "wf_expr r" "getWidth l = getWidth r" "isConstantExpr l \<or> isConstantExpr r"
  shows "simplifies (AddExpr_create l r) (add_e l r)" "simplifies (SubExpr_create l r) (sub_e l r)"
proof -
  have "simplifies (BCREATE_R Add AddExpr_createPartial AddExpr_createPartialR (\<lambda>l r. None) l r) (add_e l r)"
    using assms AddExpr_createPartialR_simplifies AddExpr_createPartial_simplifies
    by (intro BCREATE_R_simplifies) (auto simp: isDivision_def)
  then show "simplifies (AddExpr_create l r) (add_e l r)"
    using assms(4) unfolding AddExpr_create.simps [of l r] BCREATE_R_def
    by (auto simp: nonconst_iff split: option.splits)
  have "simplifies (BCREATE_R Sub SubExpr_createPartial SubExpr_createPartialR (\<lambda>l r. None) l r) (sub_e l r)"
    using assms SubExpr_createPartialR_simplifies SubExpr_createPartial_simplifies
    by (intro BCREATE_R_simplifies) (auto simp: isDivision_def)
  then show "simplifies (SubExpr_create l r) (sub_e l r)"
    using assms(4) unfolding SubExpr_create.simps [of l r] BCREATE_R_def
    by (auto simp: nonconst_iff split: option.splits)
qed

lemma AddSub_ok_step:
  assumes IH: "\<And>x y. size x + size y < size l + size r \<Longrightarrow> AddSub_ok x y"
    and wf: "wf_expr l" "wf_expr r" "getWidth l = w" "getWidth r = w"
    and nc: "\<not> isConstantExpr l" "\<not> isConstantExpr r" and w: "w \<noteq> 1"
  shows "simplifies (AddExpr_create l r) (add_e l r) \<and> (l \<noteq> r \<longrightarrow> simplifies (SubExpr_create l r) (sub_e l r))"
proof -
  have nc': "dyn_cast_ConstantExpr l = None" "dyn_cast_ConstantExpr r = None"
    using nc by (simp_all add: nonconst_iff)
  note simps = AddExpr_create.simps [of l r] SubExpr_create.simps [of l r] wf nc' w [simplified]
  have Sub: "Sub \<in> {Add, Sub}" by simp
  note left = constant_on_leftE [OF wf(1,3), case_names none some]
    and right = constant_on_leftE [OF wf(2,4), case_names none some]
  show ?thesis
  proof (cases rule: left [OF insertI1, case_names none some])
    case (some c a)
    have "AddSub_ok a r" "AddSub_ok r a" using some(6) by (auto intro!: IH)
    from AddSub_ok_left [OF insertI1 wf(2,4) some(3-5) this] show ?thesis
      by (simp add: simps some(2)) (simp add: some(1))
  next
    case none
    note lAdd = none
    show ?thesis
    proof (cases rule: left [OF Sub, case_names none some])
      case (some c a)
      have "AddSub_ok a r" "AddSub_ok r a" using some(6) by (auto intro!: IH)
      from AddSub_ok_left [OF Sub wf(2,4) some(3-5) this] show ?thesis
        by (simp add: simps lAdd some(2)) (simp add: some(1))
    next
      case none
      note lSub = none
      show ?thesis
      proof (cases rule: right [OF insertI1, case_names none some])
        case (some c b)
        have "AddSub_ok l b" using some(6) by (auto intro!: IH)
        from AddSub_ok_right [OF insertI1 wf(1,3) some(3-5) this] show ?thesis
          by (simp add: simps lAdd lSub some(2)) (simp add: some(1))
      next
        case none
        note rAdd = none
        show ?thesis
        proof (cases rule: right [OF Sub, case_names none some])
          case (some c b)
          have "AddSub_ok l b" using some(6) by (auto intro!: IH)
          from AddSub_ok_right [OF Sub wf(1,3) some(3-5) this] show ?thesis
            by (simp add: simps lAdd lSub rAdd some(2)) (simp add: some(1))
        qed (simp add: simps lAdd lSub rAdd)
      qed
    qed
  qed
qed

lemma AddSub_ok: "AddSub_ok l r"
proof (induction "size l + size r" arbitrary: l r rule: less_induct)
  case (less l r)
  show ?case unfolding AddSub_ok_def
  proof (intro impI)
    assume wf: "wf_expr l" "wf_expr r" "getWidth l = getWidth r"
    show "simplifies (AddExpr_create l r) (add_e l r) \<and> simplifies (SubExpr_create l r) (sub_e l r)"
    proof (cases "isConstantExpr l \<or> isConstantExpr r")
      case True
      with wf show ?thesis using AddSub_create_constant_cases by blast
    next
      case nc: False
      have same: "simplifies (SubExpr_create l l) (sub_e l l)" if "getWidth l \<noteq> 1"
        using that nc wf wf_getWidth_pos [of l]
        by (auto simp: SubExpr_create.simps [of l l] nonconst_iff intro!: refines_BinaryI split: option.splits)
      show ?thesis
      proof (cases "getWidth l = 1")
        case True
        have "dyn_cast_ConstantExpr l = None" "dyn_cast_ConstantExpr r = None"
          using nc by (simp_all add: nonconst_iff)
        with True wf show ?thesis using refines_bool [of l r]
          by (simp add: AddExpr_create.simps [of l r] SubExpr_create.simps [of l r] XorExpr_create_static_def)
      next
        case False
        have "\<not> isConstantExpr l" "\<not> isConstantExpr r" using nc by simp_all
        from AddSub_ok_step [OF less wf(1,2) refl wf(3) [symmetric] this False] same [OF False]
        show ?thesis by (cases "l = r") simp_all
      qed
    qed
  qed
qed

lemma AddExpr_create_simplifies:
  "wf_expr l \<Longrightarrow> wf_expr r \<Longrightarrow> getWidth l = getWidth r \<Longrightarrow> simplifies (AddExpr_create l r) (add_e l r)"
  using AddSub_ok [of l r] by (simp add: AddSub_ok_def)

lemma SubExpr_create_simplifies:
  "wf_expr l \<Longrightarrow> wf_expr r \<Longrightarrow> getWidth l = getWidth r \<Longrightarrow> simplifies (SubExpr_create l r) (sub_e l r)"
  using AddSub_ok [of l r] by (simp add: AddSub_ok_def)

end
