(* ===== verification/ExprStructCorrect.thy ===== *)
theory ExprStructCorrect
  imports ExprArithCorrect
begin

text \<open>
  Correctness of the structural constructors: selection, concatenation and extraction,
  casts, reads through an update list, and of the dispatchers \<open>rebuild\<close> and \<open>createTempRead\<close>.
\<close>

unbundle bit_operations_syntax

section \<open>Arithmetic of concatenation and extraction\<close>

lemma push_bit_or_eq_add: "b < 2 ^ n \<Longrightarrow> push_bit n a OR b = a * 2 ^ n + (b::nat)"
proof -
  assume b: "b < 2 ^ n"
  have "bit b i \<Longrightarrow> i < n" for i
    using b by (metis bit_take_bit_iff take_bit_nat_eq_self)
  then have "push_bit n a AND b = 0"
    by (intro bit_eqI) (fastforce simp: bit_and_iff bit_push_bit_iff)
  then have "push_bit n a OR b = push_bit n a + b" by (simp add: disjunctive_add_eq_or)
  then show ?thesis by (simp add: push_bit_eq_mult)
qed

lemma ConstantExpr_Concat_eq:
  "a < 2 ^ wl \<Longrightarrow> b < 2 ^ wr \<Longrightarrow> ConstantExpr_Concat wl a wr b = ConstantExpr (wl + wr) (bv_concat wr a b)"
proof -
  assume a: "a < 2 ^ wl" and b: "b < 2 ^ wr"
  have "push_bit wr a < 2 ^ (wl + wr)"
    using mult_add_less_two_power [OF a, of 0 wr] by (simp add: push_bit_eq_mult)
  with b show ?thesis by (simp add: ConstantExpr_Concat_def bv_concat_def push_bit_or_eq_add)
qed

lemma ConstantExpr_Extract_eq:
  assumes a: "a < 2 ^ w" and off: "off + wout \<le> w" "0 < wout"
  shows "ConstantExpr_Extract w a off wout = ConstantExpr wout (bv_extract off wout a)"
proof -
  have "(2::int) ^ w = 2 ^ off * 2 ^ (w - off)" using off by (simp flip: power_add)
  then have "(int a - 2 ^ w) div 2 ^ off = int a div 2 ^ off - 2 ^ (w - off)"
    using div_mult_self2 [of "2 ^ off" "int a" "- (2 ^ (w - off))"] by simp
  moreover have "(2::int) ^ wout dvd 2 ^ (w - off)" using off by (intro le_imp_power_dvd) simp
  ultimately have "sval w a div 2 ^ off mod 2 ^ wout = int a div 2 ^ off mod 2 ^ wout"
    by (auto simp: sval_def mod_diff_eq [symmetric, of "int a div 2 ^ off"])
  then have "int (wrap wout (sval w a div 2 ^ off)) = int (a div 2 ^ off mod 2 ^ wout)"
    by (simp add: int_wrap zdiv_int zmod_int)
  then have "wrap wout (sval w a div 2 ^ off) = a div 2 ^ off mod 2 ^ wout"
    by (simp only: of_nat_eq_iff)
  then show ?thesis
    using off by (simp add: ConstantExpr_Extract_def bv_ashr_def bv_extract_def wrap_mod_smaller)
qed

lemma bv_extract_full: "a < 2 ^ w \<Longrightarrow> bv_extract 0 w a = a"
  by (simp add: bv_extract_def)

lemma bv_concat_div: "b < 2 ^ wr \<Longrightarrow> bv_concat wr a b div 2 ^ wr = a"
  by (simp add: bv_concat_def)

lemma bv_extract_concat_high:
  assumes "b < 2 ^ wr" "wr \<le> off"
  shows "bv_extract off w (bv_concat wr a b) = bv_extract (off - wr) w a"
proof -
  have "bv_concat wr a b div 2 ^ off = bv_concat wr a b div 2 ^ wr div 2 ^ (off - wr)"
    using assms(2) by (simp add: div_mult2_eq two_power_split [of wr off])
  with assms(1) show ?thesis by (simp add: bv_extract_def bv_concat_div)
qed

lemma div_mod_two_power: "(a::nat) div 2 ^ m mod 2 ^ n = a mod 2 ^ (m + n) div 2 ^ m"
  by (simp add: power_add mod_mult2_eq)

lemma bv_extract_concat_low:
  assumes "off + w \<le> wr"
  shows "bv_extract off w (bv_concat wr a b) = bv_extract off w b"
proof -
  have "bv_concat wr a b mod 2 ^ (off + w) = b mod 2 ^ (off + w)"
    using assms by (metis bv_concat_def le_imp_power_dvd dvd_mult mod_add_left_eq mod_0_imp_dvd add_0 dvd_imp_mod_0)
  then show ?thesis by (simp add: bv_extract_def div_mod_two_power)
qed

lemma bv_extract_split:
  "bv_concat w1 (bv_extract (off + w1) w2 a) (bv_extract off w1 a) = bv_extract off (w2 + w1) a"
proof -
  have "a div 2 ^ off mod 2 ^ (w1 + w2) = 2 ^ w1 * (a div 2 ^ off div 2 ^ w1 mod 2 ^ w2) + a div 2 ^ off mod 2 ^ w1"
    by (simp add: power_add mod_mult2_eq)
  then show ?thesis
    by (simp add: bv_concat_def bv_extract_def power_add div_mult2_eq add.commute mult.commute)
qed


section \<open>Concatenation and extraction\<close>

lemma refines_extract_full:
  assumes "wf_expr e" shows "refines e (ExtractExpr e 0 (getWidth e))"
  using assms eval_less(1) [OF assms] by (auto intro!: refinesI simp: bind_eq_Some_conv bv_extract_full)

lemma eval_less_Some: "wf_expr e \<Longrightarrow> wf_asg \<sigma> \<Longrightarrow> eval \<sigma> e = Some v \<Longrightarrow> getWidth e = w \<Longrightarrow> v < 2 ^ w"
  using eval_less(1) by blast

lemma refines_extract_high:
  assumes "wf_expr l" "wf_expr r" "0 < w" "getWidth r \<le> off" "off + w \<le> getWidth l + getWidth r"
  shows "refines (ExtractExpr l (off - getWidth r) w) (ExtractExpr (ConcatExpr l r) off w)"
  using assms by (auto intro!: refinesI simp: bind_eq_Some_conv bv_extract_concat_high eval_less(1))

lemma refines_extract_low:
  assumes "wf_expr l" "wf_expr r" "0 < w" "off + w \<le> getWidth r"
  shows "refines (ExtractExpr r off w) (ExtractExpr (ConcatExpr l r) off w)"
  using assms by (auto intro!: refinesI simp: bind_eq_Some_conv bv_extract_concat_low)

lemma refines_extract_split:
  assumes "wf_expr l" "wf_expr r" "off < getWidth r" "getWidth r < off + w" "off + w \<le> getWidth l + getWidth r"
  shows "refines (ConcatExpr (ExtractExpr l 0 (w + off - getWidth r)) (ExtractExpr r off (getWidth r - off)))
    (ExtractExpr (ConcatExpr l r) off w)"
proof (rule refinesI)
  fix \<sigma> v assume asg: "wf_asg \<sigma>" and ev: "eval \<sigma> (ExtractExpr (ConcatExpr l r) off w) = Some v"
  from ev obtain a b where ab: "eval \<sigma> l = Some a" "eval \<sigma> r = Some b"
    and v: "v = bv_extract off w (bv_concat (getWidth r) a b)" by (auto simp: bind_eq_Some_conv)
  let ?w1 = "getWidth r - off" and ?w2 = "w + off - getWidth r"
  have "w = ?w2 + ?w1" using assms by simp
  then have "v = bv_concat ?w1 (bv_extract (off + ?w1) ?w2 (bv_concat (getWidth r) a b))
      (bv_extract off ?w1 (bv_concat (getWidth r) a b))"
    unfolding v bv_extract_split by simp
  moreover have "bv_extract (off + ?w1) ?w2 (bv_concat (getWidth r) a b) = bv_extract 0 ?w2 a"
    using assms(3) bv_extract_concat_high [OF eval_less(1) [OF assms(2) asg ab(2)]] by simp
  moreover have "bv_extract off ?w1 (bv_concat (getWidth r) a b) = bv_extract off ?w1 b"
    using assms(3) by (intro bv_extract_concat_low) simp
  ultimately show "eval \<sigma> (ConcatExpr (ExtractExpr l 0 ?w2) (ExtractExpr r off ?w1)) = Some v"
    using ab by simp
qed (use assms in auto)

lemma refines_merge_extracts:
  assumes "wf_expr (ExtractExpr x (off + wr) wl)" "wf_expr (ExtractExpr x off wr)"
  shows "refines (ExtractExpr x off (wl + wr)) (ConcatExpr (ExtractExpr x (off + wr) wl) (ExtractExpr x off wr))"
  using assms by (auto intro!: refinesI simp: bind_eq_Some_conv bv_extract_split)

lemma simplifies_Concat:
  assumes "simplifies ma l" "\<And>a. ma = Some a \<Longrightarrow> simplifies mb r"
    and "\<And>a b. ma = Some a \<Longrightarrow> mb = Some b \<Longrightarrow> wf_expr a \<Longrightarrow> wf_expr b \<Longrightarrow> simplifies (f a b) (ConcatExpr a b)"
  shows "simplifies (ma \<bind> (\<lambda>a. mb \<bind> f a)) (ConcatExpr l r)"
proof -
  from assms(1,2) obtain a b where "ma = Some a" "mb = Some b" and ab: "refines a l" "refines b r"
    by (auto elim!: simplifiesE)
  moreover from this assms(3) have "simplifies (f a b) (ConcatExpr a b)" by (auto dest: refines_wf)
  then have "simplifies (f a b) (ConcatExpr l r)"
    by (rule simplifies_trans) (rule refines_Concat [OF ab])
  ultimately show ?thesis by simp
qed

lemma ExtractExpr_create_base:
  assumes "wf_expr e" "0 < w" "off + w \<le> getWidth e"
    and "w = getWidth e \<or> isConstantExpr e \<or> dyn_cast_ConcatExpr e = None"
  shows "simplifies (ExtractExpr_create e off w) (ExtractExpr e off w)"
proof (cases "w = getWidth e")
  case True
  with assms refines_extract_full [of e] show ?thesis
    by (simp add: ExtractExpr_create.simps [of e 0 "getWidth e"])
next
  case nw: False
  show ?thesis
  proof (cases "dyn_cast_ConstantExpr e")
    case None
    moreover from this assms(4) nw have "dyn_cast_ConcatExpr e = None" by (simp add: nonconst_iff)
    ultimately show ?thesis using assms nw by (simp add: ExtractExpr_create.simps [of e off w])
  next
    case (Some p)
    then obtain we a where "e = ConstantExpr we a" by (cases p) auto
    with assms nw show ?thesis
      by (auto simp: ExtractExpr_create.simps [of "ConstantExpr we a" off w] ConstantExpr_Extract_eq
          intro!: refinesI)
  qed
qed

lemma ConcatExpr_ExtractExpr_create_simplifies:
  shows "wf_expr l \<Longrightarrow> wf_expr r \<Longrightarrow> simplifies (ConcatExpr_create l r) (ConcatExpr l r)"
    and "wf_expr e \<Longrightarrow> 0 < w \<Longrightarrow> off + w \<le> getWidth e \<Longrightarrow>
      simplifies (ExtractExpr_create e off w) (ExtractExpr e off w)"
proof (induction l r and e off w rule: ConcatExpr_create_ExtractExpr_create.induct)
  case (1 l r)
  show ?case
  proof (cases "isConstantExpr l \<and> isConstantExpr r")
    case True
    with 1(2,3) show ?thesis
      by (cases l; cases r) (auto simp: ConcatExpr_create.simps ConstantExpr_Concat_eq intro!: refinesI)
  next
    case nc: False
    show ?thesis
    proof (cases "contiguousExtracts l r")
      case None
      with nc 1(2,3) show ?thesis by (auto simp: ConcatExpr_create.simps [of l r])
    next
      case (Some p)
      then obtain x off where p: "contiguousExtracts l r = Some (x, off)" by (cases p) auto
      then obtain wl wr where lr: "l = ExtractExpr x (off + wr) wl" "r = ExtractExpr x off wr" by auto
      with 1(2,3) have "wf_expr x" "0 < wl + wr" "off + (wl + wr) \<le> getWidth x" by auto
      with 1(1) [OF nc p refl] lr have "simplifies (ExtractExpr_create x off (wl + wr)) (ExtractExpr x off (wl + wr))"
        by simp
      moreover have "ConcatExpr_create l r = ExtractExpr_create x off (wl + wr)"
        unfolding ConcatExpr_create.simps [of l r] p by (simp add: lr)
      ultimately show ?thesis
        using refines_merge_extracts 1(2,3) unfolding lr by (auto intro: simplifies_trans)
    qed
  qed
next
  case (2 e off w)
  show ?case
  proof (cases "w = getWidth e \<or> isConstantExpr e \<or> dyn_cast_ConcatExpr e = None")
    case True
    with 2(6-8) show ?thesis by (rule ExtractExpr_create_base)
  next
    case False
    then obtain l r where e: "dyn_cast_ConcatExpr e = Some (l, r)" by auto
    then have el: "e = ConcatExpr l r" by simp
    with 2(6) have wf: "wf_expr l" "wf_expr r" by auto
    have g: "\<not> \<not> (0 < w \<and> off + w \<le> getWidth e)" "w \<noteq> getWidth e" "dyn_cast_ConstantExpr e = None"
      using False 2(7,8) by (simp_all add: nonconst_iff)
    note IH = 2(1-5) [OF g e refl]
    have unf: "ExtractExpr_create e off w =
        (if getWidth r \<le> off then ExtractExpr_create l (off - getWidth r) w
         else if off + w \<le> getWidth r then ExtractExpr_create r off w
         else ExtractExpr_create l 0 (w + off - getWidth r) \<bind> (\<lambda>a.
              ExtractExpr_create r off (getWidth r - off) \<bind> (\<lambda>b. ConcatExpr_create a b)))"
      using g unfolding ExtractExpr_create.simps [of e off w] e by simp
    show ?thesis
    proof (cases "getWidth r \<le> off")
      case True
      with IH(1) wf 2(7,8) el have "simplifies (ExtractExpr_create l (off - getWidth r) w) (ExtractExpr l (off - getWidth r) w)"
        by simp
      with True refines_extract_high [OF wf 2(7) True] 2(8) show ?thesis
        unfolding unf unfolding el by (simp add: simplifies_trans)
    next
      case hi: False
      show ?thesis
      proof (cases "off + w \<le> getWidth r")
        case True
        with IH(2) [OF hi True wf(2) 2(7) True] refines_extract_low [OF wf 2(7) True] hi show ?thesis
          unfolding unf unfolding el by (simp add: simplifies_trans)
      next
        case lo: False
        have "simplifies (ExtractExpr_create l 0 (w + off - getWidth r) \<bind> (\<lambda>a.
              ExtractExpr_create r off (getWidth r - off) \<bind> (\<lambda>b. ConcatExpr_create a b)))
            (ConcatExpr (ExtractExpr l 0 (w + off - getWidth r)) (ExtractExpr r off (getWidth r - off)))"
          using IH(3,4) [OF hi lo] IH(5) [OF hi lo] wf hi lo 2(8) el by (intro simplifies_Concat) auto
        then show ?thesis
          using refines_extract_split [OF wf, of off w] hi lo 2(8)
          unfolding unf unfolding el by (simp add: simplifies_trans)
      qed
    qed
  qed
qed


lemmas ConcatExpr_create_simplifies = ConcatExpr_ExtractExpr_create_simplifies(1)
lemmas ExtractExpr_create_simplifies = ConcatExpr_ExtractExpr_create_simplifies(2)

section \<open>Division, shifts and comparisons\<close>

text \<open>On booleans every operation of this group has a shorter equivalent.\<close>

lemma two_cases: "a < 2 ^ Suc 0 \<Longrightarrow> (a::nat) = 0 \<or> a = 1"
  by auto

lemma sval_bool: "sval 1 0 = 0" "sval 1 1 = -1" "sval (Suc 0) (Suc 0) = -1" "sval (Suc 0) 0 = 0"
  by (simp_all add: sval_def)

lemma bin_value_on_bool:
  assumes "a < 2" "b < 2"
  shows "bin_value UDiv 1 a b = Some v \<Longrightarrow> v = a" "bin_value SDiv 1 a b = Some v \<Longrightarrow> v = a"
    "bin_value URem 1 a b = Some v \<Longrightarrow> v = 0" "bin_value SRem 1 a b = Some v \<Longrightarrow> v = 0"
    "bin_value AShr 1 a b = Some v \<Longrightarrow> v = a"
  using assms
  by (auto simp: less_2_cases_iff sval_bool bv_sdiv_def bv_srem_def bv_ashr_def wrap_def
      signed_divide_int_def signed_modulo_int_def split: if_splits)

lemma bin_value_via_not:
  assumes "a < 2" "b < 2"
  shows "bin_value Shl 1 a b = bin_value And 1 a (of_bool (b = 0))"
    "bin_value LShr 1 a b = bin_value And 1 a (of_bool (b = 0))"
    "bin_value Slt 1 a b = bin_value And 1 a (of_bool (b = 0))"
    "bin_value Sle 1 a b = bin_value Or 1 a (of_bool (b = 0))"
    "bin_value Ult 1 a b = bin_value And 1 (of_bool (a = 0)) b"
    "bin_value Ule 1 a b = bin_value Or 1 (of_bool (a = 0)) b"
  using assms by (auto simp: less_2_cases_iff sval_bool bv_shl_def bv_lshr_def wrap_def)

lemma createIsZero_then:
  assumes f: "\<And>n. wf_expr n \<Longrightarrow> getWidth n = 1 \<Longrightarrow> simplifies (f n) (g n)"
    and g: "\<And>n. refines n (BinaryExpr Eq e (ConstantExpr (getWidth e) 0)) \<Longrightarrow> refines (g n) e0"
    and e: "wf_expr e"
  shows "simplifies (createIsZero e \<bind> f) e0"
proof (rule simplifies_bind [OF createIsZero_simplifies [OF e]])
  fix n assume n: "refines n (BinaryExpr Eq e (ConstantExpr (getWidth e) 0))"
  then have "simplifies (f n) (g n)" by (intro f) (auto simp: refines_def)
  then show "simplifies (f n) e0" using g [OF n] by (rule simplifies_trans)
qed

lemma eval_isZero:
  "refines n (BinaryExpr Eq e (ConstantExpr (getWidth e) 0)) \<Longrightarrow> wf_asg \<sigma> \<Longrightarrow> eval \<sigma> e = Some a \<Longrightarrow>
   eval \<sigma> n = Some (of_bool (a = 0))"
  by (simp add: refines_def)

lemma isZero_wf:
  "refines n (BinaryExpr Eq e (ConstantExpr (getWidth e) 0)) \<Longrightarrow> wf_expr n \<and> getWidth n = Suc 0"
  by (simp add: refines_def)

lemma refines_via_not_right:
  assumes wf: "wf_expr l" "wf_expr r" "getWidth l = 1" "getWidth r = 1"
    and n: "refines n (BinaryExpr Eq r (ConstantExpr (getWidth r) 0))" and j: "\<not> isCmp j" "k \<noteq> And \<and> k \<noteq> Or"
    and v: "\<And>a b. a < 2 \<Longrightarrow> b < 2 \<Longrightarrow> bin_value k 1 a b = bin_value j 1 a (of_bool (b = 0))"
  shows "refines (BinaryExpr j l n) (BinaryExpr k l r)"
proof (rule refines_BinaryI)
  fix \<sigma> a b u
  assume "wf_asg \<sigma>" "eval \<sigma> l = Some a" "eval \<sigma> r = Some b" "a < 2 ^ getWidth r" "b < 2 ^ getWidth r"
    "bin_value k (getWidth r) a b = Some u"
  with wf v [of a b] eval_isZero [OF n, of \<sigma> b] show "eval \<sigma> (BinaryExpr j l n) = Some u" by simp
qed (use wf j isZero_wf [OF n] in auto)

lemma refines_via_not_left:
  assumes wf: "wf_expr l" "wf_expr r" "getWidth l = 1" "getWidth r = 1"
    and n: "refines n (BinaryExpr Eq l (ConstantExpr (getWidth l) 0))" and j: "\<not> isCmp j" "k \<noteq> And \<and> k \<noteq> Or"
    and v: "\<And>a b. a < 2 \<Longrightarrow> b < 2 \<Longrightarrow> bin_value k 1 a b = bin_value j 1 (of_bool (a = 0)) b"
  shows "refines (BinaryExpr j n r) (BinaryExpr k l r)"
proof (rule refines_BinaryI)
  fix \<sigma> a b u
  assume "wf_asg \<sigma>" "eval \<sigma> l = Some a" "eval \<sigma> r = Some b" "a < 2 ^ getWidth r" "b < 2 ^ getWidth r"
    "bin_value k (getWidth r) a b = Some u"
  with wf v [of a b] eval_isZero [OF n, of \<sigma> a] isZero_wf [OF n]
  show "eval \<sigma> (BinaryExpr j n r) = Some u" by simp
qed (use wf j isZero_wf [OF n] in auto)

lemma bool_special_simplifies:
  assumes wf: "wf_expr l" "wf_expr r" "getWidth l = 1" "getWidth r = 1"
  shows "simplifies (createIsZero r \<bind> AndExpr_create l) (BinaryExpr Shl l r)"
    "simplifies (createIsZero r \<bind> AndExpr_create l) (BinaryExpr LShr l r)"
    "simplifies (createIsZero r \<bind> AndExpr_create l) (BinaryExpr Slt l r)"
    "simplifies (createIsZero r \<bind> OrExpr_create l) (BinaryExpr Sle l r)"
    "simplifies (createIsZero l \<bind> (\<lambda>n. AndExpr_create n r)) (BinaryExpr Ult l r)"
    "simplifies (createIsZero l \<bind> (\<lambda>n. OrExpr_create n r)) (BinaryExpr Ule l r)"
proof -
  note R = refines_via_not_right [OF wf] and L = refines_via_not_left [OF wf]
  have And: "refines n (BinaryExpr Eq r (ConstantExpr (getWidth r) 0)) \<Longrightarrow> refines (BinaryExpr And l n) (BinaryExpr k l r)"
    if "k \<in> {Shl, LShr, Slt}" for k n
    using that by (elim R) (auto simp: bin_value_via_not [unfolded One_nat_def] simp del: bin_value.simps)
  have Or: "refines n (BinaryExpr Eq r (ConstantExpr (getWidth r) 0)) \<Longrightarrow> refines (BinaryExpr Or l n) (BinaryExpr Sle l r)"
    for n by (elim R) (auto simp: bin_value_via_not [unfolded One_nat_def] simp del: bin_value.simps)
  have AndL: "refines n (BinaryExpr Eq l (ConstantExpr (getWidth l) 0)) \<Longrightarrow> refines (BinaryExpr And n r) (BinaryExpr Ult l r)"
    for n by (elim L) (auto simp: bin_value_via_not [unfolded One_nat_def] simp del: bin_value.simps)
  have OrL: "refines n (BinaryExpr Eq l (ConstantExpr (getWidth l) 0)) \<Longrightarrow> refines (BinaryExpr Or n r) (BinaryExpr Ule l r)"
    for n by (elim L) (auto simp: bin_value_via_not [unfolded One_nat_def] simp del: bin_value.simps)
  have "simplifies (createIsZero r \<bind> AndExpr_create l) (BinaryExpr k l r)" if "k \<in> {Shl, LShr, Slt}" for k
    by (rule createIsZero_then [where g = "BinaryExpr And l"])
      (use wf And [OF that] in \<open>simp_all add: AndExpr_create_simplifies\<close>)
  then show "simplifies (createIsZero r \<bind> AndExpr_create l) (BinaryExpr Shl l r)"
    "simplifies (createIsZero r \<bind> AndExpr_create l) (BinaryExpr LShr l r)"
    "simplifies (createIsZero r \<bind> AndExpr_create l) (BinaryExpr Slt l r)" by simp_all
  show "simplifies (createIsZero r \<bind> OrExpr_create l) (BinaryExpr Sle l r)"
    by (rule createIsZero_then [where g = "BinaryExpr Or l"])
      (use wf Or in \<open>simp_all add: OrExpr_create_simplifies\<close>)
  show "simplifies (createIsZero l \<bind> (\<lambda>n. AndExpr_create n r)) (BinaryExpr Ult l r)"
    by (rule createIsZero_then [where g = "\<lambda>n. BinaryExpr And n r"])
      (use wf AndL in \<open>simp_all add: AndExpr_create_simplifies\<close>)
  show "simplifies (createIsZero l \<bind> (\<lambda>n. OrExpr_create n r)) (BinaryExpr Ule l r)"
    by (rule createIsZero_then [where g = "\<lambda>n. BinaryExpr Or n r"])
      (use wf OrL in \<open>simp_all add: OrExpr_create_simplifies\<close>)
qed

section \<open>Division, shifts and comparisons\<close>

text \<open>
  The one precondition beyond typing: a division of a constant by the constant zero is an
  assertion failure of the constant folder.
\<close>

definition foldable :: "binkind \<Rightarrow> expr \<Rightarrow> expr \<Rightarrow> bool" where
  "foldable k l r \<longleftrightarrow> \<not> (isDivision k \<and> isConstantExpr l \<and> r = ConstantExpr (getWidth l) 0)"

lemma foldable_not_division [simp]: "\<not> isDivision k \<Longrightarrow> foldable k l r"
  by (simp add: foldable_def)

lemma refines_bool_operand:
  assumes "wf_expr l" "wf_expr r" "getWidth l = 1" "getWidth r = 1"
  shows "refines l (BinaryExpr UDiv l r)" "refines l (BinaryExpr SDiv l r)"
    "refines (ConstantExpr 1 0) (BinaryExpr URem l r)" "refines (ConstantExpr 1 0) (BinaryExpr SRem l r)"
    "refines l (BinaryExpr AShr l r)"
proof -
  have on_bool: "refines e (BinaryExpr k l r)"
    if "wf_expr e" "getWidth e = 1" "\<not> isCmp k" "k \<noteq> And \<and> k \<noteq> Or"
      "\<And>\<sigma> a b v. a < 2 \<Longrightarrow> b < 2 \<Longrightarrow> eval \<sigma> l = Some a \<Longrightarrow> bin_value k 1 a b = Some v \<Longrightarrow> eval \<sigma> e = Some v"
    for e k using assms that by (intro refines_BinaryI) auto
  show "refines l (BinaryExpr UDiv l r)"
    by (rule on_bool) (use assms in \<open>simp_all del: bin_value.simps\<close>, blast dest: bin_value_on_bool(1) [unfolded One_nat_def])
  show "refines l (BinaryExpr SDiv l r)"
    by (rule on_bool) (use assms in \<open>simp_all del: bin_value.simps\<close>, blast dest: bin_value_on_bool(2) [unfolded One_nat_def])
  show "refines (ConstantExpr 1 0) (BinaryExpr URem l r)"
    by (rule on_bool) (simp_all del: bin_value.simps, blast dest: bin_value_on_bool(3) [unfolded One_nat_def])
  show "refines (ConstantExpr 1 0) (BinaryExpr SRem l r)"
    by (rule on_bool) (simp_all del: bin_value.simps, blast dest: bin_value_on_bool(4) [unfolded One_nat_def])
  show "refines l (BinaryExpr AShr l r)"
    by (rule on_bool) (use assms in \<open>simp_all del: bin_value.simps\<close>, blast dest: bin_value_on_bool(5) [unfolded One_nat_def])
qed

lemma division_create_simplifies:
  assumes "wf_expr l" "wf_expr r" "getWidth l = getWidth r"
  shows "foldable UDiv l r \<Longrightarrow> simplifies (UDivExpr_create l r) (BinaryExpr UDiv l r)"
    "foldable SDiv l r \<Longrightarrow> simplifies (SDivExpr_create l r) (BinaryExpr SDiv l r)"
    "foldable URem l r \<Longrightarrow> simplifies (URemExpr_create l r) (BinaryExpr URem l r)"
    "foldable SRem l r \<Longrightarrow> simplifies (SRemExpr_create l r) (BinaryExpr SRem l r)"
  unfolding UDivExpr_create_def SDivExpr_create_def URemExpr_create_def SRemExpr_create_def
  by (rule BCREATE_simplifies; use assms in \<open>simp add: foldable_def refines_bool_operand [unfolded One_nat_def]\<close>)+

lemma shift_create_simplifies:
  assumes "wf_expr l" "wf_expr r" "getWidth l = getWidth r"
  shows "simplifies (ShlExpr_create l r) (BinaryExpr Shl l r)"
    "simplifies (LShrExpr_create l r) (BinaryExpr LShr l r)"
    "simplifies (AShrExpr_create l r) (BinaryExpr AShr l r)"
  unfolding ShlExpr_create_def LShrExpr_create_def AShrExpr_create_def
  by (rule BCREATE_simplifies; use assms in
      \<open>simp add: isDivision_def refines_bool_operand bool_special_simplifies [unfolded One_nat_def]\<close>)+

lemma less_create_simplifies:
  assumes "wf_expr l" "wf_expr r" "getWidth l = getWidth r"
  shows "simplifies (UltExpr_create l r) (BinaryExpr Ult l r)"
    "simplifies (UleExpr_create l r) (BinaryExpr Ule l r)"
    "simplifies (SltExpr_create l r) (BinaryExpr Slt l r)"
    "simplifies (SleExpr_create l r) (BinaryExpr Sle l r)"
  unfolding UltExpr_create_def UleExpr_create_def SltExpr_create_def SleExpr_create_def
  by (rule BCREATE_simplifies; use assms in \<open>simp add: isDivision_def bool_special_simplifies [unfolded One_nat_def]\<close>)+

lemma refines_swap:
  assumes "wf_expr l" "wf_expr r" "getWidth l = getWidth r"
  shows "refines (BinaryExpr Ult r l) (BinaryExpr Ugt l r)" "refines (BinaryExpr Ule r l) (BinaryExpr Uge l r)"
    "refines (BinaryExpr Slt r l) (BinaryExpr Sgt l r)" "refines (BinaryExpr Sle r l) (BinaryExpr Sge l r)"
  by (rule refines_BinaryI; use assms in simp)+

lemma greater_create_simplifies:
  assumes "wf_expr l" "wf_expr r" "getWidth l = getWidth r"
  shows "simplifies (UgtExpr_create l r) (BinaryExpr Ugt l r)"
    "simplifies (UgeExpr_create l r) (BinaryExpr Uge l r)"
    "simplifies (SgtExpr_create l r) (BinaryExpr Sgt l r)"
    "simplifies (SgeExpr_create l r) (BinaryExpr Sge l r)"
  unfolding UgtExpr_create_def UgeExpr_create_def SgtExpr_create_def SgeExpr_create_def
  by (rule simplifies_trans [OF less_create_simplifies(1) refines_swap(1)]
      simplifies_trans [OF less_create_simplifies(2) refines_swap(2)]
      simplifies_trans [OF less_create_simplifies(3) refines_swap(3)]
      simplifies_trans [OF less_create_simplifies(4) refines_swap(4)]; use assms in simp)+

lemma NeExpr_create_simplifies:
  assumes "wf_expr l" "wf_expr r" "getWidth l = getWidth r"
  shows "simplifies (NeExpr_create l r) (BinaryExpr Ne l r)"
  unfolding NeExpr_create_def
proof (rule simplifies_bind [OF EqExpr_create_simplifies [OF assms]])
  fix e assume e: "refines e (BinaryExpr Eq l r)"
  then have "simplifies (EqExpr_create (ConstantExpr 1 0) e) (BinaryExpr Eq (ConstantExpr 1 0) e)"
    using refines_width [OF e] refines_wf [OF e] by (intro EqExpr_create_simplifies) auto
  moreover have "refines (BinaryExpr Eq (ConstantExpr 1 0) e) (BinaryExpr Ne l r)"
    by (rule refines_BinaryI) (use assms e in \<open>auto simp: refines_def\<close>)
  ultimately show "simplifies (EqExpr_create (ConstantExpr 1 0) e) (BinaryExpr Ne l r)"
    by (rule simplifies_trans)
qed

end
