(* ===== verification/ExprRebuild.thy ===== *)
theory ExprRebuild
  imports ExprStructCorrect
begin

text \<open>
  Selection, casts and reads are correct, and so are the dispatchers: \<open>BinaryExpr_create\<close>,
  \<open>CastExpr_create\<close>, \<open>createFromKind\<close> and \<open>rebuild\<close>, which every visitor uses to build an
  expression again over new children.
\<close>

section \<open>Selection\<close>

lemma eval_Select_SomeE:
  assumes "eval \<sigma> (SelectExpr c t f) = Some v" "wf_asg \<sigma>" "wf_expr c" "getWidth c = 1"
  obtains "eval \<sigma> c = Some 1" "eval \<sigma> t = Some v" | "eval \<sigma> c = Some 0" "eval \<sigma> f = Some v"
proof -
  from assms(1) obtain b where b: "eval \<sigma> c = Some b" "(if b = 1 then eval \<sigma> t else eval \<sigma> f) = Some v"
    by (auto simp: bind_eq_Some_conv)
  with assms eval_less(1) [of c \<sigma> b] have "b = 0 \<or> b = 1" by auto
  with b that show ?thesis by auto
qed

lemma refines_SelectI:
  assumes "wf_expr c" "getWidth c = 1" "wf_expr e" "getWidth e = getWidth t"
    and "\<And>\<sigma> v. wf_asg \<sigma> \<Longrightarrow> eval \<sigma> c = Some 1 \<Longrightarrow> eval \<sigma> t = Some v \<Longrightarrow> eval \<sigma> e = Some v"
    and "\<And>\<sigma> v. wf_asg \<sigma> \<Longrightarrow> eval \<sigma> c = Some 0 \<Longrightarrow> eval \<sigma> f = Some v \<Longrightarrow> eval \<sigma> e = Some v"
  shows "refines e (SelectExpr c t f)"
proof (rule refinesI)
  fix \<sigma> v assume "wf_asg \<sigma>" "eval \<sigma> (SelectExpr c t f) = Some v"
  then show "eval \<sigma> e = Some v" using assms(1,2) by (elim eval_Select_SomeE) (auto intro: assms(5,6))
qed (use assms in auto)

text \<open>A boolean operand beside a known one: \<open>bin_eval\<close> whatever the value of the other operand.\<close>

lemma bool_bin_eval:
  assumes "\<And>v. p = Some v \<Longrightarrow> v < 2"
  shows "bin_eval And 1 (Some 0) p = Some 0" "bin_eval Or 1 (Some 1) p = Some 1"
    "bin_eval And 1 (Some 1) p = p" "bin_eval Or 1 (Some 0) p = p"
  using assms by (cases p; auto simp: less_2_cases_iff)+

lemma bool_eval_less: "wf_expr e \<Longrightarrow> getWidth e = 1 \<Longrightarrow> wf_asg \<sigma> \<Longrightarrow> eval \<sigma> e = Some v \<Longrightarrow> v < 2"
  using eval_less(1) [of e \<sigma> v] by simp

lemma refines_Select_bool:
  assumes "wf_expr c" "wf_expr t" "wf_expr f" "getWidth c = 1" "getWidth t = 1" "getWidth f = 1"
  shows "refines (BinaryExpr Or c f) (SelectExpr c (ConstantExpr 1 1) f)"
    "refines (BinaryExpr And c t) (SelectExpr c t (ConstantExpr 1 0))"
    "refines n (BinaryExpr Eq c (ConstantExpr 1 0)) \<Longrightarrow>
      refines (BinaryExpr And n f) (SelectExpr c (ConstantExpr 1 0) f)"
    "refines n (BinaryExpr Eq c (ConstantExpr 1 0)) \<Longrightarrow>
      refines (BinaryExpr Or n t) (SelectExpr c t (ConstantExpr 1 1))"
proof -
  note b = bool_bin_eval [OF bool_eval_less [OF assms(2,5)]] bool_bin_eval [OF bool_eval_less [OF assms(3,6)]]
  show "refines (BinaryExpr Or c f) (SelectExpr c (ConstantExpr 1 1) f)"
    by (rule refines_SelectI) (use assms b in \<open>simp_all del: bin_eval.simps\<close>)
  show "refines (BinaryExpr And c t) (SelectExpr c t (ConstantExpr 1 0))"
    by (rule refines_SelectI) (use assms b in \<open>simp_all del: bin_eval.simps\<close>)
  assume n: "refines n (BinaryExpr Eq c (ConstantExpr 1 0))"
  then have n0: "eval \<sigma> n = Some (of_bool (a = 0))" if "wf_asg \<sigma>" "eval \<sigma> c = Some a" for \<sigma> a
    using eval_isZero [of n c] that assms(4) by simp
  have wf: "wf_expr n" "getWidth n = 1" using n assms by (auto simp: refines_def)
  show "refines (BinaryExpr And n f) (SelectExpr c (ConstantExpr 1 0) f)"
    by (rule refines_SelectI) (use assms b n0 wf in \<open>simp_all del: bin_eval.simps\<close>)
  show "refines (BinaryExpr Or n t) (SelectExpr c t (ConstantExpr 1 1))"
    by (rule refines_SelectI) (use assms b n0 wf in \<open>simp_all del: bin_eval.simps\<close>)
qed

lemma bool_constant:
  assumes "dyn_cast_ConstantExpr e = Some (w, v)" "wf_expr e" "getWidth e = 1"
  shows "e = (if ConstantExpr_isTrue w v then ConstantExpr 1 1 else ConstantExpr 1 0)"
  using assms by (auto simp: ConstantExpr_isTrue_def)

lemma SelectExpr_create_simplifies:
  assumes wf: "wf_expr c" "wf_expr t" "wf_expr f" "getWidth c = 1" "getWidth t = getWidth f"
  shows "simplifies (SelectExpr_create c t f) (SelectExpr c t f)"
proof (cases "dyn_cast_ConstantExpr c = None \<and> t \<noteq> f \<and> getWidth t = 1
    \<and> (dyn_cast_ConstantExpr t \<noteq> None \<or> dyn_cast_ConstantExpr f \<noteq> None)")
  case False
  then show ?thesis using wf
    by (auto simp: SelectExpr_create_def ConstantExpr_isTrue_def intro!: refines_SelectI split: option.splits)
next
  case True
  with wf have w1: "getWidth t = 1" "getWidth f = 1" by auto
  note R = refines_Select_bool [OF wf(1-4) w1]
  have isZero: "simplifies (createIsZero c \<bind> g) e0"
    if "\<And>n. refines n (BinaryExpr Eq c (ConstantExpr 1 0)) \<Longrightarrow> simplifies (g n) e0" for g e0
    using simplifies_bind [OF createIsZero_simplifies [OF wf(1)]] that wf(4) by simp
  have n: "wf_expr n \<and> getWidth n = 1" if "refines n (BinaryExpr Eq c (ConstantExpr 1 0))" for n
    using that by (simp add: refines_def)
  show ?thesis
  proof (cases "dyn_cast_ConstantExpr t")
    case (Some p)
    with bool_constant [of t "fst p" "snd p"] wf w1
    have t: "t = (if ConstantExpr_isTrue (fst p) (snd p) then ConstantExpr 1 1 else ConstantExpr 1 0)" by simp
    have "simplifies (OrExpr_create c f) (SelectExpr c (ConstantExpr 1 1) f)"
      using wf w1 by (intro simplifies_trans [OF OrExpr_create_simplifies R(1)]) auto
    moreover have "simplifies (createIsZero c \<bind> (\<lambda>n. AndExpr_create n f)) (SelectExpr c (ConstantExpr 1 0) f)"
      by (rule isZero, rule simplifies_trans [OF AndExpr_create_simplifies R(3)]) (use n wf w1 in auto)
    ultimately show ?thesis
      using True Some t wf w1 by (auto simp: SelectExpr_create_def split: if_splits)
  next
    case None
    with True obtain p where p: "dyn_cast_ConstantExpr f = Some p" by auto
    with bool_constant [of f "fst p" "snd p"] wf w1
    have f: "f = (if ConstantExpr_isTrue (fst p) (snd p) then ConstantExpr 1 1 else ConstantExpr 1 0)" by simp
    have "simplifies (AndExpr_create c t) (SelectExpr c t (ConstantExpr 1 0))"
      using wf w1 by (intro simplifies_trans [OF AndExpr_create_simplifies R(2)]) auto
    moreover have "simplifies (createIsZero c \<bind> (\<lambda>n. OrExpr_create n t)) (SelectExpr c t (ConstantExpr 1 1))"
      by (rule isZero, rule simplifies_trans [OF OrExpr_create_simplifies R(4)]) (use n wf w1 in auto)
    ultimately show ?thesis
      using True None p f wf w1 by (auto simp: SelectExpr_create_def split: if_splits)
  qed
qed

section \<open>Casts\<close>

lemma CastExpr_create_extends:
  assumes "wf_expr e" "getWidth e < w"
  shows "simplifies (CastExpr_create k e w) (CastExpr k e w)"
proof -
  have "e = ConstantExpr (getWidth e) a \<Longrightarrow> a < 2 ^ w" for a
    using assms power_strict_increasing [of "getWidth e" w "2::nat"] by (metis less_trans one_less_numeral_iff
      semiring_norm(76) wf_expr.simps(1))
  with assms show ?thesis
    by (cases k) (auto simp: ZExtExpr_create_def SExtExpr_create_def ConstantExpr_ZExt_def ConstantExpr_SExt_def
        intro!: refinesI split: option.splits)
qed

lemma CastExpr_create_truncates:
  assumes "wf_expr e" "0 < w" "w \<le> getWidth e"
  shows "simplifies (CastExpr_create k e w) (ExtractExpr e 0 w)"
  using assms
  by (cases k) (auto simp: ZExtExpr_create_def SExtExpr_create_def refines_extract_full
      intro: ExtractExpr_create_simplifies)

section \<open>Reads\<close>

text \<open>An update whose index surely differs can be skipped, one whose index surely agrees answers the read.\<close>

lemma refines_read_skip:
  assumes "refines (ConstantExpr 1 0) (BinaryExpr Eq index i)" "wf_expr (ReadExpr a us index)"
  shows "refines (ReadExpr a us index) (ReadExpr a (UpdateNode i v us) index)"
proof (rule refinesI)
  fix \<sigma> u assume \<sigma>: "wf_asg \<sigma>" and "eval \<sigma> (ReadExpr a (UpdateNode i v us) index) = Some u"
  then obtain j k where j: "eval \<sigma> index = Some j" "eval \<sigma> i = Some k"
    "(if k = j then eval \<sigma> v else read_updates \<sigma> a us j) = Some u"
    by (auto simp: bind_eq_Some_conv)
  with refines_eval [OF assms(1) \<sigma>, of "of_bool (j = k)"] have "j \<noteq> k" by auto
  with j show "eval \<sigma> (ReadExpr a us index) = Some u" by simp
qed (use assms in auto)

lemma refines_read_hit:
  assumes "refines (ConstantExpr 1 1) (BinaryExpr Eq index i)" "wf_expr v" "getWidth v = arr_range a"
  shows "refines v (ReadExpr a (UpdateNode i v us) index)"
proof (rule refinesI)
  fix \<sigma> u assume \<sigma>: "wf_asg \<sigma>" and "eval \<sigma> (ReadExpr a (UpdateNode i v us) index) = Some u"
  then obtain j k where j: "eval \<sigma> index = Some j" "eval \<sigma> i = Some k"
    "(if k = j then eval \<sigma> v else read_updates \<sigma> a us j) = Some u"
    by (auto simp: bind_eq_Some_conv)
  with refines_eval [OF assms(1) \<sigma>, of "of_bool (j = k)"] have "j = k" by (auto split: if_splits)
  with j show "eval \<sigma> v = Some u" by simp
qed (use assms in auto)

lemma ReadExpr_scan_ok:
  assumes "wf_array a" "wf_updates a us" "wf_expr index" "getWidth index = arr_domain a"
  shows "succeeds (ReadExpr_scan index us) (\<lambda>s. case s of
      Found v \<Rightarrow> refines v (ReadExpr a us index)
    | Stopped un b \<Rightarrow> refines (ReadExpr a un index) (ReadExpr a us index) \<and> (b \<or> un = NoUpdate))"
  using assms
proof (induction us rule: getSize.induct)
  case (2 i v us)
  note UpdateNode = 2
  then have "simplifies (EqExpr_create index i) (BinaryExpr Eq index i)"
    by (intro EqExpr_create_simplifies) auto
  then obtain cond where cond: "EqExpr_create index i = Some cond" "refines cond (BinaryExpr Eq index i)"
    by (rule simplifiesE)
  show ?case
  proof (cases "dyn_cast_ConstantExpr cond")
    case None
    with cond UpdateNode(2-) show ?thesis by simp
  next
    case (Some p)
    with bool_constant [of cond "fst p" "snd p"] cond
    have c: "cond = (if ConstantExpr_isTrue (fst p) (snd p) then ConstantExpr 1 1 else ConstantExpr 1 0)"
      by (simp add: refines_def)
    show ?thesis
    proof (cases "ConstantExpr_isTrue (fst p) (snd p)")
      case True
      with c cond(2) UpdateNode(2-) have "refines v (ReadExpr a (UpdateNode i v us) index)"
        by (intro refines_read_hit) auto
      with True Some cond(1) show ?thesis by (simp add: case_prod_beta)
    next
      case False
      with c cond(2) UpdateNode(2-) have "refines (ReadExpr a us index) (ReadExpr a (UpdateNode i v us) index)"
        by (intro refines_read_skip) auto
      with False Some cond(1) UpdateNode show ?thesis
        by (auto simp: case_prod_beta elim!: succeeds_mono intro: refines_trans split: read_scan.splits)
    qed
  qed
qed simp_all

lemma ReadExpr_create_simplifies:
  assumes "wf_array a" "wf_updates a us" "wf_expr index" "getWidth index = arr_domain a"
  shows "simplifies (ReadExpr_create a us index) (ReadExpr a us index)"
proof -
  have lookup: "refines (ConstantExpr (arr_range a) (arr_constantValues a ! c)) (ReadExpr a NoUpdate index)"
    if "isConstantArray a" "c < arr_size a" "index = ConstantExpr w c" for w c
    using that assms(1)
    by (intro refinesI) (auto simp: arr_init_def wf_array_def isConstantArray_def isSymbolicArray_def)
  have "arr_domain a \<le> 64" using assms(1) by (simp add: wf_array_def)
  with ReadExpr_scan_ok [OF assms] assms show ?thesis
    unfolding ReadExpr_create_def simplifies_def
    by (elim succeeds_bind) (auto split: read_scan.splits option.splits intro: refines_trans [OF lookup])
qed

section \<open>Dispatch\<close>

lemma BinaryExpr_create_simplifies:
  assumes "wf_expr l" "wf_expr r" "getWidth l = getWidth r" "foldable k l r"
  shows "simplifies (BinaryExpr_create k l r) (BinaryExpr k l r)"
  using assms
  by (cases k) (simp_all add: AddExpr_create_simplifies SubExpr_create_simplifies MulExpr_create_simplifies
      AndExpr_create_simplifies OrExpr_create_simplifies XorExpr_create_simplifies EqExpr_create_simplifies
      NeExpr_create_simplifies division_create_simplifies shift_create_simplifies less_create_simplifies
      greater_create_simplifies)

text \<open>Children that refine the old ones; \<open>foldable_kids\<close> is the precondition of constant division.\<close>

fun foldable_kids :: "expr \<Rightarrow> expr list \<Rightarrow> bool" where
  "foldable_kids (BinaryExpr k l r) [k0, k1] = foldable k k0 k1"
| "foldable_kids _ _ = True"

lemma rebuild_simplifies:
  assumes "wf_expr e" "\<not> isConstantExpr e" "list_all2 refines ks (getKids e)" "foldable_kids e ks"
  shows "simplifies (rebuild e ks) e"
proof (cases e)
  case (ReadExpr a us i)
  with assms obtain k0 where k: "ks = [k0]" "refines k0 i" by (auto simp: list_all2_Cons2)
  with assms ReadExpr have "simplifies (ReadExpr_create a us k0) (ReadExpr a us k0)"
    by (intro ReadExpr_create_simplifies) (auto simp: refines_def)
  with k ReadExpr assms show ?thesis by (auto elim!: simplifies_trans intro: refines_Read)
next
  case (SelectExpr c t f)
  with assms obtain k0 k1 k2 where k: "ks = [k0, k1, k2]" "refines k0 c" "refines k1 t" "refines k2 f"
    by (auto simp: list_all2_Cons2)
  with assms SelectExpr have "simplifies (SelectExpr_create k0 k1 k2) (SelectExpr k0 k1 k2)"
    by (intro SelectExpr_create_simplifies) (auto simp: refines_def)
  with k SelectExpr assms show ?thesis by (auto elim!: simplifies_trans intro: refines_Select)
next
  case (ConcatExpr l r)
  with assms obtain k0 k1 where k: "ks = [k0, k1]" "refines k0 l" "refines k1 r" by (auto simp: list_all2_Cons2)
  with assms ConcatExpr have "simplifies (ConcatExpr_create k0 k1) (ConcatExpr k0 k1)"
    by (intro ConcatExpr_create_simplifies) (auto simp: refines_def)
  with k ConcatExpr show ?thesis by (auto elim!: simplifies_trans intro: refines_Concat)
next
  case (ExtractExpr x off w)
  with assms obtain k0 where k: "ks = [k0]" "refines k0 x" by (auto simp: list_all2_Cons2)
  with assms ExtractExpr have "simplifies (ExtractExpr_create k0 off w) (ExtractExpr k0 off w)"
    by (intro ExtractExpr_create_simplifies) (auto simp: refines_def)
  with k ExtractExpr assms show ?thesis by (auto elim!: simplifies_trans intro: refines_Extract)
next
  case (CastExpr k x w)
  with assms obtain k0 where k: "ks = [k0]" "refines k0 x" by (auto simp: list_all2_Cons2)
  with assms CastExpr have "simplifies (CastExpr_create k k0 w) (CastExpr k k0 w)"
    by (intro CastExpr_create_extends) (auto simp: refines_def)
  with k CastExpr assms show ?thesis by (auto elim!: simplifies_trans intro: refines_Cast)
next
  case (BinaryExpr k l r)
  with assms obtain k0 k1 where k: "ks = [k0, k1]" "refines k0 l" "refines k1 r" by (auto simp: list_all2_Cons2)
  with assms BinaryExpr have "simplifies (BinaryExpr_create k k0 k1) (BinaryExpr k k0 k1)"
    by (intro BinaryExpr_create_simplifies) (auto simp: refines_def)
  with k BinaryExpr assms show ?thesis by (auto elim!: simplifies_trans intro: refines_Binary)
next
  case (NotExpr x)
  with assms obtain k0 where k: "ks = [k0]" "refines k0 x" by (auto simp: list_all2_Cons2)
  then show ?thesis using NotExpr NotExpr_create_simplifies [of k0]
    by (auto elim!: simplifies_trans intro: refines_Not simp: refines_wf)
next
  case (NotOptimizedExpr x)
  with assms obtain k0 where k: "ks = [k0]" "refines k0 x" by (auto simp: list_all2_Cons2)
  then show ?thesis using NotOptimizedExpr NotOptimizedExpr_create_simplifies [of k0]
    by (auto elim!: simplifies_trans intro: refines_NotOptimized simp: refines_wf)
qed (use assms in auto)

text \<open>If the precondition fails, the constant folder stops at its assertion.\<close>

lemma not_foldable_asserts:
  assumes "\<not> foldable k l r"
  shows "BinaryExpr_create k l r = None"
proof -
  obtain w c where l: "l = ConstantExpr w c" using assms by (cases l) (auto simp: foldable_def)
  from assms l show ?thesis
    by (cases k) (simp_all add: foldable_def isDivision_def UDivExpr_create_def SDivExpr_create_def
        URemExpr_create_def SRemExpr_create_def BCREATE_def)
qed

section \<open>Refinement under one assignment\<close>

definition refines_at :: "assignment \<Rightarrow> expr \<Rightarrow> expr \<Rightarrow> bool" where
  "refines_at \<sigma> e e0 \<longleftrightarrow> wf_expr e \<and> getWidth e = getWidth e0
     \<and> (\<forall>v. eval \<sigma> e0 = Some v \<longrightarrow> eval \<sigma> e = Some v)"

lemma refines_at_refl [simp, intro]: "wf_expr e \<Longrightarrow> refines_at \<sigma> e e"
  by (simp add: refines_at_def)

lemma refines_at_trans [trans]: "refines_at \<sigma> e e1 \<Longrightarrow> refines_at \<sigma> e1 e2 \<Longrightarrow> refines_at \<sigma> e e2"
  by (simp add: refines_at_def)

lemma refines_imp_at: "refines e e0 \<Longrightarrow> wf_asg \<sigma> \<Longrightarrow> refines_at \<sigma> e e0"
  by (simp add: refines_at_def refines_def)

lemma refines_at_wf: "refines_at \<sigma> e e0 \<Longrightarrow> wf_expr e"
  by (simp add: refines_at_def)

text \<open>The plain node over other children.\<close>

fun with_kids :: "expr \<Rightarrow> expr list \<Rightarrow> expr" where
  "with_kids (NotOptimizedExpr e) [k0] = NotOptimizedExpr k0"
| "with_kids (ReadExpr a us i) [k0] = ReadExpr a us k0"
| "with_kids (SelectExpr c t f) [k0, k1, k2] = SelectExpr k0 k1 k2"
| "with_kids (ConcatExpr l r) [k0, k1] = ConcatExpr k0 k1"
| "with_kids (ExtractExpr e off w) [k0] = ExtractExpr k0 off w"
| "with_kids (CastExpr k e w) [k0] = CastExpr k k0 w"
| "with_kids (NotExpr e) [k0] = NotExpr k0"
| "with_kids (BinaryExpr k l r) [k0, k1] = BinaryExpr k k0 k1"
| "with_kids e _ = e"

lemma with_kids_getKids [simp]: "with_kids e (getKids e) = e"
  by (cases e) auto

lemma list_all2_getKids_cases:
  assumes "list_all2 R ks (getKids e)" "\<not> isConstantExpr e"
  obtains (NotOptimized) x k0 where "e = NotOptimizedExpr x" "ks = [k0]" "R k0 x"
  | (Read) a us x k0 where "e = ReadExpr a us x" "ks = [k0]" "R k0 x"
  | (Select) c t f k0 k1 k2 where "e = SelectExpr c t f" "ks = [k0, k1, k2]" "R k0 c" "R k1 t" "R k2 f"
  | (Concat) l r k0 k1 where "e = ConcatExpr l r" "ks = [k0, k1]" "R k0 l" "R k1 r"
  | (Extract) x off w k0 where "e = ExtractExpr x off w" "ks = [k0]" "R k0 x"
  | (Cast) k x w k0 where "e = CastExpr k x w" "ks = [k0]" "R k0 x"
  | (Not) x k0 where "e = NotExpr x" "ks = [k0]" "R k0 x"
  | (Binary) k l r k0 k1 where "e = BinaryExpr k l r" "ks = [k0, k1]" "R k0 l" "R k1 r"
  using assms by (cases e) (auto simp: list_all2_Cons2)

lemma with_kids_refines_at:
  assumes wf: "wf_expr e" "\<not> isConstantExpr e" "wf_asg \<sigma>" and kids: "list_all2 (refines_at \<sigma>) ks (getKids e)"
  shows "refines_at \<sigma> (with_kids e ks) e"
  using kids wf(2)
proof (cases rule: list_all2_getKids_cases)
  case (Binary k l r k0 k1)
  have "bin_eval k (getWidth k0) (eval \<sigma> k0) (eval \<sigma> k1) = Some v"
    if v: "eval \<sigma> (BinaryExpr k l r) = Some v" for v
  proof (rule bin_eval_mono)
    show "bin_eval k (getWidth k0) (eval \<sigma> l) (eval \<sigma> r) = Some v"
      using v Binary by (simp add: refines_at_def)
  qed (use Binary wf eval_less(1) [of k0 \<sigma>] eval_less(1) [of k1 \<sigma>] in \<open>auto simp: refines_at_def\<close>)
  with Binary wf show ?thesis by (simp add: refines_at_def)
qed (use wf in \<open>auto simp: refines_at_def bind_eq_Some_conv\<close>)

lemma rebuild_with_kids:
  assumes "list_all2 R ks (getKids e)" "\<not> isConstantExpr e"
  shows "rebuild (with_kids e ks) ks = rebuild e ks" "getKids (with_kids e ks) = ks"
    "\<not> isConstantExpr (with_kids e ks)" "foldable_kids (with_kids e ks) ks = foldable_kids e ks"
  using assms by (cases rule: list_all2_getKids_cases; simp)+

text \<open>Typing alone: the part of refinement that needs no assignment.\<close>

definition typed_as :: "expr \<Rightarrow> expr \<Rightarrow> bool" where
  "typed_as e e0 \<longleftrightarrow> wf_expr e \<and> getWidth e = getWidth e0"

lemma refines_at_typed: "refines_at \<sigma> e e0 \<Longrightarrow> typed_as e e0"
  by (simp add: refines_at_def typed_as_def)

lemma refines_typed: "refines e e0 \<Longrightarrow> typed_as e e0"
  by (simp add: refines_def typed_as_def)

lemma with_kids_typed:
  assumes "wf_expr e" "\<not> isConstantExpr e" "list_all2 typed_as ks (getKids e)"
  shows "typed_as (with_kids e ks) e"
  using assms(3,2) by (cases rule: list_all2_getKids_cases) (use assms(1) in \<open>auto simp: typed_as_def\<close>)

lemma not_foldable_rebuild: "\<not> foldable_kids e ks \<Longrightarrow> rebuild e ks = None"
  using not_foldable_asserts by (cases "(e, ks)" rule: foldable_kids.cases) auto

lemma rebuild_with_kids_refines:
  assumes "wf_expr e" "\<not> isConstantExpr e" "list_all2 typed_as ks (getKids e)"
  shows "foldable_kids e ks \<Longrightarrow> succeeds (rebuild e ks) (\<lambda>e'. refines e' (with_kids e ks))"
    and "rebuild e ks = Some e' \<Longrightarrow> refines e' (with_kids e ks)"
proof -
  note rk = rebuild_with_kids [OF assms(3,2)]
  have "list_all wf_expr ks" using assms(3) by (auto simp: list_all2_conv_all_nth list_all_length typed_as_def)
  then have "list_all2 refines ks ks" by (simp add: list_all2_same list.pred_set)
  then show ok: "succeeds (rebuild e ks) (\<lambda>e'. refines e' (with_kids e ks))" if "foldable_kids e ks"
    using rebuild_simplifies [of "with_kids e ks" ks] with_kids_typed [OF assms] that
    unfolding rk simplifies_def by (simp add: rk typed_as_def)
  show "refines e' (with_kids e ks)" if e': "rebuild e ks = Some e'"
  proof (cases "foldable_kids e ks")
    case False
    with not_foldable_rebuild e' show ?thesis by simp
  qed (use ok e' in simp)
qed

lemma rebuild_typed:
  assumes "wf_expr e" "\<not> isConstantExpr e" "list_all2 typed_as ks (getKids e)" "rebuild e ks = Some e'"
  shows "typed_as e' e"
  using rebuild_with_kids_refines(2) [OF assms] with_kids_typed [OF assms(1-3)]
  by (simp add: typed_as_def refines_def)

lemma rebuild_at:
  assumes "wf_expr e" "\<not> isConstantExpr e" "wf_asg \<sigma>" "list_all2 (refines_at \<sigma>) ks (getKids e)"
  shows "foldable_kids e ks \<Longrightarrow> succeeds (rebuild e ks) (\<lambda>e'. refines_at \<sigma> e' e)"
    and "rebuild e ks = Some e' \<Longrightarrow> refines_at \<sigma> e' e"
proof -
  have typed: "list_all2 typed_as ks (getKids e)"
    by (rule list_all2_mono [OF assms(4) refines_at_typed])
  note wk = with_kids_refines_at [OF assms] and R = rebuild_with_kids_refines [OF assms(1,2) typed]
  have "refines x (with_kids e ks) \<Longrightarrow> refines_at \<sigma> x e" for x
    using wk assms(3) by (blast intro: refines_at_trans refines_imp_at)
  then show "foldable_kids e ks \<Longrightarrow> succeeds (rebuild e ks) (\<lambda>e'. refines_at \<sigma> e' e)"
    and "rebuild e ks = Some e' \<Longrightarrow> refines_at \<sigma> e' e"
    using R by (auto elim: succeeds_mono)
qed

section \<open>The properties of the smart constructors\<close>

definition isZeroExpr :: "expr \<Rightarrow> bool" where
  "isZeroExpr e \<longleftrightarrow> (\<exists>w. e = ConstantExpr w 0)"

text \<open>The contract, written out.\<close>

lemma simplifies_iff:
  "simplifies m e0 \<longleftrightarrow> (\<exists>e. m = Some e \<and> wf_expr e \<and> getWidth e = getWidth e0
     \<and> (\<forall>\<sigma> v. wf_asg \<sigma> \<longrightarrow> eval \<sigma> e0 = Some v \<longrightarrow> eval \<sigma> e = Some v))"
  by (simp add: simplifies_def succeeds_def refines_def)

text \<open>C1: every smart constructor for a binary operation (23 kinds) is correct. On well typed operands of
  one width, unless a constant is divided by the constant zero, it returns: no assertion fails, the
  result is well typed and has the width of the operation, and it has the value of the operation
  under every assignment for which the operation has one.\<close>

theorem BinaryExpr_create_correct:
  assumes "wf_expr l" "wf_expr r" "getWidth l = getWidth r"
    and "\<not> (k \<in> {UDiv, SDiv, URem, SRem} \<and> isConstantExpr l \<and> r = ConstantExpr (getWidth l) 0)"
  shows "\<exists>e. BinaryExpr_create k l r = Some e \<and> wf_expr e \<and> getWidth e = getWidth (BinaryExpr k l r)
    \<and> (\<forall>\<sigma> v. wf_asg \<sigma> \<longrightarrow> eval \<sigma> (BinaryExpr k l r) = Some v \<longrightarrow> eval \<sigma> e = Some v)"
proof -
  have "foldable k l r" using assms(4) by (simp add: foldable_def isDivision_def)
  from BinaryExpr_create_simplifies [OF assms(1-3) this] show ?thesis by (simp only: simplifies_iff)
qed

theorem BinaryExpr_create_correct_witness:
  "\<exists>e. BinaryExpr_create Add (BinaryExpr Add (ConstantExpr 8 200) (ex_read 0)) (ConstantExpr 8 100) = Some e \<and>
     wf_expr e \<and> getWidth e = 8"
  using BinaryExpr_create_correct [of "BinaryExpr Add (ConstantExpr 8 200) (ex_read 0)" "ConstantExpr 8 100" Add]
  by auto

text \<open>The assertions of the binary smart constructors fail exactly when the widths differ or a
  constant is divided by the constant zero.\<close>

theorem BinaryExpr_create_asserts:
  assumes "wf_expr l" "wf_expr r"
  shows "BinaryExpr_create k l r = None \<longleftrightarrow> getWidth l \<noteq> getWidth r
    \<or> k \<in> {UDiv, SDiv, URem, SRem} \<and> isConstantExpr l \<and> r = ConstantExpr (getWidth l) 0"
proof -
  have "BinaryExpr_create k l r = None" if "getWidth l \<noteq> getWidth r"
    using that by (cases k) (simp_all add: AddExpr_create.simps SubExpr_create.simps MulExpr_create_def
        AndExpr_create_def OrExpr_create_def XorExpr_create_def EqExpr_create_def NeExpr_create_def
        UDivExpr_create_def SDivExpr_create_def URemExpr_create_def SRemExpr_create_def ShlExpr_create_def
        LShrExpr_create_def AShrExpr_create_def UltExpr_create_def UleExpr_create_def SltExpr_create_def
        SleExpr_create_def UgtExpr_create_def UgeExpr_create_def SgtExpr_create_def SgeExpr_create_def
        BCREATE_def BCREATE_R_def)
  moreover have "foldable k l r \<longleftrightarrow> \<not> (k \<in> {UDiv, SDiv, URem, SRem} \<and> isConstantExpr l \<and> r = ConstantExpr (getWidth l) 0)"
    by (simp add: foldable_def isDivision_def)
  ultimately show ?thesis
    using BinaryExpr_create_simplifies [OF assms, of k] not_foldable_asserts [of k l r]
    by (metis not_None_eq option.distinct(1) simplifies_iff)
qed

theorem BinaryExpr_create_asserts_witness:
  "BinaryExpr_create UDiv (ConstantExpr 8 7) (ConstantExpr 8 0) = None \<and>
   BinaryExpr_create UDiv (ex_read 0) (ConstantExpr 8 0) \<noteq> None"
  using BinaryExpr_create_asserts [of "ConstantExpr 8 7" "ConstantExpr 8 0" UDiv]
    BinaryExpr_create_asserts [of "ex_read 0" "ConstantExpr 8 0" UDiv] by simp

text \<open>C17: a read through an update list may skip writes to other indices and may return the value of
  the write to this index, and it has the value of the plain read; no assertion fails.\<close>

theorem ReadExpr_create_correct:
  assumes "wf_array a" "wf_updates a us" "wf_expr index" "getWidth index = arr_domain a"
  shows "\<exists>e. ReadExpr_create a us index = Some e \<and> wf_expr e \<and> getWidth e = arr_range a
    \<and> (\<forall>\<sigma> v. wf_asg \<sigma> \<longrightarrow> eval \<sigma> (ReadExpr a us index) = Some v \<longrightarrow> eval \<sigma> e = Some v)"
  using ReadExpr_create_simplifies [OF assms] by (simp only: simplifies_iff getWidth.simps)

theorem ReadExpr_create_correct_witness:
  "\<exists>e. ReadExpr_create ex_array (UpdateNode (ConstantExpr 32 1) (ConstantExpr 8 7) NoUpdate) (ConstantExpr 32 1) = Some e
     \<and> wf_expr e \<and> getWidth e = 8"
  using ReadExpr_create_correct [of ex_array "UpdateNode (ConstantExpr 32 1) (ConstantExpr 8 7) NoUpdate" "ConstantExpr 32 1"]
  by auto

text \<open>\<open>SelectExpr::create\<close> is correct, with its rewrites of boolean selections to conjunctions and
  disjunctions, even where the branch that is not taken has no value.\<close>

theorem SelectExpr_create_correct:
  assumes "wf_expr c" "wf_expr t" "wf_expr f" "getWidth c = 1" "getWidth t = getWidth f"
  shows "\<exists>e. SelectExpr_create c t f = Some e \<and> wf_expr e \<and> getWidth e = getWidth t
    \<and> (\<forall>\<sigma> v. wf_asg \<sigma> \<longrightarrow> eval \<sigma> (SelectExpr c t f) = Some v \<longrightarrow> eval \<sigma> e = Some v)"
  using SelectExpr_create_simplifies [OF assms] by (simp only: simplifies_iff getWidth.simps)

theorem SelectExpr_create_correct_witness:
  "\<exists>e. SelectExpr_create (BinaryExpr Eq (ex_read 0) (ex_read 1)) (ConstantExpr 1 1)
       (BinaryExpr Ult (ex_read 1) (ex_read 2)) = Some e \<and> wf_expr e \<and> getWidth e = 1"
  using SelectExpr_create_correct [of "BinaryExpr Eq (ex_read 0) (ex_read 1)" "ConstantExpr 1 1"
      "BinaryExpr Ult (ex_read 1) (ex_read 2)"] by auto



text \<open>C19: \<open>ConcatExpr::create\<close> is correct, with the merge of adjoining extractions.\<close>

theorem ConcatExpr_create_correct:
  assumes "wf_expr l" "wf_expr r"
  shows "\<exists>e. ConcatExpr_create l r = Some e \<and> wf_expr e \<and> getWidth e = getWidth l + getWidth r
    \<and> (\<forall>\<sigma> a b. wf_asg \<sigma> \<longrightarrow> eval \<sigma> l = Some a \<longrightarrow> eval \<sigma> r = Some b \<longrightarrow>
      eval \<sigma> e = Some (a * 2 ^ getWidth r + b))"
  using ConcatExpr_create_simplifies [OF assms] by (auto simp: simplifies_iff bv_concat_def)

theorem ConcatExpr_create_correct_witness:
  "\<exists>e. ConcatExpr_create (ExtractExpr (ex_read 0) 4 4) (ExtractExpr (ex_read 0) 0 4) = Some e \<and> wf_expr e \<and> getWidth e = 8"
  using ConcatExpr_create_correct [of "ExtractExpr (ex_read 0) 4 4" "ExtractExpr (ex_read 0) 0 4"] by auto

text \<open>C20: \<open>rebuild\<close> over children that have the values of the old ones under an assignment has the value
  of the old expression under it; the only assertion that can fail is a division of a constant by
  the constant zero.\<close>

theorem rebuild_correct:
  assumes "wf_expr e" "\<not> isConstantExpr e" "wf_asg \<sigma>" "length ks = length (getKids e)"
    and "\<And>i. i < length ks \<Longrightarrow> wf_expr (ks ! i) \<and> getWidth (ks ! i) = getWidth (getKids e ! i)
      \<and> (\<forall>v. eval \<sigma> (getKids e ! i) = Some v \<longrightarrow> eval \<sigma> (ks ! i) = Some v)"
  shows "case rebuild e ks of
      Some e' \<Rightarrow> wf_expr e' \<and> getWidth e' = getWidth e \<and> (\<forall>v. eval \<sigma> e = Some v \<longrightarrow> eval \<sigma> e' = Some v)
    | None \<Rightarrow> \<exists>k l r. e = BinaryExpr k l r \<and> k \<in> {UDiv, SDiv, URem, SRem} \<and> isConstantExpr (ks ! 0) \<and> isZeroExpr (ks ! 1)"
proof -
  have kids: "list_all2 (refines_at \<sigma>) ks (getKids e)"
    using assms(4,5) by (simp add: list_all2_conv_all_nth refines_at_def)
  show ?thesis
  proof (cases "foldable_kids e ks")
    case True
    with rebuild_at(1) [OF assms(1-3) kids] show ?thesis
      by (auto simp: succeeds_def refines_at_def)
  next
    case False
    from kids assms(2) False show ?thesis
      using not_foldable_rebuild [OF False]
      by (cases rule: list_all2_getKids_cases) (auto simp: foldable_def isDivision_def isZeroExpr_def)
  qed
qed

theorem rebuild_correct_witness:
  "\<exists>e'. rebuild (BinaryExpr UDiv (ex_read 0) (ex_read 1)) [ConstantExpr 8 6, ConstantExpr 8 3] = Some e' \<and>
     eval (\<lambda>a i. (if i = 0 then 6 else 3) mod 2 ^ arr_range a) e' = Some 2"
proof -
  let ?\<sigma> = "\<lambda>a i::nat. (if i = 0 then 6 else 3) mod 2 ^ arr_range a"
  have "(case rebuild (BinaryExpr UDiv (ex_read 0) (ex_read 1)) [ConstantExpr 8 6, ConstantExpr 8 3] of
      Some e' \<Rightarrow> wf_expr e' \<and> getWidth e' = getWidth (BinaryExpr UDiv (ex_read 0) (ex_read 1)) \<and>
        (\<forall>v. eval ?\<sigma> (BinaryExpr UDiv (ex_read 0) (ex_read 1)) = Some v \<longrightarrow> eval ?\<sigma> e' = Some v)
    | None \<Rightarrow> \<exists>k l r. BinaryExpr UDiv (ex_read 0) (ex_read 1) = BinaryExpr k l r \<and> k \<in> {UDiv, SDiv, URem, SRem}
        \<and> isConstantExpr ([ConstantExpr 8 6, ConstantExpr 8 3] ! 0) \<and> isZeroExpr ([ConstantExpr 8 6, ConstantExpr 8 3] ! 1))"
    by (rule rebuild_correct) (auto simp: wf_asg_def less_Suc_eq)
  then show ?thesis by (simp add: isZeroExpr_def split: option.splits)
qed

text \<open>The cast constructors. Towards a larger width they have the value of the extension, towards a
  smaller one they cut the value; no assertion fails.\<close>

theorem CastExpr_create_correct:
  assumes "wf_expr e" "0 < w"
  shows "\<exists>e'. CastExpr_create k e w = Some e' \<and> wf_expr e' \<and> getWidth e' = w
    \<and> (\<forall>\<sigma> v. wf_asg \<sigma> \<longrightarrow> eval \<sigma> e = Some v \<longrightarrow>
      eval \<sigma> e' = Some (if k = SExt \<and> getWidth e \<le> w then wrap w (sval (getWidth e) v) else v mod 2 ^ w))"
proof (cases "getWidth e < w")
  case True
  have "v mod 2 ^ w = v" if "wf_asg \<sigma>" "eval \<sigma> e = Some v" for \<sigma> v
    using less_trans [OF eval_less(1) [OF assms(1) that] power_strict_increasing [OF True, of "2::nat"]] by simp
  with CastExpr_create_extends [OF assms(1) True, of k] True show ?thesis
    by (cases k) (auto simp: simplifies_iff bv_sext_def)
next
  case False
  have "wrap w (sval w v) = v mod 2 ^ w" if "v < 2 ^ w" for v
    using that assms(2) by (simp add: wrap_sval)
  moreover have "v < 2 ^ w" if "wf_asg \<sigma>" "eval \<sigma> e = Some v" "getWidth e = w" for \<sigma> v
    using eval_less(1) [OF assms(1) that(1,2)] that(3) by simp
  ultimately show ?thesis
    using CastExpr_create_truncates [OF assms(1,2), of k] False
    by (auto simp: simplifies_iff bv_extract_def)
qed

theorem CastExpr_create_correct_witness:
  "\<exists>e'. CastExpr_create SExt (ex_read 0) 16 = Some e' \<and> wf_expr e' \<and> getWidth e' = 16 \<and>
     eval (\<lambda>a i. 255 mod 2 ^ arr_range a) e' = Some 65535"
proof -
  have "wf_asg (\<lambda>a i. 255 mod 2 ^ arr_range a)" by (simp add: wf_asg_def)
  then show ?thesis
    using CastExpr_create_correct [of "ex_read 0" 16 SExt] by (fastforce simp: wrap_def sval_def)
qed

end
