(* ===== verification/ExprTempRead.thy ===== *)
theory ExprTempRead
  imports ExprRebuild
begin

text \<open>
  Chains of concatenations and \<open>Expr::createTempRead\<close>: the expression it builds is the little
  endian value of the first bytes of the array.
\<close>

section \<open>Chains of concatenations\<close>

lemma ConcatExpr_create_under:
  assumes "wf_expr k" "refines t e"
  shows "simplifies (ConcatExpr_create k t) (ConcatExpr k e)"
  using ConcatExpr_create_simplifies [OF assms(1) refines_wf [OF assms(2)]] assms
  by (auto elim!: simplifies_trans intro: refines_Concat)

fun concat_plain :: "expr list \<Rightarrow> expr" where
  "concat_plain [e] = e"
| "concat_plain (e # es) = ConcatExpr e (concat_plain es)"
| "concat_plain [] = ConstantExpr 1 0"

lemma concat_plain_wf: "list_all wf_expr es \<Longrightarrow> wf_expr (concat_plain es)"
  by (induction es rule: concat_plain.induct) auto

lemma ConcatExpr_createN_simplifies:
  assumes "es \<noteq> []" "list_all wf_expr es"
  shows "simplifies (ConcatExpr_createN es) (concat_plain es)"
  using assms
  by (induction es rule: ConcatExpr_createN.induct) (auto intro!: simplifies_bind intro: ConcatExpr_create_under)

lemma ConcatExpr_create4_eq: "ConcatExpr_create4 k1 k2 k3 k4 = ConcatExpr_createN [k1, k2, k3, k4]"
  by (simp add: ConcatExpr_create4_def)

lemma ConcatExpr_create8_eq:
  "ConcatExpr_create8 k1 k2 k3 k4 k5 k6 k7 k8 = ConcatExpr_createN [k1, k2, k3, k4, k5, k6, k7, k8]"
  by (simp add: ConcatExpr_create8_def ConcatExpr_create4_def)

section \<open>Temporary reads\<close>

text \<open>The little endian value of the first \<open>n\<close> bytes.\<close>

fun le_value :: "(nat \<Rightarrow> nat) \<Rightarrow> nat \<Rightarrow> nat" where
  "le_value b 0 = 0"
| "le_value b (Suc n) = b n * 256 ^ n + le_value b n"

lemma le_value_2: "le_value b 2 = b 1 * 256 + b 0"
  by (simp add: numeral_2_eq_2)

lemma le_value_less: "(\<And>i. b i < 256) \<Longrightarrow> le_value b n < 256 ^ n"
proof (induction n)
  case (Suc n)
  then have "b n * 256 ^ n + le_value b n < b n * 256 ^ n + 256 ^ n" by simp
  also have "\<dots> = (b n + 1) * 256 ^ n" by simp
  also have "\<dots> \<le> 256 * 256 ^ n" using Suc.prems [of n] by (intro mult_right_mono) auto
  finally show ?case by simp
qed simp

text \<open>\<open>byte_read a i r\<close>: \<open>r\<close> is an expression for byte \<open>i\<close> of the array.\<close>

definition byte_read :: "array \<Rightarrow> nat \<Rightarrow> expr \<Rightarrow> bool" where
  "byte_read a i r \<longleftrightarrow> wf_expr r \<and> getWidth r = 8 \<and> (\<forall>\<sigma>. wf_asg \<sigma> \<longrightarrow> eval \<sigma> r = Some (arr_init \<sigma> a i))"

lemma readByte_ok:
  assumes "wf_array a" "arr_domain a = 32" "arr_range a = 8" "i < 2 ^ 32"
  shows "succeeds (readByte a i) (byte_read a i)"
proof -
  have "simplifies (readByte a i) (ReadExpr a NoUpdate (ConstantExpr 32 i))"
    unfolding readByte_def using assms by (intro ReadExpr_create_simplifies) auto
  then show ?thesis unfolding simplifies_def
    by (rule succeeds_mono) (use assms in \<open>auto simp: byte_read_def refines_def\<close>)
qed

lemma eval_concat_plain:
  assumes "rs \<noteq> []" "\<And>i. i < length rs \<Longrightarrow> byte_read a i (rs ! (length rs - 1 - i))" "wf_asg \<sigma>"
  shows "eval \<sigma> (concat_plain rs) = Some (le_value (arr_init \<sigma> a) (length rs))
    \<and> getWidth (concat_plain rs) = 8 * length rs"
  using assms(1,2)
proof (induction rs rule: concat_plain.induct)
  case (1 e)
  from 1(2) [of 0] assms(3) show ?case by (simp add: byte_read_def)
next
  case (2 e e' es)
  let ?rs = "e' # es"
  from 2(3) [of "length ?rs"] have e: "byte_read a (length ?rs) e" by simp
  have "byte_read a i (?rs ! (length ?rs - 1 - i))" if "i < length ?rs" for i
    using 2(3) [of i] that by (simp add: Suc_diff_le)
  with 2(1) have "eval \<sigma> (concat_plain ?rs) = Some (le_value (arr_init \<sigma> a) (length ?rs))"
    "getWidth (concat_plain ?rs) = 8 * length ?rs" by auto
  with e assms(3) show ?case
    by (simp add: byte_read_def bv_concat_def power_mult power_add)
qed simp

text \<open>The bytes are read from the highest address down and concatenated.\<close>

lemma read_bytes_simplifies:
  assumes "rs \<noteq> []" "\<And>i. i < length rs \<Longrightarrow> byte_read a i (rs ! (length rs - 1 - i))" "8 * length rs = w"
  shows "succeeds (ConcatExpr_createN rs) (\<lambda>e. wf_expr e \<and> getWidth e = w
    \<and> (\<forall>\<sigma>. wf_asg \<sigma> \<longrightarrow> eval \<sigma> e = Some (le_value (arr_init \<sigma> a) (length rs))))"
proof -
  have "wf_expr (rs ! j)" if "j < length rs" for j
    using assms(2) [of "length rs - 1 - j"] that by (simp add: byte_read_def)
  then have "simplifies (ConcatExpr_createN rs) (concat_plain rs)"
    using assms(1) by (intro ConcatExpr_createN_simplifies) (auto simp: list_all_length)
  then show ?thesis unfolding simplifies_def
  proof (rule succeeds_mono)
    fix e assume e: "refines e (concat_plain rs)"
    moreover have "wf_asg (\<lambda>_ _. 0)" by (simp add: wf_asg_def)
    ultimately show "wf_expr e \<and> getWidth e = w
        \<and> (\<forall>\<sigma>. wf_asg \<sigma> \<longrightarrow> eval \<sigma> e = Some (le_value (arr_init \<sigma> a) (length rs)))"
      using eval_concat_plain [OF assms(1,2)] assms(3) by (auto simp: refines_def)
  qed
qed

fun readsDown :: "array \<Rightarrow> nat \<Rightarrow> expr list option" where
  "readsDown a 0 = Some []"
| "readsDown a (Suc n) = readByte a n \<bind> (\<lambda>b. readsDown a n \<bind> (\<lambda>bs. Some (b # bs)))"

lemma readsDown_ok:
  assumes a: "wf_array a" "arr_domain a = 32" "arr_range a = 8" and n: "n \<le> 2 ^ 32"
  shows "succeeds (readsDown a n) (\<lambda>rs. length rs = n \<and> (\<forall>i<n. byte_read a i (rs ! (n - 1 - i))))"
  using n
proof (induction n)
  case (Suc n)
  show ?case unfolding readsDown.simps
  proof (rule succeeds_bind [OF readByte_ok [OF a]], use Suc in simp, rule succeeds_bind [OF Suc.IH])
    fix b rs
    assume "byte_read a n b" "length rs = n \<and> (\<forall>i<n. byte_read a i (rs ! (n - 1 - i)))"
    then show "succeeds (Some (b # rs))
        (\<lambda>rs. length rs = Suc n \<and> (\<forall>i<Suc n. byte_read a i (rs ! (Suc n - 1 - i))))"
      by (auto simp: less_Suc_eq nth_Cons' Suc_diff_Suc)
  qed (use Suc in simp)
qed simp

lemma createTempRead_readsDown:
  "createTempRead a 8 = readsDown a 1 \<bind> ConcatExpr_createN"
  "createTempRead a 16 = readsDown a 2 \<bind> ConcatExpr_createN"
  "createTempRead a 32 = readsDown a 4 \<bind> ConcatExpr_createN"
  "createTempRead a 64 = readsDown a 8 \<bind> ConcatExpr_createN"
  by (simp_all add: createTempRead_def numeral_eq_Suc ConcatExpr_create4_def [abs_def] ConcatExpr_create8_def [abs_def])

lemma createTempRead_wide:
  assumes a: "wf_array a" "arr_domain a = 32" "arr_range a = 8" and n: "n \<in> {1, 2, 4, 8}"
  shows "succeeds (createTempRead a (8 * n)) (\<lambda>e. wf_expr e \<and> getWidth e = 8 * n
    \<and> (\<forall>\<sigma>. wf_asg \<sigma> \<longrightarrow> eval \<sigma> e = Some (le_value (arr_init \<sigma> a) n)))"
proof -
  have "createTempRead a (8 * n) = readsDown a n \<bind> ConcatExpr_createN"
    using n by (auto simp: createTempRead_readsDown)
  moreover have "n \<le> 2 ^ 32" "0 < n" using n by auto
  ultimately show ?thesis
    by (auto intro!: succeeds_bind [OF readsDown_ok [OF a]] read_bytes_simplifies)
qed

text \<open>\<open>Expr::createTempRead\<close> builds, for each width the program uses, the little endian value of the
  first bytes of the array (for a boolean, the lowest bit of the first byte).\<close>

theorem createTempRead_correct:
  assumes "wf_array a" "arr_domain a = 32" "arr_range a = 8" "w \<in> {1, 8, 16, 32, 64}"
  shows "\<exists>e. createTempRead a w = Some e \<and> wf_expr e \<and> getWidth e = w
    \<and> (\<forall>\<sigma>. wf_asg \<sigma> \<longrightarrow> eval \<sigma> e = Some (le_value (arr_init \<sigma> a) ((w + 7) div 8) mod 2 ^ w))"
proof (cases "w = 1")
  case True
  from readByte_ok [OF assms(1-3), of 0] obtain b where b: "readByte a 0 = Some b" "byte_read a 0 b"
    by (auto simp: succeeds_def)
  then have "simplifies (CastExpr_create ZExt b 1) (ExtractExpr b 0 1)"
    by (intro CastExpr_create_truncates) (auto simp: byte_read_def)
  with b True show ?thesis
    by (auto simp: createTempRead_def simplifies_iff byte_read_def bv_extract_def)
next
  case False
  then obtain n where n: "w = 8 * n" "n \<in> {1, 2, 4, 8}" using assms(4) by auto
  have byte: "arr_init \<sigma> a i < 256" if "wf_asg \<sigma>" for \<sigma> i
    using arr_init_less [OF assms(1) that, of i] assms(3) by simp
  have "(8 * n + 7) div 8 = n" by simp
  moreover have "le_value (arr_init \<sigma> a) n mod 2 ^ (8 * n) = le_value (arr_init \<sigma> a) n" if "wf_asg \<sigma>" for \<sigma>
    using le_value_less [of "arr_init \<sigma> a" n] byte [OF that] by (simp add: power_mult)
  ultimately show ?thesis
    using createTempRead_wide [OF assms(1-3) n(2)] by (auto simp: n(1) succeeds_def)
qed

theorem createTempRead_correct_witness:
  "\<exists>e. createTempRead ex_array 16 = Some e \<and> eval (\<lambda>a i. (i + 1) mod 2 ^ arr_range a) e = Some 513"
proof -
  have "wf_asg (\<lambda>a i. (i + 1) mod 2 ^ arr_range a)" by (simp add: wf_asg_def)
  then show ?thesis
    using createTempRead_correct [of ex_array 16] by (auto simp: arr_init_def le_value_2)
qed

end
