(* ===== verification/ExprVisitor.thy ===== *)
theory ExprVisitor
  imports ExprRebuild
begin

text \<open>
  \<^verbatim>\<open>lib/Expr/ExprVisitor.cpp\<close>: the rewriting visitor. A visitor is the record of its virtual
  methods; \<open>visitKind\<close> is the dispatch to \<open>visitRead\<close>, \<open>visitUDiv\<close> and so on, which may visit
  subexpressions themselves and therefore take the recursive call as an argument. The table
  \<open>visited\<close> of the C++ class is threaded through every call.

  The depth of the recursion is bounded by fuel. A visitor that is not \<open>recursive\<close> only visits
  subexpressions, and \<open>visit_terminates\<close> shows that as much fuel as the expression is large is
  enough; a recursive one visits what it rebuilt again.
\<close>

section \<open>Errors\<close>

datatype error = AssertionFailed | OutOfFuel

definition bindE :: "error + 'a \<Rightarrow> ('a \<Rightarrow> error + 'b) \<Rightarrow> error + 'b" where
  "bindE m f = (case m of Inl err \<Rightarrow> Inl err | Inr x \<Rightarrow> f x)"

definition asserting :: "'a option \<Rightarrow> error + 'a" where
  "asserting m = (case m of None \<Rightarrow> Inl AssertionFailed | Some x \<Rightarrow> Inr x)"

lemma bindE_simps [simp]: "bindE (Inl err) f = Inl err" "bindE (Inr x) f = f x"
  by (simp_all add: bindE_def)

lemma bindE_Inr: "bindE m f = Inr y \<longleftrightarrow> (\<exists>x. m = Inr x \<and> f x = Inr y)"
  by (cases m) auto

lemma bindE_Inl: "bindE m f = Inl err \<longleftrightarrow> m = Inl err \<or> (\<exists>x. m = Inr x \<and> f x = Inl err)"
  by (cases m) auto

lemma asserting_simps [simp]: "asserting None = Inl AssertionFailed" "asserting (Some x) = Inr x"
  by (simp_all add: asserting_def)

lemma asserting_Inr [simp]: "asserting m = Inr x \<longleftrightarrow> m = Some x"
  by (cases m) auto

lemma asserting_Inl: "asserting m = Inl err \<longleftrightarrow> m = None \<and> err = AssertionFailed"
  by (cases m) auto

section \<open>Visitors\<close>

datatype action = SkipChildren | DoChildren | ChangeTo expr

type_synonym visited = "expr \<Rightarrow> expr option"
type_synonym visiting = "expr \<Rightarrow> visited \<Rightarrow> error + (expr \<times> visited)"

record visitor =
  recursive :: bool
  visitExpr :: "expr \<Rightarrow> error + action"
  visitKind :: "visiting \<Rightarrow> expr \<Rightarrow> visited \<Rightarrow> error + (action \<times> visited)"
  visitExprPost :: "expr \<Rightarrow> action"

text \<open>The default methods of the class.\<close>

definition default_visitor :: visitor where
  "default_visitor = \<lparr> recursive = False, visitExpr = (\<lambda>e. Inr DoChildren),
     visitKind = (\<lambda>visit e m. Inr (DoChildren, m)), visitExprPost = (\<lambda>e. SkipChildren) \<rparr>"

fun visitKids :: "visiting \<Rightarrow> expr list \<Rightarrow> visited \<Rightarrow> error + (expr list \<times> visited)" where
  "visitKids visit [] m = Inr ([], m)"
| "visitKids visit (kid # kids) m =
     bindE (visit kid m) (\<lambda>(k, m). bindE (visitKids visit kids m) (\<lambda>(ks, m). Inr (k # ks, m)))"

text \<open>The post visit of a node that is no constant.\<close>

definition postVisit :: "visitor \<Rightarrow> expr \<Rightarrow> expr" where
  "postVisit vis e = (if isConstantExpr e then e else case visitExprPost vis e of ChangeTo e' \<Rightarrow> e' | _ \<Rightarrow> e)"

text \<open>The case \<open>DoChildren\<close>: visit the children, rebuild if one changed, then the post visit.\<close>

definition visitChildren :: "visitor \<Rightarrow> visiting \<Rightarrow> expr \<Rightarrow> visited \<Rightarrow> error + (expr \<times> visited)" where
  "visitChildren vis visit ep m =
     bindE (visitKids visit (getKids ep) m) (\<lambda>(kids, m).
     bindE (if kids \<noteq> getKids ep
            then bindE (asserting (rebuild ep kids)) (\<lambda>e. if recursive vis then visit e m else Inr (e, m))
            else Inr (ep, m)) (\<lambda>(e, m). Inr (postVisit vis e, m)))"

definition visitActual :: "visitor \<Rightarrow> visiting \<Rightarrow> expr \<Rightarrow> visited \<Rightarrow> error + (expr \<times> visited)" where
  "visitActual vis visit e m =
     (if isConstantExpr e then Inr (e, m)
      else bindE (visitExpr vis e) (\<lambda>res. case res of
        SkipChildren \<Rightarrow> Inr (e, m)
      | ChangeTo e' \<Rightarrow> Inr (e', m)
      | DoChildren \<Rightarrow> bindE (visitKind vis visit e m) (\<lambda>(res, m). case res of
          SkipChildren \<Rightarrow> Inr (e, m)
        | ChangeTo e' \<Rightarrow> Inr (e', m)
        | DoChildren \<Rightarrow> visitChildren vis visit e m)))"

text \<open>\<open>visited.insert\<close> keeps an entry that is there already.\<close>

fun visit :: "visitor \<Rightarrow> nat \<Rightarrow> visiting" where
  "visit vis 0 e m = Inl OutOfFuel"
| "visit vis (Suc n) e m =
     (if isConstantExpr e then visitActual vis (visit vis n) e m
      else case m e of
        Some res \<Rightarrow> Inr (res, m)
      | None \<Rightarrow> bindE (visitActual vis (visit vis n) e m) (\<lambda>(res, m).
          Inr (res, if m e = None then m(e \<mapsto> res) else m)))"

section \<open>Visitors that preserve values\<close>

text \<open>
  The contract of a visitor, for a relation between the new and the old expression: what a method
  changes a node to is related to the node. \<open>visited_ok\<close> is the invariant of the table.
\<close>

definition visited_ok :: "(expr \<Rightarrow> expr \<Rightarrow> bool) \<Rightarrow> visited \<Rightarrow> bool" where
  "visited_ok R m \<longleftrightarrow> (\<forall>e e'. wf_expr e \<longrightarrow> m e = Some e' \<longrightarrow> R e' e)"

definition visiting_ok :: "(expr \<Rightarrow> expr \<Rightarrow> bool) \<Rightarrow> visiting \<Rightarrow> bool" where
  "visiting_ok R rec \<longleftrightarrow> (\<forall>e m e' m'. wf_expr e \<longrightarrow> visited_ok R m \<longrightarrow> rec e m = Inr (e', m') \<longrightarrow>
     R e' e \<and> visited_ok R m')"

lemma visiting_okD:
  "visiting_ok R rec \<Longrightarrow> wf_expr e \<Longrightarrow> visited_ok R m \<Longrightarrow> rec e m = Inr (e', m') \<Longrightarrow>
   R e' e \<and> visited_ok R m'"
  by (simp add: visiting_ok_def)

lemma visited_ok_empty [simp]: "visited_ok R Map.empty"
  by (simp add: visited_ok_def)

lemma visited_ok_update [simp]:
  "visited_ok R m \<Longrightarrow> R r e \<Longrightarrow> visited_ok R (m(e \<mapsto> r))"
  by (simp add: visited_ok_def)

lemma visitKids_ok:
  assumes "visiting_ok R rec" "list_all wf_expr kids" "visited_ok R m" "visitKids rec kids m = Inr (ks, m')"
  shows "list_all2 R ks kids \<and> visited_ok R m'"
  using assms(2-)
proof (induction kids arbitrary: m ks)
  case (Cons kid kids)
  then obtain k m1 ks1 where k: "rec kid m = Inr (k, m1)" "visitKids rec kids m1 = Inr (ks1, m')" "ks = k # ks1"
    by (auto simp: bindE_Inr)
  then have "R k kid \<and> visited_ok R m1"
    using Cons.prems assms(1) by (auto simp: visiting_ok_def)
  with k Cons show ?case by auto
qed auto

lemma visitActual_cases:
  assumes "visitActual vis rec e m = Inr (e', m')" "\<not> isConstantExpr e"
  obtains (skip) "e' = e" "m' = m"
  | (change) "visitExpr vis e = Inr (ChangeTo e')" "m' = m"
  | (kind_skip) "visitKind vis rec e m = Inr (SkipChildren, m')" "e' = e"
  | (kind_change) "visitKind vis rec e m = Inr (ChangeTo e', m')"
  | (children) m1 where "visitKind vis rec e m = Inr (DoChildren, m1)" "visitChildren vis rec e m1 = Inr (e', m')"
proof -
  from assms obtain res where res: "visitExpr vis e = Inr res"
    "(case res of SkipChildren \<Rightarrow> Inr (e, m) | ChangeTo x \<Rightarrow> Inr (x, m)
      | DoChildren \<Rightarrow> bindE (visitKind vis rec e m) (\<lambda>(res, m). case res of
          SkipChildren \<Rightarrow> Inr (e, m) | ChangeTo e' \<Rightarrow> Inr (e', m)
        | DoChildren \<Rightarrow> visitChildren vis rec e m)) = Inr (e', m')"
    by (auto simp: visitActual_def bindE_Inr)
  show ?thesis
  proof (cases res)
    case DoChildren
    with res obtain kres m1 where "visitKind vis rec e m = Inr (kres, m1)"
      "(case kres of SkipChildren \<Rightarrow> Inr (e, m1) | ChangeTo e' \<Rightarrow> Inr (e', m1)
        | DoChildren \<Rightarrow> visitChildren vis rec e m1) = Inr (e', m')"
      by (auto simp: bindE_Inr)
    then show ?thesis by (cases kres) (auto intro: that)
  qed (use res in \<open>auto intro: that\<close>)
qed

lemma visitChildren_cases:
  assumes "visitChildren vis rec e m = Inr (e', m')"
  obtains (unchanged) "visitKids rec (getKids e) m = Inr (getKids e, m')" "e' = postVisit vis e"
  | (rebuilt) ks e1 where "visitKids rec (getKids e) m = Inr (ks, m')" "rebuild e ks = Some e1"
      "e' = postVisit vis e1" "\<not> recursive vis"
  | (revisited) ks m1 e1 e2 where "visitKids rec (getKids e) m = Inr (ks, m1)" "rebuild e ks = Some e1"
      "rec e1 m1 = Inr (e2, m')" "e' = postVisit vis e2" "recursive vis"
proof -
  from assms obtain ks m1 where ks: "visitKids rec (getKids e) m = Inr (ks, m1)" and
    rest: "bindE (if ks \<noteq> getKids e
            then bindE (asserting (rebuild e ks)) (\<lambda>e. if recursive vis then rec e m1 else Inr (e, m1))
            else Inr (e, m1)) (\<lambda>(e, m). Inr (postVisit vis e, m)) = Inr (e', m')"
    by (auto simp: visitChildren_def bindE_Inr)
  then show ?thesis
    by (cases "ks = getKids e"; cases "recursive vis") (auto simp: bindE_Inr intro: that)
qed

lemma wf_getKids: "wf_expr e \<Longrightarrow> list_all wf_expr (getKids e)"
  by (cases e) auto

text \<open>
  Relations that rewriting may use, one for each parameter \<open>p\<close> with \<open>P p\<close> (an assignment that
  satisfies the constraints, for instance): preorders that \<open>rebuild\<close> respects.
\<close>

locale rewrite_relation =
  fixes P :: "'p \<Rightarrow> bool" and R :: "'p \<Rightarrow> expr \<Rightarrow> expr \<Rightarrow> bool"
  assumes refl: "wf_expr e \<Longrightarrow> R p e e"
    and trans: "R p e e1 \<Longrightarrow> R p e1 e2 \<Longrightarrow> R p e e2"
    and wf: "R p e e0 \<Longrightarrow> wf_expr e"
    and rebuilds: "P p \<Longrightarrow> wf_expr e \<Longrightarrow> \<not> isConstantExpr e \<Longrightarrow> list_all2 (R p) ks (getKids e) \<Longrightarrow>
      rebuild e ks = Some e' \<Longrightarrow> R p e' e"

lemma refines_at_rewrite:
  assumes "\<And>\<sigma>. P \<sigma> \<Longrightarrow> wf_asg \<sigma>"
  shows "rewrite_relation P refines_at"
  by unfold_locales (use assms rebuild_at(2) in \<open>auto intro: refines_at_trans dest: refines_at_wf\<close>)

lemma typed_as_rewrite: "rewrite_relation P (\<lambda>p. typed_as)"
  by unfold_locales (use rebuild_typed in \<open>auto simp: typed_as_def\<close>)

interpretation at_assignment: rewrite_relation wf_asg refines_at
  by (rule refines_at_rewrite)

interpretation typing: rewrite_relation "\<lambda>p::unit. True" "\<lambda>p. typed_as"
  by (rule typed_as_rewrite)

locale sound_visitor = rewrite_relation P R
  for P :: "'p \<Rightarrow> bool" and R :: "'p \<Rightarrow> expr \<Rightarrow> expr \<Rightarrow> bool" +
  fixes vis :: visitor
  assumes Expr: "P p \<Longrightarrow> wf_expr e \<Longrightarrow> \<not> isConstantExpr e \<Longrightarrow> visitExpr vis e = Inr (ChangeTo e') \<Longrightarrow> R p e' e"
    and Post: "P p \<Longrightarrow> wf_expr e \<Longrightarrow> \<not> isConstantExpr e \<Longrightarrow> visitExprPost vis e = ChangeTo e' \<Longrightarrow> R p e' e"
    and Kind: "P p \<Longrightarrow> wf_expr e \<Longrightarrow> \<not> isConstantExpr e \<Longrightarrow> visiting_ok (R p) rec \<Longrightarrow> visited_ok (R p) m \<Longrightarrow>
      visitKind vis rec e m = Inr (res, m') \<Longrightarrow>
      visited_ok (R p) m' \<and> (\<forall>e'. res = ChangeTo e' \<longrightarrow> R p e' e)"
begin

lemma visitChildren_sound:
  assumes P: "P p" and e: "wf_expr e" "\<not> isConstantExpr e" "visiting_ok (R p) rec" "visited_ok (R p) m"
    and res: "visitChildren vis rec e m = Inr (e', m')"
  shows "R p e' e \<and> visited_ok (R p) m'"
proof -
  have post: "R p (postVisit vis x) x" if "wf_expr x" for x
    using that Post [OF P, of x] by (auto simp: postVisit_def refl split: action.splits)
  note kids = visitKids_ok [OF e(3) wf_getKids [OF e(1)] e(4)]
  from res show ?thesis
  proof (cases rule: visitChildren_cases)
    case unchanged
    with kids [of "getKids e" m'] post e show ?thesis by simp
  next
    case (rebuilt ks e1)
    with kids [of ks m'] have "R p e1 e" "visited_ok (R p) m'"
      using rebuilds [OF P e(1,2)] by auto
    with rebuilt post show ?thesis by (auto intro: trans dest: wf)
  next
    case (revisited ks m1 e1 e2)
    with kids [of ks m1] have e1: "R p e1 e" "visited_ok (R p) m1"
      using rebuilds [OF P e(1,2)] by auto
    with revisited e(3) have "R p e2 e1 \<and> visited_ok (R p) m'"
      using visiting_okD wf by blast
    with e1 revisited post show ?thesis by (auto intro: trans dest: wf)
  qed
qed

lemma visitActual_sound:
  assumes P: "P p" and a: "wf_expr e" "visiting_ok (R p) rec" "visited_ok (R p) m" "visitActual vis rec e m = Inr (e', m')"
  shows "R p e' e \<and> visited_ok (R p) m'"
proof (cases "isConstantExpr e")
  case False
  note K = Kind [OF P a(1) False a(2,3)] and C = visitChildren_sound [OF P a(1) False a(2)]
  from a(4) False show ?thesis
  proof (cases rule: visitActual_cases)
    case change
    with Expr [OF P a(1) False] a show ?thesis by simp
  next
    case (children m1)
    with K [of DoChildren m1] C [of m1] show ?thesis by simp
  qed (use K a refl in auto)
qed (use a in \<open>auto simp: visitActual_def refl\<close>)

lemma visiting_ok_visit:
  assumes P: "P p"
  shows "visiting_ok (R p) (visit vis n)"
proof (induction n)
  case (Suc n)
  show ?case unfolding visiting_ok_def
  proof (intro allI impI)
    fix e m e' m'
    assume a: "wf_expr e" "visited_ok (R p) m" "visit vis (Suc n) e m = Inr (e', m')"
    note A = visitActual_sound [OF P a(1) Suc a(2)]
    show "R p e' e \<and> visited_ok (R p) m'"
    proof (cases "m e = None \<or> isConstantExpr e")
      case True
      with a(3) obtain m1 where "visitActual vis (visit vis n) e m = Inr (e', m1)"
        "m' = m1 \<or> m' = m1(e \<mapsto> e')" by (auto simp: bindE_Inr split: if_splits)
      with A [of e' m1] show ?thesis by auto
    next
      case False
      with a have "m e = Some e'" "m' = m" by (auto split: if_splits option.splits)
      with a(1,2) show ?thesis by (auto simp: visited_ok_def)
    qed
  qed
qed (simp add: visiting_ok_def)

lemma visit_sound:
  assumes "P p" "wf_expr e" "visit vis n e Map.empty = Inr (e', m')"
  shows "R p e' e"
  using visiting_ok_visit [OF assms(1), of n] assms(2,3) unfolding visiting_ok_def by (blast intro: visited_ok_empty)

end

section \<open>Termination\<close>

text \<open>A visitor whose methods only visit subexpressions needs no more fuel than the size of the expression.\<close>

lemma size_getKids: "kid \<in> set (getKids e) \<Longrightarrow> size kid < size e"
  by (cases e) auto

lemma visitKids_fuel:
  "(\<And>kid m. kid \<in> set kids \<Longrightarrow> rec kid m \<noteq> Inl OutOfFuel) \<Longrightarrow> visitKids rec kids m \<noteq> Inl OutOfFuel"
  by (induction kids arbitrary: m) (auto simp: bindE_Inl)

locale subterm_visitor =
  fixes vis :: visitor
  assumes not_recursive: "\<not> recursive vis"
    and Expr_fuel: "visitExpr vis e \<noteq> Inl OutOfFuel"
    and Kind_fuel: "(\<And>x m. size x < size e \<Longrightarrow> rec x m \<noteq> Inl OutOfFuel) \<Longrightarrow>
      visitKind vis rec e m \<noteq> Inl OutOfFuel"
begin

lemma visitActual_fuel:
  assumes rec: "\<And>x m. size x < size e \<Longrightarrow> rec x m \<noteq> Inl OutOfFuel"
  shows "visitActual vis rec e m \<noteq> Inl OutOfFuel"
proof -
  have "visitChildren vis rec e m \<noteq> Inl OutOfFuel" for m
    using visitKids_fuel [of "getKids e" rec] rec size_getKids [of _ e] not_recursive
    by (auto simp: visitChildren_def bindE_Inl asserting_Inl split: if_splits action.splits)
  then show ?thesis
    using Expr_fuel Kind_fuel [of e rec, OF rec]
    by (auto simp: visitActual_def bindE_Inl split: if_splits action.splits)
qed

lemma visit_terminates: "size e < n \<Longrightarrow> visit vis n e m \<noteq> Inl OutOfFuel"
proof (induction n arbitrary: e m)
  case (Suc n)
  then have "visitActual vis (visit vis n) e m \<noteq> Inl OutOfFuel" by (intro visitActual_fuel) auto
  then show ?case by (auto simp: bindE_Inl split: option.splits)
qed simp

end

end
