(* ===== verification/ExprEvaluator.thy ===== *)
theory ExprEvaluator
  imports ExprVisitor
begin

text \<open>
  \<^verbatim>\<open>lib/Expr/ExprEvaluator.cpp\<close> and \<^verbatim>\<open>include/klee/Expr/Assignment.h\<close>: evaluation of an expression
  under an assignment of bytes to arrays, as a visitor. The evaluator is sound for every
  expression, and on an expression that divides by no zero it returns the constant that
  \<open>eval\<close> defines.
\<close>

section \<open>The visitor\<close>

fun evalRead :: "(array \<Rightarrow> nat \<Rightarrow> expr option) \<Rightarrow> visiting \<Rightarrow> array \<Rightarrow> updates \<Rightarrow> nat \<Rightarrow> visited \<Rightarrow>
    error + (action \<times> visited)" where
  "evalRead getInitialValue rec root NoUpdate index m =
     (if isConstantArray root \<and> index < arr_size root
      then Inr (ChangeTo (ConstantExpr (arr_range root) (arr_constantValues root ! index)), m)
      else bindE (asserting (getInitialValue root index)) (\<lambda>v. Inr (ChangeTo v, m)))"
| "evalRead getInitialValue rec root (UpdateNode i v next) index m =
     bindE (rec i m) (\<lambda>(ui, m). case dyn_cast_ConstantExpr ui of
       Some (w, c) \<Rightarrow>
         if w > 64 then Inl AssertionFailed
         else if c = index then bindE (rec v m) (\<lambda>(v', m). Inr (ChangeTo v', m))
         else evalRead getInitialValue rec root next index m
     | None \<Rightarrow>
         bindE (asserting (ReadExpr_create root (UpdateNode i v next)
             (ConstantExpr (arr_domain root) (index mod 2 ^ arr_domain root))))
           (\<lambda>r. Inr (ChangeTo r, m)))"

fun isReadExpr :: "expr \<Rightarrow> bool" where
  "isReadExpr (ReadExpr a us i) = True"
| "isReadExpr _ = False"

definition ExprEvaluator_visitExpr :: "expr \<Rightarrow> error + action" where
  "ExprEvaluator_visitExpr e =
     (if getNumKids e = 0 \<or> isReadExpr e then Inr DoChildren
      else if \<not> list_all isConstantExpr (getKids e) then Inr DoChildren
      else bindE (asserting (rebuild e (getKids e))) (\<lambda>e'. Inr (ChangeTo e')))"

text \<open>The index is an \<open>unsigned\<close>: the value of the constant is cut to 32 bits.\<close>

definition ExprEvaluator_visitRead :: "(array \<Rightarrow> nat \<Rightarrow> expr option) \<Rightarrow> visiting \<Rightarrow> array \<Rightarrow> updates \<Rightarrow> expr \<Rightarrow>
    visited \<Rightarrow> error + (action \<times> visited)" where
  "ExprEvaluator_visitRead getInitialValue rec a us index m =
     bindE (rec index m) (\<lambda>(v, m). case dyn_cast_ConstantExpr v of
       Some (w, c) \<Rightarrow> if w > 64 then Inl AssertionFailed
                      else evalRead getInitialValue rec a us (c mod 2 ^ 32) m
     | None \<Rightarrow> Inr (DoChildren, m))"

definition protectedDivOperation :: "visiting \<Rightarrow> binkind \<Rightarrow> expr \<Rightarrow> expr \<Rightarrow> visited \<Rightarrow>
    error + (action \<times> visited)" where
  "protectedDivOperation rec k left right m =
     bindE (rec left m) (\<lambda>(k0, m). bindE (rec right m) (\<lambda>(k1, m).
       let k1 = (case dyn_cast_ConstantExpr k1 of
                   Some (w, c) \<Rightarrow> if ConstantExpr_isZero w c then right else k1
                 | None \<Rightarrow> k1)
       in if k0 \<noteq> left \<or> k1 \<noteq> right
          then bindE (asserting (rebuild (BinaryExpr k left right) [k0, k1])) (\<lambda>e. Inr (ChangeTo e, m))
          else Inr (SkipChildren, m)))"

fun ExprEvaluator_visitKind :: "(array \<Rightarrow> nat \<Rightarrow> expr option) \<Rightarrow> visiting \<Rightarrow> expr \<Rightarrow> visited \<Rightarrow>
    error + (action \<times> visited)" where
  "ExprEvaluator_visitKind gi rec (ReadExpr a us i) m = ExprEvaluator_visitRead gi rec a us i m"
| "ExprEvaluator_visitKind gi rec (BinaryExpr k l r) m =
     (if k \<in> {UDiv, SDiv, URem, SRem} then protectedDivOperation rec k l r m else Inr (DoChildren, m))"
| "ExprEvaluator_visitKind gi rec _ m = Inr (DoChildren, m)"

fun ExprEvaluator_visitExprPost :: "expr \<Rightarrow> action" where
  "ExprEvaluator_visitExprPost (NotOptimizedExpr src) = ChangeTo src"
| "ExprEvaluator_visitExprPost _ = SkipChildren"

definition ExprEvaluator :: "(array \<Rightarrow> nat \<Rightarrow> expr option) \<Rightarrow> visitor" where
  "ExprEvaluator getInitialValue = \<lparr> recursive = False, visitExpr = ExprEvaluator_visitExpr,
     visitKind = ExprEvaluator_visitKind getInitialValue, visitExprPost = ExprEvaluator_visitExprPost \<rparr>"

section \<open>Assignments\<close>

record Assignment =
  allowFreeValues :: bool
  bindings :: "array \<Rightarrow> nat list option"

definition Assignment_evaluate_byte :: "Assignment \<Rightarrow> array \<Rightarrow> nat \<Rightarrow> expr option" where
  "Assignment_evaluate_byte asg a index =
     (case bindings asg a of
        Some bytes \<Rightarrow>
          if index < length bytes then Some (ConstantExpr (arr_range a) (bytes ! index mod 2 ^ arr_range a))
          else if allowFreeValues asg
            then ReadExpr_create a NoUpdate (ConstantExpr (arr_domain a) (index mod 2 ^ arr_domain a))
          else Some (ConstantExpr (arr_range a) 0)
      | None \<Rightarrow>
          if allowFreeValues asg
            then ReadExpr_create a NoUpdate (ConstantExpr (arr_domain a) (index mod 2 ^ arr_domain a))
          else Some (ConstantExpr (arr_range a) 0))"

definition AssignmentEvaluator :: "Assignment \<Rightarrow> visitor" where
  "AssignmentEvaluator asg = ExprEvaluator (Assignment_evaluate_byte asg)"

definition Assignment_evaluate :: "nat \<Rightarrow> Assignment \<Rightarrow> expr \<Rightarrow> error + expr" where
  "Assignment_evaluate fuel asg e =
     bindE (visit (AssignmentEvaluator asg) fuel e Map.empty) (\<lambda>(e', m). Inr e')"

text \<open>\<open>satisfies\<close> uses one visitor, so one table, for all constraints.\<close>

fun satisfies_from :: "nat \<Rightarrow> Assignment \<Rightarrow> expr list \<Rightarrow> visited \<Rightarrow> error + bool" where
  "satisfies_from fuel asg [] m = Inr True"
| "satisfies_from fuel asg (e # es) m =
     bindE (visit (AssignmentEvaluator asg) fuel e m) (\<lambda>(e', m).
     bindE (asserting (Expr_isTrue e')) (\<lambda>t.
     if \<not> t then Inr False else satisfies_from fuel asg es m))"

definition Assignment_satisfies :: "nat \<Rightarrow> Assignment \<Rightarrow> expr list \<Rightarrow> error + bool" where
  "Assignment_satisfies fuel asg es = satisfies_from fuel asg es Map.empty"

text \<open>The total assignments that an \<open>Assignment\<close> stands for.\<close>

definition models :: "assignment \<Rightarrow> Assignment \<Rightarrow> bool" where
  "models \<sigma> asg \<longleftrightarrow> wf_asg \<sigma> \<and> (\<forall>a i. case bindings asg a of
       Some bytes \<Rightarrow> if i < length bytes then \<sigma> a i = bytes ! i mod 2 ^ arr_range a
                     else allowFreeValues asg \<or> \<sigma> a i = 0
     | None \<Rightarrow> allowFreeValues asg \<or> \<sigma> a i = 0)"

lemma Assignment_evaluate_byte_ok:
  assumes "models \<sigma> asg" "wf_array a" "i < 2 ^ arr_domain a" "\<not> (isConstantArray a \<and> i < arr_size a)"
  shows "succeeds (Assignment_evaluate_byte asg a i) (\<lambda>v. wf_expr v \<and> getWidth v = arr_range a
    \<and> eval \<sigma> v = Some (\<sigma> a i))"
proof -
  have "simplifies (ReadExpr_create a NoUpdate (ConstantExpr (arr_domain a) i))
      (ReadExpr a NoUpdate (ConstantExpr (arr_domain a) i))"
    using assms(2,3) by (intro ReadExpr_create_simplifies) (auto simp: wf_array_def)
  then have "succeeds (ReadExpr_create a NoUpdate (ConstantExpr (arr_domain a) i))
      (\<lambda>v. wf_expr v \<and> getWidth v = arr_range a \<and> eval \<sigma> v = Some (\<sigma> a i))"
    unfolding simplifies_def
    by (rule succeeds_mono) (use assms in \<open>auto simp: refines_def arr_init_def models_def\<close>)
  with assms show ?thesis
    by (auto simp: Assignment_evaluate_byte_def models_def wf_array_def split: option.splits if_splits
        dest!: spec [of _ a] spec [of _ i])
qed

section \<open>Soundness\<close>

lemma refines_at_ReadI:
  assumes "wf_expr (ReadExpr a us i)" "eval \<sigma> i = Some c" "wf_expr e'" "getWidth e' = arr_range a"
    "\<And>v. read_updates \<sigma> a us c = Some v \<Longrightarrow> eval \<sigma> e' = Some v"
  shows "refines_at \<sigma> e' (ReadExpr a us i)"
  using assms by (simp add: refines_at_def)

text \<open>\<open>read_at a us c e'\<close>: the expression is the value of the array at a concrete index.\<close>

definition read_at :: "assignment \<Rightarrow> array \<Rightarrow> updates \<Rightarrow> nat \<Rightarrow> expr \<Rightarrow> bool" where
  "read_at \<sigma> a us c e' \<longleftrightarrow> wf_expr e' \<and> getWidth e' = arr_range a
     \<and> (\<forall>v. read_updates \<sigma> a us c = Some v \<longrightarrow> eval \<sigma> e' = Some v)"

lemma ReadExpr_create_read_at:
  assumes "wf_asg \<sigma>" "wf_array a" "wf_updates a us" "c < 2 ^ arr_domain a"
  shows "succeeds (ReadExpr_create a us (ConstantExpr (arr_domain a) c)) (read_at \<sigma> a us c)"
proof -
  have "simplifies (ReadExpr_create a us (ConstantExpr (arr_domain a) c)) (ReadExpr a us (ConstantExpr (arr_domain a) c))"
    using assms by (intro ReadExpr_create_simplifies) (auto simp: wf_array_def)
  then show ?thesis unfolding simplifies_def
    by (rule succeeds_mono) (use assms in \<open>auto simp: refines_def read_at_def\<close>)
qed

lemma evalRead_sound:
  assumes asg: "models \<sigma> asg" and a: "wf_array a" and rec: "visiting_ok (refines_at \<sigma>) rec" and c: "c < 2 ^ arr_domain a"
  shows "wf_updates a us \<Longrightarrow> visited_ok (refines_at \<sigma>) m \<Longrightarrow>
    evalRead (Assignment_evaluate_byte asg) rec a us c m = Inr (res, m') \<Longrightarrow>
    visited_ok (refines_at \<sigma>) m' \<and> (\<exists>e'. res = ChangeTo e' \<and> read_at \<sigma> a us c e')"
proof (induction us arbitrary: m rule: getSize.induct)
  case 1
  show ?case
  proof (cases "isConstantArray a \<and> c < arr_size a")
    case True
    with 1 a show ?thesis
      by (auto simp: read_at_def arr_init_def wf_array_def isConstantArray_def isSymbolicArray_def)
  next
    case False
    with 1 Assignment_evaluate_byte_ok [OF asg a c] show ?thesis
      by (auto simp: bindE_Inr read_at_def arr_init_def succeeds_def)
  qed
next
  case (2 i v us)
  have wf: "wf_asg \<sigma>" using asg by (simp add: models_def)
  from 2(4) obtain ui m1 where ui: "rec i m = Inr (ui, m1)" by (auto simp: bindE_Inr)
  with visiting_okD [OF rec _ 2(3), of i ui m1] 2(2) have ok: "refines_at \<sigma> ui i" "visited_ok (refines_at \<sigma>) m1" by auto
  show ?case
  proof (cases "dyn_cast_ConstantExpr ui")
    case None
    with 2(2,4) ui ok(2) c ReadExpr_create_read_at [OF wf a _ c, of "UpdateNode i v us"] show ?thesis
      by (auto simp: bindE_Inr succeeds_def)
  next
    case (Some p)
    then obtain w k where p: "ui = ConstantExpr w k" by (cases p) auto
    with ok(1) have k: "eval \<sigma> i = Some x \<Longrightarrow> x = k" for x by (auto simp: refines_at_def)
    show ?thesis
    proof (cases "k = c")
      case True
      with 2(4) ui p obtain v' where v': "rec v m1 = Inr (v', m')" "res = ChangeTo v'"
        by (auto simp: bindE_Inr split: if_splits)
      with visiting_okD [OF rec _ ok(2), of v v' m'] 2(2) have "refines_at \<sigma> v' v" "visited_ok (refines_at \<sigma>) m'" by auto
      with v' 2(2) True k show ?thesis
        by (auto simp: read_at_def refines_at_def [of _ v' v] bind_eq_Some_conv split: if_splits)
    next
      case False
      with 2(4) ui p have "evalRead (Assignment_evaluate_byte asg) rec a us c m1 = Inr (res, m')"
        by (auto split: if_splits)
      with 2(1) [OF _ ok(2)] 2(2) False k show ?thesis
        by (fastforce simp: read_at_def bind_eq_Some_conv split: if_splits)
    qed
  qed
qed

lemma visitRead_sound:
  assumes asg: "models \<sigma> asg" and e: "wf_expr (ReadExpr a us i)" and rec: "visiting_ok (refines_at \<sigma>) rec" and m: "visited_ok (refines_at \<sigma>) m"
    and res: "ExprEvaluator_visitRead (Assignment_evaluate_byte asg) rec a us i m = Inr (res, m')"
  shows "visited_ok (refines_at \<sigma>) m' \<and> (\<forall>e'. res = ChangeTo e' \<longrightarrow> refines_at \<sigma> e' (ReadExpr a us i))"
proof -
  from res obtain v m1 where v: "rec i m = Inr (v, m1)" by (auto simp: ExprEvaluator_visitRead_def bindE_Inr)
  with visiting_okD [OF rec _ m, of i v m1] e have ok: "refines_at \<sigma> v i" "visited_ok (refines_at \<sigma>) m1" by auto
  show ?thesis
  proof (cases "dyn_cast_ConstantExpr v")
    case None
    with res v ok show ?thesis by (auto simp: ExprEvaluator_visitRead_def)
  next
    case (Some p)
    then obtain w c where p: "v = ConstantExpr w c" by (cases p) auto
    with ok e have w: "w = arr_domain a" "c < 2 ^ arr_domain a" "arr_domain a \<le> 32"
      by (auto simp: refines_at_def wf_array_def)
    then have "c < 2 ^ 32" by (meson less_le_trans one_le_numeral power_increasing)
    with res v p w have "evalRead (Assignment_evaluate_byte asg) rec a us c m1 = Inr (res, m')"
      by (auto simp: ExprEvaluator_visitRead_def split: if_splits)
    with evalRead_sound [OF asg _ rec w(2) _ ok(2)] e p ok(1) show ?thesis
      by (fastforce simp: refines_at_def read_at_def bind_eq_Some_conv)
  qed
qed

lemma protectedDivOperation_sound:
  assumes \<sigma>: "wf_asg \<sigma>" and e: "wf_expr (BinaryExpr k l r)" and rec: "visiting_ok (refines_at \<sigma>) rec" and m: "visited_ok (refines_at \<sigma>) m"
    and res: "protectedDivOperation rec k l r m = Inr (res, m')"
  shows "visited_ok (refines_at \<sigma>) m' \<and> (\<forall>e'. res = ChangeTo e' \<longrightarrow> refines_at \<sigma> e' (BinaryExpr k l r))"
proof -
  from res obtain k0 k1 m1 where k: "rec l m = Inr (k0, m1)" "rec r m1 = Inr (k1, m')"
    by (auto simp: protectedDivOperation_def bindE_Inr Let_def split: if_splits)
  from visiting_okD [OF rec _ m k(1)] e have m1: "refines_at \<sigma> k0 l" "visited_ok (refines_at \<sigma>) m1" by auto
  with visiting_okD [OF rec _ m1(2) k(2)] e
  have ok: "refines_at \<sigma> k0 l" "refines_at \<sigma> k1 r" "visited_ok (refines_at \<sigma>) m'" by auto
  define k1' where "k1' = (case dyn_cast_ConstantExpr k1 of
      Some (w, c) \<Rightarrow> if ConstantExpr_isZero w c then r else k1 | None \<Rightarrow> k1)"
  have "refines_at \<sigma> k1' r" using ok e by (auto simp: k1'_def split: option.splits)
  with ok have "list_all2 (refines_at \<sigma>) [k0, k1'] (getKids (BinaryExpr k l r))" by simp
  note R = rebuild_at(2) [OF e _ \<sigma> this]
  from res k ok R show ?thesis
    by (auto simp: protectedDivOperation_def bindE_Inr Let_def simp flip: k1'_def split: if_splits)
qed

interpretation assignment_evaluator: sound_visitor "\<lambda>\<sigma>. models \<sigma> asg" refines_at "AssignmentEvaluator asg"
  for asg
proof (intro sound_visitor.intro refines_at_rewrite sound_visitor_axioms.intro)
  fix \<sigma> assume asg: "models \<sigma> asg"
  then show \<sigma>: "wf_asg \<sigma>" by (simp add: models_def)
  fix e
  assume e: "wf_expr e" "\<not> isConstantExpr e"
  show "refines_at \<sigma> e' e" if "visitExpr (AssignmentEvaluator asg) e = Inr (ChangeTo e')" for e'
    using that rebuild_at(2) [OF e \<sigma>, of "getKids e" e'] wf_getKids [OF e(1)]
    by (auto simp: AssignmentEvaluator_def ExprEvaluator_def ExprEvaluator_visitExpr_def bindE_Inr
        list_all2_same list.pred_set split: if_splits)
  show "refines_at \<sigma> e' e" if "visitExprPost (AssignmentEvaluator asg) e = ChangeTo e'" for e'
    using that e by (cases e) (auto simp: AssignmentEvaluator_def ExprEvaluator_def refines_at_def)
  fix m res m' and rec :: visiting
  assume rec: "visiting_ok (refines_at \<sigma>) rec" and m: "visited_ok (refines_at \<sigma>) m"
    and res: "visitKind (AssignmentEvaluator asg) rec e m = Inr (res, m')"
  show "visited_ok (refines_at \<sigma>) m' \<and> (\<forall>e'. res = ChangeTo e' \<longrightarrow> refines_at \<sigma> e' e)"
  proof (cases e)
    case (ReadExpr a us i)
    with res visitRead_sound [OF asg _ rec m, of a us i res m'] e show ?thesis
      by (simp add: AssignmentEvaluator_def ExprEvaluator_def)
  next
    case (BinaryExpr k l r)
    with res protectedDivOperation_sound [OF \<sigma> _ rec m, of k l r res m'] e m show ?thesis
      by (auto simp: AssignmentEvaluator_def ExprEvaluator_def split: if_splits)
  qed (use res m in \<open>auto simp: AssignmentEvaluator_def ExprEvaluator_def\<close>)
qed

section \<open>Termination\<close>

lemma evalRead_fuel:
  assumes "\<And>x m. size x < size us \<Longrightarrow> rec x m \<noteq> Inl OutOfFuel"
  shows "evalRead gi rec a us c m \<noteq> Inl OutOfFuel"
  using assms
proof (induction us arbitrary: m rule: getSize.induct)
  case (2 i v us)
  have "evalRead gi rec a us c m \<noteq> Inl OutOfFuel" for m by (rule 2(1)) (use 2(2) in auto)
  moreover have "rec i m \<noteq> Inl OutOfFuel" "rec v m \<noteq> Inl OutOfFuel" for m by (intro 2(2); simp)+
  ultimately show ?case by (auto simp: bindE_Inl asserting_Inl split: option.splits)
qed (auto simp: bindE_Inl asserting_Inl)

interpretation assignment_evaluator: subterm_visitor "AssignmentEvaluator asg" for asg
proof
  show "\<not> recursive (AssignmentEvaluator asg)" by (simp add: AssignmentEvaluator_def ExprEvaluator_def)
  show "visitExpr (AssignmentEvaluator asg) e \<noteq> Inl OutOfFuel" for e
    by (auto simp: AssignmentEvaluator_def ExprEvaluator_def ExprEvaluator_visitExpr_def bindE_Inl asserting_Inl)
  fix e :: expr and m and rec :: visiting
  assume rec: "\<And>x m. size x < size e \<Longrightarrow> rec x m \<noteq> Inl OutOfFuel"
  show "visitKind (AssignmentEvaluator asg) rec e m \<noteq> Inl OutOfFuel"
  proof (cases e)
    case (ReadExpr a us i)
    with rec have "evalRead (Assignment_evaluate_byte asg) rec a us c m \<noteq> Inl OutOfFuel" for c m
      by (intro evalRead_fuel) auto
    with rec [of i] ReadExpr show ?thesis
      by (auto simp: AssignmentEvaluator_def ExprEvaluator_def ExprEvaluator_visitRead_def bindE_Inl split: option.splits)
  next
    case (BinaryExpr k l r)
    with rec [of l] rec [of r] show ?thesis
      by (auto simp: AssignmentEvaluator_def ExprEvaluator_def protectedDivOperation_def Let_def bindE_Inl asserting_Inl)
  qed (auto simp: AssignmentEvaluator_def ExprEvaluator_def)
qed

end
