(* ===== verification/ExprEvaluatorComplete.thy ===== *)
theory ExprEvaluatorComplete
  imports ExprEvaluator
begin

text \<open>
  Completeness of evaluation: on an expression in which nothing is divided by zero the evaluator
  stops no assertion, ends, and returns the constant that \<open>eval\<close> defines. The two exceptions
  that the code has are part of the predicate \<open>evaluable\<close>: a \<open>NotOptimizedExpr\<close> around a
  constant is left as it is, and a division by a literal zero stops at an assertion.
\<close>

fun evaluable :: "assignment \<Rightarrow> expr \<Rightarrow> bool" and evaluable_updates :: "assignment \<Rightarrow> updates \<Rightarrow> bool" where
  "evaluable \<sigma> (ConstantExpr w v) \<longleftrightarrow> True"
| "evaluable \<sigma> (NotOptimizedExpr e) \<longleftrightarrow> evaluable \<sigma> e \<and> \<not> isConstantExpr e"
| "evaluable \<sigma> (ReadExpr a us i) \<longleftrightarrow> evaluable_updates \<sigma> us \<and> evaluable \<sigma> i"
| "evaluable \<sigma> (SelectExpr c t f) \<longleftrightarrow> evaluable \<sigma> c \<and> evaluable \<sigma> t \<and> evaluable \<sigma> f"
| "evaluable \<sigma> (ConcatExpr l r) \<longleftrightarrow> evaluable \<sigma> l \<and> evaluable \<sigma> r"
| "evaluable \<sigma> (ExtractExpr e off w) \<longleftrightarrow> evaluable \<sigma> e"
| "evaluable \<sigma> (CastExpr k e w) \<longleftrightarrow> evaluable \<sigma> e"
| "evaluable \<sigma> (NotExpr e) \<longleftrightarrow> evaluable \<sigma> e"
| "evaluable \<sigma> (BinaryExpr k l r) \<longleftrightarrow>
     evaluable \<sigma> l \<and> evaluable \<sigma> r \<and> (k \<in> {UDiv, SDiv, URem, SRem} \<longrightarrow> eval \<sigma> r \<noteq> Some 0)"
| "evaluable_updates \<sigma> NoUpdate \<longleftrightarrow> True"
| "evaluable_updates \<sigma> (UpdateNode i v next) \<longleftrightarrow>
     evaluable \<sigma> i \<and> evaluable \<sigma> v \<and> evaluable_updates \<sigma> next"

lemma evaluable_defined:
  "evaluable \<sigma> e \<Longrightarrow> \<exists>v. eval \<sigma> e = Some v"
  "evaluable_updates \<sigma> us \<Longrightarrow> \<exists>v. read_updates \<sigma> a us c = Some v"
proof (induction \<sigma> e and \<sigma> us arbitrary: and a c rule: evaluable_evaluable_updates.induct)
  case (9 \<sigma> k l r)
  then have "evaluable \<sigma> l" "evaluable \<sigma> r" by simp_all
  with 9(1,2) obtain a b where "eval \<sigma> l = Some a" "eval \<sigma> r = Some b" by blast
  with 9 bin_value_defined [of k "getWidth l" a b] show ?case by (auto simp: isDivision_def)
next
  case (4 \<sigma> c t f)
  then show ?case by (auto split: if_splits)
next
  case (3 \<sigma> a us i)
  then show ?case by auto
next
  case (11 \<sigma> i v us)
  then have "evaluable \<sigma> i" "evaluable \<sigma> v" by simp_all
  with 11(1,2) obtain x y where "eval \<sigma> i = Some x" "eval \<sigma> v = Some y" by blast
  with 11 show ?case by (cases "x = c") auto
qed auto

section \<open>Rebuilding over constants gives a constant\<close>

fun isNotOptimizedExpr :: "expr \<Rightarrow> bool" where
  "isNotOptimizedExpr (NotOptimizedExpr e) = True"
| "isNotOptimizedExpr _ = False"

lemma ConstantExpr_op_constant: "ConstantExpr_op k w a b = Some e \<Longrightarrow> isConstantExpr e"
  by (auto simp: ConstantExpr_op_eq)

lemma BCREATE_constants:
  "BCREATE k create (ConstantExpr w a) (ConstantExpr w b) = ConstantExpr_op k w a b"
  "BCREATE_R k partial partialR create (ConstantExpr w a) (ConstantExpr w b) = ConstantExpr_op k w a b"
  by (simp_all add: BCREATE_def BCREATE_R_def)

lemma BinaryExpr_create_constants:
  assumes "BinaryExpr_create k (ConstantExpr w a) (ConstantExpr w b) = Some e"
  shows "isConstantExpr e"
proof (cases "k = Ne")
  case True
  with assms show ?thesis
    by (auto simp: NeExpr_create_def EqExpr_create_def BCREATE_constants bind_eq_Some_conv
        simp flip: One_nat_def dest: ConstantExpr_op_constant)
next
  case False
  with assms show ?thesis
    by (cases k) (auto simp: AddExpr_create.simps SubExpr_create.simps MulExpr_create_def AndExpr_create_def
      OrExpr_create_def XorExpr_create_def EqExpr_create_def UDivExpr_create_def SDivExpr_create_def
      URemExpr_create_def SRemExpr_create_def ShlExpr_create_def LShrExpr_create_def AShrExpr_create_def
      UltExpr_create_def UleExpr_create_def SltExpr_create_def SleExpr_create_def UgtExpr_create_def
      UgeExpr_create_def SgtExpr_create_def SgeExpr_create_def BCREATE_constants
      dest: ConstantExpr_op_constant split: if_splits)
qed

lemma rebuild_constants:
  assumes "list_all isConstantExpr ks" "list_all2 (refines_at \<sigma>) ks (getKids e)" "wf_expr e" "\<not> isConstantExpr e"
    "\<not> isNotOptimizedExpr e" "\<not> isReadExpr e" "rebuild e ks = Some e'"
  shows "isConstantExpr e'"
  using assms(2,4)
proof (cases rule: list_all2_getKids_cases)
  case (Binary k l r k0 k1)
  with assms obtain a b where "k0 = ConstantExpr (getWidth l) a" "k1 = ConstantExpr (getWidth l) b"
    by (cases k0; cases k1) (auto simp: refines_at_def)
  with Binary assms show ?thesis by (auto dest: BinaryExpr_create_constants)
next
  case (Concat l r k0 k1)
  with assms show ?thesis by (auto simp: ConcatExpr_create.simps ConstantExpr_Concat_def)
next
  case (Select c t f k0 k1 k2)
  with assms show ?thesis by (cases k0) (auto simp: SelectExpr_create_def split: if_splits)
next
  case (Extract x off w k0)
  with assms show ?thesis
    by (cases k0) (auto simp: ExtractExpr_create.simps ConstantExpr_Extract_def split: if_splits)
next
  case (Cast k x w k0)
  with assms show ?thesis
    by (cases k0; cases k) (auto simp: ExtractExpr_create.simps ConstantExpr_Extract_def ZExtExpr_create_def
      SExtExpr_create_def ConstantExpr_ZExt_def ConstantExpr_SExt_def split: if_splits)
next
  case (Not x k0)
  with assms show ?thesis by (cases k0) (auto simp: NotExpr_create_def ConstantExpr_Not_def)
qed (use assms in auto)

text \<open>\<open>evaluates \<sigma> e e'\<close>: the result is the constant that the expression denotes.\<close>

definition evaluates :: "assignment \<Rightarrow> expr \<Rightarrow> expr \<Rightarrow> bool" where
  "evaluates \<sigma> e e' \<longleftrightarrow> (\<exists>v. eval \<sigma> e = Some v \<and> e' = ConstantExpr (getWidth e) v)"

lemma evaluatesI:
  assumes "evaluable \<sigma> e" "refines_at \<sigma> e' e" "isConstantExpr e'"
  shows "evaluates \<sigma> e e'"
  using assms evaluable_defined(1) [OF assms(1)]
  by (cases e') (auto simp: evaluates_def refines_at_def)

lemma evaluates_constant: "evaluates \<sigma> e e' \<Longrightarrow> isConstantExpr e'"
  by (auto simp: evaluates_def)

lemma evaluatesD:
  "evaluates \<sigma> e e' \<Longrightarrow> wf_expr e \<Longrightarrow> wf_asg \<sigma> \<Longrightarrow> refines_at \<sigma> e' e \<and> isConstantExpr e'"
  by (auto simp: evaluates_def refines_at_def wf_getWidth_pos intro: eval_less(1))

lemma rebuild_evaluates:
  assumes e: "wf_expr e" "\<not> isConstantExpr e" "evaluable \<sigma> e" "wf_asg \<sigma>" "\<not> isReadExpr e"
    and ks: "list_all2 (\<lambda>k kid. evaluates \<sigma> kid k) ks (getKids e)"
  shows "succeeds (rebuild e ks) (\<lambda>e'. evaluates \<sigma> e (postVisit (AssignmentEvaluator asg) e')
      \<and> (\<not> isNotOptimizedExpr e \<longrightarrow> evaluates \<sigma> e e'))"
proof -
  have "list_all2 (refines_at \<sigma>) ks (getKids e)" "list_all isConstantExpr ks"
    using ks wf_getKids [OF e(1)] e(4) evaluatesD
    by (fastforce simp: list_all2_conv_all_nth list_all_length)+
  moreover have "foldable_kids e ks"
    using ks e(2) e(3)
    by (cases rule: list_all2_getKids_cases) (auto simp: evaluates_def foldable_def isDivision_def)
  ultimately show ?thesis
  proof (cases e)
    case (NotOptimizedExpr x)
    with ks obtain k0 where "ks = [k0]" "evaluates \<sigma> x k0" by (auto simp: list_all2_Cons2)
    with NotOptimizedExpr show ?thesis
      by (auto simp: NotOptimizedExpr_create_def postVisit_def AssignmentEvaluator_def ExprEvaluator_def evaluates_def)
  qed (use rebuild_at(1) [OF e(1,2,4), of ks] rebuild_constants [of ks \<sigma> e] e in
      \<open>auto elim!: succeeds_mono intro!: evaluatesI simp: postVisit_def succeeds_def\<close>)
qed

section \<open>The visits\<close>

lemma AssignmentEvaluator_sel:
  "visitExpr (AssignmentEvaluator asg) = ExprEvaluator_visitExpr"
  "visitKind (AssignmentEvaluator asg) = ExprEvaluator_visitKind (Assignment_evaluate_byte asg)"
  by (simp_all add: AssignmentEvaluator_def ExprEvaluator_def)

definition visited_complete :: "assignment \<Rightarrow> visited \<Rightarrow> bool" where
  "visited_complete \<sigma> m \<longleftrightarrow> (\<forall>e e'. wf_expr e \<longrightarrow> evaluable \<sigma> e \<longrightarrow> m e = Some e' \<longrightarrow> evaluates \<sigma> e e')"

text \<open>\<open>returns m P\<close>: a visit returns, with a result as \<open>P\<close> says and a complete table.\<close>

definition returns :: "assignment \<Rightarrow> error + ('a \<times> visited) \<Rightarrow> ('a \<Rightarrow> bool) \<Rightarrow> bool" where
  "returns \<sigma> v P \<longleftrightarrow> (\<exists>x m. v = Inr (x, m) \<and> P x \<and> visited_complete \<sigma> m)"

lemma returns_Inr [simp]: "returns \<sigma> (Inr (x, m)) P \<longleftrightarrow> P x \<and> visited_complete \<sigma> m"
  by (simp add: returns_def)

lemma returns_bind:
  assumes "returns \<sigma> v P" "\<And>x m. P x \<Longrightarrow> visited_complete \<sigma> m \<Longrightarrow> returns \<sigma> (f (x, m)) Q"
  shows "returns \<sigma> (bindE v f) Q"
  using assms by (auto simp: returns_def)

lemma returns_bind_asserting:
  assumes "succeeds r P" "\<And>x. P x \<Longrightarrow> returns \<sigma> (f x) Q"
  shows "returns \<sigma> (bindE (asserting r) f) Q"
  using assms by (auto simp: succeeds_def)

lemma returns_mono: "returns \<sigma> v P \<Longrightarrow> (\<And>x. P x \<Longrightarrow> Q x) \<Longrightarrow> returns \<sigma> v Q"
  by (auto simp: returns_def)

definition visiting_complete :: "assignment \<Rightarrow> nat \<Rightarrow> visiting \<Rightarrow> bool" where
  "visiting_complete \<sigma> n rec \<longleftrightarrow> (\<forall>e m. size e < n \<longrightarrow> wf_expr e \<longrightarrow> evaluable \<sigma> e \<longrightarrow> visited_complete \<sigma> m \<longrightarrow>
     returns \<sigma> (rec e m) (evaluates \<sigma> e))"

lemma visiting_completeD:
  "visiting_complete \<sigma> n rec \<Longrightarrow> size e < n \<Longrightarrow> wf_expr e \<Longrightarrow> evaluable \<sigma> e \<Longrightarrow> visited_complete \<sigma> m \<Longrightarrow>
   returns \<sigma> (rec e m) (evaluates \<sigma> e)"
  by (simp add: visiting_complete_def)

lemma visitKids_complete:
  assumes "visiting_complete \<sigma> n rec" "visited_complete \<sigma> m"
    "\<And>kid. kid \<in> set kids \<Longrightarrow> size kid < n \<and> wf_expr kid \<and> evaluable \<sigma> kid"
  shows "returns \<sigma> (visitKids rec kids m) (\<lambda>ks. list_all2 (\<lambda>k kid. evaluates \<sigma> kid k) ks kids)"
  using assms(2-)
proof (induction kids arbitrary: m)
  case (Cons kid kids)
  show ?case unfolding visitKids.simps
    by (intro returns_bind [OF visiting_completeD [OF assms(1)]])
      (use Cons in \<open>auto intro!: returns_bind [OF Cons.IH]\<close>)
qed simp

lemma evalRead_complete:
  assumes asg: "models \<sigma> asg" "\<not> allowFreeValues asg" and a: "wf_array a"
    and rec: "visiting_complete \<sigma> n rec" and c: "c < 2 ^ arr_domain a"
  shows "wf_updates a us \<Longrightarrow> evaluable_updates \<sigma> us \<Longrightarrow> size us \<le> n \<Longrightarrow> visited_complete \<sigma> m \<Longrightarrow>
    returns \<sigma> (evalRead (Assignment_evaluate_byte asg) rec a us c m)
      (\<lambda>res. \<exists>v. read_updates \<sigma> a us c = Some v \<and> res = ChangeTo (ConstantExpr (arr_range a) v))"
proof (induction us arbitrary: m rule: getSize.induct)
  case 1
  have v: "Assignment_evaluate_byte asg a c = Some (ConstantExpr (arr_range a) (\<sigma> a c))"
    using asg by (auto simp: Assignment_evaluate_byte_def models_def split: option.splits
        dest!: spec [of _ a] spec [of _ c])
  with 1 show ?case by (auto simp: arr_init_def)
next
  case (2 i v us)
  have \<sigma>: "wf_asg \<sigma>" using asg by (simp add: models_def)
  have "arr_domain a \<le> 64" using a by (simp add: wf_array_def)
  with 2 show ?case unfolding evalRead.simps
    by (intro returns_bind [OF visiting_completeD [OF rec]])
      (auto simp: evaluates_def intro!: returns_bind [OF visiting_completeD [OF rec]])
qed

lemma visitRead_complete:
  assumes asg: "models \<sigma> asg" "\<not> allowFreeValues asg" and e: "wf_expr (ReadExpr a us i)" "evaluable \<sigma> (ReadExpr a us i)"
    and rec: "visiting_complete \<sigma> (size (ReadExpr a us i)) rec" and m: "visited_complete \<sigma> m"
  shows "returns \<sigma> (ExprEvaluator_visitRead (Assignment_evaluate_byte asg) rec a us i m)
    (\<lambda>res. \<exists>e'. res = ChangeTo e' \<and> evaluates \<sigma> (ReadExpr a us i) e')"
  unfolding ExprEvaluator_visitRead_def
proof (rule returns_bind [OF visiting_completeD [OF rec _ _ _ m]])
  fix v m1
  assume v: "evaluates \<sigma> i v" and m1: "visited_complete \<sigma> m1"
  have \<sigma>: "wf_asg \<sigma>" using asg by (simp add: models_def)
  from v obtain c where c: "eval \<sigma> i = Some c" "v = ConstantExpr (getWidth i) c" by (auto simp: evaluates_def)
  with eval_less(1) [of i \<sigma> c] e \<sigma> have d: "c < 2 ^ arr_domain a" "arr_domain a \<le> 32" by (auto simp: wf_array_def)
  then have "c < 2 ^ 32" by (meson less_le_trans one_le_numeral power_increasing)
  moreover have "returns \<sigma> (evalRead (Assignment_evaluate_byte asg) rec a us c m1)
      (\<lambda>res. \<exists>v. read_updates \<sigma> a us c = Some v \<and> res = ChangeTo (ConstantExpr (arr_range a) v))"
    by (rule evalRead_complete [OF asg _ rec d(1) _ _ _ m1]) (use e in auto)
  ultimately show "returns \<sigma> (case (v, m1) of (v, m) \<Rightarrow> case dyn_cast_ConstantExpr v of
       Some (w, c) \<Rightarrow> if w > 64 then Inl AssertionFailed
                      else evalRead (Assignment_evaluate_byte asg) rec a us (c mod 2 ^ 32) m
     | None \<Rightarrow> Inr (DoChildren, m)) (\<lambda>res. \<exists>e'. res = ChangeTo e' \<and> evaluates \<sigma> (ReadExpr a us i) e')"
    using c d e by (auto simp: evaluates_def elim!: returns_mono)
qed (use e in auto)

lemma protectedDivOperation_complete:
  assumes \<sigma>: "wf_asg \<sigma>" and k: "k \<in> {UDiv, SDiv, URem, SRem}"
    and e: "wf_expr (BinaryExpr k l r)" "evaluable \<sigma> (BinaryExpr k l r)" "\<not> (isConstantExpr l \<and> isConstantExpr r)"
    and rec: "visiting_complete \<sigma> (size (BinaryExpr k l r)) rec" and m: "visited_complete \<sigma> m"
  shows "returns \<sigma> (protectedDivOperation rec k l r m)
    (\<lambda>res. \<exists>e'. res = ChangeTo e' \<and> evaluates \<sigma> (BinaryExpr k l r) e')"
  unfolding protectedDivOperation_def
proof (rule returns_bind [OF visiting_completeD [OF rec _ _ _ m]])
  fix k0 m1 assume k0: "evaluates \<sigma> l k0" and m1: "visited_complete \<sigma> m1"
  let ?P = "\<lambda>res. \<exists>e'. res = ChangeTo e' \<and> evaluates \<sigma> (BinaryExpr k l r) e'"
  have "returns \<sigma> (bindE (rec r m1) (\<lambda>(k1, m).
       let k1 = (case dyn_cast_ConstantExpr k1 of
                   Some (w, c) \<Rightarrow> if ConstantExpr_isZero w c then r else k1 | None \<Rightarrow> k1)
       in if k0 \<noteq> l \<or> k1 \<noteq> r
          then bindE (asserting (rebuild (BinaryExpr k l r) [k0, k1])) (\<lambda>e. Inr (ChangeTo e, m))
          else Inr (SkipChildren, m))) ?P"
  proof (rule returns_bind [OF visiting_completeD [OF rec _ _ _ m1]])
    fix k1 m2 assume k1: "evaluates \<sigma> r k1" and m2: "visited_complete \<sigma> m2"
    then obtain c where c: "k1 = ConstantExpr (getWidth r) c" "eval \<sigma> r = Some c" by (auto simp: evaluates_def)
    with e k have "c \<noteq> 0" by auto
    moreover have "k0 \<noteq> l \<or> k1 \<noteq> r" using evaluates_constant [OF k0] evaluates_constant [OF k1] e(3) by auto
    moreover have "list_all2 (\<lambda>k kid. evaluates \<sigma> kid k) [k0, k1] (getKids (BinaryExpr k l r))" using k0 k1 by simp
    then have "succeeds (rebuild (BinaryExpr k l r) [k0, k1]) (evaluates \<sigma> (BinaryExpr k l r))"
      by (intro succeeds_mono [OF rebuild_evaluates [OF e(1) _ e(2) \<sigma>]]) auto
    ultimately show "returns \<sigma> (case (k1, m2) of (k1, m) \<Rightarrow>
       let k1 = (case dyn_cast_ConstantExpr k1 of
                   Some (w, c) \<Rightarrow> if ConstantExpr_isZero w c then r else k1 | None \<Rightarrow> k1)
       in if k0 \<noteq> l \<or> k1 \<noteq> r
          then bindE (asserting (rebuild (BinaryExpr k l r) [k0, k1])) (\<lambda>e. Inr (ChangeTo e, m))
          else Inr (SkipChildren, m)) ?P"
      using c m2 by (auto simp: ConstantExpr_isZero_def intro!: returns_bind_asserting simp del: rebuild.simps)
  qed (use e in auto)
  then show "returns \<sigma> (case (k0, m1) of (k0, m) \<Rightarrow> bindE (rec r m) (\<lambda>(k1, m).
       let k1 = (case dyn_cast_ConstantExpr k1 of
                   Some (w, c) \<Rightarrow> if ConstantExpr_isZero w c then r else k1 | None \<Rightarrow> k1)
       in if k0 \<noteq> l \<or> k1 \<noteq> r
          then bindE (asserting (rebuild (BinaryExpr k l r) [k0, k1])) (\<lambda>e. Inr (ChangeTo e, m))
          else Inr (SkipChildren, m))) ?P" by simp
qed (use e in auto)

lemma visitChildren_complete:
  assumes \<sigma>: "wf_asg \<sigma>" and e: "wf_expr e" "\<not> isConstantExpr e" "evaluable \<sigma> e" "\<not> isReadExpr e"
    and some: "\<not> list_all isConstantExpr (getKids e)"
    and rec: "visiting_complete \<sigma> (size e) rec" and m: "visited_complete \<sigma> m"
  shows "returns \<sigma> (visitChildren (AssignmentEvaluator asg) rec e m) (evaluates \<sigma> e)"
proof -
  have kids: "size kid < size e \<and> wf_expr kid \<and> evaluable \<sigma> kid" if "kid \<in> set (getKids e)" for kid
    using that e size_getKids [OF that] by (cases e) auto
  show ?thesis unfolding visitChildren_def
  proof (rule returns_bind [OF visitKids_complete [OF rec m kids]])
    fix ks m1
    assume ks: "list_all2 (\<lambda>k kid. evaluates \<sigma> kid k) ks (getKids e)" and m1: "visited_complete \<sigma> m1"
    have "list_all isConstantExpr ks" using ks
      by (auto simp: list_all2_conv_all_nth list_all_length evaluates_def)
    with some have "ks \<noteq> getKids e" by auto
    with rebuild_evaluates [OF e(1-3) \<sigma> e(4) ks, of asg] m1
    show "returns \<sigma> (case (ks, m1) of (kids, m) \<Rightarrow>
       bindE (if kids \<noteq> getKids e
            then bindE (asserting (rebuild e kids)) (\<lambda>e. if recursive (AssignmentEvaluator asg) then rec e m else Inr (e, m))
            else Inr (e, m)) (\<lambda>(e, m). Inr (postVisit (AssignmentEvaluator asg) e, m))) (evaluates \<sigma> e)"
      using assignment_evaluator.not_recursive [of asg] by (auto simp: succeeds_def)
  qed
qed

lemma visitActual_complete:
  assumes asg: "models \<sigma> asg" "\<not> allowFreeValues asg" and e: "wf_expr e" "evaluable \<sigma> e"
    and rec: "visiting_complete \<sigma> (size e) rec" and m: "visited_complete \<sigma> m"
  shows "returns \<sigma> (visitActual (AssignmentEvaluator asg) rec e m) (evaluates \<sigma> e)"
proof (cases "isConstantExpr e")
  case True
  with m show ?thesis by (cases e) (auto simp: visitActual_def evaluates_def)
next
  case nc: False
  have \<sigma>: "wf_asg \<sigma>" using asg by (simp add: models_def)
  note defs = visitActual_def AssignmentEvaluator_sel ExprEvaluator_visitExpr_def
  show ?thesis
  proof (cases "isReadExpr e")
    case True
    then obtain a us i where r: "e = ReadExpr a us i" by (cases e) auto
    with visitRead_complete [OF asg, of a us i rec m] e rec m show ?thesis
      by (auto simp: defs intro!: returns_bind)
  next
    case nr: False
    have nk: "getNumKids e \<noteq> 0" using nc by (cases e) auto
    show ?thesis
    proof (cases "list_all isConstantExpr (getKids e)")
      case True
      have "list_all2 (\<lambda>k kid. evaluates \<sigma> kid k) (getKids e) (getKids e)"
        using True by (auto simp: list_all2_same list.pred_set evaluates_def elim!: isConstantExpr.elims)
      moreover have "\<not> isNotOptimizedExpr e" using True e by (cases e) auto
      ultimately have "succeeds (rebuild e (getKids e)) (evaluates \<sigma> e)"
        by (intro succeeds_mono [OF rebuild_evaluates [OF e(1) nc e(2) \<sigma> nr]]) auto
      with True nc nr nk m show ?thesis by (auto simp: defs succeeds_def)
    next
      case some: False
      note C = visitChildren_complete [OF \<sigma> e(1) nc e(2) nr some rec]
      show ?thesis
      proof (cases "\<exists>k l r. e = BinaryExpr k l r \<and> k \<in> {UDiv, SDiv, URem, SRem}")
        case True
        then obtain k l r where b: "e = BinaryExpr k l r" "k \<in> {UDiv, SDiv, URem, SRem}" by blast
        with protectedDivOperation_complete [OF \<sigma> b(2), of l r rec m] e rec m some
        have "returns \<sigma> (protectedDivOperation rec k l r m) (\<lambda>res. \<exists>e'. res = ChangeTo e' \<and> evaluates \<sigma> e e')"
          by simp
        then have "returns \<sigma> (bindE (protectedDivOperation rec k l r m) (\<lambda>(res, m). case res of
            SkipChildren \<Rightarrow> Inr (e, m) | ChangeTo e' \<Rightarrow> Inr (e', m)
          | DoChildren \<Rightarrow> visitChildren (AssignmentEvaluator asg) rec e m)) (evaluates \<sigma> e)"
          by (rule returns_bind) auto
        with b some show ?thesis by (auto simp: defs)
      next
        case False
        then have "ExprEvaluator_visitKind gi rec e m = Inr (DoChildren, m)" for gi
          using nr by (cases e) auto
        with C [OF m] nc nr nk some show ?thesis
          by (simp add: defs)
      qed
    qed
  qed
qed

lemma visit_complete:
  assumes asg: "models \<sigma> asg" "\<not> allowFreeValues asg"
  shows "visiting_complete \<sigma> n (visit (AssignmentEvaluator asg) n)"
proof (induction n)
  case (Suc n)
  show ?case unfolding visiting_complete_def
  proof (intro allI impI)
    fix e m assume e: "size e < Suc n" "wf_expr e" "evaluable \<sigma> e" and m: "visited_complete \<sigma> m"
    from e(1) Suc have "visiting_complete \<sigma> (size e) (visit (AssignmentEvaluator asg) n)"
      by (auto simp: visiting_complete_def)
    note A = visitActual_complete [OF asg e(2,3) this m]
    show "returns \<sigma> (visit (AssignmentEvaluator asg) (Suc n) e m) (evaluates \<sigma> e)"
    proof (cases "m e")
      case None
      have "returns \<sigma> (bindE (visitActual (AssignmentEvaluator asg) (visit (AssignmentEvaluator asg) n) e m) (\<lambda>(res, m).
          Inr (res, if m e = None then m(e \<mapsto> res) else m))) (evaluates \<sigma> e)"
        by (rule returns_bind [OF A]) (auto simp: visited_complete_def)
      with A None show ?thesis by simp
    next
      case (Some r)
      with m e A show ?thesis by (auto simp: visited_complete_def)
    qed
  qed
qed (simp add: visiting_complete_def)

section \<open>The properties of evaluation\<close>

lemma satisfies_from_complete:
  assumes asg: "models \<sigma> asg" "\<not> allowFreeValues asg"
  shows "(\<And>e. e \<in> set es \<Longrightarrow> wf_expr e \<and> getWidth e = 1 \<and> evaluable \<sigma> e \<and> size e < fuel) \<Longrightarrow>
    visited_complete \<sigma> m \<Longrightarrow> satisfies_from fuel asg es m = Inr (\<forall>e \<in> set es. eval \<sigma> e = Some 1)"
proof (induction es arbitrary: m)
  case (Cons e es)
  have \<sigma>: "wf_asg \<sigma>" using asg by (simp add: models_def)
  from Cons.prems have e: "wf_expr e" "getWidth e = 1" "evaluable \<sigma> e" "size e < fuel" by auto
  from visiting_completeD [OF visit_complete [OF asg] e(4,1,3) Cons.prems(2)] obtain v m1 where
    v: "visit (AssignmentEvaluator asg) fuel e m = Inr (ConstantExpr 1 v, m1)" "eval \<sigma> e = Some v"
      "visited_complete \<sigma> m1"
    using e(2) by (auto simp: returns_def evaluates_def)
  with eval_less(1) [OF e(1) \<sigma> v(2)] e(2) have "v = 0 \<or> v = 1" by auto
  with v Cons show ?case by (auto simp: ConstantExpr_isTrue_def)
qed simp

text \<open>Evaluation is sound. Whatever \<open>Assignment::evaluate\<close> returns is well typed, has the width of
  the expression, and has its value under every total assignment the bindings stand for.\<close>

theorem Assignment_evaluate_sound:
  assumes "models \<sigma> asg" "wf_expr e" "Assignment_evaluate fuel asg e = Inr e'"
  shows "wf_expr e' \<and> getWidth e' = getWidth e \<and> (\<forall>v. eval \<sigma> e = Some v \<longrightarrow> eval \<sigma> e' = Some v)"
proof -
  from assms(3) obtain m where "visit (AssignmentEvaluator asg) fuel e Map.empty = Inr (e', m)"
    by (auto simp: Assignment_evaluate_def bindE_Inr)
  from assignment_evaluator.visit_sound [OF assms(1,2) this] show ?thesis by (simp add: refines_at_def)
qed

text \<open>C16: evaluation is complete and ends. If nothing in the expression is divided by zero and no
  \<open>NotOptimizedExpr\<close> encloses a constant, \<open>Assignment::evaluate\<close> returns the constant that the
  expression denotes, with fuel for the size of the expression.\<close>

theorem Assignment_evaluate_complete:
  assumes "models \<sigma> asg" "\<not> allowFreeValues asg" "wf_expr e" "evaluable \<sigma> e" "size e < fuel"
  shows "\<exists>v. eval \<sigma> e = Some v \<and> Assignment_evaluate fuel asg e = Inr (ConstantExpr (getWidth e) v)"
proof -
  have "visited_complete \<sigma> Map.empty" by (simp add: visited_complete_def)
  from visiting_completeD [OF visit_complete [OF assms(1,2)] assms(5,3,4) this] show ?thesis
    by (auto simp: returns_def evaluates_def Assignment_evaluate_def)
qed

definition ex_assignment :: Assignment where
  "ex_assignment = \<lparr> allowFreeValues = False, bindings = [ex_array \<mapsto> [7, 9]] \<rparr>"

definition ex_values :: assignment where
  "ex_values a i = (if a = ex_array then (if i = 0 then 7 else if i = 1 then 9 else 0) else 0)"

lemma ex_models: "models ex_values ex_assignment"
  by (auto simp: models_def wf_asg_def ex_values_def ex_assignment_def less_Suc_eq nth_Cons')

lemma ex_read_1: "Assignment_evaluate (Suc (Suc n)) ex_assignment (ex_read 1) = Inr (ConstantExpr 8 9)"
  by (simp add: Assignment_evaluate_def visitActual_def AssignmentEvaluator_sel ExprEvaluator_visitExpr_def
      ExprEvaluator_visitRead_def Assignment_evaluate_byte_def ex_assignment_def ex_read_def)

theorem Assignment_evaluate_complete_witness:
  "Assignment_evaluate 100 ex_assignment (BinaryExpr UDiv (ConstantExpr 8 21) (ex_read 0)) = Inr (ConstantExpr 8 3)"
proof -
  have "size (BinaryExpr UDiv (ConstantExpr 8 21) (ex_read 0)) < 100" by (simp add: ex_read_def)
  moreover have "evaluable ex_values (BinaryExpr UDiv (ConstantExpr 8 21) (ex_read 0))"
    by (simp add: ex_read_def ex_values_def arr_init_def)
  ultimately show ?thesis
    using Assignment_evaluate_complete [OF ex_models, of "BinaryExpr UDiv (ConstantExpr 8 21) (ex_read 0)" 100]
    by (auto simp: ex_assignment_def [of] ex_values_def)
qed

theorem Assignment_evaluate_sound_witness:
  "\<exists>e'. Assignment_evaluate (Suc (Suc 0)) ex_assignment (ex_read 1) = Inr e' \<and> wf_expr e' \<and> eval ex_values e' = Some 9"
  using Assignment_evaluate_sound [OF ex_models _ ex_read_1 [of 0]] ex_read_1 [of 0] by (simp add: ex_values_def)

text \<open>C22: \<open>Assignment::satisfies\<close> decides whether all constraints hold, one table serving for all of them.\<close>

theorem Assignment_satisfies_correct:
  assumes "models \<sigma> asg" "\<not> allowFreeValues asg"
    and "\<And>e. e \<in> set es \<Longrightarrow> wf_expr e \<and> getWidth e = 1 \<and> evaluable \<sigma> e \<and> size e < fuel"
  shows "Assignment_satisfies fuel asg es = Inr (\<forall>e \<in> set es. eval \<sigma> e = Some 1)"
  unfolding Assignment_satisfies_def
  by (rule satisfies_from_complete [OF assms]) (simp_all add: visited_complete_def)

theorem Assignment_satisfies_correct_witness:
  "Assignment_satisfies 100 ex_assignment
     [BinaryExpr Ult (ex_read 0) (ex_read 1), BinaryExpr Eq (ConstantExpr 8 7) (ex_read 0)] = Inr True"
proof -
  have "Assignment_satisfies 100 ex_assignment
     [BinaryExpr Ult (ex_read 0) (ex_read 1), BinaryExpr Eq (ConstantExpr 8 7) (ex_read 0)] =
    Inr (\<forall>e \<in> set [BinaryExpr Ult (ex_read 0) (ex_read 1), BinaryExpr Eq (ConstantExpr 8 7) (ex_read 0)].
      eval ex_values e = Some 1)"
    by (rule Assignment_satisfies_correct [OF ex_models]) (auto simp: ex_assignment_def ex_read_def)
  then show ?thesis by (simp add: ex_values_def)
qed

text \<open>Evaluation of any expression ends, with fuel for its size.\<close>

theorem Assignment_evaluate_terminates:
  assumes "size e < fuel"
  shows "Assignment_evaluate fuel asg e \<noteq> Inl OutOfFuel"
  using assignment_evaluator.visit_terminates [OF assms] by (auto simp: Assignment_evaluate_def bindE_Inl)

theorem Assignment_evaluate_terminates_witness:
  "Assignment_evaluate 3 ex_assignment (NotExpr (ConstantExpr 8 0)) \<noteq> Inl OutOfFuel"
  by (rule Assignment_evaluate_terminates) simp

text \<open>A \<open>NotOptimizedExpr\<close> around a constant is not folded by evaluation, although the comment of
  \<open>visitExprPost\<close> asks for it: \<open>visitExpr\<close> rebuilds the node over its constant child and returns
  before the post visit.\<close>

theorem evaluate_NotOptimized_constant:
  "Assignment_evaluate (Suc n) asg (NotOptimizedExpr (ConstantExpr w v)) = Inr (NotOptimizedExpr (ConstantExpr w v))"
  by (simp add: Assignment_evaluate_def visitActual_def AssignmentEvaluator_sel ExprEvaluator_visitExpr_def
      NotOptimizedExpr_create_def)

text \<open>A division whose divisor is the literal zero stops evaluation at an assertion when the dividend
  evaluates: \<open>protectedDivOperation\<close> puts the old divisor back, which is the same zero.\<close>

theorem evaluate_division_by_literal_zero:
  "Assignment_evaluate (Suc (Suc (Suc n))) ex_assignment (BinaryExpr UDiv (ex_read 0) (ConstantExpr 8 0)) =
     Inl AssertionFailed"
  by (simp add: Assignment_evaluate_def visitActual_def AssignmentEvaluator_sel ExprEvaluator_visitExpr_def
      protectedDivOperation_def ExprEvaluator_visitRead_def Assignment_evaluate_byte_def ex_assignment_def
      ex_read_def ConstantExpr_isZero_def UDivExpr_create_def BCREATE_def)

end
