(* ===== verification/Constraints.thy ===== *)
theory Constraints
  imports ExprVisitor
begin

text \<open>
  \<^verbatim>\<open>lib/Expr/Constraints.cpp\<close>: the constraint set of a path. Adding a constraint simplifies it
  under the equalities that are known, splits conjunctions, and rewrites the constraints that are
  there when an equality with a constant is added. The option \<open>rewrite-equalities\<close> has its default.

  The visitor of \<open>rewriteConstraints\<close> visits subexpressions only, so its fuel is the size of the
  expression. The recursion of \<open>addConstraintInternal\<close> and the recursive visitor of
  \<open>simplifyExpr\<close> take fuel as an argument.
\<close>

section \<open>The visitors\<close>

definition ExprReplaceVisitor :: "expr \<Rightarrow> expr \<Rightarrow> visitor" where
  "ExprReplaceVisitor src dst = default_visitor\<lparr>
     visitExpr := (\<lambda>e. if e = src then Inr (ChangeTo dst) else Inr DoChildren),
     visitExprPost := (\<lambda>e. if e = src then ChangeTo dst else DoChildren) \<rparr>"

definition ExprReplaceVisitor2 :: "(expr \<Rightarrow> expr option) \<Rightarrow> visitor" where
  "ExprReplaceVisitor2 replacements = default_visitor\<lparr>
     recursive := True,
     visitExprPost := (\<lambda>e. case replacements e of Some e' \<Rightarrow> ChangeTo e' | None \<Rightarrow> DoChildren) \<rparr>"

section \<open>The constraint manager\<close>

type_synonym constraint_set = "expr list"

text \<open>\<open>std::map::insert\<close> keeps the entry of a key that is there already.\<close>

definition map_insert :: "('k \<Rightarrow> 'v option) \<Rightarrow> 'k \<Rightarrow> 'v \<Rightarrow> 'k \<Rightarrow> 'v option" where
  "map_insert m k v = (if m k = None then m(k \<mapsto> v) else m)"

fun constraint_equality :: "expr \<Rightarrow> expr \<times> expr" where
  "constraint_equality (BinaryExpr Eq l r) =
     (if isConstantExpr l then (r, l) else (BinaryExpr Eq l r, ConstantExpr Bool 1))"
| "constraint_equality c = (c, ConstantExpr Bool 1)"

definition equalities :: "constraint_set \<Rightarrow> expr \<Rightarrow> expr option" where
  "equalities cs = fold (\<lambda>c m. map_insert m (fst (constraint_equality c)) (snd (constraint_equality c))) cs Map.empty"

definition simplifyExpr :: "nat \<Rightarrow> constraint_set \<Rightarrow> expr \<Rightarrow> error + expr" where
  "simplifyExpr fuel cs e =
     (if isConstantExpr e then Inr e
      else bindE (visit (ExprReplaceVisitor2 (equalities cs)) fuel e Map.empty) (\<lambda>(e', m). Inr e'))"

function addConstraintInternal :: "nat \<Rightarrow> expr \<Rightarrow> constraint_set \<Rightarrow> error + constraint_set"
and rewriteConstraints :: "nat \<Rightarrow> visitor \<Rightarrow> expr list \<Rightarrow> visited \<Rightarrow> constraint_set \<Rightarrow> bool \<Rightarrow>
    error + (constraint_set \<times> bool)" where
  "addConstraintInternal 0 e cs = Inl OutOfFuel"
| "addConstraintInternal (Suc n) e cs = (case e of
     ConstantExpr w v \<Rightarrow> if ConstantExpr_isTrue w v then Inr cs else Inl AssertionFailed
   | BinaryExpr And l r \<Rightarrow>
       bindE (addConstraintInternal n l cs) (\<lambda>cs. addConstraintInternal n r cs)
   | BinaryExpr Eq l r \<Rightarrow>
       bindE (if isConstantExpr l
              then bindE (rewriteConstraints n (ExprReplaceVisitor r l) cs Map.empty [] False)
                     (\<lambda>(cs, changed). Inr cs)
              else Inr cs) (\<lambda>cs. Inr (cs @ [e]))
   | _ \<Rightarrow> Inr (cs @ [e]))"
| "rewriteConstraints n vis [] m cs changed = Inr (cs, changed)"
| "rewriteConstraints n vis (ce # old) m cs changed =
     bindE (visit vis (Suc (size ce)) ce m) (\<lambda>(e, m).
       if e \<noteq> ce
       then bindE (addConstraintInternal n e cs) (\<lambda>cs. rewriteConstraints n vis old m cs True)
       else rewriteConstraints n vis old m (cs @ [ce]) changed)"
  by pat_completeness auto
termination
  by (relation "measures [case_sum (\<lambda>(n, e, cs). n) (\<lambda>(n, vis, old, m, cs, changed). n),
      case_sum (\<lambda>_. 0) (\<lambda>(n, vis, old, m, cs, changed). Suc (length old))]") auto

definition addConstraint :: "nat \<Rightarrow> expr \<Rightarrow> constraint_set \<Rightarrow> error + constraint_set" where
  "addConstraint fuel e cs =
     bindE (simplifyExpr fuel cs e) (\<lambda>simplified. addConstraintInternal fuel simplified cs)"

section \<open>Replacement is sound where the equality holds\<close>

text \<open>
  A constraint holds at an assignment, or is at least not false there: it may divide by zero and
  have no value.
\<close>

definition holds :: "assignment \<Rightarrow> expr \<Rightarrow> bool" where
  "holds \<sigma> c \<longleftrightarrow> eval \<sigma> c = Some 1"

definition not_false :: "assignment \<Rightarrow> expr \<Rightarrow> bool" where
  "not_false \<sigma> c \<longleftrightarrow> (\<forall>v. eval \<sigma> c = Some v \<longrightarrow> v = 1)"

definition wf_constraint :: "expr \<Rightarrow> bool" where
  "wf_constraint c \<longleftrightarrow> wf_expr c \<and> getWidth c = Bool"

lemma holds_not_false: "holds \<sigma> c \<Longrightarrow> not_false \<sigma> c"
  by (simp add: holds_def not_false_def)

lemma refines_at_holds: "refines_at \<sigma> e e0 \<Longrightarrow> holds \<sigma> e0 \<Longrightarrow> holds \<sigma> e"
  by (simp add: refines_at_def holds_def)

lemma refines_at_not_false: "refines_at \<sigma> e e0 \<Longrightarrow> not_false \<sigma> e \<Longrightarrow> not_false \<sigma> e0"
  by (auto simp: refines_at_def not_false_def)

lemma refines_at_wf_constraint: "refines_at \<sigma> e e0 \<Longrightarrow> wf_constraint e0 \<Longrightarrow> wf_constraint e"
  by (auto simp: refines_at_def wf_constraint_def)

lemma eq_constant_refines:
  assumes "wf_expr (BinaryExpr Eq l r)" "isConstantExpr l" "not_false \<sigma> (BinaryExpr Eq l r)"
  shows "refines_at \<sigma> l r"
  using assms by (cases l) (auto simp: refines_at_def not_false_def of_bool_def split: if_splits)

text \<open>Both visitors, for values under the assignments that satisfy the equalities and for typing alone.\<close>

interpretation replace_visitor: sound_visitor
  "\<lambda>\<sigma>. wf_asg \<sigma> \<and> refines_at \<sigma> dst src" refines_at "ExprReplaceVisitor src dst" for src dst
  by (intro sound_visitor.intro refines_at_rewrite sound_visitor_axioms.intro)
    (auto simp: ExprReplaceVisitor_def default_visitor_def split: if_splits)

interpretation replace_visitor_typing: sound_visitor
  "\<lambda>p::unit. typed_as dst src" "\<lambda>p. typed_as" "ExprReplaceVisitor src dst" for src dst
  by (intro sound_visitor.intro typed_as_rewrite sound_visitor_axioms.intro)
    (auto simp: ExprReplaceVisitor_def default_visitor_def split: if_splits)

interpretation replace_visitor: subterm_visitor "ExprReplaceVisitor src dst" for src dst
  by unfold_locales (auto simp: ExprReplaceVisitor_def default_visitor_def)

interpretation replace_visitor2: sound_visitor
  "\<lambda>\<sigma>. wf_asg \<sigma> \<and> (\<forall>e e'. replacements e = Some e' \<longrightarrow> refines_at \<sigma> e' e)" refines_at
  "ExprReplaceVisitor2 replacements" for replacements
  by (intro sound_visitor.intro refines_at_rewrite sound_visitor_axioms.intro)
    (auto simp: ExprReplaceVisitor2_def default_visitor_def split: option.splits)

interpretation replace_visitor2_typing: sound_visitor
  "\<lambda>p::unit. \<forall>e e'. replacements e = Some e' \<longrightarrow> typed_as e' e" "\<lambda>p. typed_as"
  "ExprReplaceVisitor2 replacements" for replacements
  by (intro sound_visitor.intro typed_as_rewrite sound_visitor_axioms.intro)
    (auto simp: ExprReplaceVisitor2_def default_visitor_def split: option.splits)

section \<open>Simplification\<close>

lemma constraint_equality_ok:
  assumes "wf_constraint c"
  shows "typed_as (snd (constraint_equality c)) (fst (constraint_equality c))"
    and "not_false \<sigma> c \<Longrightarrow> refines_at \<sigma> (snd (constraint_equality c)) (fst (constraint_equality c))"
proof -
  have true: "not_false \<sigma> c \<Longrightarrow> refines_at \<sigma> (ConstantExpr 1 1) c" using assms
    by (auto simp: refines_at_def not_false_def wf_constraint_def)
  show "typed_as (snd (constraint_equality c)) (fst (constraint_equality c))"
    using assms by (cases c rule: constraint_equality.cases)
      (auto simp: wf_constraint_def typed_as_def elim!: isConstantExpr.elims)
  show "refines_at \<sigma> (snd (constraint_equality c)) (fst (constraint_equality c))" if "not_false \<sigma> c"
    using true [OF that] that assms eq_constant_refines [of _ _ \<sigma>]
    by (cases c rule: constraint_equality.cases) (auto simp: wf_constraint_def)
qed

lemma equalities_from:
  assumes "fold (\<lambda>c m. map_insert m (fst (constraint_equality c)) (snd (constraint_equality c))) cs m e = Some e'"
  shows "m e = Some e' \<or> (\<exists>c \<in> set cs. constraint_equality c = (e, e'))"
  using assms
proof (induction cs arbitrary: m)
  case (Cons c cs)
  let ?m = "map_insert m (fst (constraint_equality c)) (snd (constraint_equality c))"
  from Cons have "?m e = Some e' \<or> (\<exists>c \<in> set cs. constraint_equality c = (e, e'))" by simp
  moreover have "?m e = Some e' \<Longrightarrow> m e = Some e' \<or> constraint_equality c = (e, e')"
    by (auto simp: map_insert_def prod_eq_iff split: if_splits)
  ultimately show ?case by auto
qed simp

lemma equalities_Some: "equalities cs e = Some e' \<Longrightarrow> \<exists>c \<in> set cs. constraint_equality c = (e, e')"
  unfolding equalities_def by (drule equalities_from) simp

lemma simplifyExpr_sound:
  assumes "simplifyExpr fuel cs e = Inr e'" "wf_expr e" "list_all wf_constraint cs"
  shows "typed_as e' e"
    and "wf_asg \<sigma> \<Longrightarrow> list_all (not_false \<sigma>) cs \<Longrightarrow> refines_at \<sigma> e' e"
proof -
  from assms(1) consider "e' = e" | m where "visit (ExprReplaceVisitor2 (equalities cs)) fuel e Map.empty = Inr (e', m)"
    by (auto simp: simplifyExpr_def bindE_Inr split: if_splits)
  note cases = this
  have T: "\<forall>x x'. equalities cs x = Some x' \<longrightarrow> typed_as x' x"
  proof (intro allI impI)
    fix x x' assume "equalities cs x = Some x'"
    then obtain c where "c \<in> set cs" "constraint_equality c = (x, x')" using equalities_Some by blast
    with constraint_equality_ok(1) [of c] assms(3) show "typed_as x' x" by (simp add: list.pred_set)
  qed
  show "typed_as e' e"
    by (rule cases) (use T assms(2) in \<open>simp add: typed_as_def\<close>,
      rule replace_visitor2_typing.visit_sound [OF T assms(2)])
  assume \<sigma>: "wf_asg \<sigma>" "list_all (not_false \<sigma>) cs"
  have R: "\<forall>x x'. equalities cs x = Some x' \<longrightarrow> refines_at \<sigma> x' x"
  proof (intro allI impI)
    fix x x' assume "equalities cs x = Some x'"
    then obtain c where "c \<in> set cs" "constraint_equality c = (x, x')" using equalities_Some by blast
    with constraint_equality_ok(2) [of c \<sigma>] assms(3) \<sigma>(2) show "refines_at \<sigma> x' x" by (simp add: list.pred_set)
  qed
  show "refines_at \<sigma> e' e"
    by (rule cases) (use assms(2) in simp, rule replace_visitor2.visit_sound [OF conjI [OF \<sigma>(1) R] assms(2)])
qed

section \<open>Adding a constraint\<close>

lemma and_constraint:
  assumes "wf_constraint (BinaryExpr And l r)" "wf_asg \<sigma>"
  shows "holds \<sigma> (BinaryExpr And l r) \<Longrightarrow> holds \<sigma> l \<and> holds \<sigma> r"
    and "not_false \<sigma> l \<Longrightarrow> not_false \<sigma> r \<Longrightarrow> not_false \<sigma> (BinaryExpr And l r)"
proof -
  have w: "wf_expr l" "wf_expr r" "getWidth l = 1" "getWidth r = 1"
    using assms(1) by (auto simp: wf_constraint_def)
  have less: "eval \<sigma> l = Some a \<Longrightarrow> a < 2" "eval \<sigma> r = Some b \<Longrightarrow> b < 2" for a b
    using eval_less(1) [of l \<sigma> a] eval_less(1) [of r \<sigma> b] w assms(2) by auto
  show "holds \<sigma> l \<and> holds \<sigma> r" if "holds \<sigma> (BinaryExpr And l r)"
    using that less w unfolding holds_def
    by (cases "eval \<sigma> l"; cases "eval \<sigma> r") (auto simp: less_2_cases_iff split: if_splits)
  show "not_false \<sigma> (BinaryExpr And l r)" if "not_false \<sigma> l" "not_false \<sigma> r"
    using that w unfolding not_false_def
    by (cases "eval \<sigma> l"; cases "eval \<sigma> r") (auto split: if_splits)
qed

text \<open>
  \<open>replaces \<sigma> new old\<close>: at the assignment the new constraints hold if the old ones do, and if no
  new constraint is false no old one is.
\<close>

definition replaces :: "assignment \<Rightarrow> expr list \<Rightarrow> expr list \<Rightarrow> bool" where
  "replaces \<sigma> new old \<longleftrightarrow> (list_all (holds \<sigma>) old \<longrightarrow> list_all (holds \<sigma>) new)
     \<and> (list_all (not_false \<sigma>) new \<longrightarrow> list_all (not_false \<sigma>) old)"

lemma replaces_trans: "replaces \<sigma> a b \<Longrightarrow> replaces \<sigma> b c \<Longrightarrow> replaces \<sigma> a c"
  by (auto simp: replaces_def)

lemma replaces_set: "set a = set b \<Longrightarrow> replaces \<sigma> a b"
  by (auto simp: replaces_def list.pred_set)

lemma replaces_append: "replaces \<sigma> a b \<Longrightarrow> replaces \<sigma> (a @ c) (b @ c)"
  by (auto simp: replaces_def)

definition added :: "expr \<Rightarrow> constraint_set \<Rightarrow> constraint_set \<Rightarrow> bool" where
  "added e cs cs' \<longleftrightarrow> list_all wf_constraint cs' \<and> (\<forall>\<sigma>. wf_asg \<sigma> \<longrightarrow> replaces \<sigma> cs' (e # cs))"

definition visited_under :: "expr \<Rightarrow> visited \<Rightarrow> bool" where
  "visited_under c m \<longleftrightarrow> visited_ok typed_as m
     \<and> (\<forall>\<sigma>. wf_asg \<sigma> \<longrightarrow> not_false \<sigma> c \<longrightarrow> visited_ok (refines_at \<sigma>) m)"

lemma replace_visit_sound:
  assumes e: "wf_expr (BinaryExpr Eq l r)" "isConstantExpr l" and m: "visited_under (BinaryExpr Eq l r) m"
    and ce: "wf_expr ce" and res: "visit (ExprReplaceVisitor r l) n ce m = Inr (x, m')"
  shows "typed_as x ce \<and> visited_under (BinaryExpr Eq l r) m'
    \<and> (\<forall>\<sigma>. wf_asg \<sigma> \<longrightarrow> not_false \<sigma> (BinaryExpr Eq l r) \<longrightarrow> refines_at \<sigma> x ce)"
proof -
  have t: "typed_as l r" using e by (auto simp: typed_as_def)
  have "typed_as x ce \<and> visited_ok typed_as m'"
    by (rule visiting_okD [OF replace_visitor_typing.visiting_ok_visit [OF t] ce _ res])
      (use m in \<open>simp add: visited_under_def\<close>)
  moreover have "refines_at \<sigma> x ce \<and> visited_ok (refines_at \<sigma>) m'"
    if "wf_asg \<sigma>" "not_false \<sigma> (BinaryExpr Eq l r)" for \<sigma>
    by (rule visiting_okD [OF replace_visitor.visiting_ok_visit ce _ res])
      (use m that eq_constant_refines [OF e] in \<open>simp_all add: visited_under_def\<close>)
  ultimately show ?thesis by (simp add: visited_under_def)
qed

lemma addConstraintInternal_step:
  assumes res: "addConstraintInternal (Suc n) e cs = Inr cs'" and wf: "wf_constraint e" "list_all wf_constraint cs"
    and IH: "\<And>l r cs1 cs2. e = BinaryExpr And l r \<Longrightarrow> addConstraintInternal n l cs = Inr cs1 \<Longrightarrow> added l cs cs1"
      "\<And>l r cs1 cs2. e = BinaryExpr And l r \<Longrightarrow> list_all wf_constraint cs1 \<Longrightarrow>
        addConstraintInternal n r cs1 = Inr cs2 \<Longrightarrow> added r cs1 cs2"
      "\<And>l r cs1 ch. e = BinaryExpr Eq l r \<Longrightarrow> isConstantExpr l \<Longrightarrow>
        rewriteConstraints n (ExprReplaceVisitor r l) cs Map.empty [] False = Inr (cs1, ch) \<Longrightarrow>
        list_all wf_constraint cs1 \<and> (\<forall>\<sigma>. wf_asg \<sigma> \<longrightarrow> replaces \<sigma> (e # cs1) (e # cs))"
  shows "added e cs cs'"
proof -
  have keep: "added e cs (cs @ [e])" using wf by (auto simp: added_def intro!: replaces_set)
  consider (const) w v where "e = ConstantExpr w v" | (And) l r where "e = BinaryExpr And l r"
    | (Eq) l r where "e = BinaryExpr Eq l r" "isConstantExpr l" | (other) "cs' = cs @ [e]"
    using res by (cases e) (auto split: binkind.splits if_splits)
  then show ?thesis
  proof cases
    case const
    with res wf show ?thesis
      by (auto simp: added_def replaces_def holds_def not_false_def ConstantExpr_isTrue_def wf_constraint_def
          split: if_splits)
  next
    case (And l r)
    with res obtain cs1 where cs1: "addConstraintInternal n l cs = Inr cs1" "addConstraintInternal n r cs1 = Inr cs'"
      by (auto simp: bindE_Inr)
    from IH(1) [OF And cs1(1)] have a: "added l cs cs1" .
    then have b: "added r cs1 cs'" using IH(2) [OF And _ cs1(2)] by (simp add: added_def)
    from a b and_constraint [OF wf(1) [unfolded And]] show ?thesis
      unfolding added_def replaces_def And by auto
  next
    case (Eq l r)
    with res obtain cs1 ch where "rewriteConstraints n (ExprReplaceVisitor r l) cs Map.empty [] False = Inr (cs1, ch)"
      "cs' = cs1 @ [e]" by (auto simp: bindE_Inr split: if_splits)
    with IH(3) [OF Eq this(1)] wf show ?thesis
      by (auto simp: added_def replaces_def)
  next
    case other
    with keep show ?thesis by simp
  qed
qed

lemma addConstraintInternal_sound:
  shows "addConstraintInternal n e cs = Inr cs' \<Longrightarrow> wf_constraint e \<Longrightarrow> list_all wf_constraint cs \<Longrightarrow>
      added e cs cs'"
    and "rewriteConstraints n vis old m cs ch = Inr (cs', ch') \<Longrightarrow> vis = ExprReplaceVisitor r l \<Longrightarrow>
      wf_expr (BinaryExpr Eq l r) \<Longrightarrow> isConstantExpr l \<Longrightarrow>
      list_all wf_constraint old \<Longrightarrow> list_all wf_constraint cs \<Longrightarrow> visited_under (BinaryExpr Eq l r) m \<Longrightarrow>
      list_all wf_constraint cs' \<and>
      (\<forall>\<sigma>. wf_asg \<sigma> \<longrightarrow> replaces \<sigma> (BinaryExpr Eq l r # cs') (BinaryExpr Eq l r # old @ cs))"
proof (induction n e cs and n vis old m cs ch arbitrary: cs' and l r cs' ch'
    rule: addConstraintInternal_rewriteConstraints.induct)
  case (2 n e cs)
  show ?case
  proof (rule addConstraintInternal_step [OF 2(4-6)])
    fix l r cs1 ch assume e: "e = BinaryExpr Eq l r" "isConstantExpr l"
      and rw: "rewriteConstraints n (ExprReplaceVisitor r l) cs Map.empty [] False = Inr (cs1, ch)"
    have "visited_under e Map.empty" by (simp add: visited_under_def)
    moreover have "wf_expr e" using 2(5) by (simp add: wf_constraint_def)
    ultimately show "list_all wf_constraint cs1 \<and> (\<forall>\<sigma>. wf_asg \<sigma> \<longrightarrow> replaces \<sigma> (e # cs1) (e # cs))"
      using 2(3) [OF e(1) refl e(2) rw refl] 2(6) e by auto
  next
    fix l r cs1 assume e: "e = BinaryExpr And l r"
    then have wf: "wf_constraint l" "wf_constraint r" using 2(5) by (auto simp: wf_constraint_def)
    show "added l cs cs1" if "addConstraintInternal n l cs = Inr cs1"
      using 2(1) [OF e refl that wf(1) 2(6)] .
    show "added r cs1 cs2" if "list_all wf_constraint cs1" "addConstraintInternal n r cs1 = Inr cs2" for cs2
      using 2(2) [OF e refl that(2) wf(2) that(1)] .
  qed
next
  case (4 n vis ce old m cs ch)
  let ?E = "BinaryExpr Eq l r"
  from 4(4,5) obtain x m1 where x: "visit (ExprReplaceVisitor r l) (Suc (size ce)) ce m = Inr (x, m1)"
    by (auto simp: bindE_Inr)
  with replace_visit_sound [OF 4(6,7,10) _ x] 4(8) have v: "typed_as x ce" "visited_under ?E m1"
    "\<And>\<sigma>. wf_asg \<sigma> \<Longrightarrow> not_false \<sigma> ?E \<Longrightarrow> refines_at \<sigma> x ce" by (auto simp: wf_constraint_def)
  show ?case
  proof (cases "x = ce")
    case True
    with 4(4,5) x have "rewriteConstraints n vis old m1 (cs @ [ce]) ch = Inr (cs', ch')" by simp
    with 4(3) [of x m1] True v(2) 4(5-9) show ?thesis by (auto simp: replaces_def)
  next
    case False
    with 4(4,5) x obtain cs1 where cs1: "addConstraintInternal n x cs = Inr cs1"
      "rewriteConstraints n vis old m1 cs1 True = Inr (cs', ch')" by (auto simp: bindE_Inr)
    have "added x cs cs1" using 4(1) [OF False cs1(1)] v(1) 4(8,9) by (auto simp: typed_as_def wf_constraint_def)
    moreover from this 4(2) [OF False cs1(2) 4(5-7)] v(2) 4(8)
    have "list_all wf_constraint cs' \<and> (\<forall>\<sigma>. wf_asg \<sigma> \<longrightarrow> replaces \<sigma> (?E # cs') (?E # old @ cs1))"
      by (auto simp: added_def)
    ultimately show ?thesis using v(3) holds_not_false [of _ ?E] refines_at_holds [of _ x ce] refines_at_not_false [of _ x ce]
      unfolding added_def replaces_def list.pred_inject(2) list_all_append append_Cons by blast
  qed
qed (auto simp: replaces_def)

lemma addConstraint_sound:
  assumes res: "addConstraint fuel e cs = Inr cs'" and wf: "wf_constraint e" "list_all wf_constraint cs"
  shows "added e cs cs'"
proof -
  from res obtain s where s: "simplifyExpr fuel cs e = Inr s" "addConstraintInternal fuel s cs = Inr cs'"
    by (auto simp: addConstraint_def bindE_Inr)
  from simplifyExpr_sound [OF s(1) _ wf(2)] wf(1) have t: "wf_constraint s"
    and r: "\<And>\<sigma>. wf_asg \<sigma> \<Longrightarrow> list_all (not_false \<sigma>) cs \<Longrightarrow> refines_at \<sigma> s e"
    by (auto simp: wf_constraint_def typed_as_def)
  have nf: "list_all (holds \<sigma>) cs \<Longrightarrow> list_all (not_false \<sigma>) cs" for \<sigma>
    by (auto simp: list.pred_set holds_not_false)
  from addConstraintInternal_sound(1) [OF s(2) t wf(2)] show ?thesis
    using r nf refines_at_holds [of _ s e] refines_at_not_false [of _ s e]
    unfolding added_def replaces_def list.pred_inject(2) by blast
qed

section \<open>The properties of the constraint manager\<close>





end
