(* ===== verification/ImmutableTree.thy ===== *)
theory ImmutableTree
  imports Prelude
begin

text \<open>
  \<^verbatim>\<open>include/klee/ADT/ImmutableTree.h\<close>: the persistent balanced search tree under the maps and sets
  of the program. The heights of two siblings may differ by two. The type parameters of the
  template are the function \<open>key\<close> (\<open>key_of_value\<close>) into a linear order (\<open>key_compare\<close>); reference
  counts are not modelled, since a tree is never changed.
\<close>

section \<open>Nodes\<close>

datatype 'v itree =
    Terminator
  | Node (left: "'v itree") (val: 'v) (right: "'v itree") (hgt: nat)
  where
    "left Terminator = Terminator"
  | "right Terminator = Terminator"
  | "hgt Terminator = 0"

definition newNode :: "'v itree \<Rightarrow> 'v \<Rightarrow> 'v itree \<Rightarrow> 'v itree" where
  "newNode l v r = Node l v r (max (hgt l) (hgt r) + 1)"

definition balance :: "'v itree \<Rightarrow> 'v \<Rightarrow> 'v itree \<Rightarrow> 'v itree" where
  "balance l v r =
     (if hgt l > hgt r + 2 then
        (if hgt (left l) \<ge> hgt (right l) then
           newNode (left l) (val l) (newNode (right l) v r)
         else
           newNode (newNode (left l) (val l) (left (right l))) (val (right l)) (newNode (right (right l)) v r))
      else if hgt r > hgt l + 2 then
        (if hgt (right r) \<ge> hgt (left r) then
           newNode (newNode l v (left r)) (val r) (right r)
         else
           newNode (newNode l v (left (left r))) (val (left r)) (newNode (right (left r)) (val r) (right r)))
      else newNode l v r)"

fun tree_size :: "'v itree \<Rightarrow> nat" where
  "tree_size Terminator = 0"
| "tree_size (Node l v r h) = tree_size l + 1 + tree_size r"

text \<open>\<open>valueOut\<close> is the second component; the terminator has itself as left child and some value \<open>d\<close>.\<close>

fun popMin :: "'v \<Rightarrow> 'v itree \<Rightarrow> 'v itree \<times> 'v" where
  "popMin d Terminator = (Terminator, d)"
| "popMin d (Node l v r h) =
     (if l = Terminator then (r, v) else (case popMin d l of (l', out) \<Rightarrow> (balance l' v r, out)))"

fun popMax :: "'v \<Rightarrow> 'v itree \<Rightarrow> 'v itree \<times> 'v" where
  "popMax d Terminator = (Terminator, d)"
| "popMax d (Node l v r h) =
     (if r = Terminator then (l, v) else (case popMax d r of (r', out) \<Rightarrow> (balance l v r', out)))"

fun tree_insert :: "('v \<Rightarrow> 'k::linorder) \<Rightarrow> 'v \<Rightarrow> 'v itree \<Rightarrow> 'v itree" where
  "tree_insert key v Terminator = newNode Terminator v Terminator"
| "tree_insert key v (Node l x r h) =
     (if key v < key x then balance (tree_insert key v l) x r
      else if key x < key v then balance l x (tree_insert key v r)
      else Node l x r h)"

fun tree_replace :: "('v \<Rightarrow> 'k::linorder) \<Rightarrow> 'v \<Rightarrow> 'v itree \<Rightarrow> 'v itree" where
  "tree_replace key v Terminator = newNode Terminator v Terminator"
| "tree_replace key v (Node l x r h) =
     (if key v < key x then balance (tree_replace key v l) x r
      else if key x < key v then balance l x (tree_replace key v r)
      else newNode l v r)"

fun tree_remove :: "('v \<Rightarrow> 'k::linorder) \<Rightarrow> 'k \<Rightarrow> 'v itree \<Rightarrow> 'v itree" where
  "tree_remove key k Terminator = Terminator"
| "tree_remove key k (Node l x r h) =
     (if k < key x then balance (tree_remove key k l) x r
      else if key x < k then balance l x (tree_remove key k r)
      else if l = Terminator then r
      else if r = Terminator then l
      else (case popMin x r of (nr, m) \<Rightarrow> balance l m nr))"

section \<open>Queries\<close>

fun tree_count :: "('v \<Rightarrow> 'k::linorder) \<Rightarrow> 'k \<Rightarrow> 'v itree \<Rightarrow> nat" where
  "tree_count key k Terminator = 0"
| "tree_count key k (Node l x r h) =
     (if k < key x then tree_count key k l else if key x < k then tree_count key k r else 1)"

fun tree_lookup :: "('v \<Rightarrow> 'k::linorder) \<Rightarrow> 'k \<Rightarrow> 'v itree \<Rightarrow> 'v option" where
  "tree_lookup key k Terminator = None"
| "tree_lookup key k (Node l x r h) =
     (if k < key x then tree_lookup key k l else if key x < k then tree_lookup key k r else Some x)"

text \<open>The loop of \<open>lookup_previous\<close> with its variable \<open>result\<close>.\<close>

fun lookup_previous_from :: "('v \<Rightarrow> 'k::linorder) \<Rightarrow> 'k \<Rightarrow> 'v itree \<Rightarrow> 'v option \<Rightarrow> 'v option" where
  "lookup_previous_from key k Terminator result = result"
| "lookup_previous_from key k (Node l x r h) result =
     (if k < key x then lookup_previous_from key k l result
      else if key x < k then lookup_previous_from key k r (Some x)
      else Some x)"

definition lookup_previous :: "('v \<Rightarrow> 'k::linorder) \<Rightarrow> 'k \<Rightarrow> 'v itree \<Rightarrow> 'v option" where
  "lookup_previous key k t = lookup_previous_from key k t None"

text \<open>\<open>min\<close> and \<open>max\<close> assert that the tree is not empty.\<close>

fun tree_min :: "'v itree \<Rightarrow> 'v option" where
  "tree_min Terminator = None"
| "tree_min (Node l v r h) = (if l = Terminator then Some v else tree_min l)"

fun tree_max :: "'v itree \<Rightarrow> 'v option" where
  "tree_max Terminator = None"
| "tree_max (Node l v r h) = (if r = Terminator then Some v else tree_max r)"

section \<open>The invariant\<close>

fun inorder :: "'v itree \<Rightarrow> 'v list" where
  "inorder Terminator = []"
| "inorder (Node l v r h) = inorder l @ v # inorder r"

fun tree_height :: "'v itree \<Rightarrow> nat" where
  "tree_height Terminator = 0"
| "tree_height (Node l v r h) = max (tree_height l) (tree_height r) + 1"

fun balanced :: "'v itree \<Rightarrow> bool" where
  "balanced Terminator = True"
| "balanced (Node l v r h) \<longleftrightarrow> balanced l \<and> balanced r \<and> h = max (hgt l) (hgt r) + 1
     \<and> hgt l \<le> hgt r + 2 \<and> hgt r \<le> hgt l + 2"

definition sorted_by :: "('v \<Rightarrow> 'k::linorder) \<Rightarrow> 'v list \<Rightarrow> bool" where
  "sorted_by key xs \<longleftrightarrow> sorted_wrt (\<lambda>x y. key x < key y) xs"

definition tree_ok :: "('v \<Rightarrow> 'k::linorder) \<Rightarrow> 'v itree \<Rightarrow> bool" where
  "tree_ok key t \<longleftrightarrow> balanced t \<and> sorted_by key (inorder t)"

lemma hgt_height: "balanced t \<Longrightarrow> hgt t = tree_height t"
  by (induction t) auto

lemma hgt_0: "balanced t \<Longrightarrow> hgt t = 0 \<longleftrightarrow> t = Terminator"
  by (cases t) auto

lemma size_inorder: "tree_size t = length (inorder t)"
  by (induction t) auto

subsection \<open>Rotations\<close>

lemma hgt_newNode [simp]: "hgt (newNode l v r) = max (hgt l) (hgt r) + 1"
  by (simp add: newNode_def)

lemma balanced_newNode [simp]:
  "balanced (newNode l v r) \<longleftrightarrow> balanced l \<and> balanced r \<and> hgt l \<le> hgt r + 2 \<and> hgt r \<le> hgt l + 2"
  by (simp add: newNode_def)

lemma inorder_newNode [simp]: "inorder (newNode l v r) = inorder l @ v # inorder r"
  by (simp add: newNode_def)

lemma hgt_NodeE:
  assumes "n < hgt t"
  obtains l v r h where "t = Node l v r h"
  using assms by (cases t) auto

lemma inorder_balance:
  assumes "balanced l" "balanced r"
  shows "inorder (balance l v r) = inorder l @ v # inorder r"
proof -
  have unfold: "inorder t = inorder (left t) @ val t # inorder (right t)" if "0 < hgt t" for t :: "'a itree"
    using that by (cases t) auto
  consider "hgt l > hgt r + 2" | "hgt r > hgt l + 2" | "\<not> hgt l > hgt r + 2" "\<not> hgt r > hgt l + 2" by blast
  then show ?thesis
  proof cases
    case 1
    with unfold [of l] unfold [of "right l"] show ?thesis by (simp add: balance_def)
  next
    case 2
    with unfold [of r] unfold [of "left r"] show ?thesis by (simp add: balance_def)
  qed (simp add: balance_def)
qed

lemma balanced_balance:
  assumes "balanced l" "balanced r" "hgt l \<le> hgt r + 3" "hgt r \<le> hgt l + 3"
  shows "balanced (balance l v r)"
    and "hgt (balance l v r) \<in> {max (hgt l) (hgt r), max (hgt l) (hgt r) + 1}"
    and "hgt l \<le> hgt r + 2 \<Longrightarrow> hgt r \<le> hgt l + 2 \<Longrightarrow> hgt (balance l v r) = max (hgt l) (hgt r) + 1"
proof -
  consider "hgt l > hgt r + 2" | "hgt r > hgt l + 2" | "\<not> hgt l > hgt r + 2" "\<not> hgt r > hgt l + 2" by blast
  then have "balanced (balance l v r) \<and> hgt (balance l v r) \<in> {max (hgt l) (hgt r), max (hgt l) (hgt r) + 1}"
  proof cases
    case 1
    then obtain ll lv lr lh where l: "l = Node ll lv lr lh" by (rule hgt_NodeE)
    show ?thesis
    proof (cases "hgt ll \<ge> hgt lr")
      case True
      with 1 l assms show ?thesis by (auto simp: balance_def max_def)
    next
      case False
      then have "hgt ll < hgt lr" by simp
      then obtain a b c d where "lr = Node a b c d" by (rule hgt_NodeE)
      with False 1 l assms show ?thesis by (auto simp: balance_def max_def split: if_splits)
    qed
  next
    case 2
    then obtain rl rv rr rh where r: "r = Node rl rv rr rh" by (rule hgt_NodeE)
    show ?thesis
    proof (cases "hgt rr \<ge> hgt rl")
      case True
      with 2 r assms show ?thesis by (auto simp: balance_def max_def)
    next
      case False
      then have "hgt rr < hgt rl" by simp
      then obtain a b c d where "rl = Node a b c d" by (rule hgt_NodeE)
      with False 2 r assms show ?thesis by (auto simp: balance_def max_def split: if_splits)
    qed
  qed (use assms in \<open>simp add: balance_def\<close>)
  then show "balanced (balance l v r)" "hgt (balance l v r) \<in> {max (hgt l) (hgt r), max (hgt l) (hgt r) + 1}"
    by blast+
  show "hgt (balance l v r) = max (hgt l) (hgt r) + 1" if "hgt l \<le> hgt r + 2" "hgt r \<le> hgt l + 2"
    using that by (simp add: balance_def)
qed

subsection \<open>Every operation keeps the balance\<close>

text \<open>A subtree that grows or shrinks by one level is put back into balance.\<close>

lemma balance_grown:
  assumes "balanced (Node l v r h)"
    and "balanced l'" "hgt l' \<in> {hgt l, hgt l + 1}"
  shows "balanced (balance l' v r)" "hgt (balance l' v r) \<in> {h, h + 1}"
  using assms balanced_balance [of l' r v] by (auto simp: max_def split: if_splits)

lemma balance_grown':
  assumes "balanced (Node l v r h)"
    and "balanced r'" "hgt r' \<in> {hgt r, hgt r + 1}"
  shows "balanced (balance l v r')" "hgt (balance l v r') \<in> {h, h + 1}"
  using assms balanced_balance [of l r' v] by (auto simp: max_def split: if_splits)

lemma balance_shrunk:
  assumes "balanced (Node l v r h)"
    and "balanced l'" "hgt l \<in> {hgt l', hgt l' + 1}"
  shows "balanced (balance l' w r)" "h \<in> {hgt (balance l' w r), hgt (balance l' w r) + 1}"
  using assms balanced_balance [of l' r w] by (auto simp: max_def split: if_splits)

lemma balance_shrunk':
  assumes "balanced (Node l v r h)"
    and "balanced r'" "hgt r \<in> {hgt r', hgt r' + 1}"
  shows "balanced (balance l w r')" "h \<in> {hgt (balance l w r'), hgt (balance l w r') + 1}"
  using assms balanced_balance [of l r' w] by (auto simp: max_def split: if_splits)

lemma balanced_tree_insert:
  "balanced t \<Longrightarrow> balanced (tree_insert key v t) \<and> hgt (tree_insert key v t) \<in> {hgt t, hgt t + 1}"
proof (induction t)
  case (Node l x r h)
  then show ?case
    using balance_grown [OF Node.prems, of "tree_insert key v l"] balance_grown' [OF Node.prems, of "tree_insert key v r"]
    by auto
qed (simp add: newNode_def)

lemma balanced_tree_replace:
  "balanced t \<Longrightarrow> balanced (tree_replace key v t) \<and> hgt (tree_replace key v t) \<in> {hgt t, hgt t + 1}"
proof (induction t)
  case (Node l x r h)
  then show ?case
    using balance_grown [OF Node.prems, of "tree_replace key v l"] balance_grown' [OF Node.prems, of "tree_replace key v r"]
    by auto
qed (simp add: newNode_def)

lemma balanced_popMin:
  "balanced t \<Longrightarrow> balanced (fst (popMin d t)) \<and> hgt t \<in> {hgt (fst (popMin d t)), hgt (fst (popMin d t)) + 1}"
proof (induction t)
  case (Node l x r h)
  show ?case
  proof (cases "l = Terminator")
    case False
    then show ?thesis
      using Node balance_shrunk [OF Node.prems, of "fst (popMin d l)" x] by (auto split: prod.split)
  qed (use Node.prems in auto)
qed simp

lemma balanced_popMax:
  "balanced t \<Longrightarrow> balanced (fst (popMax d t)) \<and> hgt t \<in> {hgt (fst (popMax d t)), hgt (fst (popMax d t)) + 1}"
proof (induction t)
  case (Node l x r h)
  show ?case
  proof (cases "r = Terminator")
    case False
    then show ?thesis
      using Node balance_shrunk' [OF Node.prems, of "fst (popMax d r)" x] by (auto split: prod.split)
  qed (use Node.prems in auto)
qed simp

lemma balanced_tree_remove:
  "balanced t \<Longrightarrow> balanced (tree_remove key k t) \<and> hgt t \<in> {hgt (tree_remove key k t), hgt (tree_remove key k t) + 1}"
proof (induction t)
  case (Node l x r h)
  then have bal: "balanced l" "balanced r" by auto
  consider "k < key x" | "key x < k" | "k = key x" "l = Terminator" | "k = key x" "l \<noteq> Terminator" "r = Terminator"
    | "k = key x" "l \<noteq> Terminator" "r \<noteq> Terminator"
    by (cases k "key x" rule: linorder_cases) auto
  then show ?case
  proof cases
    case 1
    then show ?thesis using Node balance_shrunk [OF Node.prems, of "tree_remove key k l" x] by auto
  next
    case 2
    then show ?thesis using Node balance_shrunk' [OF Node.prems, of "tree_remove key k r" x] by auto
  next
    case 5
    then show ?thesis
      using balance_shrunk' [OF Node.prems, of "fst (popMin x r)" "snd (popMin x r)"] balanced_popMin [OF bal(2), of x]
      by (cases "popMin x r") auto
  qed (use Node.prems in auto)
qed simp

section \<open>The operations on the sequence of values\<close>

lemma sorted_by_simps [simp]:
  "sorted_by key []"
  "sorted_by key (x # xs) \<longleftrightarrow> (\<forall>y\<in>set xs. key x < key y) \<and> sorted_by key xs"
  "sorted_by key (xs @ ys) \<longleftrightarrow> sorted_by key xs \<and> sorted_by key ys \<and> (\<forall>x\<in>set xs. \<forall>y\<in>set ys. key x < key y)"
  by (auto simp: sorted_by_def sorted_wrt_append)

lemma sorted_by_filter: "sorted_by key xs \<Longrightarrow> sorted_by key (filter P xs)"
  by (auto simp: sorted_by_def intro: sorted_wrt_filter)

text \<open>The specification of each operation on the sorted sequence: values below the key, values above it.\<close>

definition below :: "('v \<Rightarrow> 'k::linorder) \<Rightarrow> 'k \<Rightarrow> 'v list \<Rightarrow> 'v list" where
  "below key k xs = filter (\<lambda>x. key x < k) xs"

definition above :: "('v \<Rightarrow> 'k::linorder) \<Rightarrow> 'k \<Rightarrow> 'v list \<Rightarrow> 'v list" where
  "above key k xs = filter (\<lambda>x. k < key x) xs"

definition at_key :: "('v \<Rightarrow> 'k::linorder) \<Rightarrow> 'k \<Rightarrow> 'v list \<Rightarrow> 'v option" where
  "at_key key k xs = find (\<lambda>x. key x = k) xs"

lemma filter_all: "\<forall>x\<in>set xs. P x \<Longrightarrow> filter P xs = xs"
  by simp

lemma filter_none: "\<forall>x\<in>set xs. \<not> P x \<Longrightarrow> filter P xs = []"
  by simp

lemma find_none: "\<forall>x\<in>set xs. \<not> P x \<Longrightarrow> find P xs = None"
  by (simp add: find_None_iff)

lemma find_append: "find P (xs @ ys) = (case find P xs of None \<Rightarrow> find P ys | Some x \<Rightarrow> Some x)"
  by (induction xs) auto

lemma split_lt:
  assumes "sorted_by key (xs @ x # ys)" "k < key x"
  shows "below key k (xs @ x # ys) = below key k xs"
    and "above key k (xs @ x # ys) = above key k xs @ x # ys"
    and "at_key key k (xs @ x # ys) = at_key key k xs"
proof -
  have ys: "\<forall>y\<in>set ys. k < key y" using assms by force
  show "below key k (xs @ x # ys) = below key k xs"
    unfolding below_def using assms(2) ys by (auto simp: filter_empty_conv)
  show "above key k (xs @ x # ys) = above key k xs @ x # ys"
    unfolding above_def using assms(2) ys by simp
  show "at_key key k (xs @ x # ys) = at_key key k xs"
    unfolding at_key_def using assms(2) ys find_none [of ys "\<lambda>y. key y = k"]
    by (force simp: find_append split: option.split)
qed

lemma split_gt:
  assumes "sorted_by key (xs @ x # ys)" "key x < k"
  shows "below key k (xs @ x # ys) = xs @ x # below key k ys"
    and "above key k (xs @ x # ys) = above key k ys"
    and "at_key key k (xs @ x # ys) = at_key key k ys"
proof -
  have xs: "\<forall>y\<in>set xs. key y < k" using assms by force
  show "below key k (xs @ x # ys) = xs @ x # below key k ys"
    unfolding below_def using assms(2) xs by simp
  show "above key k (xs @ x # ys) = above key k ys"
    unfolding above_def using assms(2) xs by (auto simp: filter_empty_conv)
  have "find (\<lambda>y. key y = k) xs = None" using xs by (intro find_none) auto
  then show "at_key key k (xs @ x # ys) = at_key key k ys"
    unfolding at_key_def using assms(2) by (auto simp: find_append)
qed

lemma split_eq:
  assumes "sorted_by key (xs @ x # ys)" "k = key x"
  shows "below key k (xs @ x # ys) = xs"
    and "above key k (xs @ x # ys) = ys"
    and "at_key key k (xs @ x # ys) = Some x"
proof -
  have xs: "\<forall>y\<in>set xs. key y < k" and ys: "\<forall>y\<in>set ys. k < key y" using assms by force+
  show "below key k (xs @ x # ys) = xs"
    unfolding below_def using assms(2) xs ys by (auto simp: filter_empty_conv)
  show "above key k (xs @ x # ys) = ys"
    unfolding above_def using assms(2) xs ys by (auto simp: filter_empty_conv)
  have "find (\<lambda>y. key y = k) xs = None" using xs by (intro find_none) auto
  then show "at_key key k (xs @ x # ys) = Some x"
    unfolding at_key_def using assms(2) by (auto simp: find_append)
qed

lemma inorder_tree_insert:
  assumes "tree_ok key t"
  shows "inorder (tree_insert key v t) =
    (case at_key key (key v) (inorder t) of
       Some x \<Rightarrow> inorder t
     | None \<Rightarrow> below key (key v) (inorder t) @ v # above key (key v) (inorder t))"
  using assms
proof (induction t)
  case Terminator
  then show ?case by (simp add: at_key_def below_def above_def newNode_def)
next
  case (Node l x r h)
  then have so: "sorted_by key (inorder l @ x # inorder r)" and ok: "tree_ok key l" "tree_ok key r"
    and bal: "balanced l" "balanced r"
    by (auto simp: tree_ok_def)
  show ?case
  proof (cases "key v" "key x" rule: linorder_cases)
    case less
    then show ?thesis
      using Node.IH(1) [OF ok(1)] balanced_tree_insert [OF bal(1), of key v]
      by (simp add: inorder_balance bal split_lt [OF so less] split: option.split)
  next
    case greater
    from greater have "\<not> key v < key x" by simp
    with greater show ?thesis
      using Node.IH(2) [OF ok(2)] balanced_tree_insert [OF bal(2), of key v]
      by (simp add: inorder_balance bal split_gt [OF so greater] split: option.split)
  qed (simp add: split_eq [OF so])
qed

lemma inorder_tree_replace:
  assumes "tree_ok key t"
  shows "inorder (tree_replace key v t) = below key (key v) (inorder t) @ v # above key (key v) (inorder t)"
  using assms
proof (induction t)
  case Terminator
  then show ?case by (simp add: below_def above_def newNode_def)
next
  case (Node l x r h)
  then have so: "sorted_by key (inorder l @ x # inorder r)" and ok: "tree_ok key l" "tree_ok key r"
    and bal: "balanced l" "balanced r"
    by (auto simp: tree_ok_def)
  show ?case
  proof (cases "key v" "key x" rule: linorder_cases)
    case less
    then show ?thesis
      using Node.IH(1) [OF ok(1)] balanced_tree_replace [OF bal(1), of key v]
      by (simp add: inorder_balance bal split_lt [OF so less])
  next
    case greater
    from greater have "\<not> key v < key x" by simp
    with greater show ?thesis
      using Node.IH(2) [OF ok(2)] balanced_tree_replace [OF bal(2), of key v]
      by (simp add: inorder_balance bal split_gt [OF so greater])
  qed (simp add: split_eq [OF so] newNode_def)
qed

lemma popMin_inorder:
  assumes "balanced t" "t \<noteq> Terminator"
  shows "snd (popMin d t) # inorder (fst (popMin d t)) = inorder t"
  using assms
proof (induction t)
  case (Node l x r h)
  then show ?case
    using balanced_popMin [of l d] by (auto simp: inorder_balance split: prod.split)
qed simp

lemma popMax_inorder:
  assumes "balanced t" "t \<noteq> Terminator"
  shows "inorder (fst (popMax d t)) @ [snd (popMax d t)] = inorder t"
  using assms
proof (induction t)
  case (Node l x r h)
  then show ?case
    using balanced_popMax [of r d] by (auto simp: inorder_balance split: prod.split)
qed simp

lemma inorder_tree_remove:
  assumes "tree_ok key t"
  shows "inorder (tree_remove key k t) = below key k (inorder t) @ above key k (inorder t)"
  using assms
proof (induction t)
  case Terminator
  then show ?case by (simp add: below_def above_def)
next
  case (Node l x r h)
  then have so: "sorted_by key (inorder l @ x # inorder r)" and ok: "tree_ok key l" "tree_ok key r"
    and bal: "balanced l" "balanced r"
    by (auto simp: tree_ok_def)
  show ?case
  proof (cases k "key x" rule: linorder_cases)
    case less
    then show ?thesis
      using Node.IH(1) [OF ok(1)] balanced_tree_remove [OF bal(1), of key k]
      by (simp add: inorder_balance bal split_lt [OF so less])
  next
    case greater
    from greater have "\<not> k < key x" by simp
    with greater show ?thesis
      using Node.IH(2) [OF ok(2)] balanced_tree_remove [OF bal(2), of key k]
      by (simp add: inorder_balance bal split_gt [OF so greater])
  next
    case equal
    then show ?thesis
      using popMin_inorder [OF bal(2), of x] balanced_popMin [OF bal(2), of x]
      by (cases "popMin x r") (auto simp: inorder_balance bal split_eq [OF so])
  qed
qed

section \<open>Queries on the sequence of values\<close>

lemma tree_ok_Node:
  assumes "tree_ok key (Node l x r h)"
  shows "sorted_by key (inorder l @ x # inorder r)" "tree_ok key l" "tree_ok key r" "balanced l" "balanced r"
  using assms by (auto simp: tree_ok_def)

lemma tree_lookup_inorder: "tree_ok key t \<Longrightarrow> tree_lookup key k t = at_key key k (inorder t)"
proof (induction t)
  case (Node l x r h)
  note so = tree_ok_Node [OF Node.prems]
  show ?case
    by (cases k "key x" rule: linorder_cases)
      (simp_all add: Node.IH so(2,3) split_lt [OF so(1)] split_gt [OF so(1)] split_eq [OF so(1)] less_not_sym)
qed (simp add: at_key_def)

lemma tree_count_lookup: "tree_count key k t = (case tree_lookup key k t of None \<Rightarrow> 0 | Some _ \<Rightarrow> 1)"
  by (induction t) auto

lemma lookup_previous_from_inorder:
  "tree_ok key t \<Longrightarrow> lookup_previous_from key k t result =
     (case at_key key k (inorder t) of Some x \<Rightarrow> Some x
      | None \<Rightarrow> if below key k (inorder t) = [] then result else Some (last (below key k (inorder t))))"
proof (induction t arbitrary: result)
  case (Node l x r h)
  note so = tree_ok_Node [OF Node.prems]
  show ?case
    by (cases k "key x" rule: linorder_cases)
      (simp_all add: Node.IH so(2,3) split_lt [OF so(1)] split_gt [OF so(1)] split_eq [OF so(1)] less_not_sym
        split: option.split)
qed (simp add: at_key_def below_def)

lemma tree_min_inorder: "t \<noteq> Terminator \<Longrightarrow> tree_min t = Some (hd (inorder t))"
proof (induction t)
  case (Node l x r h)
  then show ?case by (cases l) (auto simp: hd_append)
qed simp

lemma tree_max_inorder: "t \<noteq> Terminator \<Longrightarrow> tree_max t = Some (last (inorder t))"
proof (induction t)
  case (Node l x r h)
  then show ?case by (cases r) auto
qed simp

section \<open>The invariant is kept\<close>

lemma sorted_by_below_above:
  assumes "sorted_by key xs"
  shows "sorted_by key (below key k xs @ above key k xs)"
    and "key v = k \<Longrightarrow> sorted_by key (below key k xs @ v # above key k xs)"
  using assms by (auto simp: below_def above_def sorted_by_filter)

lemma tree_ok_insert: "tree_ok key t \<Longrightarrow> tree_ok key (tree_insert key v t)"
  using balanced_tree_insert [of t key v] sorted_by_below_above(2) [of key "inorder t" v "key v"]
  by (simp add: tree_ok_def inorder_tree_insert split: option.split)

lemma tree_ok_replace: "tree_ok key t \<Longrightarrow> tree_ok key (tree_replace key v t)"
  using balanced_tree_replace [of t key v] sorted_by_below_above(2) [of key "inorder t" v "key v"]
  by (simp add: tree_ok_def inorder_tree_replace)

lemma tree_ok_remove: "tree_ok key t \<Longrightarrow> tree_ok key (tree_remove key k t)"
  using balanced_tree_remove [of t key k] sorted_by_below_above(1) [of key "inorder t" k]
  by (simp add: tree_ok_def inorder_tree_remove)

lemma tree_ok_popMin: "tree_ok key t \<Longrightarrow> tree_ok key (fst (popMin d t))"
proof (cases "t = Terminator")
  case False
  assume "tree_ok key t"
  then have "balanced t" "sorted_by key (inorder t)" by (auto simp: tree_ok_def)
  then show ?thesis
    using balanced_popMin [of t d] popMin_inorder [of t d, symmetric] False by (simp add: tree_ok_def)
qed simp

lemma tree_ok_popMax: "tree_ok key t \<Longrightarrow> tree_ok key (fst (popMax d t))"
proof (cases "t = Terminator")
  case False
  assume "tree_ok key t"
  then have "balanced t" "sorted_by key (inorder t)" by (auto simp: tree_ok_def)
  then show ?thesis
    using balanced_popMax [of t d] popMax_inorder [of t d, symmetric] False by (simp add: tree_ok_def)
qed simp

section \<open>Height is logarithmic\<close>

lemma height_size:
  assumes "balanced t"
  shows "2 ^ (tree_height t div 3) \<le> tree_size t + 1"
  using assms
proof (induction "tree_height t" arbitrary: t rule: less_induct)
  case less
  show ?case
  proof (cases t)
    case (Node l v r h)
    then have bal: "balanced l" "balanced r" and near: "tree_height l \<le> tree_height r + 2" "tree_height r \<le> tree_height l + 2"
      using less.prems by (auto simp: hgt_height)
    have sub: "2 ^ ((tree_height t - 3) div 3) \<le> tree_size s + 1" if "s \<in> {l, r}" for s
    proof -
      have "2 ^ (tree_height s div 3) \<le> tree_size s + 1"
        using less.hyps [of s] that bal Node by auto
      moreover have "(tree_height t - 3) div 3 \<le> tree_height s div 3"
        using that near Node by (intro div_le_mono) auto
      then have "(2::nat) ^ ((tree_height t - 3) div 3) \<le> 2 ^ (tree_height s div 3)" by (intro power_increasing) auto
      ultimately show ?thesis by linarith
    qed
    show ?thesis
    proof (cases "3 \<le> tree_height t")
      case True
      then have "tree_height t div 3 = Suc ((tree_height t - 3) div 3)" by presburger
      then show ?thesis using sub [of l] sub [of r] Node by simp
    qed simp
  qed simp
qed

end
