(* ===== verification/TreeIterator.thy ===== *)
theory TreeIterator
  imports ImmutableTree
begin

text \<open>
  The bidirectional iterators of \<^verbatim>\<open>include/klee/ADT/ImmutableTree.h\<close>: a stack of nodes from the root
  down to the current node (the head of the list is \<open>stack.back()\<close>), empty at the end. The nodes of
  a stack are compared by value, where the code compares pointers; on a tree whose keys are strictly
  sorted two siblings that are not terminators are never equal, so the comparisons agree.
\<close>

section \<open>The operations\<close>

record 'v tree_iterator =
  iter_root :: "'v itree"
  iter_stack :: "'v itree list"

fun push_left :: "'v itree \<Rightarrow> 'v itree list \<Rightarrow> 'v itree list" where
  "push_left Terminator st = st"
| "push_left (Node l v r h) st = push_left l (Node l v r h # st)"

fun push_right :: "'v itree \<Rightarrow> 'v itree list \<Rightarrow> 'v itree list" where
  "push_right Terminator st = st"
| "push_right (Node l v r h) st = push_right r (Node l v r h # st)"

definition iter_make :: "'v itree \<Rightarrow> bool \<Rightarrow> 'v tree_iterator" where
  "iter_make root atBeginning =
     \<lparr>iter_root = root, iter_stack = (if atBeginning then push_left root [] else [])\<rparr>"

definition tree_begin :: "'v itree \<Rightarrow> 'v tree_iterator" where
  "tree_begin node = iter_make node True"

definition tree_end :: "'v itree \<Rightarrow> 'v tree_iterator" where
  "tree_end node = iter_make node False"

definition iter_deref :: "'v tree_iterator \<Rightarrow> 'v option" where
  "iter_deref it = (case iter_stack it of [] \<Rightarrow> None | n # st \<Rightarrow> Some (val n))"

definition iter_eq :: "'v tree_iterator \<Rightarrow> 'v tree_iterator \<Rightarrow> bool" where
  "iter_eq a b \<longleftrightarrow> iter_stack a = iter_stack b"

text \<open>The loop that pops until the node left behind is a left child, or the stack is empty.\<close>

fun climb_next :: "'v itree list \<Rightarrow> 'v itree list" where
  "climb_next (prev # n # st) = (if prev = left n then n # st else climb_next (n # st))"
| "climb_next st = []"

fun climb_prev :: "'v itree list \<Rightarrow> 'v itree list" where
  "climb_prev (prev # n # st) = (if prev = right n then n # st else climb_prev (n # st))"
| "climb_prev st = []"

text \<open>\<open>operator++\<close> asserts that the iterator is not at the end.\<close>

definition iter_next :: "'v tree_iterator \<Rightarrow> 'v tree_iterator option" where
  "iter_next it =
     (case iter_stack it of
        [] \<Rightarrow> None
      | n # st \<Rightarrow> Some (it\<lparr>iter_stack :=
          if right n = Terminator then climb_next (n # st)
          else push_left (left (right n)) (right n # n # st)\<rparr>))"

definition iter_prev :: "'v tree_iterator \<Rightarrow> 'v tree_iterator" where
  "iter_prev it = it\<lparr>iter_stack :=
     (case iter_stack it of
        [] \<Rightarrow> push_right (iter_root it) []
      | n # st \<Rightarrow>
          if left n = Terminator then climb_prev (n # st)
          else push_right (right (left n)) (left n # n # st))\<rparr>"

text \<open>The search loop of \<open>lower_bound\<close>; the flag says that it returned at an equal key.\<close>

fun descend :: "('v \<Rightarrow> 'k::linorder) \<Rightarrow> 'k \<Rightarrow> 'v itree \<Rightarrow> 'v itree list \<Rightarrow> 'v itree list \<times> bool" where
  "descend key k Terminator st = (st, False)"
| "descend key k (Node l v r h) st =
     (if k < key v then descend key k l (Node l v r h # st)
      else if key v < k then descend key k r (Node l v r h # st)
      else (Node l v r h # st, True))"

definition lower_bound :: "('v \<Rightarrow> 'k::linorder) \<Rightarrow> 'k \<Rightarrow> 'v itree \<Rightarrow> 'v tree_iterator" where
  "lower_bound key k node =
     (let it = iter_make node False; (st, found) = descend key k node (iter_stack it); it = it\<lparr>iter_stack := st\<rparr>
      in if found then it
         else case st of
             [] \<Rightarrow> it
           | n # _ \<Rightarrow> if key (val n) < k then the (iter_next it) else it)"

definition tree_find :: "('v \<Rightarrow> 'k::linorder) \<Rightarrow> 'k \<Rightarrow> 'v itree \<Rightarrow> 'v tree_iterator" where
  "tree_find key k node =
     (let end = iter_make node False; it = lower_bound key k node
      in if iter_eq it end \<or> k < key (the (iter_deref it)) then end else it)"

definition upper_bound :: "('v \<Rightarrow> 'k::linorder) \<Rightarrow> 'k \<Rightarrow> 'v itree \<Rightarrow> 'v tree_iterator" where
  "upper_bound key k node =
     (let end = iter_make node False; it = lower_bound key k node
      in if \<not> iter_eq it end \<and> \<not> k < key (the (iter_deref it)) then the (iter_next it) else it)"

text \<open>The loop \<open>for (it = begin(); it != end(); ++it)\<close> that the callers write, for at most \<open>n\<close> steps.\<close>

fun traverse :: "nat \<Rightarrow> 'v tree_iterator \<Rightarrow> 'v list option" where
  "traverse 0 it = (if iter_eq it (tree_end (iter_root it)) then Some [] else None)"
| "traverse (Suc n) it =
     (if iter_eq it (tree_end (iter_root it)) then Some []
      else case iter_next it of
          None \<Rightarrow> None
        | Some it' \<Rightarrow> map_option (Cons (the (iter_deref it))) (traverse n it'))"

section \<open>What a stack stands for\<close>

text \<open>A stack is a path from the root.\<close>

fun path :: "'v itree \<Rightarrow> 'v itree list \<Rightarrow> bool" where
  "path root [] = True"
| "path root [n] \<longleftrightarrow> n = root \<and> n \<noteq> Terminator"
| "path root (n # m # st) \<longleftrightarrow> n \<noteq> Terminator \<and> (n = left m \<or> n = right m) \<and> path root (m # st)"

text \<open>The values after and before the subtree at the top of the stack.\<close>

fun after :: "'v itree list \<Rightarrow> 'v list" where
  "after (n # m # st) = (if n = left m then val m # inorder (right m) @ after (m # st) else after (m # st))"
| "after st = []"

fun before :: "'v itree list \<Rightarrow> 'v list" where
  "before (n # m # st) = (if n = left m then before (m # st) else before (m # st) @ inorder (left m) @ [val m])"
| "before st = []"

text \<open>The values still to come, the current one first, and the values passed.\<close>

definition remaining :: "'v itree list \<Rightarrow> 'v list" where
  "remaining st = (case st of [] \<Rightarrow> [] | n # _ \<Rightarrow> val n # inorder (right n) @ after st)"

definition passed :: "'v itree \<Rightarrow> 'v itree list \<Rightarrow> 'v list" where
  "passed root st = (case st of [] \<Rightarrow> inorder root | n # _ \<Rightarrow> before st @ inorder (left n))"

definition iter_ok :: "('v \<Rightarrow> 'k::linorder) \<Rightarrow> 'v tree_iterator \<Rightarrow> bool" where
  "iter_ok key it \<longleftrightarrow> tree_ok key (iter_root it) \<and> path (iter_root it) (iter_stack it)"

lemma inorder_nonterminator: "n \<noteq> Terminator \<Longrightarrow> inorder n = inorder (left n) @ val n # inorder (right n)"
  by (cases n) auto

lemma path_tl: "path root (n # st) \<Longrightarrow> path root st"
  by (cases st) auto

lemma path_cover: "path root (n # st) \<Longrightarrow> before (n # st) @ inorder n @ after (n # st) = inorder root"
proof (induction root "n # st" arbitrary: n st rule: path.induct)
  case (3 root n m st)
  then have "m \<noteq> Terminator" by (cases st) auto
  with 3 inorder_nonterminator [of m] show ?case by (auto split: if_splits)
qed auto

lemma passed_remaining: "path root st \<Longrightarrow> passed root st @ remaining st = inorder root"
proof (cases st)
  case (Cons n st')
  assume p: "path root st"
  then have "n \<noteq> Terminator" using Cons by (cases st') auto
  then show ?thesis
    using path_cover [of root n st'] p Cons inorder_nonterminator [of n] by (simp add: passed_def remaining_def)
qed (simp add: passed_def remaining_def)

text \<open>The capacity of the \<open>FixedStack\<close>, the height of the root, is enough for every path.\<close>

lemma path_height: "path root (n # st) \<Longrightarrow> tree_height n + length st \<le> tree_height root"
proof (induction root "n # st" arbitrary: n st rule: path.induct)
  case (3 root n m st)
  then have "tree_height n < tree_height m" by (cases m) auto
  with 3 show ?case by auto
qed auto

lemma path_length: "path root st \<Longrightarrow> length st \<le> tree_height root"
proof (cases st)
  case (Cons n st')
  assume p: "path root st"
  then have "n \<noteq> Terminator" using Cons by (cases st') auto
  then have "0 < tree_height n" by (cases n) auto
  with path_height [of root n st'] p Cons show ?thesis by simp
qed simp

section \<open>Moving an iterator\<close>

lemma siblings_differ:
  assumes "sorted_by key (inorder m)" "right m \<noteq> Terminator"
  shows "right m \<noteq> left m"
proof
  assume eq: "right m = left m"
  have "m \<noteq> Terminator" using assms(2) by auto
  then have "inorder m = inorder (left m) @ val m # inorder (left m)" using inorder_nonterminator [of m] eq by simp
  moreover obtain x where "x \<in> set (inorder (left m))" using assms(2) eq by (cases "left m") auto
  ultimately have "key x < key (val m)" "key (val m) < key x" using assms(1) by auto
  then show False by simp
qed

lemma path_sorted: "path root (n # st) \<Longrightarrow> sorted_by key (inorder root) \<Longrightarrow> sorted_by key (inorder n)"
  using path_cover [of root n st] by (metis sorted_by_simps(3))

lemma path_top: "path root (n # st) \<Longrightarrow> n \<noteq> Terminator"
  by (cases st) auto

lemma path_left: "path root (n # st) \<Longrightarrow> left n \<noteq> Terminator \<Longrightarrow> path root (left n # n # st)"
  by simp

lemma path_right: "path root (n # st) \<Longrightarrow> right n \<noteq> Terminator \<Longrightarrow> path root (right n # n # st)"
  by simp

lemma push_left_sub: "n \<noteq> Terminator \<Longrightarrow> push_left (left n) (n # st) = push_left n st"
  by (cases n) auto

lemma push_right_sub: "n \<noteq> Terminator \<Longrightarrow> push_right (right n) (n # st) = push_right n st"
  by (cases n) auto

lemma path_push_left: "path root (t # st) \<Longrightarrow> path root (push_left t st)"
proof (induction t arbitrary: st)
  case (Node l v r h)
  then show ?case using path_left [of root "Node l v r h" st] by (cases "l = Terminator") auto
qed (auto dest: path_top)

lemma path_push_right: "path root (t # st) \<Longrightarrow> path root (push_right t st)"
proof (induction t arbitrary: st)
  case (Node l v r h)
  then show ?case using path_right [of root "Node l v r h" st] by (cases "r = Terminator") auto
qed (auto dest: path_top)

lemma path_climb_next: "path root st \<Longrightarrow> path root (climb_next st)"
  by (induction st rule: climb_next.induct) auto

lemma path_climb_prev: "path root st \<Longrightarrow> path root (climb_prev st)"
  by (induction st rule: climb_prev.induct) auto

lemma remaining_push_left:
  "t \<noteq> Terminator \<Longrightarrow> remaining (push_left t st) = inorder t @ after (t # st)"
proof (induction t arbitrary: st)
  case (Node l v r h)
  then show ?case by (cases "l = Terminator") (auto simp: remaining_def)
qed simp

lemma passed_push_right:
  assumes "path root (t # st)" "sorted_by key (inorder root)"
  shows "passed root (push_right t st) = before (t # st) @ butlast (inorder t)"
  using assms(1)
proof (induction t arbitrary: st)
  case (Node l v r h)
  show ?case
  proof (cases "r = Terminator")
    case False
    let ?n = "Node l v r h"
    have "path root (r # ?n # st)" using path_right [OF Node.prems] False by simp
    moreover have "r \<noteq> l"
      using siblings_differ [of key ?n] path_sorted [OF Node.prems assms(2)] False by auto
    moreover have "inorder r \<noteq> []" using False by (cases r) auto
    ultimately show ?thesis
      using Node.IH(2) [of "?n # st"] by (simp add: butlast_append)
  qed (simp add: passed_def butlast_append)
qed (auto dest: path_top)

lemma remaining_climb_next: "remaining (climb_next st) = after st"
  by (induction st rule: climb_next.induct) (auto simp: remaining_def)

lemma passed_climb_prev:
  assumes "path root st" "sorted_by key (inorder root)" "before st \<noteq> []"
  shows "passed root (climb_prev st) = butlast (before st)"
  using assms(1,3)
proof (induction st rule: climb_prev.induct)
  case (1 prev n st)
  then have p: "path root (n # st)" and top: "prev \<noteq> Terminator" by (auto intro: path_tl)
  show ?case
  proof (cases "prev = right n")
    case True
    then have "prev \<noteq> left n"
      using siblings_differ [of key n] path_sorted [OF p assms(2)] top by auto
    with True show ?thesis by (simp add: passed_def butlast_append)
  next
    case False
    then show ?thesis using 1 p by auto
  qed
qed auto

lemma climb_prev_begin:
  assumes "path root st" "sorted_by key (inorder root)" "before st = []"
  shows "climb_prev st = []"
  using assms(1,3)
proof (induction st rule: climb_prev.induct)
  case (1 prev n st)
  then have p: "path root (n # st)" and top: "prev \<noteq> Terminator" by (auto intro: path_tl)
  with 1 have "prev = left n" by (auto split: if_splits)
  then have "prev \<noteq> right n"
    using siblings_differ [of key n] path_sorted [OF p assms(2)] top by auto
  with 1 p \<open>prev = left n\<close> show ?case by simp
qed auto

text \<open>\<open>operator++\<close> drops the current value from those to come; the iterator stays a path.\<close>

lemma iter_next_step:
  assumes "iter_ok key it" "iter_stack it \<noteq> []"
  obtains it' where "iter_next it = Some it'" "iter_ok key it'" "iter_root it' = iter_root it"
    "remaining (iter_stack it') = tl (remaining (iter_stack it))"
proof -
  from assms(2) obtain n st where st: "iter_stack it = n # st" by (cases "iter_stack it") auto
  with assms(1) have p: "path (iter_root it) (n # st)" and so: "sorted_by key (inorder (iter_root it))"
    by (auto simp: iter_ok_def tree_ok_def)
  let ?st = "if right n = Terminator then climb_next (n # st) else push_left (right n) (n # st)"
  have next_eq: "iter_next it = Some (it\<lparr>iter_stack := ?st\<rparr>)"
    by (simp add: iter_next_def st push_left_sub)
  have ok: "path (iter_root it) ?st"
    using p path_climb_next [OF p] path_push_left [of "iter_root it" "right n" "n # st"] by auto
  have "remaining ?st = tl (remaining (n # st))"
  proof (cases "right n = Terminator")
    case True
    then show ?thesis by (simp add: remaining_climb_next) (simp add: remaining_def)
  next
    case False
    then have "right n \<noteq> left n" using siblings_differ [of key n] path_sorted [OF p so] by auto
    with False show ?thesis by (simp add: remaining_push_left) (simp add: remaining_def)
  qed
  then show thesis
    using that [OF next_eq] ok assms(1) st by (simp add: iter_ok_def)
qed

text \<open>\<open>operator--\<close> drops the last value from those passed; from the first value it goes to the end.\<close>

lemma iter_prev_step:
  assumes "iter_ok key it"
  shows "iter_ok key (iter_prev it)" "iter_root (iter_prev it) = iter_root it"
    and "passed (iter_root it) (iter_stack it) \<noteq> [] \<Longrightarrow>
      passed (iter_root it) (iter_stack (iter_prev it)) = butlast (passed (iter_root it) (iter_stack it))"
    and "passed (iter_root it) (iter_stack it) = [] \<Longrightarrow> iter_stack (iter_prev it) = []"
proof -
  let ?root = "iter_root it" and ?st = "iter_stack (iter_prev it)"
  from assms have p: "path ?root (iter_stack it)" and so: "sorted_by key (inorder ?root)"
    by (auto simp: iter_ok_def tree_ok_def)
  have "path ?root ?st
    \<and> (passed ?root (iter_stack it) \<noteq> [] \<longrightarrow> passed ?root ?st = butlast (passed ?root (iter_stack it)))
    \<and> (passed ?root (iter_stack it) = [] \<longrightarrow> ?st = [])"
  proof (cases "iter_stack it")
    case Nil
    show ?thesis
    proof (cases "?root = Terminator")
      case False
      then have "path ?root [?root]" by simp
      with False Nil show ?thesis
        using path_push_right [of ?root ?root "[]"] passed_push_right [OF _ so, of ?root "[]"] inorder_nonterminator [of ?root]
        by (simp add: iter_prev_def) (simp add: passed_def)
    qed (simp add: iter_prev_def passed_def Nil)
  next
    case (Cons n st)
    show ?thesis
    proof (cases "left n = Terminator")
      case True
      then show ?thesis
        using p Cons path_climb_prev [of ?root "n # st"] passed_climb_prev [OF _ so, of "n # st"]
          climb_prev_begin [OF _ so, of "n # st"]
        by (simp add: iter_prev_def) (simp add: passed_def)
    next
      case False
      then have pl: "path ?root (left n # n # st)" using p Cons by simp
      with False have "inorder (left n) \<noteq> []" by (simp add: inorder_nonterminator)
      then show ?thesis
        using False Cons pl path_push_right [OF pl] passed_push_right [OF pl so]
        by (simp add: iter_prev_def push_right_sub) (simp add: passed_def butlast_append)
    qed
  qed
  then show "iter_ok key (iter_prev it)"
    and "passed ?root (iter_stack it) \<noteq> [] \<Longrightarrow> passed ?root ?st = butlast (passed ?root (iter_stack it))"
    and "passed ?root (iter_stack it) = [] \<Longrightarrow> ?st = []"
    using assms by (auto simp: iter_ok_def iter_prev_def)
  show "iter_root (iter_prev it) = ?root" by (simp add: iter_prev_def)
qed

lemma remaining_Nil [simp]: "remaining st = [] \<longleftrightarrow> st = []"
  by (cases st) (auto simp: remaining_def)

lemma iter_ok_begin: "tree_ok key t \<Longrightarrow> iter_ok key (tree_begin t)"
  by (cases "t = Terminator") (auto simp: tree_begin_def iter_make_def iter_ok_def intro: path_push_left)

lemma remaining_begin: "remaining (iter_stack (tree_begin t)) = inorder t"
  by (cases "t = Terminator") (auto simp: tree_begin_def iter_make_def remaining_push_left)

lemma iter_deref_remaining: "iter_deref it = (case remaining (iter_stack it) of [] \<Rightarrow> None | x # _ \<Rightarrow> Some x)"
  by (cases "iter_stack it") (auto simp: iter_deref_def remaining_def)

lemma traverse_remaining:
  "iter_ok key it \<Longrightarrow> n = length (remaining (iter_stack it)) \<Longrightarrow> traverse n it = Some (remaining (iter_stack it))"
proof (induction n arbitrary: it)
  case 0
  then show ?case by (auto simp: remaining_def iter_eq_def tree_end_def iter_make_def split: list.splits)
next
  case (Suc n)
  then have ne: "iter_stack it \<noteq> []" by (auto simp: remaining_def)
  obtain it' where it': "iter_next it = Some it'" "iter_ok key it'"
    "remaining (iter_stack it') = tl (remaining (iter_stack it))"
    by (rule iter_next_step [OF Suc.prems(1) ne])
  from Suc.prems(2) obtain x xs where "remaining (iter_stack it) = x # xs"
    by (cases "remaining (iter_stack it)") auto
  with Suc.IH [OF it'(2)] Suc.prems(2) it' ne show ?case
    by (simp add: iter_eq_def tree_end_def iter_make_def iter_deref_remaining)
qed

section \<open>Searching\<close>

text \<open>What \<open>lower_bound\<close> does with the outcome of the search loop.\<close>

definition settle :: "('v \<Rightarrow> 'k::linorder) \<Rightarrow> 'k \<Rightarrow> 'v itree list \<times> bool \<Rightarrow> 'v itree list" where
  "settle key k res =
     (case res of (st, found) \<Rightarrow>
        if found then st
        else case st of [] \<Rightarrow> [] | n # _ \<Rightarrow>
          if key (val n) < k
          then if right n = Terminator then climb_next st else push_left (left (right n)) (right n # st) else st)"

lemma lower_bound_settle:
  "lower_bound key k node = \<lparr>iter_root = node, iter_stack = settle key k (descend key k node [])\<rparr>"
  by (auto simp: lower_bound_def settle_def iter_make_def iter_next_def Let_def split: prod.split list.split)

lemma settle_descend:
  assumes "sorted_by key (inorder root)" "path root (t # st)"
    and "\<forall>x\<in>set (before (t # st)). key x < k" "\<forall>x\<in>set (after (t # st)). k < key x"
  shows "path root (settle key k (descend key k t st))
    \<and> (\<forall>x\<in>set (passed root (settle key k (descend key k t st))). key x < k)
    \<and> (\<forall>x\<in>set (remaining (settle key k (descend key k t st))). k \<le> key x)"
  using assms(2-)
proof (induction t arbitrary: st)
  case (Node l v r h)
  let ?n = "Node l v r h"
  note p = Node.prems(1)
  from path_sorted [OF p assms(1)] have so: "sorted_by key (inorder l @ v # inorder r)" by simp
  show ?case
  proof (cases k "key v" rule: linorder_cases)
    case less
    then have le: "\<forall>x\<in>set (v # inorder r @ after (?n # st)). k < key x" using so Node.prems(3) by auto
    show ?thesis
    proof (cases "l = Terminator")
      case True
      then show ?thesis
        using less p le Node.prems by (auto simp: settle_def passed_def remaining_def intro: less_imp_le)
    next
      case False
      then show ?thesis using Node.IH(1) [of "?n # st"] less p le Node.prems by simp
    qed
  next
    case equal
    then show ?thesis
      using p so Node.prems by (auto simp: settle_def passed_def remaining_def intro: less_imp_le)
  next
    case greater
    then have ge: "\<forall>x\<in>set (before (?n # st) @ inorder l @ [v]). key x < k" using so Node.prems(2) by auto
    show ?thesis
    proof (cases "r = Terminator")
      case True
      have "path root (climb_next (?n # st))" by (rule path_climb_next [OF p])
      then have "passed root (climb_next (?n # st)) @ after (?n # st) = inorder root"
        using passed_remaining [of root "climb_next (?n # st)"] by (simp add: remaining_climb_next)
      then have "passed root (climb_next (?n # st)) = before (?n # st) @ inorder ?n"
        using path_cover [OF p] by (metis append.assoc append_same_eq)
      then show ?thesis
        using greater True p ge path_climb_next [OF p] Node.prems(3)
        by (auto simp: settle_def remaining_climb_next intro: less_imp_le)
    next
      case False
      then have "r \<noteq> l" using siblings_differ [of key ?n] so by auto
      then show ?thesis using Node.IH(2) [of "?n # st"] greater False p ge Node.prems(3) by auto
    qed
  qed
qed (auto dest: path_top)

lemma lower_bound_ok:
  assumes "tree_ok key t"
  shows "iter_ok key (lower_bound key k t)"
    and "remaining (iter_stack (lower_bound key k t)) = filter (\<lambda>x. k \<le> key x) (inorder t)"
proof -
  let ?st = "iter_stack (lower_bound key k t)"
  have "path t ?st \<and> (\<forall>x\<in>set (passed t ?st). key x < k) \<and> (\<forall>x\<in>set (remaining ?st). k \<le> key x)"
  proof (cases "t = Terminator")
    case True
    then show ?thesis by (simp add: lower_bound_settle settle_def passed_def remaining_def)
  next
    case False
    then show ?thesis
      using settle_descend [of key t t "[]" k] assms by (simp add: lower_bound_settle tree_ok_def)
  qed
  then have p: "path t ?st" and lt: "\<forall>x\<in>set (passed t ?st). key x < k" and ge: "\<forall>x\<in>set (remaining ?st). k \<le> key x"
    by auto
  show "iter_ok key (lower_bound key k t)"
    using p assms by (simp add: iter_ok_def lower_bound_settle)
  have "filter (\<lambda>x. k \<le> key x) (inorder t) = filter (\<lambda>x. k \<le> key x) (passed t ?st @ remaining ?st)"
    by (simp add: passed_remaining [OF p])
  also have "\<dots> = remaining ?st"
    using lt ge by (auto simp: filter_empty_conv)
  finally show "remaining ?st = filter (\<lambda>x. k \<le> key x) (inorder t)" by simp
qed

lemma sorted_by_ge_head:
  "sorted_by key xs \<Longrightarrow> filter (\<lambda>x. k \<le> key x) xs =
     (case at_key key k xs of Some x \<Rightarrow> [x] | None \<Rightarrow> []) @ above key k xs"
proof (induction xs)
  case (Cons x xs)
  show ?case
  proof (cases k "key x" rule: linorder_cases)
    case less
    then have gt: "\<forall>y\<in>set xs. k < key y" using Cons.prems by auto
    then have "find (\<lambda>y. key y = k) xs = None" by (intro find_none) auto
    moreover have "filter (\<lambda>x. k \<le> key x) xs = xs" using gt by (intro filter_True) auto
    ultimately show ?thesis
      using less gt by (auto simp: at_key_def above_def)
  next
    case equal
    then have "filter (\<lambda>x. k \<le> key x) xs = xs" using Cons.prems by (intro filter_True) auto
    with equal show ?thesis using Cons.prems by (auto simp: at_key_def above_def)
  next
    case greater
    then have "\<not> k \<le> key x" "\<not> k < key x" "key x \<noteq> k" by auto
    then show ?thesis using Cons by (simp add: at_key_def above_def)
  qed
qed (simp add: at_key_def above_def)

lemma at_key_key: "at_key key k xs = Some x \<Longrightarrow> key x = k"
  by (auto simp: at_key_def find_Some_iff)

lemma above_gt: "x \<in> set (above key k xs) \<Longrightarrow> k < key x"
  by (simp add: above_def)

lemma lower_bound_remaining:
  assumes "tree_ok key t"
  shows "remaining (iter_stack (lower_bound key k t)) =
    (case tree_lookup key k t of Some x \<Rightarrow> [x] | None \<Rightarrow> []) @ above key k (inorder t)"
  using lower_bound_ok(2) [OF assms] sorted_by_ge_head [of key "inorder t" k] assms
  by (simp add: tree_lookup_inorder tree_ok_def)

lemma tree_find_deref:
  assumes "tree_ok key t"
  shows "iter_deref (tree_find key k t) = tree_lookup key k t"
proof (cases "tree_lookup key k t")
  case None
  have "tree_find key k t = iter_make t False"
  proof (cases "above key k (inorder t)")
    case Nil
    with None lower_bound_remaining [OF assms, of k] have "iter_stack (lower_bound key k t) = []" by simp
    then show ?thesis by (simp add: tree_find_def iter_eq_def iter_make_def)
  next
    case (Cons x xs)
    with None lower_bound_remaining [OF assms, of k] have "iter_deref (lower_bound key k t) = Some x"
      by (simp add: iter_deref_remaining)
    moreover have "k < key x" using above_gt [of x key k "inorder t"] Cons by simp
    ultimately show ?thesis by (simp add: tree_find_def Let_def)
  qed
  then show ?thesis using None by (simp add: iter_deref_def iter_make_def)
next
  case (Some x)
  with lower_bound_remaining [OF assms, of k] have d: "iter_deref (lower_bound key k t) = Some x"
    by (simp add: iter_deref_remaining)
  then have "iter_stack (lower_bound key k t) \<noteq> []" by (auto simp: iter_deref_def)
  moreover have "key x = k" using Some assms by (auto simp: tree_lookup_inorder at_key_key)
  ultimately show ?thesis using Some d by (simp add: tree_find_def Let_def iter_eq_def iter_make_def)
qed

lemma upper_bound_ok:
  assumes "tree_ok key t"
  shows "iter_ok key (upper_bound key k t)"
    and "remaining (iter_stack (upper_bound key k t)) = above key k (inorder t)"
proof -
  let ?it = "lower_bound key k t"
  note ok = lower_bound_ok(1) [OF assms, of k]
  have "iter_ok key (upper_bound key k t) \<and> remaining (iter_stack (upper_bound key k t)) = above key k (inorder t)"
  proof (cases "tree_lookup key k t")
    case None
    then have rem: "remaining (iter_stack ?it) = above key k (inorder t)"
      using lower_bound_remaining [OF assms, of k] by simp
    have "upper_bound key k t = ?it"
      using rem above_gt [of _ key k "inorder t"]
      by (cases "above key k (inorder t)")
        (auto simp: upper_bound_def Let_def iter_eq_def iter_make_def iter_deref_remaining)
    then show ?thesis using ok rem by simp
  next
    case (Some x)
    then have rem: "remaining (iter_stack ?it) = x # above key k (inorder t)" and "key x = k"
      using lower_bound_remaining [OF assms, of k] assms by (auto simp: tree_lookup_inorder at_key_key)
    then have ne: "iter_stack ?it \<noteq> []" by (auto simp: remaining_def)
    obtain it' where it': "iter_next ?it = Some it'" "iter_ok key it'"
      "remaining (iter_stack it') = tl (remaining (iter_stack ?it))"
      by (rule iter_next_step [OF ok ne])
    then have "upper_bound key k t = it'"
      using ne rem \<open>key x = k\<close> by (simp add: upper_bound_def Let_def iter_eq_def iter_make_def iter_deref_remaining)
    then show ?thesis using it' rem by simp
  qed
  then show "iter_ok key (upper_bound key k t)" "remaining (iter_stack (upper_bound key k t)) = above key k (inorder t)"
    by auto
qed

end
