(* ===== verification/ImmutableMap.thy ===== *)
theory ImmutableMap
  imports TreeIterator
begin

text \<open>
  \<^verbatim>\<open>include/klee/ADT/ImmutableMap.h\<close> and \<^verbatim>\<open>include/klee/ADT/ImmutableSet.h\<close>: the tree with the first component
  of a pair, or the value itself, as the key. The locale \<open>ordered_store\<close> states what the clients of
  these containers rely on, and the tree is an instance of it for every key function.
\<close>

section \<open>The contract of the containers\<close>

lemma at_key_iff: "sorted_by key xs \<Longrightarrow> at_key key k xs = Some x \<longleftrightarrow> x \<in> set xs \<and> key x = k"
proof (induction xs)
  case (Cons y ys)
  then show ?case by (cases "key y = k") (auto simp: at_key_def)
qed (simp add: at_key_def)

lemma option_same: "(\<And>x. a = Some x \<longleftrightarrow> b = Some x) \<Longrightarrow> a = b"
  by (cases a) (auto, metis not_None_eq)

locale ordered_store =
  fixes key :: "'v \<Rightarrow> 'k::linorder"
    and ok :: "'m \<Rightarrow> bool"
    and entries :: "'m \<Rightarrow> 'v list"
    and empty :: 'm
    and lookup :: "'k \<Rightarrow> 'm \<Rightarrow> 'v option"
    and previous :: "'k \<Rightarrow> 'm \<Rightarrow> 'v option"
    and insert :: "'v \<Rightarrow> 'm \<Rightarrow> 'm"
    and replace :: "'v \<Rightarrow> 'm \<Rightarrow> 'm"
    and remove :: "'k \<Rightarrow> 'm \<Rightarrow> 'm"
  assumes ok_empty: "ok empty"
    and entries_empty: "entries empty = []"
    and entries_sorted: "ok m \<Longrightarrow> sorted_by key (entries m)"
    and lookup_entries: "ok m \<Longrightarrow> lookup k m = at_key key k (entries m)"
    and previous_entries: "ok m \<Longrightarrow> previous k m =
      (case lookup k m of Some x \<Rightarrow> Some x
       | None \<Rightarrow> if below key k (entries m) = [] then None else Some (last (below key k (entries m))))"
    and ok_insert: "ok m \<Longrightarrow> ok (insert v m)"
    and ok_replace: "ok m \<Longrightarrow> ok (replace v m)"
    and ok_remove: "ok m \<Longrightarrow> ok (remove k m)"
    and entries_insert: "ok m \<Longrightarrow> entries (insert v m) =
      (if lookup (key v) m = None then below key (key v) (entries m) @ v # above key (key v) (entries m) else entries m)"
    and entries_replace: "ok m \<Longrightarrow>
      entries (replace v m) = below key (key v) (entries m) @ v # above key (key v) (entries m)"
    and entries_remove: "ok m \<Longrightarrow> entries (remove k m) = below key k (entries m) @ above key k (entries m)"
begin

lemma lookup_iff: "ok m \<Longrightarrow> lookup k m = Some x \<longleftrightarrow> x \<in> set (entries m) \<and> key x = k"
  by (simp add: lookup_entries at_key_iff entries_sorted)

lemma lookup_none_iff: "ok m \<Longrightarrow> lookup k m = None \<longleftrightarrow> (\<forall>x\<in>set (entries m). key x \<noteq> k)"
  using lookup_iff by (metis not_None_eq)

lemma set_replace: "ok m \<Longrightarrow> set (entries (replace v m)) = {v} \<union> {x \<in> set (entries m). key x \<noteq> key v}"
  by (auto simp: entries_replace below_def above_def)

lemma set_remove: "ok m \<Longrightarrow> set (entries (remove k m)) = {x \<in> set (entries m). key x \<noteq> k}"
  by (auto simp: entries_remove below_def above_def)

lemma lookup_empty: "lookup k empty = None"
  by (simp add: lookup_entries ok_empty entries_empty at_key_def)

lemma lookup_replace: "ok m \<Longrightarrow> lookup k (replace v m) = (if k = key v then Some v else lookup k m)"
proof (cases "k = key v")
  case True
  assume "ok m"
  with True show ?thesis by (auto simp: lookup_iff ok_replace set_replace)
next
  case False
  assume m: "ok m"
  have "lookup k (replace v m) = Some x \<longleftrightarrow> lookup k m = Some x" for x
    using m False by (auto simp: lookup_iff ok_replace set_replace)
  then have "lookup k (replace v m) = lookup k m" by (rule option_same)
  with False show ?thesis by simp
qed

lemma lookup_remove: "ok m \<Longrightarrow> lookup k (remove k' m) = (if k = k' then None else lookup k m)"
proof (cases "k = k'")
  case True
  assume m: "ok m"
  with True show ?thesis by (simp add: lookup_none_iff ok_remove set_remove)
next
  case False
  assume m: "ok m"
  have "lookup k (remove k' m) = Some x \<longleftrightarrow> lookup k m = Some x" for x
    using m False by (auto simp: lookup_iff ok_remove set_remove)
  then have "lookup k (remove k' m) = lookup k m" by (rule option_same)
  with False show ?thesis by simp
qed

lemma lookup_insert:
  "ok m \<Longrightarrow> lookup k (insert v m) = (if k = key v \<and> lookup k m = None then Some v else lookup k m)"
proof (cases "lookup (key v) m")
  case None
  assume m: "ok m"
  with None have "lookup k (insert v m) = lookup k (replace v m)"
    by (simp add: lookup_entries ok_insert ok_replace entries_insert entries_replace)
  with None m show ?thesis by (auto simp: lookup_replace)
next
  case (Some x)
  assume m: "ok m"
  with Some have "lookup k (insert v m) = lookup k m"
    by (simp add: lookup_entries ok_insert entries_insert)
  with Some show ?thesis by auto
qed

text \<open>\<open>lookup_previous\<close> finds the entry with the greatest key not above the given one.\<close>

lemma last_below:
  assumes "sorted_by key xs" "below key k xs \<noteq> []"
  shows "last (below key k xs) \<in> set xs" "key (last (below key k xs)) < k"
    and "\<forall>y\<in>set xs. key y < k \<longrightarrow> key y \<le> key (last (below key k xs))"
proof -
  let ?b = "below key k xs"
  have "last ?b \<in> set ?b" using assms(2) by simp
  then show "last ?b \<in> set xs" "key (last ?b) < k" by (auto simp: below_def)
  have so: "sorted_by key ?b" using assms(1) by (simp add: below_def sorted_by_filter)
  have "key y \<le> key (last ?b)" if "y \<in> set ?b" for y
  proof -
    have "sorted_by key (butlast ?b @ [last ?b])" using so assms(2) by simp
    moreover have "y \<in> set (butlast ?b @ [last ?b])" using that assms(2) by simp
    ultimately show ?thesis by (auto intro: less_imp_le)
  qed
  then show "\<forall>y\<in>set xs. key y < k \<longrightarrow> key y \<le> key (last ?b)" by (simp add: below_def)
qed

lemma previous_greatest:
  assumes "ok m" "previous k m = Some x"
  shows "x \<in> set (entries m)" "key x \<le> k" "\<forall>y\<in>set (entries m). key y \<le> k \<longrightarrow> key y \<le> key x"
proof -
  note so = entries_sorted [OF assms(1)]
  have "x \<in> set (entries m) \<and> key x \<le> k \<and> (\<forall>y\<in>set (entries m). key y \<le> k \<longrightarrow> key y \<le> key x)"
  proof (cases "lookup k m")
    case None
    with assms previous_entries [OF assms(1), of k]
    have x: "below key k (entries m) \<noteq> []" "x = last (below key k (entries m))" by (auto split: if_splits)
    moreover have "\<forall>y\<in>set (entries m). key y \<noteq> k" using None lookup_none_iff [OF assms(1)] by simp
    ultimately show ?thesis using last_below [OF so x(1)] by (auto simp: le_less)
  next
    case (Some z)
    with assms previous_entries [OF assms(1), of k] have "x = z" by simp
    with Some lookup_iff [OF assms(1)] show ?thesis by auto
  qed
  then show "x \<in> set (entries m)" "key x \<le> k" "\<forall>y\<in>set (entries m). key y \<le> k \<longrightarrow> key y \<le> key x"
    by auto
qed

lemma previous_none:
  assumes "ok m"
  shows "previous k m = None \<longleftrightarrow> (\<forall>y\<in>set (entries m). k < key y)"
proof
  assume none: "previous k m = None"
  with previous_entries [OF assms, of k] have "lookup k m = None" "below key k (entries m) = []"
    by (auto split: option.splits if_splits)
  with lookup_none_iff [OF assms] show "\<forall>y\<in>set (entries m). k < key y"
    by (force simp: below_def filter_empty_conv not_less le_less)
next
  assume "\<forall>y\<in>set (entries m). k < key y"
  then show "previous k m = None"
    using previous_greatest(1,2) [OF assms] by (metis not_le option.exhaust)
qed

end

section \<open>The tree meets the contract\<close>

interpretation tree_store: ordered_store key "tree_ok key" inorder Terminator "tree_lookup key" "lookup_previous key"
  "tree_insert key" "tree_replace key" "tree_remove key" for key :: "'v \<Rightarrow> 'k::linorder"
proof unfold_locales
  show "tree_ok key Terminator" by (simp add: tree_ok_def)
  show "inorder Terminator = []" by simp
next
  fix m :: "'v itree" and v k
  assume m: "tree_ok key m"
  from m show "sorted_by key (inorder m)" by (simp add: tree_ok_def)
  from m show "tree_lookup key k m = at_key key k (inorder m)" by (rule tree_lookup_inorder)
  from m show "lookup_previous key k m =
    (case tree_lookup key k m of None \<Rightarrow> if below key k (inorder m) = [] then None
       else Some (last (below key k (inorder m))) | Some x \<Rightarrow> Some x)"
    by (simp add: lookup_previous_def lookup_previous_from_inorder tree_lookup_inorder split: option.split)
  from m show "tree_ok key (tree_insert key v m)" by (rule tree_ok_insert)
  from m show "tree_ok key (tree_replace key v m)" by (rule tree_ok_replace)
  from m show "tree_ok key (tree_remove key k m)" by (rule tree_ok_remove)
  from m show "inorder (tree_insert key v m) =
    (if tree_lookup key (key v) m = None then below key (key v) (inorder m) @ v # above key (key v) (inorder m)
     else inorder m)"
    by (simp add: inorder_tree_insert tree_lookup_inorder split: option.split)
  from m show "inorder (tree_replace key v m) = below key (key v) (inorder m) @ v # above key (key v) (inorder m)"
    by (rule inorder_tree_replace)
  from m show "inorder (tree_remove key k m) = below key k (inorder m) @ above key k (inorder m)"
    by (rule inorder_tree_remove)
qed

section \<open>Maps and sets\<close>

text \<open>What an \<open>ImmutableMap\<close> and an \<open>ImmutableSet\<close> stand for.\<close>

definition map_view :: "('k::linorder \<times> 'd) itree \<Rightarrow> 'k \<rightharpoonup> 'd" where
  "map_view t k = map_option snd (tree_lookup fst k t)"

definition set_view :: "'k::linorder itree \<Rightarrow> 'k set" where
  "set_view t = {k. tree_count id k t = 1}"

text \<open>C28: an \<open>ImmutableMap\<close> behaves as a partial function: \<open>replace\<close> updates it, \<open>insert\<close> adds a
  binding only where there was none, \<open>remove\<close> deletes one, and the tree stays sorted and balanced.\<close>

theorem ImmutableMap_refines_map:
  assumes "tree_ok fst t"
  shows "tree_ok fst (tree_replace fst (k, d) t) \<and> map_view (tree_replace fst (k, d) t) = (map_view t)(k \<mapsto> d)
    \<and> tree_ok fst (tree_insert fst (k, d) t)
    \<and> map_view (tree_insert fst (k, d) t) = (if map_view t k = None then (map_view t)(k \<mapsto> d) else map_view t)
    \<and> tree_ok fst (tree_remove fst k t) \<and> map_view (tree_remove fst k t) = (map_view t)(k := None)"
  using assms
  by (auto simp: map_view_def fun_eq_iff tree_ok_insert tree_ok_replace tree_ok_remove
      tree_store.lookup_replace tree_store.lookup_insert tree_store.lookup_remove)

definition ex_tree :: "(nat \<times> nat) itree" where
  "ex_tree = tree_insert fst (3, 30) (tree_insert fst (1, 10) (tree_insert fst (2, 20) Terminator))"

lemma ex_tree_ok: "tree_ok fst ex_tree"
  unfolding ex_tree_def by (intro tree_ok_insert tree_store.ok_empty)

theorem ImmutableMap_refines_map_witness:
  "map_view (tree_replace fst (2, 21) ex_tree) 2 = Some 21 \<and> map_view (tree_insert fst (2, 21) ex_tree) 2 = Some 20
   \<and> map_view (tree_remove fst 2 ex_tree) 2 = None"
proof -
  have "map_view ex_tree 2 = Some 20" by code_simp
  then show ?thesis using ImmutableMap_refines_map [OF ex_tree_ok, of 2 21] by auto
qed

text \<open>An \<open>ImmutableSet\<close> behaves as a set, and \<open>count\<close> is 0 or 1.\<close>

theorem ImmutableSet_refines_set:
  assumes "tree_ok id t"
  shows "set_view (tree_insert id k t) = insert k (set_view t)
    \<and> set_view (tree_remove id k t) = set_view t - {k} \<and> tree_count id k t \<le> 1"
  using assms
  by (auto simp: set_view_def tree_count_lookup tree_ok_insert tree_ok_remove
      tree_store.lookup_insert tree_store.lookup_remove split: option.splits if_splits)

theorem ImmutableSet_refines_set_witness:
  "set_view (tree_insert id 7 (tree_insert id (5::nat) Terminator)) = {5, 7}"
proof -
  have ok: "tree_ok id (Terminator :: nat itree)" by (simp add: tree_ok_def)
  have "set_view (Terminator :: nat itree) = {}" by (simp add: set_view_def)
  then show ?thesis
    using ImmutableSet_refines_set [OF ok, of 5] ImmutableSet_refines_set [OF tree_ok_insert [OF ok], of 7 5] by auto
qed



text \<open>C30: a traversal from \<open>begin()\<close> by \<open>operator++\<close> reaches \<open>end()\<close> after \<open>size()\<close> steps and visits the
  values in increasing order of their keys, each once.\<close>

theorem ImmutableTree_traversal:
  assumes "tree_ok key t"
  shows "traverse (tree_size t) (tree_begin t) = Some (inorder t) \<and> sorted_by key (inorder t)"
  using traverse_remaining [OF iter_ok_begin [OF assms] refl] assms
  by (simp add: remaining_begin size_inorder tree_ok_def)

theorem ImmutableTree_traversal_witness:
  "traverse (tree_size ex_tree) (tree_begin ex_tree) = Some [(1, 10), (2, 20), (3, 30)]"
proof -
  have "inorder ex_tree = [(1, 10), (2, 20), (3, 30)]" by code_simp
  then show ?thesis using ImmutableTree_traversal [OF ex_tree_ok] by simp
qed

text \<open>\<open>lower_bound\<close> and \<open>upper_bound\<close> give iterators at the first key not below, and above, the given
  one; \<open>find\<close> points at the entry that \<open>lookup\<close> returns; and no stack of these iterators is longer
  than the height of the root, the capacity that \<open>FixedStack\<close> was given.\<close>

theorem ImmutableTree_bounds:
  assumes "tree_ok key t"
  shows "remaining (iter_stack (lower_bound key k t)) = filter (\<lambda>x. k \<le> key x) (inorder t)
    \<and> remaining (iter_stack (upper_bound key k t)) = filter (\<lambda>x. k < key x) (inorder t)
    \<and> iter_deref (tree_find key k t) = tree_lookup key k t
    \<and> length (iter_stack (lower_bound key k t)) \<le> hgt t \<and> length (iter_stack (upper_bound key k t)) \<le> hgt t"
proof -
  have root: "iter_root (lower_bound key k t) = t" "iter_root (upper_bound key k t) = t"
    by (auto simp: lower_bound_settle upper_bound_def iter_next_def iter_eq_def iter_make_def Let_def split: list.split)
  have "hgt t = tree_height t" using assms hgt_height by (auto simp: tree_ok_def)
  then have "length (iter_stack (lower_bound key k t)) \<le> hgt t" "length (iter_stack (upper_bound key k t)) \<le> hgt t"
    using lower_bound_ok(1) [OF assms, of k] upper_bound_ok(1) [OF assms, of k] path_length root
    by (metis iter_ok_def)+
  then show ?thesis
    using lower_bound_ok(2) [OF assms, of k] upper_bound_ok(2) [OF assms, of k] tree_find_deref [OF assms, of k]
    by (simp add: above_def)
qed

theorem ImmutableTree_bounds_witness:
  "remaining (iter_stack (upper_bound fst 1 ex_tree)) = [(2, 20), (3, 30)]"
proof -
  have "filter (\<lambda>x. 1 < fst x) (inorder ex_tree) = [(2, 20), (3, 30)]" by code_simp
  then show ?thesis using ImmutableTree_bounds [OF ex_tree_ok, of 1] by simp
qed

end
