(* ===== verification/BitArray.thy ===== *)
theory BitArray
  imports BitVec
begin

unbundle bit_operations_syntax

text \<open>
  \<^verbatim>\<open>include/klee/ADT/BitArray.h\<close>: an array of bits in 32-bit words, used for the masks of a memory
  object. The size is an \<open>unsigned\<close>, so the number of words is computed modulo \<open>2 ^ 32\<close>.
\<close>

type_synonym bit_array = "32 word list"

definition BitArray_length :: "nat \<Rightarrow> nat" where
  "BitArray_length sz = (sz + 31) mod 2 ^ 32 div 32"

definition BitArray_new :: "nat \<Rightarrow> bool \<Rightarrow> bit_array" where
  "BitArray_new sz value = replicate (BitArray_length sz) (if value then 0xFFFFFFFF else 0)"

definition BitArray_copy :: "bit_array \<Rightarrow> nat \<Rightarrow> bit_array" where
  "BitArray_copy b sz = take (BitArray_length sz) b"

definition BitArray_get :: "bit_array \<Rightarrow> nat \<Rightarrow> bool" where
  "BitArray_get bits idx \<longleftrightarrow> drop_bit (idx mod 32) (bits ! (idx div 32)) AND 1 \<noteq> 0"

definition BitArray_set :: "bit_array \<Rightarrow> nat \<Rightarrow> bit_array" where
  "BitArray_set bits idx = bits[idx div 32 := bits ! (idx div 32) OR push_bit (idx mod 32) 1]"

definition BitArray_unset :: "bit_array \<Rightarrow> nat \<Rightarrow> bit_array" where
  "BitArray_unset bits idx = bits[idx div 32 := bits ! (idx div 32) AND NOT (push_bit (idx mod 32) 1)]"

definition BitArray_set_value :: "bit_array \<Rightarrow> nat \<Rightarrow> bool \<Rightarrow> bit_array" where
  "BitArray_set_value bits idx value = (if value then BitArray_set bits idx else BitArray_unset bits idx)"

section \<open>The array as a sequence of bits\<close>

definition holds_bits :: "bit_array \<Rightarrow> nat \<Rightarrow> bool" where
  "holds_bits b sz \<longleftrightarrow> sz \<le> 32 * length b"

lemma BitArray_get_bit: "BitArray_get b i \<longleftrightarrow> bit (b ! (i div 32)) (i mod 32)"
  by (simp add: BitArray_get_def bit_iff_odd_drop_bit odd_iff_mod_2_eq_one and_one_eq)

lemma holds_bits_index: "holds_bits b sz \<Longrightarrow> i < sz \<Longrightarrow> i div 32 < length b"
  by (simp add: holds_bits_def less_mult_imp_div_less mult.commute)

lemma same_word_bit: "(i::nat) div 32 = j div 32 \<and> i mod 32 = j mod 32 \<longleftrightarrow> i = j"
  by (metis div_mult_mod_eq)

lemma BitArray_get_set [simp]:
  assumes "holds_bits b sz" "i < sz" "j < sz"
  shows "BitArray_get (BitArray_set b i) j \<longleftrightarrow> j = i \<or> BitArray_get b j"
  using holds_bits_index [OF assms(1,2)] holds_bits_index [OF assms(1,3)] same_word_bit [of i j]
  by (auto simp: BitArray_get_bit BitArray_set_def nth_list_update bit_or_iff bit_exp_iff)

lemma BitArray_get_unset [simp]:
  assumes "holds_bits b sz" "i < sz" "j < sz"
  shows "BitArray_get (BitArray_unset b i) j \<longleftrightarrow> j \<noteq> i \<and> BitArray_get b j"
  using holds_bits_index [OF assms(1,2)] holds_bits_index [OF assms(1,3)] same_word_bit [of i j]
  by (auto simp: BitArray_get_bit BitArray_unset_def nth_list_update bit_and_iff bit_not_iff bit_exp_iff)

lemma holds_bits_upd [simp]:
  "holds_bits (BitArray_set b i) sz \<longleftrightarrow> holds_bits b sz"
  "holds_bits (BitArray_unset b i) sz \<longleftrightarrow> holds_bits b sz"
  by (simp_all add: holds_bits_def BitArray_set_def BitArray_unset_def)

lemma holds_bits_new [simp]: "sz + 31 < 2 ^ 32 \<Longrightarrow> holds_bits (BitArray_new sz v) sz"
  by (simp add: holds_bits_def BitArray_new_def BitArray_length_def)

lemma BitArray_get_new [simp]:
  assumes "sz + 31 < 2 ^ 32" "i < sz"
  shows "BitArray_get (BitArray_new sz v) i \<longleftrightarrow> v"
proof -
  have ones: "bit (0xFFFFFFFF :: 32 word) n" if "n < 32" for n
  proof -
    have "(0xFFFFFFFF :: 32 word) = - 1" by simp
    then show ?thesis using that by (simp only:) simp
  qed
  have "i div 32 < BitArray_length sz"
    using holds_bits_index [OF holds_bits_new [OF assms(1)] assms(2), of v] by (simp add: BitArray_new_def)
  then show ?thesis using ones [of "i mod 32"] by (simp add: BitArray_get_bit BitArray_new_def)
qed

lemma BitArray_copy_holds: "holds_bits b sz \<Longrightarrow> sz + 31 < 2 ^ 32 \<Longrightarrow> holds_bits (BitArray_copy b sz) sz"
  by (simp add: holds_bits_def BitArray_copy_def BitArray_length_def)

lemma BitArray_get_copy [simp]:
  assumes "holds_bits b sz" "sz + 31 < 2 ^ 32" "i < sz"
  shows "BitArray_get (BitArray_copy b sz) i \<longleftrightarrow> BitArray_get b i"
proof -
  have "i div 32 < (sz + 31) div 32" using assms(3) by auto
  then show ?thesis using assms(2) by (simp add: BitArray_get_def BitArray_copy_def BitArray_length_def)
qed

definition bits_view :: "bit_array \<Rightarrow> nat \<Rightarrow> bool list" where
  "bits_view b sz = map (BitArray_get b) [0..<sz]"

text \<open>\<open>BitArray\<close> refines a list of \<open>size\<close> booleans: a new array holds the initial value
  everywhere, \<open>set\<close> and \<open>unset\<close> change the bit at their index and no other, and a copy holds the same
  bits, for every size whose word count does not wrap around.\<close>

theorem BitArray_refines_bits:
  assumes "sz + 31 < 2 ^ 32" "holds_bits b sz" "i < sz"
  shows "bits_view (BitArray_new sz v) sz = replicate sz v
    \<and> bits_view (BitArray_set_value b i v) sz = (bits_view b sz)[i := v]
    \<and> bits_view (BitArray_copy b sz) sz = bits_view b sz
    \<and> holds_bits (BitArray_set_value b i v) sz \<and> holds_bits (BitArray_copy b sz) sz"
proof -
  have "bits_view (BitArray_set_value b i v) sz = (bits_view b sz)[i := v]"
    by (rule nth_equalityI) (use assms in \<open>auto simp: bits_view_def BitArray_set_value_def nth_list_update\<close>)
  moreover have "bits_view (BitArray_new sz v) sz = replicate sz v"
    by (rule nth_equalityI) (use assms in \<open>auto simp: bits_view_def\<close>)
  moreover have "bits_view (BitArray_copy b sz) sz = bits_view b sz"
    by (rule nth_equalityI) (use assms in \<open>auto simp: bits_view_def\<close>)
  ultimately show ?thesis
    using assms by (simp add: BitArray_copy_holds BitArray_set_value_def)
qed

theorem BitArray_refines_bits_witness:
  "bits_view (BitArray_set_value (BitArray_new 40 False) 35 True) 40 = (replicate 40 False)[35 := True]"
proof -
  have h: "holds_bits (BitArray_new 40 False) 40" by (rule holds_bits_new) simp
  from BitArray_refines_bits [OF _ h, of 35 True] BitArray_refines_bits [OF _ h, of 35 False] show ?thesis by simp
qed

text \<open>For the 31 greatest sizes of the type \<open>unsigned\<close> the word count wraps around to zero: the
  array is allocated empty, and every access to it is out of bounds.\<close>

theorem BitArray_length_wraps:
  assumes "2 ^ 32 - 31 \<le> sz" "sz < 2 ^ 32"
  shows "BitArray_new sz v = [] \<and> \<not> holds_bits (BitArray_new sz v) sz"
proof -
  from assms have "(sz + 31) mod 2 ^ 32 = sz + 31 - 2 ^ 32"
    by (simp add: mod_if)
  with assms have "BitArray_length sz = 0" by (simp add: BitArray_length_def)
  with assms show ?thesis by (simp add: BitArray_new_def holds_bits_def)
qed

theorem BitArray_length_wraps_witness: "BitArray_new 4294967295 True = []"
  using BitArray_length_wraps [of 4294967295 True] by simp

end
