(* ===== verification/ObjectState.thy ===== *)
theory ObjectState
  imports ExprTempRead BitArray
begin

unbundle bit_operations_syntax

text \<open>
  \<^verbatim>\<open>lib/Core/Memory.h\<close> and \<^verbatim>\<open>lib/Core/Memory.cpp\<close>: the contents of one memory object. A byte may be cached
  as a concrete value, cached as a symbolic expression, or held by the update list only (the list
  then has been flushed for that byte). Operations that the code marks \<open>const\<close> still flush the cache
  and create the root array, so reads return the new object as well. \<open>None\<close> is a failed assertion or
  an access beyond the arrays of the object.

  The static counter that names the constant arrays is passed along; an \<open>Array\<close> is a fresh object, so
  its serial number stands for its address.
\<close>

section \<open>Memory objects\<close>

record MemoryObject =
  mo_id :: nat
  mo_address :: nat
  mo_size :: nat
  mo_isUserSpecified :: bool
  mo_symsize :: "expr option"

text \<open>The pointer width is a parameter of \<open>Context\<close>.\<close>

definition getBaseExpr :: "nat \<Rightarrow> MemoryObject \<Rightarrow> expr" where
  "getBaseExpr pw mo = ConstantExpr pw (mo_address mo mod 2 ^ pw)"

definition getSizeExpr :: "nat \<Rightarrow> MemoryObject \<Rightarrow> expr" where
  "getSizeExpr pw mo = ConstantExpr pw (mo_size mo mod 2 ^ pw)"

definition getOffsetExpr :: "nat \<Rightarrow> MemoryObject \<Rightarrow> expr \<Rightarrow> expr option" where
  "getOffsetExpr pw mo pointer = SubExpr_create pointer (getBaseExpr pw mo)"

definition getBoundsCheckOffset :: "nat \<Rightarrow> MemoryObject \<Rightarrow> expr \<Rightarrow> expr option" where
  "getBoundsCheckOffset pw mo offset =
     (if mo_size mo = 0 then EqExpr_create offset (ConstantExpr pw 0)
      else UltExpr_create offset (getSizeExpr pw mo))"

definition getBoundsCheckOffset_bytes :: "nat \<Rightarrow> MemoryObject \<Rightarrow> expr \<Rightarrow> nat \<Rightarrow> expr option" where
  "getBoundsCheckOffset_bytes pw mo offset bytes =
     (if bytes \<le> mo_size mo then UltExpr_create offset (ConstantExpr pw ((mo_size mo - bytes + 1) mod 2 ^ 32 mod 2 ^ pw))
      else Some (ConstantExpr Bool 0))"

definition getBoundsCheckPointer :: "nat \<Rightarrow> MemoryObject \<Rightarrow> expr \<Rightarrow> expr option" where
  "getBoundsCheckPointer pw mo pointer = getOffsetExpr pw mo pointer \<bind> getBoundsCheckOffset pw mo"

definition getBoundsCheckPointer_bytes :: "nat \<Rightarrow> MemoryObject \<Rightarrow> expr \<Rightarrow> nat \<Rightarrow> expr option" where
  "getBoundsCheckPointer_bytes pw mo pointer bytes =
     getOffsetExpr pw mo pointer \<bind> (\<lambda>offset. getBoundsCheckOffset_bytes pw mo offset bytes)"

section \<open>The state of an object\<close>

record ObjectState =
  copyOnWriteOwner :: nat
  os_object :: "MemoryObject option"
  concreteStore :: "nat list"
  concreteMask :: "bit_array option"
  flushMask :: "bit_array option"
  knownSymbolics :: "expr option list option"
  os_root :: "array option"
  os_head :: updates
  os_size :: nat
  readOnly :: bool

definition isByteConcrete :: "ObjectState \<Rightarrow> nat \<Rightarrow> bool" where
  "isByteConcrete os offset = (case concreteMask os of None \<Rightarrow> True | Some m \<Rightarrow> BitArray_get m offset)"

definition isByteFlushed :: "ObjectState \<Rightarrow> nat \<Rightarrow> bool" where
  "isByteFlushed os offset = (case flushMask os of None \<Rightarrow> False | Some m \<Rightarrow> \<not> BitArray_get m offset)"

definition knownSymbolic :: "ObjectState \<Rightarrow> nat \<Rightarrow> expr option" where
  "knownSymbolic os offset = (case knownSymbolics os of None \<Rightarrow> None | Some ks \<Rightarrow> ks ! offset)"

definition isByteKnownSymbolic :: "ObjectState \<Rightarrow> nat \<Rightarrow> bool" where
  "isByteKnownSymbolic os offset \<longleftrightarrow> knownSymbolic os offset \<noteq> None"

definition markByteConcrete :: "ObjectState \<Rightarrow> nat \<Rightarrow> ObjectState" where
  "markByteConcrete os offset = os\<lparr>concreteMask := map_option (\<lambda>m. BitArray_set m offset) (concreteMask os)\<rparr>"

definition markByteSymbolic :: "ObjectState \<Rightarrow> nat \<Rightarrow> ObjectState" where
  "markByteSymbolic os offset =
     os\<lparr>concreteMask := Some (BitArray_unset
       (case concreteMask os of None \<Rightarrow> BitArray_new (os_size os) True | Some m \<Rightarrow> m) offset)\<rparr>"

definition markByteUnflushed :: "ObjectState \<Rightarrow> nat \<Rightarrow> ObjectState" where
  "markByteUnflushed os offset = os\<lparr>flushMask := map_option (\<lambda>m. BitArray_set m offset) (flushMask os)\<rparr>"

definition markByteFlushed :: "ObjectState \<Rightarrow> nat \<Rightarrow> ObjectState" where
  "markByteFlushed os offset =
     os\<lparr>flushMask := Some (case flushMask os of None \<Rightarrow> BitArray_new (os_size os) False | Some m \<Rightarrow> BitArray_unset m offset)\<rparr>"

definition setKnownSymbolic :: "ObjectState \<Rightarrow> nat \<Rightarrow> expr option \<Rightarrow> ObjectState" where
  "setKnownSymbolic os offset v =
     (case knownSymbolics os of
        Some ks \<Rightarrow> os\<lparr>knownSymbolics := Some (ks[offset := v])\<rparr>
      | None \<Rightarrow> if v \<noteq> None then os\<lparr>knownSymbolics := Some ((replicate (os_size os) None)[offset := v])\<rparr> else os)"

definition makeConcrete :: "ObjectState \<Rightarrow> ObjectState" where
  "makeConcrete os = os\<lparr>concreteMask := None, flushMask := None, knownSymbolics := None\<rparr>"

definition makeSymbolic :: "ObjectState \<Rightarrow> ObjectState option" where
  "makeSymbolic os =
     (if os_head os \<noteq> NoUpdate then None
      else Some (fold (\<lambda>i os. markByteFlushed (setKnownSymbolic (markByteSymbolic os i) i None) i) [0..<os_size os] os))"

definition initializeToZero :: "ObjectState \<Rightarrow> ObjectState" where
  "initializeToZero os = (makeConcrete os)\<lparr>concreteStore := replicate (os_size os) 0\<rparr>"

definition initializeToRandom :: "ObjectState \<Rightarrow> ObjectState" where
  "initializeToRandom os = (makeConcrete os)\<lparr>concreteStore := replicate (os_size os) 0xAB\<rparr>"

subsection \<open>Construction\<close>

fun utostr :: "nat \<Rightarrow> string" where
  "utostr n = (if n < 10 then [char_of (48 + n)] else utostr (n div 10) @ [char_of (48 + n mod 10)])"

declare utostr.simps [simp del]

text \<open>\<open>ArrayCache::CreateArray\<close> with the default domain and range; the constructor checks the constants.\<close>

definition CreateArray :: "nat \<Rightarrow> string \<Rightarrow> nat \<Rightarrow> expr list \<Rightarrow> array option" where
  "CreateArray addr name sz contents =
     (if (contents = [] \<or> length contents = sz) \<and> list_all (\<lambda>e. getWidth e = Int8) contents
      then Some \<lparr>arr_addr = addr, arr_name = name, arr_size = sz, arr_domain = Int32, arr_range = Int8,
                 arr_constantValues = map cv contents\<rparr>
      else None)"

definition ObjectState_blank :: "MemoryObject option \<Rightarrow> nat \<Rightarrow> array option \<Rightarrow> ObjectState" where
  "ObjectState_blank mo sz root =
     \<lparr>copyOnWriteOwner = 0, os_object = mo, concreteStore = replicate sz 0, concreteMask = None, flushMask = None,
      knownSymbolics = None, os_root = root, os_head = NoUpdate, os_size = sz, readOnly = False\<rparr>"

text \<open>The three constructors and the copy constructor.\<close>

definition ObjectState_new :: "bool \<Rightarrow> MemoryObject \<Rightarrow> nat \<Rightarrow> (ObjectState \<times> nat) option" where
  "ObjectState_new UseConstantArrays mo uid =
     (if UseConstantArrays then Some (ObjectState_blank (Some mo) (mo_size mo) None, uid)
      else CreateArray (uid + 1) (''tmp_arr'' @ utostr (uid + 1)) (mo_size mo) [] \<bind> (\<lambda>array.
           Some (ObjectState_blank (Some mo) (mo_size mo) (Some array), uid + 1)))"

definition ObjectState_new_array :: "MemoryObject \<Rightarrow> array \<Rightarrow> ObjectState option" where
  "ObjectState_new_array mo array = makeSymbolic (ObjectState_blank (Some mo) (mo_size mo) (Some array))"

definition ObjectState_new_size :: "nat \<Rightarrow> array \<Rightarrow> ObjectState option" where
  "ObjectState_new_size sz array = makeSymbolic (ObjectState_blank None sz (Some array))"

definition ObjectState_copy :: "ObjectState \<Rightarrow> ObjectState option" where
  "ObjectState_copy os =
     (if readOnly os then None
      else Some (os\<lparr>copyOnWriteOwner := 0,
        concreteMask := map_option (\<lambda>m. BitArray_copy m (os_size os)) (concreteMask os),
        flushMask := map_option (\<lambda>m. BitArray_copy m (os_size os)) (flushMask os),
        knownSymbolics := map_option (take (os_size os)) (knownSymbolics os),
        concreteStore := take (os_size os) (concreteStore os)\<rparr>))"

section \<open>The update list\<close>

fun update_writes :: "updates \<Rightarrow> (expr \<times> expr) list" where
  "update_writes NoUpdate = []"
| "update_writes (UpdateNode i v next) = (i, v) # update_writes next"

text \<open>The loop that moves the oldest writes into the constant array as long as they are concrete.\<close>

fun pullConcrete :: "expr list \<Rightarrow> (expr \<times> expr) list \<Rightarrow> (expr list \<times> (expr \<times> expr) list) option" where
  "pullConcrete contents [] = Some (contents, [])"
| "pullConcrete contents ((i, v) # writes) =
     (case dyn_cast_ConstantExpr i of
        None \<Rightarrow> Some (contents, (i, v) # writes)
      | Some (_, k) \<Rightarrow>
          (case dyn_cast_ConstantExpr v of
             None \<Rightarrow> Some (contents, (i, v) # writes)
           | Some _ \<Rightarrow> if k < length contents then pullConcrete (contents[k := v]) writes else None))"

fun extendAll :: "array option \<Rightarrow> updates \<Rightarrow> (expr \<times> expr) list \<Rightarrow> updates option" where
  "extendAll root us [] = Some us"
| "extendAll root us ((i, v) # writes) = UpdateList_extend root us i v \<bind> (\<lambda>us. extendAll root us writes)"

definition getUpdates :: "ObjectState \<Rightarrow> nat \<Rightarrow> (array \<times> updates \<times> ObjectState \<times> nat) option" where
  "getUpdates os uid =
     (case os_root os of
        Some a \<Rightarrow> Some (a, os_head os, os, uid)
      | None \<Rightarrow>
          pullConcrete (replicate (os_size os) (ConstantExpr Int8 0)) (rev (update_writes (os_head os))) \<bind> (\<lambda>(contents, rest).
          CreateArray (uid + 1) (''const_arr'' @ utostr (uid + 1)) (os_size os) contents \<bind> (\<lambda>a.
          extendAll (Some a) NoUpdate rest \<bind> (\<lambda>us.
          Some (a, us, os\<lparr>os_root := Some a, os_head := us\<rparr>, uid + 1)))))"

definition extendUpdates :: "ObjectState \<Rightarrow> expr \<Rightarrow> expr \<Rightarrow> ObjectState option" where
  "extendUpdates os index v =
     UpdateList_extend (os_root os) (os_head os) index v \<bind> (\<lambda>us. Some (os\<lparr>os_head := us\<rparr>))"

text \<open>\<open>flushMask->unset(offset)\<close>, on a mask that is there.\<close>

definition unsetFlush :: "ObjectState \<Rightarrow> nat \<Rightarrow> ObjectState" where
  "unsetFlush os offset = os\<lparr>flushMask := map_option (\<lambda>m. BitArray_unset m offset) (flushMask os)\<rparr>"

definition flushByteForRead :: "nat \<Rightarrow> ObjectState \<Rightarrow> ObjectState option" where
  "flushByteForRead offset os =
     (if isByteFlushed os offset then Some os
      else (if isByteConcrete os offset
            then extendUpdates os (ConstantExpr Int32 offset) (ConstantExpr Int8 (concreteStore os ! offset))
            else case knownSymbolic os offset of
                None \<Rightarrow> None
              | Some e \<Rightarrow> extendUpdates os (ConstantExpr Int32 offset) e) \<bind> (\<lambda>os. Some (unsetFlush os offset)))"

definition flushByteForWrite :: "nat \<Rightarrow> ObjectState \<Rightarrow> ObjectState option" where
  "flushByteForWrite offset os =
     (if isByteFlushed os offset then
        Some (if isByteConcrete os offset then markByteSymbolic os offset
              else if isByteKnownSymbolic os offset then setKnownSymbolic os offset None else os)
      else (if isByteConcrete os offset
            then extendUpdates os (ConstantExpr Int32 offset) (ConstantExpr Int8 (concreteStore os ! offset)) \<bind> (\<lambda>os.
                 Some (markByteSymbolic os offset))
            else case knownSymbolic os offset of
                None \<Rightarrow> None
              | Some e \<Rightarrow> extendUpdates os (ConstantExpr Int32 offset) e \<bind> (\<lambda>os.
                 Some (setKnownSymbolic os offset None))) \<bind> (\<lambda>os. Some (unsetFlush os offset)))"

fun forEach :: "('a \<Rightarrow> 's \<Rightarrow> 's option) \<Rightarrow> 'a list \<Rightarrow> 's \<Rightarrow> 's option" where
  "forEach f [] s = Some s"
| "forEach f (x # xs) s = f x s \<bind> forEach f xs"

definition ensureFlushMask :: "ObjectState \<Rightarrow> ObjectState" where
  "ensureFlushMask os =
     (if flushMask os = None then os\<lparr>flushMask := Some (BitArray_new (os_size os) True)\<rparr> else os)"

definition flushRangeForRead :: "ObjectState \<Rightarrow> nat \<Rightarrow> nat \<Rightarrow> ObjectState option" where
  "flushRangeForRead os rangeBase rangeSize =
     forEach flushByteForRead [rangeBase..<rangeBase + rangeSize] (ensureFlushMask os)"

definition flushRangeForWrite :: "ObjectState \<Rightarrow> nat \<Rightarrow> nat \<Rightarrow> ObjectState option" where
  "flushRangeForWrite os rangeBase rangeSize =
     forEach flushByteForWrite [rangeBase..<rangeBase + rangeSize] (ensureFlushMask os)"

definition fastRangeCheckOffset :: "ObjectState \<Rightarrow> expr \<Rightarrow> nat \<times> nat" where
  "fastRangeCheckOffset os offset = (0, os_size os)"

section \<open>Bytes\<close>

definition read8 :: "ObjectState \<Rightarrow> nat \<Rightarrow> nat \<Rightarrow> (expr \<times> ObjectState \<times> nat) option" where
  "read8 os uid offset =
     (if offset \<ge> os_size os then None
      else if isByteConcrete os offset then Some (ConstantExpr Int8 (concreteStore os ! offset), os, uid)
      else case knownSymbolic os offset of
          Some e \<Rightarrow> Some (e, os, uid)
        | None \<Rightarrow> if \<not> isByteFlushed os offset then None
            else getUpdates os uid \<bind> (\<lambda>(a, us, os, uid).
                 ReadExpr_create a us (ConstantExpr Int32 offset) \<bind> (\<lambda>e. Some (e, os, uid))))"

definition read8_sym :: "ObjectState \<Rightarrow> nat \<Rightarrow> expr \<Rightarrow> (expr \<times> ObjectState \<times> nat) option" where
  "read8_sym os uid offset =
     (if isConstantExpr offset then None
      else case fastRangeCheckOffset os offset of (base, sz) \<Rightarrow>
        flushRangeForRead os base sz \<bind> (\<lambda>os.
        getUpdates os uid \<bind> (\<lambda>(a, us, os, uid).
        ZExtExpr_create offset Int32 \<bind> (\<lambda>index.
        ReadExpr_create a us index \<bind> (\<lambda>e. Some (e, os, uid))))))"

definition write8 :: "ObjectState \<Rightarrow> nat \<Rightarrow> nat \<Rightarrow> ObjectState option" where
  "write8 os offset v =
     (if offset \<ge> os_size os then None
      else Some (markByteUnflushed (markByteConcrete
        (setKnownSymbolic (os\<lparr>concreteStore := (concreteStore os)[offset := v mod 2 ^ 8]\<rparr>) offset None) offset) offset))"

definition write8_expr :: "ObjectState \<Rightarrow> nat \<Rightarrow> expr \<Rightarrow> ObjectState option" where
  "write8_expr os offset v =
     (case dyn_cast_ConstantExpr v of
        Some (w, c) \<Rightarrow> if w > 8 then None else write8 os offset c
      | None \<Rightarrow> if offset \<ge> os_size os then None
                else Some (markByteUnflushed (markByteSymbolic (setKnownSymbolic os offset (Some v)) offset) offset))"

definition write8_sym :: "ObjectState \<Rightarrow> expr \<Rightarrow> expr \<Rightarrow> ObjectState option" where
  "write8_sym os offset v =
     (if isConstantExpr offset then None
      else case fastRangeCheckOffset os offset of (base, sz) \<Rightarrow>
        flushRangeForWrite os base sz \<bind> (\<lambda>os.
        ZExtExpr_create offset Int32 \<bind> (\<lambda>index. extendUpdates os index v)))"

section \<open>Values of several bytes\<close>

text \<open>The byte at position \<open>i\<close> of the value, counted from the least significant one.\<close>

definition byteIndex :: "bool \<Rightarrow> nat \<Rightarrow> nat \<Rightarrow> nat" where
  "byteIndex isLittleEndian numBytes i = (if isLittleEndian then i else numBytes - i - 1)"

type_synonym byte_reader = "nat \<Rightarrow> ObjectState \<Rightarrow> nat \<Rightarrow> (expr \<times> ObjectState \<times> nat) option"

fun readLoop :: "byte_reader \<Rightarrow> nat list \<Rightarrow> expr option \<Rightarrow> ObjectState \<Rightarrow> nat \<Rightarrow> (expr \<times> ObjectState \<times> nat) option" where
  "readLoop rd [] res os uid = res \<bind> (\<lambda>r. Some (r, os, uid))"
| "readLoop rd (i # is) res os uid =
     rd i os uid \<bind> (\<lambda>(byte, os, uid).
     (case res of None \<Rightarrow> Some byte | Some r \<Rightarrow> ConcatExpr_create byte r) \<bind> (\<lambda>r. readLoop rd is (Some r) os uid))"

definition read_const :: "bool \<Rightarrow> ObjectState \<Rightarrow> nat \<Rightarrow> nat \<Rightarrow> nat \<Rightarrow> (expr \<times> ObjectState \<times> nat) option" where
  "read_const le os uid offset width =
     (if width = Bool then
        read8 os uid offset \<bind> (\<lambda>(b, os, uid). ExtractExpr_create b 0 Bool \<bind> (\<lambda>e. Some (e, os, uid)))
      else let numBytes = width div 8 in
        if width \<noteq> numBytes * 8 then None
        else readLoop (\<lambda>i os uid. read8 os uid ((offset + byteIndex le numBytes i) mod 2 ^ 32)) [0..<numBytes] None os uid)"

definition read_sym :: "bool \<Rightarrow> ObjectState \<Rightarrow> nat \<Rightarrow> expr \<Rightarrow> nat \<Rightarrow> (expr \<times> ObjectState \<times> nat) option" where
  "read_sym le os uid off width =
     ZExtExpr_create off Int32 \<bind> (\<lambda>offset.
     case dyn_cast_ConstantExpr offset of
       Some (w, c) \<Rightarrow> read_const le os uid c width
     | None \<Rightarrow>
        if width = Bool then
          read8_sym os uid offset \<bind> (\<lambda>(b, os, uid). ExtractExpr_create b 0 Bool \<bind> (\<lambda>e. Some (e, os, uid)))
        else let numBytes = width div 8 in
          if width \<noteq> numBytes * 8 then None
          else readLoop (\<lambda>i os uid. AddExpr_create offset (ConstantExpr Int32 (byteIndex le numBytes i)) \<bind> read8_sym os uid)
                 [0..<numBytes] None os uid)"

definition writeBytes :: "bool \<Rightarrow> nat \<Rightarrow> ObjectState \<Rightarrow> nat \<Rightarrow> nat \<Rightarrow> ObjectState option" where
  "writeBytes le numBytes os offset v =
     forEach (\<lambda>i os. write8 os ((offset + byteIndex le numBytes i) mod 2 ^ 32) (v div 2 ^ (8 * i) mod 2 ^ 8)) [0..<numBytes] os"

definition write16 :: "bool \<Rightarrow> ObjectState \<Rightarrow> nat \<Rightarrow> nat \<Rightarrow> ObjectState option" where
  "write16 le os offset v = writeBytes le 2 os offset (v mod 2 ^ 16)"

definition write32 :: "bool \<Rightarrow> ObjectState \<Rightarrow> nat \<Rightarrow> nat \<Rightarrow> ObjectState option" where
  "write32 le os offset v = writeBytes le 4 os offset (v mod 2 ^ 32)"

definition write64 :: "bool \<Rightarrow> ObjectState \<Rightarrow> nat \<Rightarrow> nat \<Rightarrow> ObjectState option" where
  "write64 le os offset v = writeBytes le 8 os offset (v mod 2 ^ 64)"

definition isPowerOfTwo :: "nat \<Rightarrow> bool" where
  "isPowerOfTwo x \<longleftrightarrow> x \<noteq> 0 \<and> x AND (x - 1) = 0"

text \<open>The general case of \<open>write\<close> at a constant offset: the bytes of the value are extracted one by one.\<close>

definition writeExpr :: "bool \<Rightarrow> ObjectState \<Rightarrow> nat \<Rightarrow> expr \<Rightarrow> ObjectState option" where
  "writeExpr le os offset v =
     (let w = getWidth v in
      if w = Bool then ZExtExpr_create v Int8 \<bind> write8_expr os offset
      else let numBytes = w div 8 in
        if w \<noteq> numBytes * 8 then None
        else forEach (\<lambda>i os. ExtractExpr_create v (8 * i) Int8 \<bind>
               write8_expr os ((offset + byteIndex le numBytes i) mod 2 ^ 32)) [0..<numBytes] os)"

definition write_const :: "bool \<Rightarrow> ObjectState \<Rightarrow> nat \<Rightarrow> expr \<Rightarrow> ObjectState option" where
  "write_const le os offset v =
     (case dyn_cast_ConstantExpr v of
        Some (w, c) \<Rightarrow>
          if w \<le> 64 \<and> isPowerOfTwo w then
            (if w = Bool \<or> w = Int8 then write8 os offset c
             else if w = Int16 then write16 le os offset c
             else if w = Int32 then write32 le os offset c
             else if w = Int64 then write64 le os offset c
             else None)
          else writeExpr le os offset v
      | None \<Rightarrow> writeExpr le os offset v)"

definition write_sym :: "bool \<Rightarrow> ObjectState \<Rightarrow> expr \<Rightarrow> expr \<Rightarrow> ObjectState option" where
  "write_sym le os off v =
     ZExtExpr_create off Int32 \<bind> (\<lambda>offset.
     case dyn_cast_ConstantExpr offset of
       Some (w, c) \<Rightarrow> write_const le os c v
     | None \<Rightarrow>
        (let w = getWidth v in
         if w = Bool then ZExtExpr_create v Int8 \<bind> write8_sym os offset
         else let numBytes = w div 8 in
           if w \<noteq> numBytes * 8 then None
           else forEach (\<lambda>i os. AddExpr_create offset (ConstantExpr Int32 (byteIndex le numBytes i)) \<bind> (\<lambda>a.
                  ExtractExpr_create v (8 * i) Int8 \<bind> write8_sym os a)) [0..<numBytes] os))"

text \<open>\<open>flushToConcreteStore\<close>: \<open>getValue\<close> is the answer of the solver, \<open>None\<close> when it times out.\<close>

definition flushToConcreteStore :: "(expr \<Rightarrow> nat option) \<Rightarrow> ObjectState \<Rightarrow> ObjectState" where
  "flushToConcreteStore getValue os =
     fold (\<lambda>i os. case knownSymbolic os i of
         None \<Rightarrow> os
       | Some e \<Rightarrow> (case (if isByteConcrete os i then Some (concreteStore os ! i) else getValue e) of
             None \<Rightarrow> os
           | Some v \<Rightarrow> os\<lparr>concreteStore := (concreteStore os)[i := v mod 2 ^ 8]\<rparr>)) [0..<os_size os] os"

end
