(* ===== verification/ObjectStateCorrect.thy ===== *)
theory ObjectStateCorrect
  imports ObjectState
begin

text \<open>
  The contents of a memory object refine an array of bytes. \<open>os_ok\<close> holds the cache invariants that the
  comment in \<^verbatim>\<open>lib/Core/Memory.cpp\<close> lists, with the shape of the arrays and the typing of the
  expressions; \<open>represents \<sigma> os M\<close> says that under the assignment \<open>\<sigma>\<close> the object holds the bytes of \<open>M\<close>.
  Every operation keeps the first and is simulated by the plain operation on \<open>M\<close>.
\<close>

section \<open>The shape of an object\<close>

definition shape_ok :: "ObjectState \<Rightarrow> bool" where
  "shape_ok os \<longleftrightarrow> os_size os + 31 < 2 ^ 32 \<and> length (concreteStore os) = os_size os
     \<and> (\<forall>m. concreteMask os = Some m \<longrightarrow> holds_bits m (os_size os))
     \<and> (\<forall>m. flushMask os = Some m \<longrightarrow> holds_bits m (os_size os))
     \<and> (\<forall>ks. knownSymbolics os = Some ks \<longrightarrow> length ks = os_size os)"

lemmas os_marks = markByteConcrete_def markByteSymbolic_def markByteUnflushed_def markByteFlushed_def
  setKnownSymbolic_def unsetFlush_def ensureFlushMask_def

lemma marks_frame [simp]:
  "os_size (markByteConcrete os i) = os_size os" "os_size (markByteSymbolic os i) = os_size os"
  "os_size (markByteUnflushed os i) = os_size os" "os_size (setKnownSymbolic os i v) = os_size os"
  "os_size (unsetFlush os i) = os_size os" "os_size (markByteFlushed os i) = os_size os"
  "os_size (ensureFlushMask os) = os_size os"
  "concreteStore (markByteConcrete os i) = concreteStore os" "concreteStore (markByteSymbolic os i) = concreteStore os"
  "concreteStore (markByteUnflushed os i) = concreteStore os" "concreteStore (setKnownSymbolic os i v) = concreteStore os"
  "concreteStore (unsetFlush os i) = concreteStore os" "concreteStore (markByteFlushed os i) = concreteStore os"
  "concreteStore (ensureFlushMask os) = concreteStore os"
  "os_root (markByteConcrete os i) = os_root os" "os_root (markByteSymbolic os i) = os_root os"
  "os_root (markByteUnflushed os i) = os_root os" "os_root (setKnownSymbolic os i v) = os_root os"
  "os_root (unsetFlush os i) = os_root os" "os_root (markByteFlushed os i) = os_root os"
  "os_root (ensureFlushMask os) = os_root os"
  "os_head (markByteConcrete os i) = os_head os" "os_head (markByteSymbolic os i) = os_head os"
  "os_head (markByteUnflushed os i) = os_head os" "os_head (setKnownSymbolic os i v) = os_head os"
  "os_head (unsetFlush os i) = os_head os" "os_head (markByteFlushed os i) = os_head os"
  "os_head (ensureFlushMask os) = os_head os"
  by (auto simp: os_marks split: option.split)

lemma shape_marks [simp]:
  "shape_ok os \<Longrightarrow> shape_ok (markByteConcrete os i)" "shape_ok os \<Longrightarrow> shape_ok (markByteSymbolic os i)"
  "shape_ok os \<Longrightarrow> shape_ok (markByteUnflushed os i)" "shape_ok os \<Longrightarrow> shape_ok (setKnownSymbolic os i v)"
  "shape_ok os \<Longrightarrow> shape_ok (unsetFlush os i)" "shape_ok os \<Longrightarrow> shape_ok (markByteFlushed os i)"
  "shape_ok os \<Longrightarrow> shape_ok (ensureFlushMask os)"
  by (auto simp: os_marks shape_ok_def split: option.split)

text \<open>What each mark does to the three questions asked of a byte.\<close>

lemma isByteConcrete_marks [simp]:
  assumes "shape_ok os" "i < os_size os" "j < os_size os"
  shows "isByteConcrete (markByteConcrete os i) j \<longleftrightarrow> j = i \<or> isByteConcrete os j"
    "isByteConcrete (markByteSymbolic os i) j \<longleftrightarrow> j \<noteq> i \<and> isByteConcrete os j"
  using assms BitArray_get_unset [OF holds_bits_new assms(2,3), of True]
  by (auto simp: os_marks isByteConcrete_def shape_ok_def split: option.splits)

lemma isByteConcrete_frame [simp]:
  "isByteConcrete (markByteUnflushed os i) j = isByteConcrete os j" "isByteConcrete (setKnownSymbolic os i v) j = isByteConcrete os j"
  "isByteConcrete (unsetFlush os i) j = isByteConcrete os j" "isByteConcrete (markByteFlushed os i) j = isByteConcrete os j"
  "isByteConcrete (ensureFlushMask os) j = isByteConcrete os j"
  by (auto simp: os_marks isByteConcrete_def split: option.splits)

lemma isByteFlushed_marks [simp]:
  assumes "shape_ok os" "i < os_size os" "j < os_size os"
  shows "isByteFlushed (markByteUnflushed os i) j \<longleftrightarrow> j \<noteq> i \<and> isByteFlushed os j"
    "flushMask os \<noteq> None \<Longrightarrow> isByteFlushed (unsetFlush os i) j \<longleftrightarrow> j = i \<or> isByteFlushed os j"
    "flushMask os \<noteq> None \<Longrightarrow> isByteFlushed (markByteFlushed os i) j \<longleftrightarrow> j = i \<or> isByteFlushed os j"
    "flushMask os = None \<Longrightarrow> isByteFlushed (markByteFlushed os i) j"
    "isByteFlushed (ensureFlushMask os) j \<longleftrightarrow> isByteFlushed os j"
  using assms by (auto simp: os_marks isByteFlushed_def shape_ok_def split: option.splits)

lemma isByteFlushed_frame [simp]:
  "isByteFlushed (markByteConcrete os i) j = isByteFlushed os j" "isByteFlushed (markByteSymbolic os i) j = isByteFlushed os j"
  "isByteFlushed (setKnownSymbolic os i v) j = isByteFlushed os j"
  by (auto simp: os_marks isByteFlushed_def split: option.splits)

lemma knownSymbolic_marks [simp]:
  assumes "shape_ok os" "i < os_size os" "j < os_size os"
  shows "knownSymbolic (setKnownSymbolic os i v) j = (if j = i then v else knownSymbolic os j)"
  using assms by (auto simp: os_marks knownSymbolic_def shape_ok_def nth_list_update split: option.splits)

lemma knownSymbolic_frame [simp]:
  "knownSymbolic (markByteConcrete os i) j = knownSymbolic os j" "knownSymbolic (markByteSymbolic os i) j = knownSymbolic os j"
  "knownSymbolic (markByteUnflushed os i) j = knownSymbolic os j" "knownSymbolic (unsetFlush os i) j = knownSymbolic os j"
  "knownSymbolic (markByteFlushed os i) j = knownSymbolic os j" "knownSymbolic (ensureFlushMask os) j = knownSymbolic os j"
  by (auto simp: os_marks knownSymbolic_def)

lemma flushMask_marks [simp]:
  "flushMask (markByteConcrete os i) = flushMask os" "flushMask (markByteSymbolic os i) = flushMask os"
  "flushMask (setKnownSymbolic os i v) = flushMask os"
  "flushMask (unsetFlush os i) = None \<longleftrightarrow> flushMask os = None"
  "flushMask (ensureFlushMask os) \<noteq> None"
  by (auto simp: os_marks split: option.splits)

section \<open>The invariant\<close>

text \<open>Typing of the writes in the update list; a constant index lies in the object.\<close>

fun upd_ok :: "nat \<Rightarrow> updates \<Rightarrow> bool" where
  "upd_ok sz NoUpdate = True"
| "upd_ok sz (UpdateNode i v next) \<longleftrightarrow>
     wf_expr i \<and> getWidth i = 32 \<and> wf_expr v \<and> getWidth v = 8 \<and> (isConstantExpr i \<longrightarrow> cv i < sz) \<and> upd_ok sz next"

definition root_ok :: "array \<Rightarrow> bool" where
  "root_ok a \<longleftrightarrow> wf_array a \<and> arr_domain a = 32 \<and> arr_range a = 8"

definition os_ok :: "ObjectState \<Rightarrow> bool" where
  "os_ok os \<longleftrightarrow> shape_ok os \<and> (\<forall>b\<in>set (concreteStore os). b < 256)
     \<and> (\<forall>a. os_root os = Some a \<longrightarrow> root_ok a) \<and> upd_ok (os_size os) (os_head os)
     \<and> (\<forall>j<os_size os. \<forall>e. knownSymbolic os j = Some e \<longrightarrow> wf_expr e \<and> getWidth e = 8 \<and> \<not> isByteConcrete os j)
     \<and> (\<forall>j<os_size os. \<not> isByteFlushed os j \<longrightarrow> isByteConcrete os j \<or> isByteKnownSymbolic os j)"

lemma os_okD:
  assumes "os_ok os"
  shows "shape_ok os" "\<And>j. j < os_size os \<Longrightarrow> concreteStore os ! j < 256" "\<And>a. os_root os = Some a \<Longrightarrow> root_ok a"
    "upd_ok (os_size os) (os_head os)"
    "\<And>j e. j < os_size os \<Longrightarrow> knownSymbolic os j = Some e \<Longrightarrow> wf_expr e \<and> getWidth e = 8 \<and> \<not> isByteConcrete os j"
    "\<And>j. j < os_size os \<Longrightarrow> \<not> isByteFlushed os j \<Longrightarrow> isByteConcrete os j \<or> isByteKnownSymbolic os j"
  using assms by (auto simp: os_ok_def shape_ok_def)

lemma upd_ok_wf: "upd_ok sz us \<Longrightarrow> root_ok a \<Longrightarrow> wf_updates a us"
  by (induction us rule: getSize.induct) (auto simp: root_ok_def)

section \<open>What an object holds\<close>

fun chain_read :: "assignment \<Rightarrow> (nat \<Rightarrow> nat option) \<Rightarrow> updates \<Rightarrow> nat \<Rightarrow> nat option" where
  "chain_read \<sigma> init NoUpdate j = init j"
| "chain_read \<sigma> init (UpdateNode i v next) j =
     eval \<sigma> i \<bind> (\<lambda>k. if k = j then eval \<sigma> v else chain_read \<sigma> init next j)"

lemma read_updates_chain: "read_updates \<sigma> a us j = chain_read \<sigma> (\<lambda>j. Some (arr_init \<sigma> a j)) us j"
proof (induction us rule: getSize.induct)
  case (2 i v us)
  then show ?case by (cases "eval \<sigma> i") auto
qed simp

definition root_byte :: "assignment \<Rightarrow> array option \<Rightarrow> nat \<Rightarrow> nat option" where
  "root_byte \<sigma> root j = Some (case root of None \<Rightarrow> 0 | Some a \<Rightarrow> arr_init \<sigma> a j)"

definition flushed_byte :: "assignment \<Rightarrow> ObjectState \<Rightarrow> nat \<Rightarrow> nat option" where
  "flushed_byte \<sigma> os j = chain_read \<sigma> (root_byte \<sigma> (os_root os)) (os_head os) j"

definition content :: "assignment \<Rightarrow> ObjectState \<Rightarrow> nat \<Rightarrow> nat option" where
  "content \<sigma> os j =
     (if isByteConcrete os j then Some (concreteStore os ! j)
      else case knownSymbolic os j of Some e \<Rightarrow> eval \<sigma> e | None \<Rightarrow> flushed_byte \<sigma> os j)"

definition represents :: "assignment \<Rightarrow> ObjectState \<Rightarrow> (nat \<rightharpoonup> nat) \<Rightarrow> bool" where
  "represents \<sigma> os M \<longleftrightarrow> (\<forall>j<os_size os. \<forall>v. M j = Some v \<longrightarrow>
     content \<sigma> os j = Some v \<and> (isByteFlushed os j \<longrightarrow> flushed_byte \<sigma> os j = Some v))"

lemma representsD:
  assumes "represents \<sigma> os M" "j < os_size os" "M j = Some v"
  shows "content \<sigma> os j = Some v" "isByteFlushed os j \<Longrightarrow> flushed_byte \<sigma> os j = Some v"
  using assms by (auto simp: represents_def)

lemma flushed_byte_cong:
  "os_root os' = os_root os \<Longrightarrow> os_head os' = os_head os \<Longrightarrow> flushed_byte \<sigma> os' j = flushed_byte \<sigma> os j"
  by (simp add: flushed_byte_def)

lemma content_own: "os_ok os \<Longrightarrow> represents \<sigma> os M \<Longrightarrow> j < os_size os \<Longrightarrow> M j = Some v \<Longrightarrow>
    isByteConcrete os j \<Longrightarrow> v = concreteStore os ! j"
  using representsD(1) [of \<sigma> os M j v] by (simp add: content_def)

lemma content_cong:
  assumes "isByteConcrete os' j = isByteConcrete os j" "knownSymbolic os' j = knownSymbolic os j"
    "concreteStore os' ! j = concreteStore os ! j" "os_root os' = os_root os" "os_head os' = os_head os"
  shows "content \<sigma> os' j = content \<sigma> os j"
  using assms by (simp add: content_def flushed_byte_def split: option.split)

text \<open>An operation that caches a new value for byte \<open>i\<close> and leaves the rest alone.\<close>

lemma represents_upd:
  assumes M: "represents \<sigma> os M" and fr: "os_size os' = os_size os" "os_root os' = os_root os" "os_head os' = os_head os"
    and same: "\<And>j. j < os_size os \<Longrightarrow> j \<noteq> i \<Longrightarrow> isByteConcrete os' j = isByteConcrete os j
        \<and> knownSymbolic os' j = knownSymbolic os j \<and> concreteStore os' ! j = concreteStore os ! j
        \<and> (isByteFlushed os' j \<longrightarrow> isByteFlushed os j)"
    and new: "content \<sigma> os' i = x" "\<not> isByteFlushed os' i"
  shows "represents \<sigma> os' (M(i := x))"
  unfolding represents_def
proof (intro allI impI)
  fix j v assume j: "j < os_size os'" and v: "(M(i := x)) j = Some v"
  show "content \<sigma> os' j = Some v \<and> (isByteFlushed os' j \<longrightarrow> flushed_byte \<sigma> os' j = Some v)"
  proof (cases "j = i")
    case False
    with j fr same [of j] have "content \<sigma> os' j = content \<sigma> os j" by (intro content_cong) auto
    with representsD [OF M, of j v] False j v fr same [of j] flushed_byte_cong [OF fr(2,3)] show ?thesis by simp
  qed (use new v in simp)
qed

section \<open>Writing one byte\<close>

lemma write8_correct:
  assumes ok: "os_ok os" and i: "i < os_size os"
  shows "succeeds (write8 os i v) (\<lambda>os'. os_ok os' \<and> os_size os' = os_size os
    \<and> (\<forall>\<sigma> M. represents \<sigma> os M \<longrightarrow> represents \<sigma> os' (M(i \<mapsto> v mod 2 ^ 8))))"
proof -
  define os1 where "os1 = os\<lparr>concreteStore := (concreteStore os)[i := v mod 2 ^ 8]\<rparr>"
  define os' where "os' = markByteUnflushed (markByteConcrete (setKnownSymbolic os1 i None) i) i"
  have q: "isByteConcrete os1 j = isByteConcrete os j" "isByteFlushed os1 j = isByteFlushed os j"
    "knownSymbolic os1 j = knownSymbolic os j" "os_size os1 = os_size os" "os_root os1 = os_root os" "os_head os1 = os_head os"
    "concreteStore os1 = (concreteStore os)[i := v mod 2 ^ 8]" for j
    by (auto simp: os1_def isByteConcrete_def isByteFlushed_def knownSymbolic_def)
  have sh: "shape_ok os1" using os_okD(1) [OF ok] by (simp add: os1_def shape_ok_def)
  note d = os_okD [OF ok]
  have len: "length (concreteStore os) = os_size os" using d(1) by (simp add: shape_ok_def)
  have byte: "b < 256" if "b \<in> set ((concreteStore os)[i := v mod 2 ^ 8])" for b
    using that set_update_subset_insert [of "concreteStore os" i "v mod 2 ^ 8"] ok by (auto simp: os_ok_def)
  have "os_ok os'"
    using sh i d byte by (auto simp: os_ok_def os'_def q isByteKnownSymbolic_def)
  moreover have "represents \<sigma> os' (M(i \<mapsto> v mod 2 ^ 8))" if M: "represents \<sigma> os M" for \<sigma> M
    using sh i len by (intro represents_upd [OF M]) (simp_all add: os'_def q content_def)
  moreover have "write8 os i v = Some os'" using i by (simp add: write8_def os'_def os1_def)
  ultimately show ?thesis by (simp add: os'_def q)
qed

lemma write8_expr_correct:
  assumes ok: "os_ok os" and i: "i < os_size os" and v: "wf_expr v" "getWidth v = 8"
  shows "succeeds (write8_expr os i v) (\<lambda>os'. os_ok os' \<and> os_size os' = os_size os
    \<and> (\<forall>\<sigma> M. represents \<sigma> os M \<longrightarrow> represents \<sigma> os' (M(i := eval \<sigma> v))))"
proof (cases "dyn_cast_ConstantExpr v")
  case (Some p)
  then obtain c where c: "v = ConstantExpr 8 c" "c < 256" using v by (cases p) auto
  with write8_correct [OF ok i, of c] show ?thesis by (simp add: write8_expr_def)
next
  case None
  define os' where "os' = markByteUnflushed (markByteSymbolic (setKnownSymbolic os i (Some v)) i) i"
  note d = os_okD [OF ok]
  have "os_ok os'"
    using d i v ok by (auto simp: os_ok_def os'_def isByteKnownSymbolic_def)
  moreover have "represents \<sigma> os' (M(i := eval \<sigma> v))" if M: "represents \<sigma> os M" for \<sigma> M
    using d(1) i by (intro represents_upd [OF M]) (simp_all add: os'_def content_def)
  moreover have "write8_expr os i v = Some os'" using i None by (simp add: write8_expr_def os'_def)
  ultimately show ?thesis by (simp add: os'_def)
qed

section \<open>Flushing\<close>

lemma forEach_upt:
  assumes "lo \<le> hi" "P lo s" "\<And>k s. lo \<le> k \<Longrightarrow> k < hi \<Longrightarrow> P k s \<Longrightarrow> succeeds (f k s) (P (Suc k))"
  shows "succeeds (forEach f [lo..<hi] s) (P hi)"
  using assms
proof (induction "hi - lo" arbitrary: lo s)
  case (Suc n)
  then have lt: "lo < hi" by simp
  have "succeeds (f lo s) (P (Suc lo))" using Suc.prems lt by simp
  then show ?case
    unfolding upt_conv_Cons [OF lt] forEach.simps
  proof (rule succeeds_bind)
    fix s' assume "P (Suc lo) s'"
    then show "succeeds (forEach f [Suc lo..<hi] s') (P hi)"
      using Suc.hyps(1) [of "Suc lo" s'] Suc.hyps(2) Suc.prems(3) lt by simp
  qed
qed simp

text \<open>The expression that the cache holds for a byte.\<close>

definition cached :: "ObjectState \<Rightarrow> nat \<Rightarrow> expr \<Rightarrow> bool" where
  "cached os i e \<longleftrightarrow> (if isByteConcrete os i then e = ConstantExpr 8 (concreteStore os ! i) else knownSymbolic os i = Some e)"

lemma cached_typed: "os_ok os \<Longrightarrow> i < os_size os \<Longrightarrow> cached os i e \<Longrightarrow> wf_expr e \<and> getWidth e = 8"
  using os_okD(2,5) [of os i] by (auto simp: cached_def split: if_splits)

lemma cached_content: "cached os i e \<Longrightarrow> content \<sigma> os i = eval \<sigma> e"
  by (auto simp: cached_def content_def split: if_splits)

lemma unflushed_cached: "os_ok os \<Longrightarrow> i < os_size os \<Longrightarrow> \<not> isByteFlushed os i \<Longrightarrow> \<exists>e. cached os i e"
  using os_okD(6) [of os i] by (auto simp: cached_def isByteKnownSymbolic_def)

definition push_update :: "nat \<Rightarrow> expr \<Rightarrow> ObjectState \<Rightarrow> ObjectState" where
  "push_update i e os = os\<lparr>os_head := UpdateNode (ConstantExpr 32 i) e (os_head os)\<rparr>"

lemma push_update_frame [simp]:
  "isByteConcrete (push_update i e os) j = isByteConcrete os j" "isByteFlushed (push_update i e os) j = isByteFlushed os j"
  "knownSymbolic (push_update i e os) j = knownSymbolic os j" "os_size (push_update i e os) = os_size os"
  "concreteStore (push_update i e os) = concreteStore os" "flushMask (push_update i e os) = flushMask os"
  "os_root (push_update i e os) = os_root os" "shape_ok (push_update i e os) = shape_ok os"
  by (simp_all add: push_update_def isByteConcrete_def isByteFlushed_def knownSymbolic_def shape_ok_def)

lemma flushed_push_update [simp]:
  "flushed_byte \<sigma> (push_update i e os) j = (if j = i then eval \<sigma> e else flushed_byte \<sigma> os j)"
  by (simp add: flushed_byte_def push_update_def)

lemma push_update_ok:
  assumes "os_ok os" "i < os_size os" "cached os i e"
  shows "extendUpdates os (ConstantExpr 32 i) e = Some (push_update i e os)" "os_ok (push_update i e os)"
proof -
  note d = os_okD [OF assms(1)] and t = cached_typed [OF assms]
  have "i < 2 ^ 32" using assms(2) d(1) by (simp add: shape_ok_def)
  then have "upd_ok (os_size os) (os_head (push_update i e os))"
    using t d(4) assms(2) by (simp add: push_update_def)
  then show "os_ok (push_update i e os)"
    using assms(1) by (auto simp: os_ok_def isByteKnownSymbolic_def)
  show "extendUpdates os (ConstantExpr 32 i) e = Some (push_update i e os)"
    using t d(3) by (auto simp: extendUpdates_def UpdateList_extend_def push_update_def root_ok_def split: option.split)
qed

text \<open>The outcome of flushing byte \<open>i\<close>; after a flush for writing the cache of the byte is dropped.\<close>

definition flushes :: "nat \<Rightarrow> ObjectState \<Rightarrow> ObjectState \<Rightarrow> bool" where
  "flushes i os os' \<longleftrightarrow> os_ok os' \<and> os_size os' = os_size os \<and> flushMask os' \<noteq> None \<and> isByteFlushed os' i
     \<and> (\<forall>j<os_size os. isByteFlushed os j \<longrightarrow> isByteFlushed os' j)
     \<and> (\<forall>j<os_size os. \<not> isByteConcrete os j \<longrightarrow> \<not> isByteConcrete os' j)
     \<and> (\<forall>j<os_size os. knownSymbolic os j = None \<longrightarrow> knownSymbolic os' j = None)
     \<and> (\<forall>\<sigma> M. represents \<sigma> os M \<longrightarrow> represents \<sigma> os' M)"

lemma flushByteForRead_eq:
  assumes "os_ok os" "i < os_size os" "\<not> isByteFlushed os i" "cached os i e"
  shows "flushByteForRead i os = Some (unsetFlush (push_update i e os) i)"
  using assms push_update_ok(1) [OF assms(1,2,4)]
  by (auto simp: flushByteForRead_def cached_def split: if_splits)

lemma flushByteForWrite_eq:
  assumes "os_ok os" "i < os_size os" "\<not> isByteFlushed os i" "cached os i e"
  shows "flushByteForWrite i os = Some (unsetFlush (if isByteConcrete os i then markByteSymbolic (push_update i e os) i
    else setKnownSymbolic (push_update i e os) i None) i)"
  using assms push_update_ok(1) [OF assms(1,2,4)]
  by (auto simp: flushByteForWrite_def cached_def split: if_splits)

lemma flushByteForRead_correct:
  assumes ok: "os_ok os" and i: "i < os_size os" and m: "flushMask os \<noteq> None"
  shows "succeeds (flushByteForRead i os) (flushes i os)"
proof (cases "isByteFlushed os i")
  case True
  then show ?thesis using assms by (simp add: flushByteForRead_def flushes_def)
next
  case False
  then obtain e where e: "cached os i e" using unflushed_cached [OF ok i] by auto
  let ?os = "unsetFlush (push_update i e os) i"
  note p = push_update_ok [OF ok i e] and d = os_okD [OF ok]
  have okp: "os_ok ?os"
    using p(2) i m by (auto simp: os_ok_def isByteKnownSymbolic_def)
  have "represents \<sigma> ?os M" if M: "represents \<sigma> os M" for \<sigma> M
    unfolding represents_def
  proof (intro allI impI)
    fix j v assume j: "j < os_size ?os" and v: "M j = Some v"
    have c: "content \<sigma> ?os j = (if j = i then eval \<sigma> e else content \<sigma> os j)"
      using cached_content [OF e, of \<sigma>] e
      by (auto simp: content_def cached_def flushed_byte_cong [of "unsetFlush x i" x for x] split: if_splits option.split)
    show "content \<sigma> ?os j = Some v \<and> (isByteFlushed ?os j \<longrightarrow> flushed_byte \<sigma> ?os j = Some v)"
      using c representsD [OF M, of j v] j v i m d(1) cached_content [OF e, of \<sigma>]
      by (auto simp: flushed_byte_cong [of "unsetFlush x i" x for x])
  qed
  then show ?thesis
    using okp i m d(1) by (simp add: flushByteForRead_eq [OF ok i False e] flushes_def)
qed

text \<open>Dropping the cache of a byte that is flushed.\<close>

lemma represents_drop:
  assumes M: "represents \<sigma> os M" and fl: "isByteFlushed os i" "i < os_size os"
    and fr: "os_size os' = os_size os" "os_root os' = os_root os" "os_head os' = os_head os" "concreteStore os' = concreteStore os"
    and same: "\<And>j. j < os_size os \<Longrightarrow> isByteFlushed os' j = isByteFlushed os j
      \<and> (j \<noteq> i \<longrightarrow> isByteConcrete os' j = isByteConcrete os j \<and> knownSymbolic os' j = knownSymbolic os j)"
    and gone: "\<not> isByteConcrete os' i" "knownSymbolic os' i = None"
  shows "represents \<sigma> os' M"
  unfolding represents_def
proof (intro allI impI)
  fix j v assume j: "j < os_size os'" and v: "M j = Some v"
  note eq = flushed_byte_cong [OF fr(2,3), of \<sigma> j]
  have "content \<sigma> os' j = Some v"
  proof (cases "j = i")
    case True
    then show ?thesis using gone representsD(2) [OF M fl(2) _ fl(1)] v eq by (simp add: content_def)
  next
    case False
    then have "content \<sigma> os' j = content \<sigma> os j" using same [of j] fr j by (intro content_cong) auto
    then show ?thesis using representsD(1) [OF M _ v] j fr by simp
  qed
  then show "content \<sigma> os' j = Some v \<and> (isByteFlushed os' j \<longrightarrow> flushed_byte \<sigma> os' j = Some v)"
    using representsD(2) [OF M _ v] same [of j] j fr eq by simp
qed

definition uncached :: "ObjectState \<Rightarrow> nat \<Rightarrow> bool" where
  "uncached os i \<longleftrightarrow> \<not> isByteConcrete os i \<and> knownSymbolic os i = None"

lemma os_ok_drop:
  assumes "os_ok os" "isByteFlushed os i" "i < os_size os"
  shows "os_ok (markByteSymbolic os i)" "os_ok (setKnownSymbolic os i None)"
  using assms os_okD [OF assms(1)] by (auto simp: os_ok_def isByteKnownSymbolic_def)

lemma flushByteForWrite_flushed:
  assumes ok: "os_ok os" and i: "i < os_size os" and m: "flushMask os \<noteq> None" and fl: "isByteFlushed os i"
  shows "succeeds (flushByteForWrite i os) (\<lambda>os'. flushes i os os' \<and> uncached os' i)"
proof -
  note d = os_okD [OF ok] and drop = os_ok_drop [OF ok fl i]
  consider "isByteConcrete os i" | "\<not> isByteConcrete os i" "isByteKnownSymbolic os i"
    | "\<not> isByteConcrete os i" "\<not> isByteKnownSymbolic os i" by blast
  then show ?thesis
  proof cases
    case 1
    have "knownSymbolic os i = None" using d(5) [OF i] 1 by (cases "knownSymbolic os i") auto
    then show ?thesis
      using 1 fl i m d(1) drop
      by (auto simp: flushByteForWrite_def flushes_def uncached_def intro!: represents_drop [where os = os and i = i])
  next
    case 2
    then show ?thesis
      using fl i m d(1) drop
      by (auto simp: flushByteForWrite_def flushes_def uncached_def intro!: represents_drop [where os = os and i = i])
  next
    case 3
    then show ?thesis using assms by (simp add: flushByteForWrite_def flushes_def uncached_def isByteKnownSymbolic_def)
  qed
qed

text \<open>On a byte that is not flushed yet, flushing for writing is flushing for reading and then for writing.\<close>

lemma mask_commute:
  "unsetFlush (markByteSymbolic os i) j = markByteSymbolic (unsetFlush os j) i"
  "unsetFlush (setKnownSymbolic os i v) j = setKnownSymbolic (unsetFlush os j) i v"
  by (auto simp: os_marks split: option.split)

lemma flushByteForWrite_correct:
  assumes ok: "os_ok os" and i: "i < os_size os" and m: "flushMask os \<noteq> None"
  shows "succeeds (flushByteForWrite i os) (\<lambda>os'. flushes i os os' \<and> uncached os' i)"
proof (cases "isByteFlushed os i")
  case False
  then obtain e where e: "cached os i e" using unflushed_cached [OF ok i] by auto
  let ?os = "unsetFlush (push_update i e os) i"
  have r: "flushes i os ?os"
    using flushByteForRead_correct [OF assms] by (simp add: flushByteForRead_eq [OF ok i False e])
  then have ok': "os_ok ?os" and m': "flushMask ?os \<noteq> None" and fl: "isByteFlushed ?os i" and sz: "i < os_size ?os"
    using i by (auto simp: flushes_def)
  have kn: "isByteConcrete os i \<or> isByteKnownSymbolic os i"
    using e by (auto simp: cached_def isByteKnownSymbolic_def split: if_splits)
  have "flushByteForWrite i os = flushByteForWrite i ?os"
    unfolding flushByteForWrite_eq [OF ok i False e]
    using fl kn by (auto simp: flushByteForWrite_def mask_commute isByteKnownSymbolic_def)
  moreover have "flushes i ?os os' \<Longrightarrow> flushes i os os'" for os' using r by (auto simp: flushes_def)
  ultimately show ?thesis
    using flushByteForWrite_flushed [OF ok' sz m' fl] by (auto elim: succeeds_mono)
qed (rule flushByteForWrite_flushed [OF assms])

lemma ensureFlushMask_ok:
  assumes "os_ok os"
  shows "os_ok (ensureFlushMask os)" "represents \<sigma> os M \<Longrightarrow> represents \<sigma> (ensureFlushMask os) M"
proof -
  note d = os_okD [OF assms]
  show "os_ok (ensureFlushMask os)" using assms d by (auto simp: os_ok_def isByteKnownSymbolic_def)
  show "represents \<sigma> (ensureFlushMask os) M" if M: "represents \<sigma> os M"
    unfolding represents_def
  proof (intro allI impI)
    fix j v assume "j < os_size (ensureFlushMask os)" "M j = Some v"
    moreover have "content \<sigma> (ensureFlushMask os) j = content \<sigma> os j" by (rule content_cong) simp_all
    ultimately show "content \<sigma> (ensureFlushMask os) j = Some v \<and>
        (isByteFlushed (ensureFlushMask os) j \<longrightarrow> flushed_byte \<sigma> (ensureFlushMask os) j = Some v)"
      using representsD [OF M, of j v] d(1) flushed_byte_cong [of "ensureFlushMask os" os \<sigma> j] by auto
  qed
qed

text \<open>Flushing the whole object.\<close>

definition all_flushed :: "(ObjectState \<Rightarrow> nat \<Rightarrow> bool) \<Rightarrow> ObjectState \<Rightarrow> nat \<Rightarrow> ObjectState \<Rightarrow> bool" where
  "all_flushed Q os k os' \<longleftrightarrow> os_ok os' \<and> os_size os' = os_size os \<and> flushMask os' \<noteq> None
     \<and> (\<forall>j<k. isByteFlushed os' j \<and> Q os' j) \<and> (\<forall>\<sigma> M. represents \<sigma> os M \<longrightarrow> represents \<sigma> os' M)"

lemma all_flushed_step:
  assumes "all_flushed Q os k s" "k < os_size os" "flushes k s s'" "Q s' k"
    and "\<And>j. j < os_size os \<Longrightarrow> Q s j \<Longrightarrow> Q s' j"
  shows "all_flushed Q os (Suc k) s'"
  using assms by (auto simp: all_flushed_def flushes_def less_Suc_eq)

lemma flushRangeForRead_correct:
  assumes "os_ok os"
  shows "succeeds (flushRangeForRead os 0 (os_size os)) (all_flushed (\<lambda>_ _. True) os (os_size os))"
  unfolding flushRangeForRead_def add_0
proof (rule forEach_upt)
  show "all_flushed (\<lambda>_ _. True) os 0 (ensureFlushMask os)"
    using ensureFlushMask_ok [OF assms] by (auto simp: all_flushed_def)
next
  fix k s assume k: "k < os_size os" and s: "all_flushed (\<lambda>_ _. True) os k s"
  then have "succeeds (flushByteForRead k s) (flushes k s)"
    by (intro flushByteForRead_correct) (auto simp: all_flushed_def)
  then show "succeeds (flushByteForRead k s) (all_flushed (\<lambda>_ _. True) os (Suc k))"
    using all_flushed_step [OF s k] by (auto elim: succeeds_mono)
qed simp

lemma flushRangeForWrite_correct:
  assumes "os_ok os"
  shows "succeeds (flushRangeForWrite os 0 (os_size os)) (all_flushed uncached os (os_size os))"
  unfolding flushRangeForWrite_def add_0
proof (rule forEach_upt)
  show "all_flushed uncached os 0 (ensureFlushMask os)"
    using ensureFlushMask_ok [OF assms] by (auto simp: all_flushed_def)
next
  fix k s assume k: "k < os_size os" and s: "all_flushed uncached os k s"
  then have "succeeds (flushByteForWrite k s) (\<lambda>s'. flushes k s s' \<and> uncached s' k)"
    by (intro flushByteForWrite_correct) (auto simp: all_flushed_def)
  moreover have "os_size s = os_size os" using s by (simp add: all_flushed_def)
  ultimately show "succeeds (flushByteForWrite k s) (all_flushed uncached os (Suc k))"
    using all_flushed_step [OF s k] by (auto elim!: succeeds_mono simp: flushes_def uncached_def)
qed simp

section \<open>The update list of an object\<close>

text \<open>A write as a function on memories; the update list is the composition of its writes, oldest first.\<close>

definition write_fn :: "assignment \<Rightarrow> expr \<times> expr \<Rightarrow> (nat \<rightharpoonup> nat) \<Rightarrow> (nat \<rightharpoonup> nat)" where
  "write_fn \<sigma> p f j = eval \<sigma> (fst p) \<bind> (\<lambda>k. if k = j then eval \<sigma> (snd p) else f j)"

lemma chain_read_write:
  "chain_read \<sigma> init NoUpdate = init"
  "chain_read \<sigma> init (UpdateNode i v us) = write_fn \<sigma> (i, v) (chain_read \<sigma> init us)"
proof -
  show "chain_read \<sigma> init NoUpdate = init" by (rule ext) simp
  show "chain_read \<sigma> init (UpdateNode i v us) = write_fn \<sigma> (i, v) (chain_read \<sigma> init us)"
    by (rule ext, cases "eval \<sigma> i") (simp_all add: write_fn_def)
qed

lemma chain_read_fold: "chain_read \<sigma> init us = fold (write_fn \<sigma>) (rev (update_writes us)) init"
  by (induction us rule: getSize.induct) (simp_all add: chain_read_write del: chain_read.simps)

lemma fold_write_cong: "f j = g j \<Longrightarrow> fold (write_fn \<sigma>) ws f j = fold (write_fn \<sigma>) ws g j"
proof (induction ws arbitrary: f g)
  case (Cons p ws)
  have "write_fn \<sigma> p f j = write_fn \<sigma> p g j"
    using Cons.prems by (cases "eval \<sigma> (fst p)") (simp_all add: write_fn_def)
  with Cons.IH [of "write_fn \<sigma> p f" "write_fn \<sigma> p g"] show ?case by simp
qed simp

definition write_ok :: "nat \<Rightarrow> expr \<times> expr \<Rightarrow> bool" where
  "write_ok sz p \<longleftrightarrow> wf_expr (fst p) \<and> getWidth (fst p) = 32 \<and> wf_expr (snd p) \<and> getWidth (snd p) = 8
     \<and> (isConstantExpr (fst p) \<longrightarrow> cv (fst p) < sz)"

lemma upd_ok_writes: "upd_ok sz us \<longleftrightarrow> (\<forall>p\<in>set (update_writes us). write_ok sz p)"
  by (induction us rule: getSize.induct) (auto simp: write_ok_def)

definition bytes_ok :: "expr list \<Rightarrow> bool" where
  "bytes_ok contents \<longleftrightarrow> (\<forall>e\<in>set contents. \<exists>c<256. e = ConstantExpr 8 c)"

lemma pullConcrete_correct:
  assumes "\<forall>p\<in>set ws. write_ok (length contents) p" "bytes_ok contents"
  shows "succeeds (pullConcrete contents ws) (\<lambda>(contents', rest). length contents' = length contents \<and> bytes_ok contents'
    \<and> (\<forall>p\<in>set rest. write_ok (length contents) p)
    \<and> (\<forall>\<sigma> j. j < length contents \<longrightarrow> fold (write_fn \<sigma>) rest (\<lambda>j. Some (cv (contents' ! j))) j
         = fold (write_fn \<sigma>) ws (\<lambda>j. Some (cv (contents ! j))) j))"
  using assms
proof (induction contents ws rule: pullConcrete.induct)
  case (2 contents i v ws)
  show ?case
  proof (cases "\<exists>w k w' x. i = ConstantExpr w k \<and> v = ConstantExpr w' x")
    case True
    then obtain w k w' x where iv: "i = ConstantExpr w k" "v = ConstantExpr w' x" by auto
    with 2 have w: "w' = 8" "x < 256" "k < length contents" by (auto simp: write_ok_def)
    have b: "bytes_ok (contents[k := v])"
      using 2(3) iv w set_update_subset_insert [of contents k v] by (auto simp: bytes_ok_def)
    have step: "fold (write_fn \<sigma>) ws (\<lambda>j. Some (cv (contents[k := v] ! j))) j
        = fold (write_fn \<sigma>) ws (write_fn \<sigma> (i, v) (\<lambda>j. Some (cv (contents ! j)))) j" if "j < length contents" for \<sigma> j
      by (rule fold_write_cong) (use that iv in \<open>simp add: write_fn_def nth_list_update\<close>)
    have "succeeds (pullConcrete (contents[k := v]) ws) (\<lambda>(contents', rest). length contents' = length contents \<and> bytes_ok contents'
      \<and> (\<forall>p\<in>set rest. write_ok (length contents) p)
      \<and> (\<forall>\<sigma> j. j < length contents \<longrightarrow> fold (write_fn \<sigma>) rest (\<lambda>j. Some (cv (contents' ! j))) j
         = fold (write_fn \<sigma>) ws (\<lambda>j. Some (cv (contents[k := v] ! j))) j))"
      using 2(1) [of "(w, k)" w k "(w', x)"] 2(2) b iv w by simp
    then show ?thesis
      using iv w step by (auto elim!: succeeds_mono)
  next
    case False
    then have "pullConcrete contents ((i, v) # ws) = Some (contents, (i, v) # ws)"
      by (auto split: option.split)
    with 2(2,3) show ?thesis by simp
  qed
qed simp

lemma extendAll_correct:
  assumes "root_ok a" "\<forall>p\<in>set ws. write_ok sz p" "upd_ok sz us"
  shows "succeeds (extendAll (Some a) us ws) (\<lambda>us'. upd_ok sz us'
    \<and> (\<forall>\<sigma> init. chain_read \<sigma> init us' = fold (write_fn \<sigma>) ws (chain_read \<sigma> init us)))"
  using assms
proof (induction ws arbitrary: us)
  case (Cons p ws)
  obtain i v where p: "p = (i, v)" by (cases p)
  have ext: "UpdateList_extend (Some a) us i v = Some (UpdateNode i v us)"
    using Cons.prems p by (auto simp: UpdateList_extend_def root_ok_def write_ok_def)
  have "upd_ok sz (UpdateNode i v us)" using Cons.prems p by (auto simp: write_ok_def)
  from Cons.IH [OF Cons.prems(1) _ this] Cons.prems(2) p ext show ?case
    by (auto elim!: succeeds_mono simp: chain_read_write simp del: chain_read.simps)
qed simp

lemma CreateArray_bytes:
  assumes "bytes_ok contents" "length contents = sz"
  shows "succeeds (CreateArray addr name sz contents) (\<lambda>a. root_ok a \<and>
    (\<forall>\<sigma> j. j < sz \<longrightarrow> arr_init \<sigma> a j = cv (contents ! j)))"
proof -
  have "list_all (\<lambda>e. getWidth e = 8) contents" using assms(1) by (auto simp: bytes_ok_def list_all_iff)
  moreover have "\<forall>v\<in>set (map cv contents). v < 256" using assms(1) by (auto simp: bytes_ok_def)
  ultimately show ?thesis using assms(2)
    by (auto simp: CreateArray_def root_ok_def wf_array_def arr_init_def isConstantArray_def isSymbolicArray_def)
qed

lemma getUpdates_correct:
  assumes ok: "os_ok os"
  shows "succeeds (getUpdates os uid) (\<lambda>(a, us, os', uid'). os' = os\<lparr>os_root := Some a, os_head := us\<rparr> \<and> root_ok a
    \<and> upd_ok (os_size os) us \<and> (\<forall>\<sigma> j. j < os_size os \<longrightarrow> flushed_byte \<sigma> os' j = flushed_byte \<sigma> os j))"
proof (cases "os_root os")
  case (Some a)
  then have "os\<lparr>os_root := Some a, os_head := os_head os\<rparr> = os" by simp
  with Some os_okD(3,4) [OF ok] show ?thesis by (simp add: getUpdates_def)
next
  case None
  let ?zeros = "replicate (os_size os) (ConstantExpr 8 0)" and ?ws = "rev (update_writes (os_head os))"
  have ws: "\<forall>p\<in>set ?ws. write_ok (length ?zeros) p" using os_okD(4) [OF ok] by (simp add: upd_ok_writes)
  have z: "bytes_ok ?zeros" by (auto simp: bytes_ok_def)
  obtain contents rest where pull: "pullConcrete ?zeros ?ws = Some (contents, rest)"
    and len: "length contents = os_size os" "bytes_ok contents" "\<forall>p\<in>set rest. write_ok (os_size os) p"
    and same: "\<And>\<sigma> j. j < os_size os \<Longrightarrow> fold (write_fn \<sigma>) rest (\<lambda>j. Some (cv (contents ! j))) j
         = fold (write_fn \<sigma>) ?ws (\<lambda>j. Some (cv (?zeros ! j))) j"
    using pullConcrete_correct [OF ws z] by (auto simp: succeeds_def)
  obtain a where a: "CreateArray (uid + 1) (''const_arr'' @ utostr (uid + 1)) (os_size os) contents = Some a" "root_ok a"
    "\<And>\<sigma> j. j < os_size os \<Longrightarrow> arr_init \<sigma> a j = cv (contents ! j)"
    by (rule succeedsE [OF CreateArray_bytes [OF len(2,1)]]) blast
  obtain us where us: "extendAll (Some a) NoUpdate rest = Some us" "upd_ok (os_size os) us"
    "\<And>\<sigma> init. chain_read \<sigma> init us = fold (write_fn \<sigma>) rest init"
    by (rule succeedsE [OF extendAll_correct [OF a(2) len(3), of NoUpdate, simplified chain_read_write]]) simp_all
  have "flushed_byte \<sigma> (os\<lparr>os_root := Some a, os_head := us\<rparr>) j = flushed_byte \<sigma> os j" if j: "j < os_size os" for \<sigma> j
  proof -
    have "fold (write_fn \<sigma>) rest (root_byte \<sigma> (Some a)) j = fold (write_fn \<sigma>) rest (\<lambda>j. Some (cv (contents ! j))) j"
      by (rule fold_write_cong) (simp add: root_byte_def a(3) j)
    also have "\<dots> = fold (write_fn \<sigma>) ?ws (root_byte \<sigma> None) j"
      unfolding same [OF j] by (rule fold_write_cong) (simp add: root_byte_def j)
    finally show ?thesis
      using us(3) [of \<sigma> "root_byte \<sigma> (Some a)"] chain_read_fold [of \<sigma> "root_byte \<sigma> None" "os_head os"]
      by (simp add: flushed_byte_def None)
  qed
  then show ?thesis using None pull a us by (simp add: getUpdates_def)
qed

section \<open>Reading and writing one byte\<close>

text \<open>What every read promises: \<open>I\<close> picks the byte that is read, if the assignment determines it.\<close>

definition reads :: "ObjectState \<Rightarrow> nat \<Rightarrow> (assignment \<Rightarrow> (nat \<rightharpoonup> nat) \<Rightarrow> nat option) \<Rightarrow> expr \<times> ObjectState \<times> nat \<Rightarrow> bool" where
  "reads os w V res = (case res of (e, os', uid') \<Rightarrow> os_ok os' \<and> os_size os' = os_size os \<and> wf_expr e \<and> getWidth e = w
     \<and> (\<forall>\<sigma> M. represents \<sigma> os M \<longrightarrow> represents \<sigma> os' M \<and> (\<forall>v. wf_asg \<sigma> \<longrightarrow> V \<sigma> M = Some v \<longrightarrow> eval \<sigma> e = Some v)))"

lemma reads_weaken:
  assumes "reads os1 w V res" "os_size os1 = os_size os" "\<And>\<sigma> M. represents \<sigma> os M \<Longrightarrow> represents \<sigma> os1 M"
  shows "reads os w V res"
  using assms unfolding reads_def by (cases res) (simp, blast)

lemma set_updates_frame [simp]:
  "isByteConcrete (os\<lparr>os_head := us\<rparr>) j = isByteConcrete os j"
  "isByteFlushed (os\<lparr>os_head := us\<rparr>) j = isByteFlushed os j"
  "knownSymbolic (os\<lparr>os_head := us\<rparr>) j = knownSymbolic os j"
  "shape_ok (os\<lparr>os_head := us\<rparr>) = shape_ok os"
  "isByteConcrete (os\<lparr>os_root := r\<rparr>) j = isByteConcrete os j"
  "isByteFlushed (os\<lparr>os_root := r\<rparr>) j = isByteFlushed os j"
  "knownSymbolic (os\<lparr>os_root := r\<rparr>) j = knownSymbolic os j"
  "shape_ok (os\<lparr>os_root := r\<rparr>) = shape_ok os"
  by (simp_all add: isByteConcrete_def isByteFlushed_def knownSymbolic_def shape_ok_def)

lemma set_updates_keeps:
  assumes ok: "os_ok os" and new: "os' = os\<lparr>os_root := Some a, os_head := us\<rparr>" "root_ok a" "upd_ok (os_size os) us"
    and same: "\<And>\<sigma> j. j < os_size os \<Longrightarrow> flushed_byte \<sigma> os' j = flushed_byte \<sigma> os j"
  shows "os_ok os'" "represents \<sigma> os M \<Longrightarrow> represents \<sigma> os' M"
proof -
  show "os_ok os'" using ok new by (auto simp: os_ok_def isByteKnownSymbolic_def)
  have "content \<sigma> os' j = content \<sigma> os j" if "j < os_size os" for j
    using same [OF that, of \<sigma>] new(1) by (simp add: content_def split: option.split)
  then show "represents \<sigma> os' M" if "represents \<sigma> os M"
    using representsD [OF that] same [of _ \<sigma>] new(1) unfolding represents_def by simp
qed

lemma getUpdates_read:
  assumes ok: "os_ok os"
    and index: "wf_expr index" "getWidth index = 32"
    and I: "\<And>\<sigma> M v. wf_asg \<sigma> \<Longrightarrow> represents \<sigma> os M \<Longrightarrow> V \<sigma> M = Some v \<Longrightarrow>
      \<exists>k<os_size os. eval \<sigma> index = Some k \<and> flushed_byte \<sigma> os k = Some v"
  shows "succeeds (getUpdates os uid \<bind> (\<lambda>(a, us, os, uid).
     ReadExpr_create a us index \<bind> (\<lambda>e. Some (e, os, uid)))) (reads os 8 V)"
proof (rule succeeds_bind [OF getUpdates_correct [OF ok]])
  fix r :: "array \<times> updates \<times> ObjectState \<times> nat"
  assume r: "case r of (a, us, os', uid') \<Rightarrow> os' = os\<lparr>os_root := Some a, os_head := us\<rparr> \<and> root_ok a
    \<and> upd_ok (os_size os) us \<and> (\<forall>\<sigma> j. j < os_size os \<longrightarrow> flushed_byte \<sigma> os' j = flushed_byte \<sigma> os j)"
  obtain a us os' uid' where req: "r = (a, us, os', uid')" by (cases r)
  with r have new: "os' = os\<lparr>os_root := Some a, os_head := us\<rparr>" "root_ok a" "upd_ok (os_size os) us"
    and same: "\<And>\<sigma> j. j < os_size os \<Longrightarrow> flushed_byte \<sigma> os' j = flushed_byte \<sigma> os j" by auto
  have "simplifies (ReadExpr_create a us index) (ReadExpr a us index)"
    using new index upd_ok_wf [OF new(3,2)] by (intro ReadExpr_create_simplifies) (auto simp: root_ok_def)
  then obtain e where e: "ReadExpr_create a us index = Some e" "refines e (ReadExpr a us index)" by (rule simplifiesE)
  have "eval \<sigma> e = Some v" if V: "wf_asg \<sigma>" "represents \<sigma> os M" "V \<sigma> M = Some v" for \<sigma> M v
  proof -
    obtain k where k: "k < os_size os" "eval \<sigma> index = Some k" "flushed_byte \<sigma> os k = Some v" using I [OF V] by auto
    have "read_updates \<sigma> a us k = Some v"
      using same [OF k(1), of \<sigma>] k(3) new(1) by (simp add: flushed_byte_def root_byte_def [abs_def] read_updates_chain)
    then show ?thesis using refines_eval [OF e(2) V(1)] k(2) by simp
  qed
  moreover note set_updates_keeps [OF ok new same]
  moreover have "getWidth e = 8" "wf_expr e" using e(2) new(2) by (auto simp: refines_def root_ok_def)
  ultimately show "succeeds (case r of (a, us, os, uid) \<Rightarrow> ReadExpr_create a us index \<bind> (\<lambda>e. Some (e, os, uid))) (reads os 8 V)"
    using e(1) new(1) by (simp add: req reads_def)
qed

lemma read8_correct:
  assumes ok: "os_ok os" and i: "i < os_size os"
  shows "succeeds (read8 os uid i) (reads os 8 (\<lambda>\<sigma> M. M i))"
proof (cases "\<exists>e. cached os i e")
  case True
  then obtain e where e: "cached os i e" by auto
  then have "read8 os uid i = Some (e, os, uid)" using i by (auto simp: read8_def cached_def split: if_splits)
  moreover have "eval \<sigma> e = Some v" if "represents \<sigma> os M" "M i = Some v" for \<sigma> M v
    using representsD(1) [OF that(1) i that(2)] cached_content [OF e] by simp
  ultimately show ?thesis using ok cached_typed [OF ok i e] by (simp add: reads_def)
next
  case False
  then have un: "\<not> isByteConcrete os i" "knownSymbolic os i = None"
    by (cases "isByteConcrete os i"; cases "knownSymbolic os i"; auto simp: cached_def)+
  then have fl: "isByteFlushed os i" using os_okD(6) [OF ok i] by (auto simp: isByteKnownSymbolic_def)
  have "i < 2 ^ 32" using i os_okD(1) [OF ok] by (simp add: shape_ok_def)
  then have "succeeds (getUpdates os uid \<bind> (\<lambda>(a, us, os, uid).
     ReadExpr_create a us (ConstantExpr 32 i) \<bind> (\<lambda>e. Some (e, os, uid)))) (reads os 8 (\<lambda>\<sigma> M. M i))"
    using i representsD(2) fl by (intro getUpdates_read [OF ok]) auto
  then show ?thesis using un fl i by (simp add: read8_def)
qed

lemma ZExt32:
  assumes "wf_expr e"
  shows "succeeds (ZExtExpr_create e 32) (\<lambda>x. wf_expr x \<and> getWidth x = 32
    \<and> (\<forall>\<sigma> k. wf_asg \<sigma> \<longrightarrow> eval \<sigma> e = Some k \<longrightarrow> eval \<sigma> x = Some (k mod 2 ^ 32)))"
proof (cases "getWidth e < 32")
  case True
  have "simplifies (CastExpr_create ZExt e 32) (CastExpr ZExt e 32)"
    using assms True by (rule CastExpr_create_extends)
  then obtain x where x: "ZExtExpr_create e 32 = Some x" "refines x (CastExpr ZExt e 32)" by (auto elim: simplifiesE)
  have "k < 2 ^ 32" if "wf_asg \<sigma>" "eval \<sigma> e = Some k" for \<sigma> k
    using eval_less(1) [OF assms that] True power_strict_increasing [of "getWidth e" 32 "2::nat"] by simp
  with x show ?thesis by (auto simp: refines_def)
next
  case False
  have "simplifies (CastExpr_create ZExt e 32) (ExtractExpr e 0 32)"
    using assms False by (intro CastExpr_create_truncates) auto
  then obtain x where x: "ZExtExpr_create e 32 = Some x" "refines x (ExtractExpr e 0 32)" by (auto elim: simplifiesE)
  then show ?thesis by (auto simp: refines_def bv_extract_def)
qed

text \<open>The byte of \<open>M\<close> at an offset given by an expression.\<close>

definition byte_at :: "nat \<Rightarrow> expr \<Rightarrow> assignment \<Rightarrow> (nat \<rightharpoonup> nat) \<Rightarrow> nat option" where
  "byte_at sz off \<sigma> M = eval \<sigma> off \<bind> (\<lambda>k. if k mod 2 ^ 32 < sz then M (k mod 2 ^ 32) else None)"

lemma read8_sym_correct:
  assumes ok: "os_ok os" and off: "wf_expr off" "\<not> isConstantExpr off"
  shows "succeeds (read8_sym os uid off) (reads os 8 (byte_at (os_size os) off))"
proof -
  obtain index where index: "ZExtExpr_create off 32 = Some index" "wf_expr index" "getWidth index = 32"
    "\<And>\<sigma> k. wf_asg \<sigma> \<Longrightarrow> eval \<sigma> off = Some k \<Longrightarrow> eval \<sigma> index = Some (k mod 2 ^ 32)"
    by (rule succeedsE [OF ZExt32 [OF off(1)]]) blast
  have "succeeds (flushRangeForRead os 0 (os_size os) \<bind> (\<lambda>os. getUpdates os uid \<bind> (\<lambda>(a, us, os, uid).
     ReadExpr_create a us index \<bind> (\<lambda>e. Some (e, os, uid))))) (reads os 8 (byte_at (os_size os) off))"
  proof (rule succeeds_bind [OF flushRangeForRead_correct [OF ok]])
    fix os1 assume fl: "all_flushed (\<lambda>_ _. True) os (os_size os) os1"
    then have ok1: "os_ok os1" and sz: "os_size os1 = os_size os"
      and rep: "\<And>\<sigma> M. represents \<sigma> os M \<Longrightarrow> represents \<sigma> os1 M" by (auto simp: all_flushed_def)
    have "succeeds (getUpdates os1 uid \<bind> (\<lambda>(a, us, os, uid).
     ReadExpr_create a us index \<bind> (\<lambda>e. Some (e, os, uid)))) (reads os1 8 (byte_at (os_size os) off))"
    proof (rule getUpdates_read [OF ok1 index(2,3)])
      fix \<sigma> M v assume \<sigma>: "wf_asg \<sigma>" and M: "represents \<sigma> os1 M" and v: "byte_at (os_size os) off \<sigma> M = Some v"
      then obtain k where k: "eval \<sigma> off = Some k" "k mod 2 ^ 32 < os_size os" "M (k mod 2 ^ 32) = Some v"
        by (auto simp: byte_at_def bind_eq_Some_conv split: if_splits)
      moreover have "flushed_byte \<sigma> os1 (k mod 2 ^ 32) = Some v"
        using k(2) fl sz by (intro representsD(2) [OF M _ k(3)]) (auto simp: all_flushed_def)
      ultimately show "\<exists>k<os_size os1. eval \<sigma> index = Some k \<and> flushed_byte \<sigma> os1 k = Some v"
        using index(4) [OF \<sigma> k(1)] sz by auto
    qed
    then show "succeeds (getUpdates os1 uid \<bind> (\<lambda>(a, us, os, uid).
     ReadExpr_create a us index \<bind> (\<lambda>e. Some (e, os, uid)))) (reads os 8 (byte_at (os_size os) off))"
      by (rule succeeds_mono) (use rep sz in \<open>blast intro: reads_weaken\<close>)
  qed
  then show ?thesis using off(2) index(1) by (simp add: read8_sym_def fastRangeCheckOffset_def)
qed

lemma write8_sym_correct:
  assumes ok: "os_ok os" and off: "wf_expr off" "\<not> isConstantExpr off" "getWidth off = 32"
    and v: "wf_expr v" "getWidth v = 8"
  shows "succeeds (write8_sym os off v) (\<lambda>os'. os_ok os' \<and> os_size os' = os_size os
    \<and> (\<forall>\<sigma> M. represents \<sigma> os M \<longrightarrow> represents \<sigma> os' (write_fn \<sigma> (off, v) M)))"
proof -
  have zext: "ZExtExpr_create off 32 = Some off" using off(3) by (simp add: ZExtExpr_create_def)
  have "succeeds (flushRangeForWrite os 0 (os_size os) \<bind> (\<lambda>os. extendUpdates os off v)) (\<lambda>os'. os_ok os' \<and> os_size os' = os_size os
    \<and> (\<forall>\<sigma> M. represents \<sigma> os M \<longrightarrow> represents \<sigma> os' (write_fn \<sigma> (off, v) M)))"
  proof (rule succeeds_bind [OF flushRangeForWrite_correct [OF ok]])
    fix os1 assume fl: "all_flushed uncached os (os_size os) os1"
    then have ok1: "os_ok os1" and sz: "os_size os1 = os_size os"
      and rep: "\<And>\<sigma> M. represents \<sigma> os M \<Longrightarrow> represents \<sigma> os1 M" by (auto simp: all_flushed_def)
    let ?os = "os1\<lparr>os_head := UpdateNode off v (os_head os1)\<rparr>"
    have ext: "extendUpdates os1 off v = Some ?os"
      using off(3) v(2) os_okD(3) [OF ok1] by (auto simp: extendUpdates_def UpdateList_extend_def root_ok_def split: option.split)
    have "os_ok ?os" using ok1 off v by (auto simp: os_ok_def isByteKnownSymbolic_def)
    moreover have "represents \<sigma> ?os (write_fn \<sigma> (off, v) M)" if M: "represents \<sigma> os M" for \<sigma> M
      unfolding represents_def
    proof (intro allI impI)
      fix j u assume j: "j < os_size ?os" and u: "write_fn \<sigma> (off, v) M j = Some u"
      have c: "content \<sigma> ?os j = flushed_byte \<sigma> ?os j" using fl j sz by (simp add: content_def all_flushed_def uncached_def)
      have "flushed_byte \<sigma> os1 j = Some x" if "M j = Some x" for x
        using representsD(2) [OF rep [OF M] _ that] fl j sz by (simp add: all_flushed_def)
      then have "flushed_byte \<sigma> ?os j = Some u"
        using u by (auto simp: write_fn_def flushed_byte_def bind_eq_Some_conv split: if_splits)
      with c show "content \<sigma> ?os j = Some u \<and> (isByteFlushed ?os j \<longrightarrow> flushed_byte \<sigma> ?os j = Some u)" by simp
    qed
    ultimately show "succeeds (extendUpdates os1 off v) (\<lambda>os'. os_ok os' \<and> os_size os' = os_size os
    \<and> (\<forall>\<sigma> M. represents \<sigma> os M \<longrightarrow> represents \<sigma> os' (write_fn \<sigma> (off, v) M)))"
      using ext sz by simp
  qed
  then show ?thesis using off(2) zext by (simp add: write8_sym_def fastRangeCheckOffset_def)
qed

end
