(* ===== verification/ObjectMemory.thy ===== *)
theory ObjectMemory
  imports ObjectStateCorrect
begin

unbundle bit_operations_syntax

text \<open>
  Values of several bytes in a memory object: \<open>ObjectState::read\<close> and \<open>ObjectState::write\<close> at constant and at
  symbolic offsets, in both byte orders, against plain loads and stores on a byte memory.
\<close>

section \<open>Loads and stores on a byte memory\<close>

definition byte_of :: "nat \<Rightarrow> nat \<Rightarrow> nat" where
  "byte_of x i = x div 2 ^ (8 * i) mod 2 ^ 8"

definition store_at :: "(nat \<Rightarrow> nat) \<Rightarrow> nat option \<Rightarrow> nat \<Rightarrow> (nat \<rightharpoonup> nat) \<Rightarrow> (nat \<rightharpoonup> nat)" where
  "store_at addr x n M = fold (\<lambda>i M. M(addr i := map_option (\<lambda>x. byte_of x i) x)) [0..<n] M"

definition load_at :: "(nat \<Rightarrow> nat) \<Rightarrow> nat \<Rightarrow> (nat \<rightharpoonup> nat) \<Rightarrow> nat option" where
  "load_at addr n M = (if \<forall>i<n. M (addr i) \<noteq> None then Some (le_value (\<lambda>i. the (M (addr i))) n) else None)"

lemma store_at_simps [simp]:
  "store_at addr x 0 M = M"
  "store_at addr x (Suc n) M = (store_at addr x n M)(addr n := map_option (\<lambda>x. byte_of x n) x)"
  by (simp_all add: store_at_def)

lemma store_at_other: "(\<And>i. i < n \<Longrightarrow> addr i \<noteq> j) \<Longrightarrow> store_at addr x n M j = M j"
  by (induction n) auto

lemma store_at_same:
  "inj_on addr {..<n} \<Longrightarrow> i < n \<Longrightarrow> store_at addr x n M (addr i) = map_option (\<lambda>x. byte_of x i) x"
  by (induction n) (auto simp: less_Suc_eq inj_on_def)

lemma le_value_bytes: "le_value (byte_of x) n = x mod 2 ^ (8 * n)"
proof (induction n)
  case (Suc n)
  have "x mod (2 ^ (8 * n) * 2 ^ 8) = 2 ^ (8 * n) * (x div 2 ^ (8 * n) mod 2 ^ 8) + x mod 2 ^ (8 * n)"
    by (rule mod_mult2_eq)
  moreover have "(2::nat) ^ (8 * Suc n) = 2 ^ (8 * n) * 2 ^ 8" "(256::nat) ^ n = 2 ^ (8 * n)"
    by (simp_all add: power_add power_mult)
  ultimately show ?case using Suc by (simp add: byte_of_def mult.commute)
qed simp

text \<open>Reading back what was stored gives the value, cut to the bytes stored.\<close>

lemma load_store_at: "inj_on addr {..<n} \<Longrightarrow> load_at addr n (store_at addr (Some x) n M) = Some (x mod 2 ^ (8 * n))"
proof -
  assume inj: "inj_on addr {..<n}"
  have b: "store_at addr (Some x) n M (addr i) = Some (byte_of x i)" if "i < n" for i
    using store_at_same [OF inj that, of "Some x" M] by simp
  have "le_value (\<lambda>i. the (store_at addr (Some x) n M (addr i))) m = le_value (byte_of x) m" if "m \<le> n" for m
    using that b by (induction m) auto
  then show ?thesis using b by (simp add: load_at_def le_value_bytes)
qed

lemma byteIndex_less: "i < n \<Longrightarrow> byteIndex le n i < n"
  by (auto simp: byteIndex_def)

lemma byteIndex_inj: "inj_on (\<lambda>i. off + byteIndex le n i) {..<n}"
  by (auto simp: inj_on_def byteIndex_def split: if_splits)

definition valid_width :: "nat \<Rightarrow> bool" where
  "valid_width w \<longleftrightarrow> w = 1 \<or> (0 < w \<and> w mod 8 = 0)"

definition numBytes :: "nat \<Rightarrow> nat" where
  "numBytes w = (w + 7) div 8"

lemma valid_width_cases:
  assumes "valid_width w"
  obtains (Bool) "w = 1" "numBytes w = 1" | (Bytes) n where "w = 8 * n" "numBytes w = n" "0 < n" "w div 8 = n" "w \<noteq> 1"
proof (cases "w = 1")
  case False
  with assms have "w = 8 * (w div 8)" "0 < w" by (auto simp: valid_width_def)
  then have "numBytes w = w div 8" by (simp add: numBytes_def)
  with that(2) [of "w div 8"] \<open>w = 8 * (w div 8)\<close> \<open>0 < w\<close> False show ?thesis by (metis div_greater_zero_iff gr_zeroI mult_is_0)
qed (use that in \<open>simp add: numBytes_def\<close>)

lemma represents_mono:
  assumes "represents \<sigma> os M" "\<And>j v. M' j = Some v \<Longrightarrow> M j = Some v"
  shows "represents \<sigma> os M'"
  using assms by (auto simp: represents_def)

section \<open>Writing at a constant offset\<close>

definition writes :: "ObjectState \<Rightarrow> (assignment \<Rightarrow> (nat \<rightharpoonup> nat) \<Rightarrow> (nat \<rightharpoonup> nat)) \<Rightarrow> ObjectState \<Rightarrow> bool" where
  "writes os W os' \<longleftrightarrow> os_ok os' \<and> os_size os' = os_size os
     \<and> (\<forall>\<sigma> M. wf_asg \<sigma> \<longrightarrow> represents \<sigma> os M \<longrightarrow> represents \<sigma> os' (W \<sigma> M))"

lemma writes_refl: "os_ok os \<Longrightarrow> writes os (\<lambda>\<sigma> M. M) os"
  by (simp add: writes_def)

lemma writesD: "writes os W os' \<Longrightarrow> os_ok os'" "writes os W os' \<Longrightarrow> os_size os' = os_size os"
  by (simp_all add: writes_def)

lemma writes_step:
  assumes "writes os W s" "writes s W' os'"
    and "\<And>\<sigma> M j v. wf_asg \<sigma> \<Longrightarrow> W'' \<sigma> M j = Some v \<Longrightarrow> W' \<sigma> (W \<sigma> M) j = Some v"
  shows "writes os W'' os'"
  unfolding writes_def
proof (intro conjI allI impI)
  fix \<sigma> M assume "wf_asg \<sigma>" "represents \<sigma> os M"
  with assms(1,2) have "represents \<sigma> os' (W' \<sigma> (W \<sigma> M))" by (simp add: writes_def)
  then show "represents \<sigma> os' (W'' \<sigma> M)" by (rule represents_mono) (rule assms(3) [OF \<open>wf_asg \<sigma>\<close>])
qed (use assms(1,2) in \<open>simp_all add: writes_def\<close>)

lemma write8_writes: "os_ok os \<Longrightarrow> i < os_size os \<Longrightarrow> succeeds (write8 os i v) (writes os (\<lambda>\<sigma> M. M(i \<mapsto> v mod 2 ^ 8)))"
  using write8_correct [of os i v] by (auto elim: succeeds_mono simp: writes_def)

lemma write8_expr_writes:
  "os_ok os \<Longrightarrow> i < os_size os \<Longrightarrow> wf_expr v \<Longrightarrow> getWidth v = 8 \<Longrightarrow>
   succeeds (write8_expr os i v) (writes os (\<lambda>\<sigma> M. M(i := eval \<sigma> v)))"
  using write8_expr_correct [of os i v] by (auto elim: succeeds_mono simp: writes_def)

lemma offset_in_object:
  assumes "os_ok os" "off + n \<le> os_size os" "i < n"
  shows "(off + byteIndex le n i) mod 2 ^ 32 = off + byteIndex le n i" "off + byteIndex le n i < os_size os"
proof -
  have "off + byteIndex le n i < os_size os" using assms(2) byteIndex_less [OF assms(3), of le] by simp
  moreover have "os_size os < 2 ^ 32" using os_okD(1) [OF assms(1)] by (simp add: shape_ok_def)
  ultimately show "(off + byteIndex le n i) mod 2 ^ 32 = off + byteIndex le n i" "off + byteIndex le n i < os_size os"
    by simp_all
qed

lemma writeBytes_writes:
  assumes ok: "os_ok os" and n: "off + n \<le> os_size os"
  shows "succeeds (writeBytes le n os off x) (writes os (\<lambda>\<sigma>. store_at (\<lambda>i. off + byteIndex le n i) (Some x) n))"
  unfolding writeBytes_def
proof (rule forEach_upt [where P = "\<lambda>k. writes os (\<lambda>\<sigma>. store_at (\<lambda>i. off + byteIndex le n i) (Some x) k)"])
  show "writes os (\<lambda>\<sigma>. store_at (\<lambda>i. off + byteIndex le n i) (Some x) 0) os" using ok by (simp add: writes_def)
next
  fix k s assume k: "k < n" and s: "writes os (\<lambda>\<sigma>. store_at (\<lambda>i. off + byteIndex le n i) (Some x) k) s"
  note idx = offset_in_object [of s off n k le]
  have "succeeds (write8 s (off + byteIndex le n k) (byte_of x k)) (writes s (\<lambda>\<sigma> M. M(off + byteIndex le n k \<mapsto> byte_of x k mod 2 ^ 8)))"
    using idx k n writesD [OF s] by (intro write8_writes) auto
  then show "succeeds (write8 s ((off + byteIndex le n k) mod 2 ^ 32) (x div 2 ^ (8 * k) mod 2 ^ 8))
      (writes os (\<lambda>\<sigma>. store_at (\<lambda>i. off + byteIndex le n i) (Some x) (Suc k)))"
    unfolding idx(1) [OF writesD(1) [OF s] _ k, unfolded writesD(2) [OF s], OF n] byte_of_def
    by (rule succeeds_mono) (erule writes_step [OF s], simp add: byte_of_def split: if_splits)
qed simp

lemma byte_extract:
  assumes "wf_expr v" "getWidth v = 8 * n" "i < n"
  shows "succeeds (ExtractExpr_create v (8 * i) 8) (\<lambda>b. wf_expr b \<and> getWidth b = 8
    \<and> (\<forall>\<sigma> x. wf_asg \<sigma> \<longrightarrow> eval \<sigma> v = Some x \<longrightarrow> eval \<sigma> b = Some (byte_of x i)))"
proof -
  have "simplifies (ExtractExpr_create v (8 * i) 8) (ExtractExpr v (8 * i) 8)"
    using assms by (intro ExtractExpr_create_simplifies) auto
  then show ?thesis
    unfolding simplifies_def by (rule succeeds_mono) (auto simp: refines_def bv_extract_def byte_of_def)
qed

lemma bool_byte:
  assumes "wf_expr v" "getWidth v = 1"
  shows "succeeds (ZExtExpr_create v 8) (\<lambda>b. wf_expr b \<and> getWidth b = 8
    \<and> (\<forall>\<sigma> x. wf_asg \<sigma> \<longrightarrow> eval \<sigma> v = Some x \<longrightarrow> eval \<sigma> b = Some (byte_of x 0)))"
proof -
  have "simplifies (CastExpr_create ZExt v 8) (CastExpr ZExt v 8)"
    using assms by (intro CastExpr_create_extends) auto
  moreover have "x mod 256 = x" if "wf_asg \<sigma>" "eval \<sigma> v = Some x" for \<sigma> x
    using eval_less(1) [OF assms(1) that] assms(2) by simp
  ultimately show ?thesis
    unfolding simplifies_def CastExpr_create.simps
    by (elim succeeds_mono) (auto simp: refines_def byte_of_def)
qed

definition store_value :: "bool \<Rightarrow> nat \<Rightarrow> expr \<Rightarrow> assignment \<Rightarrow> (nat \<rightharpoonup> nat) \<Rightarrow> (nat \<rightharpoonup> nat)" where
  "store_value le off v \<sigma> =
     store_at (\<lambda>i. off + byteIndex le (numBytes (getWidth v)) i) (eval \<sigma> v) (numBytes (getWidth v))"

lemma byteIndex_1 [simp]: "byteIndex le (Suc 0) 0 = 0"
  by (simp add: byteIndex_def)

lemma writeExpr_writes:
  assumes ok: "os_ok os" and v: "wf_expr v" "valid_width (getWidth v)" and n: "off + numBytes (getWidth v) \<le> os_size os"
  shows "succeeds (writeExpr le os off v) (writes os (store_value le off v))"
  using v(2)
proof (cases rule: valid_width_cases)
  case Bool
  have "succeeds (ZExtExpr_create v 8 \<bind> write8_expr os off) (writes os (store_value le off v))"
  proof (rule succeeds_bind [OF bool_byte [OF v(1) Bool(1)]])
    fix b assume b: "wf_expr b \<and> getWidth b = 8 \<and> (\<forall>\<sigma> x. wf_asg \<sigma> \<longrightarrow> eval \<sigma> v = Some x \<longrightarrow> eval \<sigma> b = Some (byte_of x 0))"
    then have "succeeds (write8_expr os off b) (writes os (\<lambda>\<sigma> M. M(off := eval \<sigma> b)))"
      using ok n Bool by (intro write8_expr_writes) auto
    then show "succeeds (write8_expr os off b) (writes os (store_value le off v))"
      by (rule succeeds_mono)
        (erule writes_step [OF writes_refl [OF ok]], use b Bool in \<open>auto simp: store_value_def split: if_splits\<close>)
  qed
  then show ?thesis using Bool by (simp add: writeExpr_def)
next
  case (Bytes m)
  let ?addr = "\<lambda>i. off + byteIndex le m i"
  have "succeeds (forEach (\<lambda>i os. ExtractExpr_create v (8 * i) 8 \<bind>
      write8_expr os ((off + byteIndex le m i) mod 2 ^ 32)) [0..<m] os) (writes os (\<lambda>\<sigma>. store_at ?addr (eval \<sigma> v) m))"
  proof (rule forEach_upt [where P = "\<lambda>k. writes os (\<lambda>\<sigma>. store_at ?addr (eval \<sigma> v) k)"])
    show "writes os (\<lambda>\<sigma>. store_at ?addr (eval \<sigma> v) 0) os" using ok by (simp add: writes_def)
  next
    fix k s assume k: "k < m" and s: "writes os (\<lambda>\<sigma>. store_at ?addr (eval \<sigma> v) k) s"
    have m: "off + m \<le> os_size s" using n Bytes writesD [OF s] by simp
    note idx = offset_in_object [OF writesD(1) [OF s] m k, of le]
    show "succeeds (ExtractExpr_create v (8 * k) 8 \<bind> write8_expr s ((off + byteIndex le m k) mod 2 ^ 32))
        (writes os (\<lambda>\<sigma>. store_at ?addr (eval \<sigma> v) (Suc k)))"
    proof (rule succeeds_bind [OF byte_extract [OF v(1) Bytes(1) k]])
      fix b assume b: "wf_expr b \<and> getWidth b = 8 \<and> (\<forall>\<sigma> x. wf_asg \<sigma> \<longrightarrow> eval \<sigma> v = Some x \<longrightarrow> eval \<sigma> b = Some (byte_of x k))"
      then have "succeeds (write8_expr s (?addr k) b) (writes s (\<lambda>\<sigma> M. M(?addr k := eval \<sigma> b)))"
        using idx writesD(1) [OF s] by (intro write8_expr_writes) auto
      then show "succeeds (write8_expr s ((off + byteIndex le m k) mod 2 ^ 32) b)
          (writes os (\<lambda>\<sigma>. store_at ?addr (eval \<sigma> v) (Suc k)))"
        unfolding idx(1)
        by (rule succeeds_mono) (erule writes_step [OF s], use b in \<open>auto split: if_splits\<close>)
    qed
  qed simp
  then show ?thesis using Bytes by (simp add: writeExpr_def store_value_def [abs_def])
qed

lemma power_of_two_bytes:
  assumes "isPowerOfTwo (8 * n)" "8 * n \<le> 64" "0 < n"
  shows "n \<in> {1, 2, 4, 8}"
proof -
  have "n \<in> {1, 2, 3, 4, 5, 6, 7, 8}" using assms(2,3) by auto
  moreover have "\<not> isPowerOfTwo 24" "\<not> isPowerOfTwo 40" "\<not> isPowerOfTwo 48" "\<not> isPowerOfTwo 56"
    by (simp_all add: isPowerOfTwo_def)
  ultimately show ?thesis using assms(1) by auto
qed

lemma write_const_constant:
  assumes "valid_width w" "w \<le> 64" "isPowerOfTwo w" "c < 2 ^ w"
  shows "write_const le os off (ConstantExpr w c) =
    (if numBytes w = 1 then write8 os off c else writeBytes le (numBytes w) os off c)"
  using assms(1)
proof (cases rule: valid_width_cases)
  case (Bytes n)
  with assms power_of_two_bytes [of n] have "n \<in> {1, 2, 4, 8}" by simp
  with Bytes assms show ?thesis
    by (auto simp: write_const_def write16_def write32_def write64_def)
qed (use assms in \<open>simp add: write_const_def\<close>)

lemma write_const_writes:
  assumes ok: "os_ok os" and v: "wf_expr v" "valid_width (getWidth v)" and n: "off + numBytes (getWidth v) \<le> os_size os"
  shows "succeeds (write_const le os off v) (writes os (store_value le off v))"
proof (cases "\<exists>w c. v = ConstantExpr w c \<and> w \<le> 64 \<and> isPowerOfTwo w")
  case True
  then obtain w c where w: "v = ConstantExpr w c" "w \<le> 64" "isPowerOfTwo w" by auto
  note eq = write_const_constant [of w c le os off]
  show ?thesis
  proof (cases "numBytes w = 1")
    case True
    have lt: "off < os_size os" using n w True by simp
    show ?thesis
      using write8_writes [OF ok lt, of c] eq w v True
      by (auto elim!: succeeds_mono simp: writes_def store_value_def byte_of_def)
  next
    case False
    show ?thesis
      using writeBytes_writes [OF ok, of off "numBytes w" le c] eq w v n False by (simp add: store_value_def [abs_def])
  qed
next
  case False
  then have "write_const le os off v = writeExpr le os off v"
    by (auto simp: write_const_def split: option.split)
  then show ?thesis using writeExpr_writes [OF assms] by simp
qed

section \<open>Reading\<close>

definition gather :: "(nat \<Rightarrow> assignment \<Rightarrow> (nat \<rightharpoonup> nat) \<Rightarrow> nat option) \<Rightarrow> nat \<Rightarrow> assignment \<Rightarrow> (nat \<rightharpoonup> nat) \<Rightarrow> nat option" where
  "gather V n \<sigma> M = (if \<forall>i<n. V i \<sigma> M \<noteq> None then Some (le_value (\<lambda>i. the (V i \<sigma> M)) n) else None)"

lemma gather_Suc:
  assumes "gather V (Suc n) \<sigma> M = Some x"
  obtains b y where "V n \<sigma> M = Some b" "gather V n \<sigma> M = Some y" "x = b * 2 ^ (8 * n) + y"
proof -
  from assms have all: "\<forall>i<Suc n. V i \<sigma> M \<noteq> None" and x: "x = le_value (\<lambda>i. the (V i \<sigma> M)) (Suc n)"
    by (auto simp: gather_def split: if_splits)
  then obtain b where "V n \<sigma> M = Some b" by auto
  moreover have "gather V n \<sigma> M = Some (le_value (\<lambda>i. the (V i \<sigma> M)) n)" using all by (simp add: gather_def)
  moreover have "(256::nat) ^ n = 2 ^ (8 * n)" by (simp add: power_mult)
  ultimately show ?thesis using that x by simp
qed

lemma reads_trans:
  assumes "reads os w V (r, s, uid)" "reads s w' V' res"
  shows "reads os w' V' res"
  using assms unfolding reads_def by (cases res) (simp, blast)

lemma concat_byte:
  assumes r: "reads os (8 * n) (gather V n) (r, s, uid)" and b: "reads s 8 (V n) (byte, s', uid')"
  shows "succeeds (ConcatExpr_create byte r) (\<lambda>e. reads os (8 * Suc n) (gather V (Suc n)) (e, s', uid'))"
proof -
  have wf: "wf_expr byte" "wf_expr r" "getWidth r = 8 * n" "getWidth byte = 8" using r b by (auto simp: reads_def)
  then have "simplifies (ConcatExpr_create byte r) (ConcatExpr byte r)" by (intro ConcatExpr_create_simplifies)
  then show ?thesis
    unfolding simplifies_def
  proof (rule succeeds_mono)
    fix e assume e: "refines e (ConcatExpr byte r)"
    have "eval \<sigma> e = Some x" if \<sigma>: "wf_asg \<sigma>" "represents \<sigma> os M" "gather V (Suc n) \<sigma> M = Some x" for \<sigma> M x
    proof -
      obtain c y where c: "V n \<sigma> M = Some c" "gather V n \<sigma> M = Some y" "x = c * 2 ^ (8 * n) + y"
        by (rule gather_Suc [OF \<sigma>(3)])
      have "eval \<sigma> r = Some y" "represents \<sigma> s M" using r \<sigma>(1,2) c(2) by (auto simp: reads_def)
      moreover from this(2) have "eval \<sigma> byte = Some c" using b \<sigma>(1) c(1) by (auto simp: reads_def)
      ultimately show ?thesis using refines_eval [OF e \<sigma>(1)] wf(3) c(3) by (simp add: bv_concat_def)
    qed
    moreover have "wf_expr e" "getWidth e = 8 + 8 * n" using e wf by (auto simp: refines_def)
    moreover have "os_ok s'" "os_size s' = os_size os" "\<And>\<sigma> M. represents \<sigma> os M \<Longrightarrow> represents \<sigma> s' M"
      using r b by (auto simp: reads_def)
    ultimately show "reads os (8 * Suc n) (gather V (Suc n)) (e, s', uid')" by (simp add: reads_def)
  qed
qed

lemma readLoop_reads:
  assumes step: "\<And>i s u. i < n \<Longrightarrow> os_ok s \<Longrightarrow> os_size s = os_size os \<Longrightarrow> succeeds (rd i s u) (reads s 8 (V i))"
    and k: "0 < k" "k \<le> n" and r: "reads os (8 * k) (gather V k) (r, s, uid)"
  shows "succeeds (readLoop rd [k..<n] (Some r) s uid) (reads os (8 * n) (gather V n))"
  using k r
proof (induction "n - k" arbitrary: k r s uid)
  case (Suc m)
  then have lt: "k < n" by simp
  have s: "os_ok s" "os_size s = os_size os" using Suc.prems(3) by (auto simp: reads_def)
  show ?case
    unfolding upt_conv_Cons [OF lt] readLoop.simps
  proof (rule succeeds_bind [OF step [OF lt s]])
    fix p assume p: "reads s 8 (V k) p"
    obtain byte s' u' where peq: "p = (byte, s', u')" by (cases p)
    have "succeeds (ConcatExpr_create byte r \<bind> (\<lambda>r. readLoop rd [Suc k..<n] (Some r) s' u')) (reads os (8 * n) (gather V n))"
      by (rule succeeds_bind [OF concat_byte [OF Suc.prems(3) p [unfolded peq]]])
        (use Suc.hyps(1) [of "Suc k"] Suc.hyps(2) lt in simp)
    then show "succeeds (case p of (byte, os, uid) \<Rightarrow>
        (case Some r of None \<Rightarrow> Some byte | Some r \<Rightarrow> ConcatExpr_create byte r) \<bind>
        (\<lambda>r. readLoop rd [Suc k..<n] (Some r) os uid)) (reads os (8 * n) (gather V n))"
      by (simp add: peq)
  qed
qed simp

lemma readLoop_start:
  assumes step: "\<And>i s u. i < n \<Longrightarrow> os_ok s \<Longrightarrow> os_size s = os_size os \<Longrightarrow> succeeds (rd i s u) (reads s 8 (V i))"
    and n: "0 < n" and ok: "os_ok os"
  shows "succeeds (readLoop rd [0..<n] None os uid) (reads os (8 * n) (gather V n))"
  unfolding upt_conv_Cons [OF n] readLoop.simps
proof (rule succeeds_bind [OF step [OF n ok refl]])
  fix p assume p: "reads os 8 (V 0) p"
  obtain byte s u where peq: "p = (byte, s, u)" by (cases p)
  have "reads os (8 * Suc 0) (gather V (Suc 0)) (byte, s, u)"
    using p by (auto simp: peq reads_def gather_def)
  from readLoop_reads [OF step _ _ this] n
  show "succeeds (case p of (byte, os, uid) \<Rightarrow>
      (case None of None \<Rightarrow> Some byte | Some r \<Rightarrow> ConcatExpr_create byte r) \<bind>
      (\<lambda>r. readLoop rd [Suc 0..<n] (Some r) os uid)) (reads os (8 * n) (gather V n))"
    by (simp add: peq)
qed

text \<open>A boolean is the lowest bit of its byte.\<close>

lemma bool_read:
  assumes "reads os 8 V (b, s, uid)"
  shows "succeeds (ExtractExpr_create b 0 1) (\<lambda>e. reads os 1 (\<lambda>\<sigma> M. map_option (\<lambda>x. x mod 2) (V \<sigma> M)) (e, s, uid))"
proof -
  have wf: "wf_expr b" "getWidth b = 8" using assms by (auto simp: reads_def)
  then have "simplifies (ExtractExpr_create b 0 1) (ExtractExpr b 0 1)" by (intro ExtractExpr_create_simplifies) auto
  then show ?thesis
    unfolding simplifies_def
    by (rule succeeds_mono) (use assms in \<open>auto simp: reads_def refines_def bv_extract_def\<close>)
qed

definition load_value :: "bool \<Rightarrow> nat \<Rightarrow> nat \<Rightarrow> assignment \<Rightarrow> (nat \<rightharpoonup> nat) \<Rightarrow> nat option" where
  "load_value le off w \<sigma> M =
     map_option (\<lambda>x. x mod 2 ^ w) (load_at (\<lambda>i. off + byteIndex le (numBytes w) i) (numBytes w) M)"

lemma reads_mono: "reads os w V res \<Longrightarrow> (\<And>\<sigma> M v. wf_asg \<sigma> \<Longrightarrow> represents \<sigma> os M \<Longrightarrow> V' \<sigma> M = Some v \<Longrightarrow>
    eval \<sigma> (fst res) = Some v \<or> V \<sigma> M = Some v) \<Longrightarrow> reads os w V' res"
  unfolding reads_def by (cases res) (simp, blast)

lemma reads_mod:
  assumes "reads os w V res"
  shows "reads os w (\<lambda>\<sigma> M. map_option (\<lambda>x. x mod 2 ^ w) (V \<sigma> M)) res"
proof (rule reads_mono [OF assms])
  fix \<sigma> M v assume \<sigma>: "wf_asg \<sigma>" "represents \<sigma> os M" and "map_option (\<lambda>x. x mod 2 ^ w) (V \<sigma> M) = Some v"
  then obtain x where x: "V \<sigma> M = Some x" "v = x mod 2 ^ w" by auto
  have e: "eval \<sigma> (fst res) = Some x" "wf_expr (fst res)" "getWidth (fst res) = w"
    using assms \<sigma> x(1) by (auto simp: reads_def)
  then have "x < 2 ^ w" using eval_less(1) [OF e(2) \<sigma>(1) e(1)] by simp
  with e(1) x(2) show "eval \<sigma> (fst res) = Some v \<or> V \<sigma> M = Some v" by simp
qed

lemma gather_load: "gather (\<lambda>i \<sigma> M. M (addr i)) n \<sigma> M = load_at addr n M"
  by (simp add: load_at_def gather_def)

lemma load_at_1: "load_at addr (Suc 0) M = M (addr 0)"
  by (auto simp: load_at_def)

lemma read_const_reads:
  assumes ok: "os_ok os" and w: "valid_width w" and n: "off + numBytes w \<le> os_size os"
  shows "succeeds (read_const le os uid off w) (reads os w (load_value le off w))"
  using w
proof (cases rule: valid_width_cases)
  case Bool
  have lt: "off < os_size os" using n Bool by simp
  have "succeeds (read8 os uid off \<bind> (\<lambda>(b, os, uid). ExtractExpr_create b 0 1 \<bind> (\<lambda>e. Some (e, os, uid))))
      (reads os 1 (\<lambda>\<sigma> M. map_option (\<lambda>x. x mod 2) (M off)))"
  proof (rule succeeds_bind [OF read8_correct [OF ok lt]])
    fix p assume p: "reads os 8 (\<lambda>\<sigma> M. M off) p"
    obtain b s u where peq: "p = (b, s, u)" by (cases p)
    show "succeeds (case p of (b, os, uid) \<Rightarrow> ExtractExpr_create b 0 1 \<bind> (\<lambda>e. Some (e, os, uid)))
      (reads os 1 (\<lambda>\<sigma> M. map_option (\<lambda>x. x mod 2) (M off)))"
      using bool_read [OF p [unfolded peq]] by (auto simp: peq succeeds_bind_iff elim: succeeds_mono)
  qed
  then show ?thesis using Bool by (simp add: read_const_def load_value_def [abs_def] load_at_1)
next
  case (Bytes m)
  let ?addr = "\<lambda>i. off + byteIndex le m i"
  have "succeeds (readLoop (\<lambda>i os uid. read8 os uid ((off + byteIndex le m i) mod 2 ^ 32)) [0..<m] None os uid)
      (reads os (8 * m) (gather (\<lambda>i \<sigma> M. M (?addr i)) m))"
  proof (rule readLoop_start [OF _ Bytes(3) ok])
    fix i s u assume s: "i < m" "os_ok s" "os_size s = os_size os"
    then show "succeeds (read8 s u ((off + byteIndex le m i) mod 2 ^ 32)) (reads s 8 (\<lambda>\<sigma> M. M (?addr i)))"
      using offset_in_object [OF s(2) _ s(1), of off le] n Bytes by (simp add: read8_correct)
  qed
  then have "succeeds (read_const le os uid off w) (reads os w (gather (\<lambda>i \<sigma> M. M (?addr i)) m))"
    using Bytes by (simp add: read_const_def)
  then show ?thesis
    by (rule succeeds_mono) (drule reads_mod, use Bytes in \<open>simp add: load_value_def [abs_def] gather_load\<close>)
qed

section \<open>Symbolic offsets\<close>

text \<open>Byte \<open>i\<close> of a value at a symbolic offset; the address wraps at 32 bits as the expression does.\<close>

definition sym_addr :: "bool \<Rightarrow> nat \<Rightarrow> nat \<Rightarrow> nat \<Rightarrow> nat" where
  "sym_addr le n k i = (k + byteIndex le n i) mod 2 ^ 32"

lemma add_index:
  assumes "wf_expr off" "getWidth off = 32" "d < 2 ^ 32"
  shows "succeeds (AddExpr_create off (ConstantExpr 32 d)) (\<lambda>a. wf_expr a \<and> getWidth a = 32
    \<and> (\<forall>\<sigma> k. wf_asg \<sigma> \<longrightarrow> eval \<sigma> off = Some k \<longrightarrow> eval \<sigma> a = Some ((k + d) mod 2 ^ 32)))"
proof -
  have "simplifies (AddExpr_create off (ConstantExpr 32 d)) (BinaryExpr Add off (ConstantExpr 32 d))"
    using assms by (intro AddExpr_create_simplifies) auto
  then show ?thesis
    unfolding simplifies_def
    by (rule succeeds_mono) (use assms in \<open>auto simp: refines_def bv_add_def wrap_def nat_mod_distrib nat_add_distrib nat_power_eq\<close>)
qed

text \<open>The sum of the offset and a byte index never folds to a constant.\<close>

definition sym_offset :: "expr \<Rightarrow> nat \<Rightarrow> bool" where
  "sym_offset off n \<longleftrightarrow> (\<forall>d<n. \<forall>a. AddExpr_create off (ConstantExpr 32 d) = Some a \<longrightarrow> \<not> isConstantExpr a)"

definition store_value_sym :: "bool \<Rightarrow> expr \<Rightarrow> expr \<Rightarrow> assignment \<Rightarrow> (nat \<rightharpoonup> nat) \<Rightarrow> (nat \<rightharpoonup> nat)" where
  "store_value_sym le off v \<sigma> M = (case eval \<sigma> off of
     None \<Rightarrow> (\<lambda>_. None)
   | Some k \<Rightarrow> store_at (sym_addr le (numBytes (getWidth v)) k) (eval \<sigma> v) (numBytes (getWidth v)) M)"

lemma write8_sym_writes:
  "os_ok os \<Longrightarrow> wf_expr off \<Longrightarrow> \<not> isConstantExpr off \<Longrightarrow> getWidth off = 32 \<Longrightarrow> wf_expr v \<Longrightarrow> getWidth v = 8 \<Longrightarrow>
   succeeds (write8_sym os off v) (writes os (\<lambda>\<sigma>. write_fn \<sigma> (off, v)))"
  using write8_sym_correct [of os off v] by (auto elim: succeeds_mono simp: writes_def)

lemma write_sym_writes:
  assumes ok: "os_ok os" and off: "wf_expr off" "getWidth off = 32" "\<not> isConstantExpr off" "sym_offset off n"
    and v: "wf_expr v" "getWidth v = 8 * n" "0 < n" "8 * n < 2 ^ 32"
  shows "succeeds (write_sym le os off v) (writes os (store_value_sym le off v))"
proof -
  let ?W = "\<lambda>k \<sigma> M. case eval \<sigma> off of None \<Rightarrow> (\<lambda>_. None) | Some b \<Rightarrow> store_at (sym_addr le n b) (eval \<sigma> v) k M"
  have "succeeds (forEach (\<lambda>i os. AddExpr_create off (ConstantExpr 32 (byteIndex le n i)) \<bind> (\<lambda>a.
      ExtractExpr_create v (8 * i) 8 \<bind> write8_sym os a)) [0..<n] os) (writes os (?W n))"
  proof (rule forEach_upt [where P = "\<lambda>k. writes os (?W k)"])
    show "writes os (?W 0) os"
      using ok by (intro writes_step [OF writes_refl writes_refl]) (auto split: option.splits)
  next
    fix i s assume i: "i < n" and s: "writes os (?W i) s"
    have idx: "byteIndex le n i < n" using byteIndex_less [OF i] .
    show "succeeds (AddExpr_create off (ConstantExpr 32 (byteIndex le n i)) \<bind> (\<lambda>a.
      ExtractExpr_create v (8 * i) 8 \<bind> write8_sym s a)) (writes os (?W (Suc i)))"
    proof (rule succeedsE [OF add_index [OF off(1,2), of "byteIndex le n i"]])
      fix a assume aeq: "AddExpr_create off (ConstantExpr 32 (byteIndex le n i)) = Some a"
        and a: "wf_expr a \<and> getWidth a = 32 \<and>
          (\<forall>\<sigma> k. wf_asg \<sigma> \<longrightarrow> eval \<sigma> off = Some k \<longrightarrow> eval \<sigma> a = Some ((k + byteIndex le n i) mod 2 ^ 32))"
      have nc: "\<not> isConstantExpr a" using off(4) idx aeq by (auto simp: sym_offset_def)
      have "succeeds (ExtractExpr_create v (8 * i) 8 \<bind> write8_sym s a) (writes os (?W (Suc i)))"
      proof (rule succeeds_bind [OF byte_extract [OF v(1,2) i]])
        fix b assume b: "wf_expr b \<and> getWidth b = 8 \<and> (\<forall>\<sigma> x. wf_asg \<sigma> \<longrightarrow> eval \<sigma> v = Some x \<longrightarrow> eval \<sigma> b = Some (byte_of x i))"
        then have "succeeds (write8_sym s a b) (writes s (\<lambda>\<sigma>. write_fn \<sigma> (a, b)))"
          using a nc writesD(1) [OF s] by (intro write8_sym_writes) auto
        then show "succeeds (write8_sym s a b) (writes os (?W (Suc i)))"
          by (rule succeeds_mono) (erule writes_step [OF s],
              use a b in \<open>auto simp: write_fn_def sym_addr_def split: option.splits if_splits\<close>)
      qed
      then show ?thesis using aeq by simp
    qed (use idx v(4) in simp)
  qed simp
  moreover have nb: "numBytes (getWidth v) = n" using v(2) by (simp add: numBytes_def)
  moreover have "?W n = store_value_sym le off v" unfolding store_value_sym_def [abs_def] nb ..
  moreover have "dyn_cast_ConstantExpr off = None" using off(3) by (cases off) auto
  ultimately show ?thesis
    using off v by (simp add: write_sym_def ZExtExpr_create_def)
qed

definition load_value_sym :: "bool \<Rightarrow> nat \<Rightarrow> expr \<Rightarrow> nat \<Rightarrow> assignment \<Rightarrow> (nat \<rightharpoonup> nat) \<Rightarrow> nat option" where
  "load_value_sym le sz off w \<sigma> M = eval \<sigma> off \<bind> (\<lambda>k.
     if \<forall>i<numBytes w. sym_addr le (numBytes w) k i < sz then load_at (sym_addr le (numBytes w) k) (numBytes w) M else None)"

lemma read_sym_reads:
  assumes ok: "os_ok os" and off: "wf_expr off" "getWidth off = 32" "\<not> isConstantExpr off" "sym_offset off n"
    and w: "w = 8 * n" "0 < n" "8 * n < 2 ^ 32"
  shows "succeeds (read_sym le os uid off w) (reads os w (load_value_sym le (os_size os) off w))"
proof -
  let ?V = "\<lambda>i \<sigma> M. eval \<sigma> off \<bind> (\<lambda>k. if sym_addr le n k i < os_size os then M (sym_addr le n k i) else None)"
  have "succeeds (readLoop (\<lambda>i os uid. AddExpr_create off (ConstantExpr 32 (byteIndex le n i)) \<bind> read8_sym os uid)
      [0..<n] None os uid) (reads os (8 * n) (gather ?V n))"
  proof (rule readLoop_start [OF _ w(2) ok])
    fix i s u assume s: "i < n" "os_ok s" "os_size s = os_size os"
    have idx: "byteIndex le n i < n" using byteIndex_less [OF s(1)] .
    show "succeeds (AddExpr_create off (ConstantExpr 32 (byteIndex le n i)) \<bind> read8_sym s u) (reads s 8 (?V i))"
    proof (rule succeedsE [OF add_index [OF off(1,2), of "byteIndex le n i"]])
      fix a assume aeq: "AddExpr_create off (ConstantExpr 32 (byteIndex le n i)) = Some a"
        and a: "wf_expr a \<and> getWidth a = 32 \<and>
          (\<forall>\<sigma> k. wf_asg \<sigma> \<longrightarrow> eval \<sigma> off = Some k \<longrightarrow> eval \<sigma> a = Some ((k + byteIndex le n i) mod 2 ^ 32))"
      have nc: "\<not> isConstantExpr a" using off(4) idx aeq by (auto simp: sym_offset_def)
      have "succeeds (read8_sym s u a) (reads s 8 (byte_at (os_size s) a))"
        using a nc by (intro read8_sym_correct [OF s(2)]) auto
      then have "succeeds (read8_sym s u a) (reads s 8 (?V i))"
        by (rule succeeds_mono) (erule reads_mono,
            use a s in \<open>auto simp: byte_at_def sym_addr_def bind_eq_Some_conv split: if_splits\<close>)
      then show ?thesis using aeq by simp
    qed (use idx w in simp)
  qed
  moreover have "gather ?V n \<sigma> M = Some x" if x: "load_value_sym le (os_size os) off w \<sigma> M = Some x" for \<sigma> M x
  proof -
    have "numBytes w = n" using w by (simp add: numBytes_def)
    with x obtain k where k: "eval \<sigma> off = Some k" "\<forall>i<n. sym_addr le n k i < os_size os" "load_at (sym_addr le n k) n M = Some x"
      by (auto simp: load_value_sym_def bind_eq_Some_conv split: if_splits)
    have "le_value (\<lambda>i. the (?V i \<sigma> M)) m = le_value (\<lambda>i. the (M (sym_addr le n k i))) m" if "m \<le> n" for m
      using that k by (induction m) auto
    with k show ?thesis by (auto simp: gather_def load_at_def split: if_splits)
  qed
  ultimately show ?thesis
    using off w by (auto simp: read_sym_def ZExtExpr_create_def elim!: succeeds_mono reads_mono split: option.split)
qed

section \<open>Construction\<close>

lemma blank_ok:
  assumes "sz + 31 < 2 ^ 32" "\<And>a. root = Some a \<Longrightarrow> root_ok a"
  shows "os_ok (ObjectState_blank mo sz root)" "represents \<sigma> (ObjectState_blank mo sz root) (\<lambda>j. Some 0)"
  using assms
  by (auto simp: ObjectState_blank_def os_ok_def shape_ok_def represents_def content_def isByteConcrete_def
      isByteFlushed_def knownSymbolic_def isByteKnownSymbolic_def)

lemma makeSymbolic_loop:
  fixes step defines "step \<equiv> \<lambda>i os. markByteFlushed (setKnownSymbolic (markByteSymbolic os i) i None) i"
  assumes sh: "shape_ok os" and known: "knownSymbolics os = None" and k: "k \<le> os_size os"
  shows "let s = fold step [0..<k] os in shape_ok s \<and> os_size s = os_size os \<and> concreteStore s = concreteStore os
    \<and> os_root s = os_root os \<and> os_head s = os_head os \<and> (\<forall>j<os_size os. knownSymbolic s j = None)
    \<and> (\<forall>j<k. \<not> isByteConcrete s j \<and> isByteFlushed s j)"
  using k
proof (induction k)
  case 0
  then show ?case using sh known by (simp add: knownSymbolic_def)
next
  case (Suc k)
  let ?s = "fold step [0..<k] os"
  let ?s1 = "setKnownSymbolic (markByteSymbolic ?s k) k None"
  from Suc have IH: "shape_ok ?s" "os_size ?s = os_size os" "concreteStore ?s = concreteStore os" "os_root ?s = os_root os"
    "os_head ?s = os_head os" "\<forall>j<os_size os. knownSymbolic ?s j = None" "\<forall>j<k. \<not> isByteConcrete ?s j \<and> isByteFlushed ?s j"
    by (auto simp: Let_def)
  have fl: "isByteFlushed (markByteFlushed ?s1 k) j" if "j < Suc k" for j
    using isByteFlushed_marks(3,4) [of ?s1 k j] IH that Suc.prems by (cases "flushMask ?s1 = None") (auto simp: less_Suc_eq)
  have "fold step [0..<Suc k] os = markByteFlushed ?s1 k" by (simp add: step_def)
  then show ?case using IH Suc.prems fl by (auto simp: Let_def less_Suc_eq)
qed

lemma makeSymbolic_correct:
  assumes sz: "sz + 31 < 2 ^ 32" and a: "root_ok a"
  shows "succeeds (makeSymbolic (ObjectState_blank mo sz (Some a)))
    (\<lambda>os. os_ok os \<and> os_size os = sz \<and> (\<forall>\<sigma>. represents \<sigma> os (\<lambda>j. Some (arr_init \<sigma> a j))))"
proof -
  let ?os = "ObjectState_blank mo sz (Some a)"
  let ?s = "fold (\<lambda>i os. markByteFlushed (setKnownSymbolic (markByteSymbolic os i) i None) i) [0..<sz] ?os"
  have f: "os_size ?os = sz" "os_root ?os = Some a" "os_head ?os = NoUpdate" "concreteStore ?os = replicate sz 0"
    "knownSymbolics ?os = None" by (simp_all add: ObjectState_blank_def)
  have "shape_ok ?os" using blank_ok(1) [OF sz] a os_okD(1) by blast
  from makeSymbolic_loop [OF this f(5), of sz]
  have s: "shape_ok ?s" "os_size ?s = sz" "concreteStore ?s = replicate sz 0" "os_root ?s = Some a" "os_head ?s = NoUpdate"
    "\<forall>j < sz. knownSymbolic ?s j = None" "\<forall>j < sz. \<not> isByteConcrete ?s j \<and> isByteFlushed ?s j"
    by (auto simp: Let_def f)
  have "os_ok ?s" using s a by (auto simp: os_ok_def)
  moreover have "represents \<sigma> ?s (\<lambda>j. Some (arr_init \<sigma> a j))" for \<sigma>
    using s by (simp add: represents_def content_def flushed_byte_def root_byte_def)
  ultimately show ?thesis using s(2) f by (simp add: makeSymbolic_def)
qed

lemma copy_correct:
  assumes ok: "os_ok os" and ro: "\<not> readOnly os"
  shows "succeeds (ObjectState_copy os) (\<lambda>os'. os_ok os' \<and> os_size os' = os_size os \<and> copyOnWriteOwner os' = 0
    \<and> (\<forall>\<sigma> M. represents \<sigma> os M \<longrightarrow> represents \<sigma> os' M))"
proof -
  define os' where "os' = os\<lparr>copyOnWriteOwner := 0,
        concreteMask := map_option (\<lambda>m. BitArray_copy m (os_size os)) (concreteMask os),
        flushMask := map_option (\<lambda>m. BitArray_copy m (os_size os)) (flushMask os),
        knownSymbolics := map_option (take (os_size os)) (knownSymbolics os),
        concreteStore := take (os_size os) (concreteStore os)\<rparr>"
  note d = os_okD(1) [OF ok, unfolded shape_ok_def]
  have q: "isByteConcrete os' j = isByteConcrete os j" "isByteFlushed os' j = isByteFlushed os j"
    "knownSymbolic os' j = knownSymbolic os j" if "j < os_size os" for j
    using d that by (auto simp: os'_def isByteConcrete_def isByteFlushed_def knownSymbolic_def split: option.split)
  have f: "os_size os' = os_size os" "os_root os' = os_root os" "os_head os' = os_head os" "concreteStore os' = concreteStore os"
    "copyOnWriteOwner os' = 0" using d by (auto simp: os'_def)
  have "shape_ok os'" using d by (auto simp: os'_def shape_ok_def BitArray_copy_holds)
  then have "os_ok os'" using ok q f by (auto simp: os_ok_def isByteKnownSymbolic_def)
  moreover have "represents \<sigma> os' M" if M: "represents \<sigma> os M" for \<sigma> M
    unfolding represents_def
  proof (intro allI impI)
    fix j v assume j: "j < os_size os'" and v: "M j = Some v"
    have "content \<sigma> os' j = content \<sigma> os j" using q f j by (intro content_cong) auto
    then show "content \<sigma> os' j = Some v \<and> (isByteFlushed os' j \<longrightarrow> flushed_byte \<sigma> os' j = Some v)"
      using representsD [OF M _ v] q f j flushed_byte_cong [OF f(2,3)] by simp
  qed
  moreover have "ObjectState_copy os = Some os'" using ro by (simp add: ObjectState_copy_def os'_def)
  ultimately show ?thesis using f by simp
qed

lemma initialize_ok:
  assumes "os_ok os"
  shows "os_ok (initializeToZero os) \<and> represents \<sigma> (initializeToZero os) (\<lambda>j. Some 0)"
    "os_ok (initializeToRandom os) \<and> represents \<sigma> (initializeToRandom os) (\<lambda>j. Some 0xAB)"
  using os_okD(1,3,4) [OF assms]
  by (auto simp: initializeToZero_def initializeToRandom_def makeConcrete_def os_ok_def shape_ok_def represents_def
      content_def isByteConcrete_def isByteFlushed_def knownSymbolic_def)

section \<open>Properties of memory objects\<close>

lemma represents_empty: "represents \<sigma> os (\<lambda>_. None)"
  by (simp add: represents_def)

lemma numBytes_covers: "valid_width w \<Longrightarrow> w \<le> 8 * numBytes w"
  by (auto simp: numBytes_def)

lemma load_store_value:
  assumes "wf_expr v" "valid_width (getWidth v)" "wf_asg \<sigma>" "eval \<sigma> v = Some x"
  shows "load_value le off (getWidth v) \<sigma> (store_value le off v \<sigma> M) = Some x"
proof -
  have "x < 2 ^ getWidth v" using eval_less(1) [OF assms(1,3,4)] .
  moreover from this have "x < 2 ^ (8 * numBytes (getWidth v))"
    using power_increasing [OF numBytes_covers [OF assms(2)], of "2::nat"] by linarith
  ultimately show ?thesis
    using assms(4) by (simp add: load_value_def store_value_def load_store_at [OF byteIndex_inj])
qed

lemma store_value_other:
  "\<not> (off \<le> j \<and> j < off + numBytes (getWidth v)) \<Longrightarrow> store_value le off v \<sigma> M j = M j"
  unfolding store_value_def by (rule store_at_other) (auto dest: byteIndex_less [of _ _ le])

text \<open>An object of four bytes, for concrete instances.\<close>

definition ex_object :: ObjectState where
  "ex_object = ObjectState_blank None 4 None"

definition ex_value :: expr where
  "ex_value = ConcatExpr (ex_read 1) (ex_read 0)"

lemma ex_object_ok: "os_ok ex_object" "os_size ex_object = 4"
proof -
  show "os_ok ex_object" unfolding ex_object_def by (rule blank_ok) auto
  show "os_size ex_object = 4" by (simp add: ex_object_def ObjectState_blank_def)
qed

lemma ex_value_ok: "wf_expr ex_value" "getWidth ex_value = 16" "valid_width 16" "numBytes 16 = 2"
  by (simp_all add: ex_value_def valid_width_def numBytes_def)

lemma ex_value_eval: "eval (\<lambda>a i. (i + 1) mod 2 ^ arr_range a) ex_value = Some 513" "wf_asg (\<lambda>a i. (i + 1) mod 2 ^ arr_range a)"
  by (simp_all add: ex_value_def bv_concat_def wf_asg_def)

text \<open>C25: \<open>ObjectState::write\<close> at a constant offset within the object returns, keeps the cache invariants and
  stores the bytes of the value in the byte order of the target; every other byte of the object keeps
  its value, under every assignment.\<close>

theorem ObjectState_write_refines:
  assumes "os_ok os" "wf_expr v" "valid_width (getWidth v)" "off + numBytes (getWidth v) \<le> os_size os"
  shows "\<exists>os'. write_const le os off v = Some os' \<and> os_ok os' \<and> os_size os' = os_size os \<and>
    (\<forall>\<sigma> M. wf_asg \<sigma> \<longrightarrow> represents \<sigma> os M \<longrightarrow> represents \<sigma> os' (store_value le off v \<sigma> M)) \<and>
    (\<forall>\<sigma> M j. \<not> (off \<le> j \<and> j < off + numBytes (getWidth v)) \<longrightarrow> store_value le off v \<sigma> M j = M j)"
  using write_const_writes [OF assms, of le] store_value_other [of off _ v le]
  by (auto simp: succeeds_def writes_def)

theorem ObjectState_write_refines_witness: "\<exists>os'. write_const True ex_object 1 ex_value = Some os' \<and> os_ok os'"
  using ObjectState_write_refines [OF ex_object_ok(1) ex_value_ok(1), of 1 True] ex_object_ok(2) ex_value_ok by auto

text \<open>C26: \<open>ObjectState::read\<close> at a constant offset within the object returns an expression of the width asked for
  whose value is the value stored there, whichever of its bytes are concrete, cached as expressions
  or only in the update list; the caches it fills do not change what the object holds.\<close>

theorem ObjectState_read_refines:
  assumes "os_ok os" "valid_width w" "off + numBytes w \<le> os_size os"
  shows "\<exists>e os' uid'. read_const le os uid off w = Some (e, os', uid') \<and> os_ok os' \<and> os_size os' = os_size os
    \<and> wf_expr e \<and> getWidth e = w \<and>
    (\<forall>\<sigma> M. represents \<sigma> os M \<longrightarrow> represents \<sigma> os' M \<and>
      (\<forall>x. wf_asg \<sigma> \<longrightarrow> load_value le off w \<sigma> M = Some x \<longrightarrow> eval \<sigma> e = Some x))"
  using read_const_reads [OF assms, of le uid] by (auto simp: succeeds_def reads_def)

theorem ObjectState_read_refines_witness:
  "\<exists>e os' uid'. read_const True ex_object 7 2 16 = Some (e, os', uid') \<and> getWidth e = 16"
  using ObjectState_read_refines [OF ex_object_ok(1) ex_value_ok(3), of 2 True 7] ex_object_ok(2) ex_value_ok(4) by auto

text \<open>C24: reading what was just written gives back the value, for every width that is a multiple of eight
  or a boolean, in both byte orders.\<close>

theorem ObjectState_write_read:
  assumes "os_ok os" "wf_expr v" "valid_width (getWidth v)" "off + numBytes (getWidth v) \<le> os_size os"
  shows "\<exists>os' e os'' uid'. write_const le os off v = Some os' \<and> read_const le os' uid off (getWidth v) = Some (e, os'', uid')
    \<and> getWidth e = getWidth v \<and> (\<forall>\<sigma> x. wf_asg \<sigma> \<longrightarrow> eval \<sigma> v = Some x \<longrightarrow> eval \<sigma> e = Some x)"
proof -
  obtain os' where os': "write_const le os off v = Some os'" "writes os (store_value le off v) os'"
    by (rule succeedsE [OF write_const_writes [OF assms]])
  then have ok': "os_ok os'" and n': "off + numBytes (getWidth v) \<le> os_size os'" using assms(4) by (auto simp: writes_def)
  obtain p where p: "read_const le os' uid off (getWidth v) = Some p" "reads os' (getWidth v) (load_value le off (getWidth v)) p"
    by (rule succeedsE [OF read_const_reads [OF ok' assms(3) n']])
  obtain e os'' uid' where peq: "p = (e, os'', uid')" by (cases p)
  have "eval \<sigma> e = Some x" if \<sigma>: "wf_asg \<sigma>" "eval \<sigma> v = Some x" for \<sigma> x
  proof -
    have "represents \<sigma> os' (store_value le off v \<sigma> (\<lambda>_. None))"
      using os'(2) \<sigma>(1) represents_empty [of \<sigma> os] by (simp add: writes_def)
    then show ?thesis
      using p(2) \<sigma>(1) load_store_value [OF assms(2,3) \<sigma>] by (auto simp: peq reads_def)
  qed
  then show ?thesis using os'(1) p peq by (auto simp: reads_def)
qed

theorem ObjectState_write_read_witness:
  "\<exists>os' e os'' uid'. write_const False ex_object 1 ex_value = Some os' \<and> read_const False os' 0 1 16 = Some (e, os'', uid')
    \<and> eval (\<lambda>a i. (i + 1) mod 2 ^ arr_range a) e = Some 513"
  using ObjectState_write_read [OF ex_object_ok(1) ex_value_ok(1), of 1 False 0] ex_object_ok(2) ex_value_ok ex_value_eval
  by force


definition ex_offset :: expr where
  "ex_offset = ConcatExpr (ex_read 3) (ConcatExpr (ex_read 2) ex_value)"

lemma ex_offset_ok: "wf_expr ex_offset" "getWidth ex_offset = 32" "\<not> isConstantExpr ex_offset" "sym_offset ex_offset 2"
proof -
  show "wf_expr ex_offset" "getWidth ex_offset = 32" "\<not> isConstantExpr ex_offset"
    by (simp_all add: ex_offset_def ex_value_def)
  show "sym_offset ex_offset 2"
    by (auto simp: sym_offset_def ex_offset_def ex_value_def less_2_cases_iff AddExpr_create.simps AddExpr_createPartial_def
        AddExpr_createPartialR.simps constant_on_left_def split: if_splits)
qed


text \<open>The constructors establish the invariants: a new object holds zeros, an object over a symbolic array
  holds the bytes of the array, a copy holds what the original holds and has no owner.\<close>

theorem ObjectState_constructors:
  assumes "mo_size mo + 31 < 2 ^ 32" "root_ok a" "os_ok os" "\<not> readOnly os"
  shows "(\<exists>s uid'. ObjectState_new useConst mo uid = Some (s, uid') \<and> os_ok s \<and> os_size s = mo_size mo \<and>
      (\<forall>\<sigma>. represents \<sigma> s (\<lambda>_. Some 0))) \<and>
    (\<exists>s. ObjectState_new_array mo a = Some s \<and> os_ok s \<and> os_size s = mo_size mo \<and>
      (\<forall>\<sigma>. represents \<sigma> s (\<lambda>j. Some (arr_init \<sigma> a j)))) \<and>
    (\<exists>s. ObjectState_copy os = Some s \<and> os_ok s \<and> copyOnWriteOwner s = 0 \<and>
      (\<forall>\<sigma> M. represents \<sigma> os M \<longrightarrow> represents \<sigma> s M)) \<and>
    os_ok (initializeToZero os) \<and> (\<forall>\<sigma>. represents \<sigma> (initializeToZero os) (\<lambda>_. Some 0))"
proof -
  have "\<exists>s uid'. ObjectState_new useConst mo uid = Some (s, uid') \<and> os_ok s \<and> os_size s = mo_size mo \<and>
      (\<forall>\<sigma>. represents \<sigma> s (\<lambda>_. Some 0))"
  proof (cases useConst)
    case True
    then show ?thesis using blank_ok [OF assms(1), of None] by (simp add: ObjectState_new_def ObjectState_blank_def)
  next
    case False
    let ?t = "\<lparr>arr_addr = uid + 1, arr_name = ''tmp_arr'' @ utostr (uid + 1), arr_size = mo_size mo, arr_domain = 32,
      arr_range = 8, arr_constantValues = []\<rparr>"
    have t: "CreateArray (uid + 1) (''tmp_arr'' @ utostr (uid + 1)) (mo_size mo) [] = Some ?t" "root_ok ?t"
      by (simp_all add: CreateArray_def root_ok_def wf_array_def)
    then have "ObjectState_new useConst mo uid = Some (ObjectState_blank (Some mo) (mo_size mo) (Some ?t), uid + 1)"
      using False by (simp add: ObjectState_new_def)
    moreover have "os_size (ObjectState_blank (Some mo) (mo_size mo) (Some ?t)) = mo_size mo" by (simp add: ObjectState_blank_def)
    ultimately show ?thesis using blank_ok [OF assms(1), of "Some ?t"] t(2) by blast
  qed
  then show ?thesis
    using makeSymbolic_correct [OF assms(1,2), of "Some mo"] copy_correct [OF assms(3,4)] initialize_ok(1) [OF assms(3)]
    by (auto simp: succeeds_def ObjectState_new_array_def)
qed

theorem ObjectState_constructors_witness:
  "\<exists>s. ObjectState_new_array \<lparr>mo_id = 1, mo_address = 4096, mo_size = 4, mo_isUserSpecified = False, mo_symsize = None\<rparr> ex_array = Some s \<and> os_ok s"
proof -
  have "\<not> readOnly ex_object" by (simp add: ex_object_def ObjectState_blank_def)
  moreover have "root_ok ex_array" by (simp add: root_ok_def)
  ultimately show ?thesis
    using ObjectState_constructors [of "\<lparr>mo_id = 1, mo_address = 4096, mo_size = 4, mo_isUserSpecified = False, mo_symsize = None\<rparr>" ex_array ex_object True 0]
      ex_object_ok(1) by auto
qed

end
