(* ===== verification/AddressSpace.thy ===== *)
theory AddressSpace
  imports ObjectMemory ImmutableMap
begin

text \<open>
  \<^verbatim>\<open>lib/Core/AddressSpace.h\<close> and \<^verbatim>\<open>lib/Core/AddressSpace.cpp\<close>, less the resolution of pointers: the map from
  memory objects to their states that every execution state owns. The states are shared between
  address spaces after a fork and copied when one of them writes, so they live in a heap: an address
  space holds references. The maps are ordered by the address of the memory object
  (\<open>MemoryObjectLT\<close>). \<open>None\<close> is a failed assertion or a dangling reference.
\<close>

section \<open>The model\<close>

record os_heap =
  cells :: "nat \<Rightarrow> ObjectState option"
  fresh :: nat

type_synonym binding = "MemoryObject \<times> nat"

record AddressSpace =
  cowKey :: nat
  objects :: "binding itree"

definition as_key :: "binding \<Rightarrow> nat" where
  "as_key b = mo_address (fst b)"

definition AddressSpace_new :: AddressSpace where
  "AddressSpace_new = \<lparr>cowKey = 1, objects = Terminator\<rparr>"

text \<open>The copy constructor advances the counter of the space it copies, a 32-bit number, and takes it
  over; the first component is the space that was copied.\<close>

definition AddressSpace_copy :: "AddressSpace \<Rightarrow> AddressSpace \<times> AddressSpace" where
  "AddressSpace_copy b =
     (let b = b\<lparr>cowKey := (cowKey b + 1) mod 2 ^ 32\<rparr> in (b, \<lparr>cowKey = cowKey b, objects = objects b\<rparr>))"

definition bindObject :: "AddressSpace \<Rightarrow> os_heap \<Rightarrow> MemoryObject \<Rightarrow> nat \<Rightarrow> (AddressSpace \<times> os_heap) option" where
  "bindObject as h mo r =
     cells h r \<bind> (\<lambda>os.
     if copyOnWriteOwner os \<noteq> 0 then None
     else Some (as\<lparr>objects := tree_replace as_key (mo, r) (objects as)\<rparr>,
                h\<lparr>cells := (cells h)(r \<mapsto> os\<lparr>copyOnWriteOwner := cowKey as\<rparr>)\<rparr>))"

definition unbindObject :: "AddressSpace \<Rightarrow> MemoryObject \<Rightarrow> AddressSpace" where
  "unbindObject as mo = as\<lparr>objects := tree_remove as_key (mo_address mo) (objects as)\<rparr>"

definition findObject :: "AddressSpace \<Rightarrow> MemoryObject \<Rightarrow> nat option" where
  "findObject as mo = map_option snd (tree_lookup as_key (mo_address mo) (objects as))"

definition getWriteable :: "AddressSpace \<Rightarrow> os_heap \<Rightarrow> MemoryObject \<Rightarrow> nat \<Rightarrow> (nat \<times> AddressSpace \<times> os_heap) option" where
  "getWriteable as h mo r =
     cells h r \<bind> (\<lambda>os.
     if readOnly os then None
     else if cowKey as = copyOnWriteOwner os then Some (r, as, h)
     else ObjectState_copy os \<bind> (\<lambda>newObjectState.
       let r' = fresh h in
       Some (r', as\<lparr>objects := tree_replace as_key (mo, r') (objects as)\<rparr>,
             h\<lparr>cells := (cells h)(r' \<mapsto> newObjectState\<lparr>copyOnWriteOwner := cowKey as\<rparr>), fresh := r' + 1\<rparr>)))"

subsection \<open>Passing memory to external code\<close>

text \<open>The memory of the process, byte by byte.\<close>

type_synonym raw_memory = "nat \<Rightarrow> nat"

definition copyOutObject :: "os_heap \<Rightarrow> binding \<Rightarrow> raw_memory \<Rightarrow> raw_memory option" where
  "copyOutObject h b mem =
     (case b of (mo, r) \<Rightarrow>
        if mo_isUserSpecified mo then Some mem
        else cells h r \<bind> (\<lambda>os. Some (
          if readOnly os then mem
          else (\<lambda>a. if mo_address mo \<le> a \<and> a < mo_address mo + mo_size mo then concreteStore os ! (a - mo_address mo) else mem a))))"

definition copyOutConcretes :: "AddressSpace \<Rightarrow> os_heap \<Rightarrow> raw_memory \<Rightarrow> raw_memory option" where
  "copyOutConcretes as h mem =
     traverse (tree_size (objects as)) (tree_begin (objects as)) \<bind> (\<lambda>bs. forEach (copyOutObject h) bs mem)"

text \<open>Returns false if the memory of a read-only object was changed.\<close>

definition copyInConcrete :: "AddressSpace \<Rightarrow> os_heap \<Rightarrow> raw_memory \<Rightarrow> MemoryObject \<Rightarrow> nat \<Rightarrow> nat \<Rightarrow> (bool \<times> AddressSpace \<times> os_heap) option" where
  "copyInConcrete as h mem mo r src_address =
     cells h r \<bind> (\<lambda>os.
     let bytes = map mem [src_address..<src_address + mo_size mo] in
     if bytes = take (mo_size mo) (concreteStore os) then Some (True, as, h)
     else if readOnly os then Some (False, as, h)
     else getWriteable as h mo r \<bind> (\<lambda>(r', as, h).
       cells h r' \<bind> (\<lambda>wos.
       Some (True, as, h\<lparr>cells := (cells h)(r' \<mapsto> wos\<lparr>concreteStore := bytes @ drop (mo_size mo) (concreteStore wos)\<rparr>)\<rparr>))))"

text \<open>The loop goes over the map as it was at the start.\<close>

fun copyInAll :: "raw_memory \<Rightarrow> binding list \<Rightarrow> AddressSpace \<Rightarrow> os_heap \<Rightarrow> (bool \<times> AddressSpace \<times> os_heap) option" where
  "copyInAll mem [] as h = Some (True, as, h)"
| "copyInAll mem ((mo, r) # bs) as h =
     (if mo_isUserSpecified mo then copyInAll mem bs as h
      else copyInConcrete as h mem mo r (mo_address mo) \<bind> (\<lambda>(ok, as, h).
        if \<not> ok then Some (False, as, h) else copyInAll mem bs as h))"

definition copyInConcretes :: "AddressSpace \<Rightarrow> os_heap \<Rightarrow> raw_memory \<Rightarrow> (bool \<times> AddressSpace \<times> os_heap) option" where
  "copyInConcretes as h mem =
     traverse (tree_size (objects as)) (tree_begin (objects as)) \<bind> (\<lambda>bs. copyInAll mem bs as h)"

section \<open>Executions that share objects\<close>

text \<open>
  The address spaces of all execution states and the heap they share. A write goes through
  \<open>findObject\<close> and \<open>getWriteable\<close>, as in the engine, and changes the object in place without touching its owner.
\<close>

record world =
  spaces :: "AddressSpace list"
  heap :: os_heap

definition world_fork :: "world \<Rightarrow> nat \<Rightarrow> world" where
  "world_fork w i = (case AddressSpace_copy (spaces w ! i) of (b, c) \<Rightarrow> w\<lparr>spaces := (spaces w)[i := b] @ [c]\<rparr>)"

definition world_bind :: "world \<Rightarrow> nat \<Rightarrow> MemoryObject \<Rightarrow> ObjectState \<Rightarrow> world option" where
  "world_bind w i mo os =
     (let r = fresh (heap w); h = (heap w)\<lparr>cells := (cells (heap w))(r \<mapsto> os), fresh := r + 1\<rparr> in
      bindObject (spaces w ! i) h mo r \<bind> (\<lambda>(as, h). Some (w\<lparr>spaces := (spaces w)[i := as], heap := h\<rparr>)))"

definition world_unbind :: "world \<Rightarrow> nat \<Rightarrow> MemoryObject \<Rightarrow> world" where
  "world_unbind w i mo = w\<lparr>spaces := (spaces w)[i := unbindObject (spaces w ! i) mo]\<rparr>"

definition world_write :: "world \<Rightarrow> nat \<Rightarrow> MemoryObject \<Rightarrow> (ObjectState \<Rightarrow> ObjectState option) \<Rightarrow> world option" where
  "world_write w i mo f =
     findObject (spaces w ! i) mo \<bind> (\<lambda>r.
     getWriteable (spaces w ! i) (heap w) mo r \<bind> (\<lambda>(r', as, h).
     cells h r' \<bind> f \<bind> (\<lambda>os.
     Some (w\<lparr>spaces := (spaces w)[i := as], heap := h\<lparr>cells := (cells h)(r' \<mapsto> os)\<rparr>\<rparr>))))"

text \<open>The worlds that \<open>n\<close> forks can lead to.\<close>

inductive reachable :: "nat \<Rightarrow> world \<Rightarrow> bool" where
  reachable_start: "reachable 0 \<lparr>spaces = [AddressSpace_new], heap = \<lparr>cells = Map.empty, fresh = 0\<rparr>\<rparr>"
| reachable_fork: "reachable n w \<Longrightarrow> i < length (spaces w) \<Longrightarrow> reachable (Suc n) (world_fork w i)"
| reachable_bind: "reachable n w \<Longrightarrow> i < length (spaces w) \<Longrightarrow> world_bind w i mo os = Some w' \<Longrightarrow> reachable n w'"
| reachable_unbind: "reachable n w \<Longrightarrow> i < length (spaces w) \<Longrightarrow> reachable n (world_unbind w i mo)"
| reachable_write: "reachable n w \<Longrightarrow> i < length (spaces w) \<Longrightarrow> world_write w i mo f = Some w' \<Longrightarrow>
    (\<forall>os os'. f os = Some os' \<longrightarrow> copyOnWriteOwner os' = copyOnWriteOwner os) \<Longrightarrow> reachable n w'"

section \<open>Ownership\<close>

definition refs :: "AddressSpace \<Rightarrow> nat set" where
  "refs as = snd ` set (inorder (objects as))"

definition owner :: "os_heap \<Rightarrow> nat \<Rightarrow> nat" where
  "owner h r = copyOnWriteOwner (the (cells h r))"

text \<open>One address space: its key is at most \<open>k\<close>, it is a map without two objects on one state, and its
  states are owned by it or by an earlier key.\<close>

definition space_ok :: "nat \<Rightarrow> os_heap \<Rightarrow> AddressSpace \<Rightarrow> bool" where
  "space_ok k h as \<longleftrightarrow> tree_ok as_key (objects as) \<and> 1 \<le> cowKey as \<and> cowKey as \<le> k
     \<and> inj_on snd (set (inorder (objects as)))
     \<and> (\<forall>r\<in>refs as. r < fresh h \<and> cells h r \<noteq> None \<and> 1 \<le> owner h r \<and> owner h r \<le> cowKey as)"

text \<open>A state that two address spaces hold is owned by neither.\<close>

definition world_ok :: "nat \<Rightarrow> world \<Rightarrow> bool" where
  "world_ok n w \<longleftrightarrow> (\<forall>as\<in>set (spaces w). space_ok (n + 1) (heap w) as) \<and> (\<forall>r \<ge> fresh (heap w). cells (heap w) r = None)
     \<and> (\<forall>i j r. i < length (spaces w) \<longrightarrow> j < length (spaces w) \<longrightarrow> i \<noteq> j \<longrightarrow>
          r \<in> refs (spaces w ! i) \<longrightarrow> r \<in> refs (spaces w ! j) \<longrightarrow> owner (heap w) r < cowKey (spaces w ! i))"

lemma world_okD:
  assumes "world_ok n w" "i < length (spaces w)"
  shows "space_ok (n + 1) (heap w) (spaces w ! i)"
    "j < length (spaces w) \<Longrightarrow> i \<noteq> j \<Longrightarrow> r \<in> refs (spaces w ! i) \<Longrightarrow> r \<in> refs (spaces w ! j) \<Longrightarrow> owner (heap w) r < cowKey (spaces w ! i)"
  using assms by (auto simp: world_ok_def)

lemma refs_replace:
  assumes "tree_ok as_key (objects as)"
  shows "refs (as\<lparr>objects := tree_replace as_key (mo, r) (objects as)\<rparr>) \<subseteq> insert r (refs as)"
  using tree_store.set_replace [OF assms, of "(mo, r)"] by (auto simp: refs_def)

lemma refs_remove:
  assumes "tree_ok as_key (objects as)"
  shows "refs (as\<lparr>objects := tree_remove as_key a (objects as)\<rparr>) \<subseteq> refs as"
  using tree_store.set_remove [OF assms, of a] by (auto simp: refs_def)

lemma inj_replace:
  assumes "tree_ok as_key t" "inj_on snd (set (inorder t))" "r \<notin> snd ` set (inorder t)"
  shows "inj_on snd (set (inorder (tree_replace as_key (mo, r) t)))"
  unfolding tree_store.set_replace [OF assms(1)] using assms(2,3) by (auto simp: inj_on_def image_iff)

lemma inj_remove:
  assumes "tree_ok as_key t" "inj_on snd (set (inorder t))"
  shows "inj_on snd (set (inorder (tree_remove as_key a t)))"
  unfolding tree_store.set_remove [OF assms(1)] using assms(2) by (auto simp: inj_on_def)

text \<open>A space does not notice changes to states it does not hold, nor that the heap grows.\<close>

lemma space_ok_frame:
  assumes "space_ok k h as" "k \<le> k'" "fresh h \<le> fresh h'" "\<And>r. r \<in> refs as \<Longrightarrow> cells h' r \<noteq> None \<and> owner h' r = owner h r"
  shows "space_ok k' h' as"
  using assms by (fastforce simp: space_ok_def)

lemma world_ok_update:
  assumes w: "world_ok n w" "i < length (spaces w)"
    and as: "space_ok (n + 1) h as" "cowKey as = cowKey (spaces w ! i)"
    and h: "fresh (heap w) \<le> fresh h" "\<And>r. fresh h \<le> r \<Longrightarrow> cells h r = None"
      "\<And>j r. j < length (spaces w) \<Longrightarrow> j \<noteq> i \<Longrightarrow> r \<in> refs (spaces w ! j) \<Longrightarrow> cells h r \<noteq> None \<and> owner h r = owner (heap w) r"
    and new: "\<And>r. r \<in> refs as \<Longrightarrow> r \<in> refs (spaces w ! i) \<or> (\<forall>j < length (spaces w). j \<noteq> i \<longrightarrow> r \<notin> refs (spaces w ! j))"
  shows "world_ok n (w\<lparr>spaces := (spaces w)[i := as], heap := h\<rparr>)"
proof -
  have "space_ok (n + 1) h ((spaces w)[i := as] ! j)" if "j < length (spaces w)" for j
    using as(1) space_ok_frame [OF world_okD(1) [OF w(1) that] order_refl h(1)] h(3) [OF that] that
    by (cases "j = i") auto
  moreover have "owner h r < cowKey ((spaces w)[i := as] ! j)"
    if "j < length (spaces w)" "k < length (spaces w)" "j \<noteq> k" "r \<in> refs ((spaces w)[i := as] ! j)" "r \<in> refs ((spaces w)[i := as] ! k)" for j k r
    using that new [of r] h(3) [of j r] h(3) [of k r] as(2) world_okD(2) [OF w(1), of j k r] w(2)
    by (cases "j = i"; cases "k = i") auto
  ultimately show ?thesis using h(2) by (auto simp: world_ok_def all_set_conv_all_nth)
qed

lemma fork_ok:
  assumes w: "world_ok n w" "i < length (spaces w)" and n: "n + 2 < 2 ^ 32"
  shows "world_ok (Suc n) (world_fork w i)"
proof -
  define b where "b = (spaces w ! i)\<lparr>cowKey := cowKey (spaces w ! i) + 1\<rparr>"
  define c where "c = \<lparr>cowKey = cowKey (spaces w ! i) + 1, objects = objects (spaces w ! i)\<rparr>"
  note si = world_okD(1) [OF w]
  have "cowKey (spaces w ! i) \<le> n + 1" using si by (simp add: space_ok_def)
  with n have f: "world_fork w i = w\<lparr>spaces := (spaces w)[i := b] @ [c]\<rparr>"
    by (simp add: world_fork_def AddressSpace_copy_def b_def c_def)
  have refs: "refs b = refs (spaces w ! i)" "refs c = refs (spaces w ! i)" by (simp_all add: refs_def b_def c_def)
  have new: "space_ok (Suc n + 1) (heap w) b" "space_ok (Suc n + 1) (heap w) c"
    using si refs by (auto simp: space_ok_def b_def c_def)
  have old: "space_ok (Suc n + 1) (heap w) (spaces w ! j)" if "j < length (spaces w)" for j
    using space_ok_frame [OF world_okD(1) [OF w(1) that]] world_okD(1) [OF w(1) that] by (auto simp: space_ok_def)
  let ?sp = "(spaces w)[i := b] @ [c]"
  have at: "?sp ! j = (if j = i then b else if j < length (spaces w) then spaces w ! j else c)" if "j < length ?sp" for j
    using that w(2) by (auto simp: nth_append nth_list_update)
  have less: "owner (heap w) r < cowKey b" "owner (heap w) r < cowKey c" if "r \<in> refs (spaces w ! i)" for r
    using si that by (auto simp: space_ok_def b_def c_def less_Suc_eq_le)
  have "owner (heap w) r < cowKey (?sp ! j)"
    if j: "j < length ?sp" "k < length ?sp" "j \<noteq> k" and r: "r \<in> refs (?sp ! j)" "r \<in> refs (?sp ! k)" for j k r
    using j r at [OF j(1)] at [OF j(2)] less [of r] refs world_okD(2) [OF w(1), of j k r] world_okD(2) [OF w(1), of j i r] w(2)
    by (auto split: if_splits)
  moreover have "space_ok (Suc n + 1) (heap w) (?sp ! j)" if "j < length ?sp" for j
    using at [OF that] new old that by (auto split: if_splits)
  ultimately show ?thesis using w(1) unfolding f world_ok_def all_set_conv_all_nth by simp
qed

lemma unbind_ok:
  assumes w: "world_ok n w" "i < length (spaces w)"
  shows "world_ok n (world_unbind w i mo)"
proof -
  let ?as = "unbindObject (spaces w ! i) mo"
  note si = world_okD(1) [OF w]
  have sub: "refs ?as \<subseteq> refs (spaces w ! i)"
    using si by (simp add: unbindObject_def space_ok_def refs_remove)
  have "world_ok n (w\<lparr>spaces := (spaces w)[i := ?as], heap := heap w\<rparr>)"
  proof (rule world_ok_update [OF w])
    show "space_ok (n + 1) (heap w) ?as"
      using si sub tree_store.ok_remove inj_remove by (auto simp: unbindObject_def space_ok_def)
    show "cowKey ?as = cowKey (spaces w ! i)" by (simp add: unbindObject_def)
    show "cells (heap w) r \<noteq> None \<and> owner (heap w) r = owner (heap w) r"
      if "j < length (spaces w)" "j \<noteq> i" "r \<in> refs (spaces w ! j)" for j r
      using world_okD(1) [OF w(1) that(1)] that(3) by (simp add: space_ok_def)
    show "cells (heap w) r = None" if "fresh (heap w) \<le> r" for r using w(1) that by (simp add: world_ok_def)
  qed (use sub in auto)
  then show ?thesis by (simp add: world_unbind_def)
qed

text \<open>Binding a fresh state, and replacing a shared state by a copy.\<close>

lemma replace_space_ok:
  assumes "space_ok k h as" "fresh h \<le> r" "fresh h' = Suc r" "cells h' = (cells h)(r \<mapsto> os)" "copyOnWriteOwner os = cowKey as"
  shows "space_ok k h' (as\<lparr>objects := tree_replace as_key (mo, r) (objects as)\<rparr>)" (is "space_ok k h' ?as")
proof -
  have sub: "refs ?as \<subseteq> insert r (refs as)" using assms(1) by (simp add: space_ok_def refs_replace)
  have old: "r' < r \<and> cells h' r' = cells h r'" if "r' \<in> refs as" for r'
    using assms that by (force simp: space_ok_def)
  have "r' < fresh h' \<and> cells h' r' \<noteq> None \<and> 1 \<le> owner h' r' \<and> owner h' r' \<le> cowKey as" if "r' \<in> insert r (refs as)" for r'
    using that old [of r'] assms by (auto simp: space_ok_def owner_def)
  with sub have "\<forall>r'\<in>refs ?as. r' < fresh h' \<and> cells h' r' \<noteq> None \<and> 1 \<le> owner h' r' \<and> owner h' r' \<le> cowKey as" by blast
  moreover have "r \<notin> snd ` set (inorder (objects as))" using old by (force simp: refs_def)
  ultimately show ?thesis using assms(1) inj_replace tree_store.ok_replace by (auto simp: space_ok_def)
qed

lemma replace_world_ok:
  assumes w: "world_ok n w" "i < length (spaces w)" and os: "copyOnWriteOwner os = cowKey (spaces w ! i)"
    and h: "fresh h = Suc (fresh (heap w))" "cells h = (cells (heap w))(fresh (heap w) \<mapsto> os)"
  shows "world_ok n (w\<lparr>spaces := (spaces w)[i := (spaces w ! i)\<lparr>objects := tree_replace as_key (mo, fresh (heap w)) (objects (spaces w ! i))\<rparr>], heap := h\<rparr>)"
    (is "world_ok n (w\<lparr>spaces := (spaces w)[i := ?as], heap := h\<rparr>)")
proof (rule world_ok_update [OF w])
  note si = world_okD(1) [OF w]
  show "space_ok (n + 1) h ?as" by (rule replace_space_ok [OF si _ h os]) simp
  have old: "r < fresh (heap w)" if "j < length (spaces w)" "r \<in> refs (spaces w ! j)" for j r
    using world_okD(1) [OF w(1) that(1)] that(2) by (simp add: space_ok_def)
  show "cells h r \<noteq> None \<and> owner h r = owner (heap w) r"
    if "j < length (spaces w)" "j \<noteq> i" "r \<in> refs (spaces w ! j)" for j r
    using old [OF that(1,3)] world_okD(1) [OF w(1) that(1)] that(3) h by (auto simp: space_ok_def owner_def)
  show "r \<in> refs (spaces w ! i) \<or> (\<forall>j < length (spaces w). j \<noteq> i \<longrightarrow> r \<notin> refs (spaces w ! j))" if "r \<in> refs ?as" for r
  proof -
    have "refs ?as \<subseteq> insert (fresh (heap w)) (refs (spaces w ! i))" using si by (simp add: space_ok_def refs_replace)
    with that old show ?thesis by blast
  qed
  show "cells h r = None" if "fresh h \<le> r" for r using that w(1) h by (simp add: world_ok_def)
qed (use h in simp_all)

lemma bind_ok:
  assumes w: "world_ok n w" "i < length (spaces w)" and b: "world_bind w i mo os = Some w'"
  shows "world_ok n w'"
proof -
  let ?h = "\<lparr>cells = (cells (heap w))(fresh (heap w) \<mapsto> os\<lparr>copyOnWriteOwner := cowKey (spaces w ! i)\<rparr>), fresh = Suc (fresh (heap w))\<rparr>"
  have "w' = w\<lparr>spaces := (spaces w)[i := (spaces w ! i)\<lparr>objects := tree_replace as_key (mo, fresh (heap w)) (objects (spaces w ! i))\<rparr>], heap := ?h\<rparr>"
    using b by (auto simp: world_bind_def bindObject_def Let_def split: if_splits)
  with replace_world_ok [OF w, of "os\<lparr>copyOnWriteOwner := cowKey (spaces w ! i)\<rparr>" ?h mo] show ?thesis by simp
qed

lemma update_cell_ok:
  assumes w: "world_ok n w" and c: "cells (heap w) r = Some os" "copyOnWriteOwner os' = copyOnWriteOwner os"
  shows "world_ok n (w\<lparr>heap := (heap w)\<lparr>cells := (cells (heap w))(r \<mapsto> os')\<rparr>\<rparr>)"
proof -
  let ?h = "(heap w)\<lparr>cells := (cells (heap w))(r \<mapsto> os')\<rparr>"
  have own: "owner ?h r' = owner (heap w) r'" for r' using c by (simp add: owner_def)
  have "space_ok (n + 1) ?h as" if "as \<in> set (spaces w)" for as
    by (rule space_ok_frame [where h = "heap w" and k = "n + 1"]) (use w that own in \<open>auto simp: world_ok_def space_ok_def\<close>)
  moreover have "r < fresh (heap w)" using w c(1) by (metis not_le option.simps(3) world_ok_def)
  ultimately show ?thesis using w own by (simp add: world_ok_def)
qed

text \<open>What \<open>getWriteable\<close> gives: a state that no other address space holds.\<close>

lemma getWriteable_ok:
  assumes w: "world_ok n w" "i < length (spaces w)" and f: "findObject (spaces w ! i) mo = Some r"
    and g: "getWriteable (spaces w ! i) (heap w) mo r = Some (r', as, h)"
  shows "world_ok n (w\<lparr>spaces := (spaces w)[i := as], heap := h\<rparr>)"
    and "\<And>j. j < length (spaces w) \<Longrightarrow> j \<noteq> i \<Longrightarrow> r' \<notin> refs (spaces w ! j)"
    and "\<And>r0. r0 < fresh (heap w) \<Longrightarrow> cells h r0 = cells (heap w) r0"
    and "\<And>a. tree_lookup as_key a (objects as) =
      (if a = mo_address mo then map_option (\<lambda>b. (if r' = r then fst b else mo, r')) (tree_lookup as_key a (objects (spaces w ! i)))
       else tree_lookup as_key a (objects (spaces w ! i)))"
proof -
  let ?as = "spaces w ! i"
  note si = world_okD(1) [OF w]
  then have t: "tree_ok as_key (objects ?as)" by (simp add: space_ok_def)
  from f obtain m where m: "tree_lookup as_key (mo_address mo) (objects ?as) = Some (m, r)" by (auto simp: findObject_def)
  then have r: "r \<in> refs ?as" using tree_store.lookup_iff [OF t] by (force simp: refs_def)
  with si obtain os where os: "cells (heap w) r = Some os" "r < fresh (heap w)" by (auto simp: space_ok_def)
  have others: "r'' < fresh (heap w)" if "j < length (spaces w)" "r'' \<in> refs (spaces w ! j)" for j r''
    using world_okD(1) [OF w(1) that(1)] that(2) by (simp add: space_ok_def)
  have "world_ok n (w\<lparr>spaces := (spaces w)[i := as], heap := h\<rparr>)
    \<and> (\<forall>j < length (spaces w). j \<noteq> i \<longrightarrow> r' \<notin> refs (spaces w ! j)) \<and> (\<forall>r0 < fresh (heap w). cells h r0 = cells (heap w) r0)
    \<and> (\<forall>a. tree_lookup as_key a (objects as) =
      (if a = mo_address mo then map_option (\<lambda>b. (if r' = r then fst b else mo, r')) (tree_lookup as_key a (objects ?as))
       else tree_lookup as_key a (objects ?as)))"
  proof (cases "cowKey ?as = copyOnWriteOwner os")
    case True
    with g os have eq: "r' = r" "as = ?as" "h = heap w" by (auto simp: getWriteable_def split: if_splits)
    have "r \<notin> refs (spaces w ! j)" if "j < length (spaces w)" "j \<noteq> i" for j
      using world_okD(2) [OF w that(1), of r] that r True os by (auto simp: owner_def)
    with eq w m show ?thesis by auto
  next
    case False
    with g os obtain new where eq: "r' = fresh (heap w)" "as = ?as\<lparr>objects := tree_replace as_key (mo, r') (objects ?as)\<rparr>"
      "h = (heap w)\<lparr>cells := (cells (heap w))(r' \<mapsto> new\<lparr>copyOnWriteOwner := cowKey ?as\<rparr>), fresh := r' + 1\<rparr>"
      by (auto simp: getWriteable_def Let_def bind_eq_Some_conv split: if_splits)
    have "world_ok n (w\<lparr>spaces := (spaces w)[i := as], heap := h\<rparr>)"
      unfolding eq(2) eq(1) by (rule replace_world_ok [OF w]) (simp_all add: eq)
    moreover have "r' \<noteq> r" using os eq by simp
    ultimately show ?thesis using eq others m by (auto simp: tree_store.lookup_replace [OF t] as_key_def)
  qed
  then show "world_ok n (w\<lparr>spaces := (spaces w)[i := as], heap := h\<rparr>)"
    "\<And>j. j < length (spaces w) \<Longrightarrow> j \<noteq> i \<Longrightarrow> r' \<notin> refs (spaces w ! j)"
    "\<And>r0. r0 < fresh (heap w) \<Longrightarrow> cells h r0 = cells (heap w) r0"
    "\<And>a. tree_lookup as_key a (objects as) =
      (if a = mo_address mo then map_option (\<lambda>b. (if r' = r then fst b else mo, r')) (tree_lookup as_key a (objects (spaces w ! i)))
       else tree_lookup as_key a (objects (spaces w ! i)))" by blast+
qed

lemma world_writeE:
  assumes "world_write w i mo f = Some w'"
  obtains r r' as h os os' where "findObject (spaces w ! i) mo = Some r" "getWriteable (spaces w ! i) (heap w) mo r = Some (r', as, h)"
    "cells h r' = Some os" "f os = Some os'" "w' = w\<lparr>spaces := (spaces w)[i := as], heap := h\<lparr>cells := (cells h)(r' \<mapsto> os')\<rparr>\<rparr>"
  using assms by (auto simp: world_write_def bind_eq_Some_conv)

lemma write_ok:
  assumes w: "world_ok n w" "i < length (spaces w)" and wr: "world_write w i mo f = Some w'"
    and f: "\<forall>os os'. f os = Some os' \<longrightarrow> copyOnWriteOwner os' = copyOnWriteOwner os"
  shows "world_ok n w'"
  using wr
proof (rule world_writeE)
  fix r r' as h os os'
  assume r: "findObject (spaces w ! i) mo = Some r" "getWriteable (spaces w ! i) (heap w) mo r = Some (r', as, h)"
    and c: "cells h r' = Some os" "f os = Some os'" and w': "w' = w\<lparr>spaces := (spaces w)[i := as], heap := h\<lparr>cells := (cells h)(r' \<mapsto> os')\<rparr>\<rparr>"
  from update_cell_ok [OF getWriteable_ok(1) [OF w r], of r' os os'] c f
  show ?thesis by (simp add: w')
qed

lemma start_ok: "world_ok 0 \<lparr>spaces = [AddressSpace_new], heap = \<lparr>cells = Map.empty, fresh = 0\<rparr>\<rparr>"
  by (simp add: world_ok_def space_ok_def AddressSpace_new_def refs_def tree_store.ok_empty)

lemma reachable_ok: "reachable n w \<Longrightarrow> n + 1 < 2 ^ 32 \<Longrightarrow> world_ok n w"
  by (induction rule: reachable.induct) (auto intro: start_ok fork_ok bind_ok unbind_ok write_ok)

lemma space_lookup:
  assumes "space_ok k h as" "tree_lookup as_key a (objects as) = Some b"
  shows "b \<in> set (inorder (objects as))" "as_key b = a" "snd b \<in> refs as" "snd b < fresh h" "cells h (snd b) \<noteq> None"
proof -
  have t: "tree_ok as_key (objects as)" using assms(1) by (simp add: space_ok_def)
  show b: "b \<in> set (inorder (objects as))" "as_key b = a" using assms(2) tree_store.lookup_iff [OF t] by auto
  then show r: "snd b \<in> refs as" by (simp add: refs_def)
  then show "snd b < fresh h" "cells h (snd b) \<noteq> None" using assms(1) by (auto simp: space_ok_def)
qed

lemma space_inj:
  assumes "space_ok k h as" "b \<in> set (inorder (objects as))" "b' \<in> set (inorder (objects as))" "snd b = snd b'"
  shows "b = b'"
  using assms by (auto simp: space_ok_def dest: inj_onD)

section \<open>Properties\<close>

text \<open>C33: the invariant that \<^verbatim>\<open>AddressSpace.h\<close> states holds in every world that fewer than \<open>2 ^ 32 - 1\<close> forks
  lead to: no state has an owner above the key of an address space that holds it. A state whose owner is
  the key is held by that address space alone, under one memory object.\<close>

theorem AddressSpace_ownership:
  assumes "reachable n w" "n + 1 < 2 ^ 32" "i < length (spaces w)" "(mo, r) \<in> set (inorder (objects (spaces w ! i)))"
  shows "\<exists>os. cells (heap w) r = Some os \<and> copyOnWriteOwner os \<le> cowKey (spaces w ! i) \<and>
    (copyOnWriteOwner os = cowKey (spaces w ! i) \<longrightarrow>
      (\<forall>j < length (spaces w). \<forall>mo'. (mo', r) \<in> set (inorder (objects (spaces w ! j))) \<longrightarrow> j = i \<and> mo' = mo))"
proof -
  note w = reachable_ok [OF assms(1,2)]
  have r: "r \<in> refs (spaces w ! i)" using assms(4) by (force simp: refs_def)
  note si = world_okD(1) [OF w assms(3)]
  from si r obtain os where os: "cells (heap w) r = Some os" "copyOnWriteOwner os \<le> cowKey (spaces w ! i)"
    by (auto simp: space_ok_def owner_def)
  have "j = i \<and> mo' = mo"
    if own: "copyOnWriteOwner os = cowKey (spaces w ! i)" and j: "j < length (spaces w)" "(mo', r) \<in> set (inorder (objects (spaces w ! j)))" for j mo'
  proof -
    have "r \<in> refs (spaces w ! j)" using j(2) by (force simp: refs_def)
    then have "j = i" using world_okD(2) [OF w assms(3) j(1), of r] r own os by (auto simp: owner_def)
    have "inj_on snd (set (inorder (objects (spaces w ! i))))" using si by (simp add: space_ok_def)
    from inj_onD [OF this _ _ assms(4), of "(mo', r)"] j(2) \<open>j = i\<close> show ?thesis by simp
  qed
  with os show ?thesis by blast
qed

definition ex_mo :: MemoryObject where
  "ex_mo = \<lparr>mo_id = 1, mo_address = 4096, mo_size = 4, mo_isUserSpecified = False, mo_symsize = None\<rparr>"

definition ex_world :: world where
  "ex_world = \<lparr>spaces = [\<lparr>cowKey = 2, objects = newNode Terminator (ex_mo, 0) Terminator\<rparr>,
       \<lparr>cowKey = 2, objects = newNode Terminator (ex_mo, 0) Terminator\<rparr>],
     heap = \<lparr>cells = [0 \<mapsto> (ObjectState_blank (Some ex_mo) 4 None)\<lparr>copyOnWriteOwner := 1\<rparr>], fresh = 1\<rparr>\<rparr>"

text \<open>One object is bound, then the only state forks.\<close>

lemma ex_world_reachable: "reachable 1 ex_world"
proof -
  let ?w = "\<lparr>spaces = [\<lparr>cowKey = 1, objects = newNode Terminator (ex_mo, 0) Terminator\<rparr>],
     heap = \<lparr>cells = [0 \<mapsto> (ObjectState_blank (Some ex_mo) 4 None)\<lparr>copyOnWriteOwner := 1\<rparr>], fresh = 1\<rparr>\<rparr>"
  have "world_bind \<lparr>spaces = [AddressSpace_new], heap = \<lparr>cells = Map.empty, fresh = 0\<rparr>\<rparr> 0 ex_mo (ObjectState_blank (Some ex_mo) 4 None) = Some ?w"
    by (simp add: world_bind_def bindObject_def AddressSpace_new_def ObjectState_blank_def)
  from reachable_bind [OF reachable_start _ this] have "reachable 0 ?w" by simp
  from reachable_fork [OF this, of 0] show ?thesis by (simp add: world_fork_def AddressSpace_copy_def ex_world_def Let_def flip: numeral_2_eq_2)
qed

theorem AddressSpace_ownership_witness:
  "\<exists>os. cells (heap ex_world) 0 = Some os \<and> copyOnWriteOwner os \<le> cowKey (spaces ex_world ! 1)"
  using AddressSpace_ownership [OF ex_world_reachable, of 1 ex_mo 0] by (auto simp: ex_world_def newNode_def)

text \<open>The state that address space \<open>i\<close> has at an address.\<close>

definition content_at :: "world \<Rightarrow> nat \<Rightarrow> nat \<Rightarrow> ObjectState option" where
  "content_at w i a = tree_lookup as_key a (objects (spaces w ! i)) \<bind> (\<lambda>b. cells (heap w) (snd b))"

text \<open>C32: copy on write. After a fork the new address space and the old one hold the same objects. A write
  through \<open>getWriteable\<close> changes the object for the address space that writes and for no other one, and no
  other object of that address space; the object written to is the old one or a copy of it.\<close>

theorem AddressSpace_copy_on_write:
  assumes "reachable n w" "n + 1 < 2 ^ 32" "i < length (spaces w)" "world_write w i mo f = Some w'"
  shows "(\<forall>j < length (spaces w). \<forall>a. j \<noteq> i \<or> a \<noteq> mo_address mo \<longrightarrow> content_at w' j a = content_at w j a)
    \<and> (\<exists>os os' c. content_at w i (mo_address mo) = Some os \<and> content_at w' i (mo_address mo) = Some os' \<and> f c = Some os'
        \<and> (c = os \<or> ObjectState_copy os = Some (c\<lparr>copyOnWriteOwner := 0\<rparr>)))
    \<and> (\<forall>j < length (spaces w). \<forall>a. content_at (world_fork w i) j a = content_at w j a)
    \<and> (\<forall>a. content_at (world_fork w i) (length (spaces w)) a = content_at w i a)"
  using assms(4)
proof (rule world_writeE)
  fix r r' as h c os'
  assume r: "findObject (spaces w ! i) mo = Some r" "getWriteable (spaces w ! i) (heap w) mo r = Some (r', as, h)"
    and c: "cells h r' = Some c" "f c = Some os'" and w': "w' = w\<lparr>spaces := (spaces w)[i := as], heap := h\<lparr>cells := (cells h)(r' \<mapsto> os')\<rparr>\<rparr>"
  note w = reachable_ok [OF assms(1,2)]
  note g = getWriteable_ok [OF w assms(3) r]
  note si = world_okD(1) [OF w assms(3)]
  have other: "content_at w' j a = content_at w j a" if j: "j < length (spaces w)" "j \<noteq> i" for j a
  proof (cases "tree_lookup as_key a (objects (spaces w ! j))")
    case (Some b)
    note b = space_lookup [OF world_okD(1) [OF w j(1)] Some]
    have "snd b \<noteq> r'" using g(2) [OF j] b(3) by blast
    then show ?thesis using Some j g(3) [OF b(4)] by (simp add: content_at_def w')
  qed (use j in \<open>simp add: content_at_def w'\<close>)
  obtain m where m: "tree_lookup as_key (mo_address mo) (objects (spaces w ! i)) = Some (m, r)" using r(1) by (auto simp: findObject_def)
  have own: "content_at w' i a = content_at w i a" if a: "a \<noteq> mo_address mo" for a
  proof (cases "tree_lookup as_key a (objects (spaces w ! i))")
    case (Some b)
    note b = space_lookup [OF si Some] and mr = space_lookup [OF si m]
    have "snd b \<noteq> r'"
    proof (cases "r' = r")
      case True
      with space_inj [OF si b(1) mr(1)] b(2) mr(2) a show ?thesis by auto
    next
      case False
      with r(2) have "r' = fresh (heap w)" by (auto simp: getWriteable_def Let_def bind_eq_Some_conv split: if_splits)
      with b(4) show ?thesis by simp
    qed
    with Some a g(3) [OF b(4)] g(4) assms(3) show ?thesis by (simp add: content_at_def w')
  qed (use a g(4) assms(3) in \<open>simp add: content_at_def w'\<close>)
  have "content_at w' i (mo_address mo) = Some os'" using m g(4) assms(3) by (simp add: content_at_def w')
  moreover obtain os where os: "content_at w i (mo_address mo) = Some os" "cells (heap w) r = Some os"
    using m space_lookup(5) [OF si m] by (auto simp: content_at_def)
  moreover have "c = os \<or> ObjectState_copy os = Some (c\<lparr>copyOnWriteOwner := 0\<rparr>)"
    using r(2) c(1) os(2) by (auto simp: getWriteable_def ObjectState_copy_def Let_def split: if_splits)
  moreover have "\<forall>j < length (spaces w). \<forall>a. content_at (world_fork w i) j a = content_at w j a"
    "\<forall>a. content_at (world_fork w i) (length (spaces w)) a = content_at w i a"
    using assms(3) by (auto simp: content_at_def world_fork_def AddressSpace_copy_def Let_def nth_append nth_list_update)
  ultimately show ?thesis using other own c(2) by blast
qed

theorem AddressSpace_copy_on_write_witness:
  "\<exists>w'. world_write ex_world 0 ex_mo (\<lambda>os. write8 os 2 7) = Some w' \<and>
    content_at w' 1 4096 = content_at ex_world 1 4096 \<and> content_at ex_world 1 4096 \<noteq> None"
proof -
  have "world_write ex_world 0 ex_mo (\<lambda>os. write8 os 2 7) \<noteq> None"
    by (simp add: world_write_def ex_world_def findObject_def newNode_def as_key_def getWriteable_def ObjectState_copy_def
        ObjectState_blank_def ex_mo_def write8_def Let_def)
  then obtain w' where w': "world_write ex_world 0 ex_mo (\<lambda>os. write8 os 2 7) = Some w'" by blast
  have len: "length (spaces ex_world) = 2" by (simp add: ex_world_def)
  have "content_at w' 1 4096 = content_at ex_world 1 4096"
    using AddressSpace_copy_on_write [OF ex_world_reachable _ _ w'] len by auto
  moreover have "content_at ex_world 1 4096 \<noteq> None" by (simp add: content_at_def ex_world_def newNode_def as_key_def ex_mo_def)
  ultimately show ?thesis using w' by blast
qed

end
