(* ===== verification/ExprCompare.thy ===== *)
theory ExprCompare
  imports ExprRebuild
begin

unbundle bit_operations_syntax

text \<open>
  Structural hashing and comparison: \<open>computeHash\<close> and \<open>compare\<close> of \<^verbatim>\<open>lib/Expr/Expr.cpp\<close> and
  \<^verbatim>\<open>lib/Expr/Updates.cpp\<close>, on 32-bit hash values. \<open>compare\<close> orders by kind, hash, attributes and
  children; its shortcuts on equal pointers and on the table of pairs found equal before do not
  change the result. The hash of a constant wider than 64 bits is LLVM's \<open>hash_value\<close>, the parameter
  \<open>hv\<close>.
\<close>

section \<open>Hash values\<close>

definition MAGIC_HASH_CONSTANT :: "32 word" where
  "MAGIC_HASH_CONSTANT = 39"

fun castkind_index :: "castkind \<Rightarrow> nat" where
  "castkind_index ZExt = 7"
| "castkind_index SExt = 8"

fun binkind_index :: "binkind \<Rightarrow> nat" where
  "binkind_index Add = 10" | "binkind_index Sub = 11" | "binkind_index Mul = 12" | "binkind_index UDiv = 13"
| "binkind_index SDiv = 14" | "binkind_index URem = 15" | "binkind_index SRem = 16" | "binkind_index And = 17"
| "binkind_index Or = 18" | "binkind_index Xor = 19" | "binkind_index Shl = 20" | "binkind_index LShr = 21"
| "binkind_index AShr = 22" | "binkind_index Eq = 23" | "binkind_index Ne = 24" | "binkind_index Ult = 25"
| "binkind_index Ule = 26" | "binkind_index Ugt = 27" | "binkind_index Uge = 28" | "binkind_index Slt = 29"
| "binkind_index Sle = 30" | "binkind_index Sgt = 31" | "binkind_index Sge = 32"

text \<open>The number of a kind in the enumeration \<open>Expr::Kind\<close>.\<close>

fun kind_index :: "kind \<Rightarrow> nat" where
  "kind_index KConstant = 0"
| "kind_index KNotOptimized = 1"
| "kind_index KRead = 3"
| "kind_index KSelect = 4"
| "kind_index KConcat = 5"
| "kind_index KExtract = 6"
| "kind_index (KCast k) = castkind_index k"
| "kind_index KNot = 9"
| "kind_index (KBinary k) = binkind_index k"

definition hash_step :: "32 word \<Rightarrow> 32 word \<Rightarrow> 32 word" where
  "hash_step h res = push_bit 1 res XOR (h * MAGIC_HASH_CONSTANT)"

definition hash_kids :: "nat \<Rightarrow> 32 word list \<Rightarrow> 32 word" where
  "hash_kids k hs = fold hash_step hs (of_nat k * MAGIC_HASH_CONSTANT)"

text \<open>A \<open>char\<close> is signed.\<close>

definition char_value :: "char \<Rightarrow> 32 word" where
  "char_value c = (let n = of_char c :: int in word_of_int (if n < 128 then n else n - 256))"

definition name_hash :: "string \<Rightarrow> 32 word" where
  "name_hash name = fold (\<lambda>c res. res * MAGIC_HASH_CONSTANT + char_value c) name 0"

fun Expr_hash :: "(nat \<Rightarrow> nat \<Rightarrow> 32 word) \<Rightarrow> expr \<Rightarrow> 32 word"
and UpdateNode_hash :: "(nat \<Rightarrow> nat \<Rightarrow> 32 word) \<Rightarrow> updates \<Rightarrow> 32 word" where
  "Expr_hash hv (ConstantExpr w v) = (if w \<le> 64 then of_nat v else hv w v) XOR (of_nat w * MAGIC_HASH_CONSTANT)"
| "Expr_hash hv (NotOptimizedExpr e) = hash_kids (kind_index KNotOptimized) [Expr_hash hv e]"
| "Expr_hash hv (ReadExpr a us i) = (Expr_hash hv i * MAGIC_HASH_CONSTANT) XOR
     (if us = NoUpdate then name_hash (arr_name a) else name_hash (arr_name a) XOR UpdateNode_hash hv us)"
| "Expr_hash hv (SelectExpr c t f) = hash_kids (kind_index KSelect) [Expr_hash hv c, Expr_hash hv t, Expr_hash hv f]"
| "Expr_hash hv (ConcatExpr l r) = hash_kids (kind_index KConcat) [Expr_hash hv l, Expr_hash hv r]"
| "Expr_hash hv (ExtractExpr e off w) = (of_nat off * MAGIC_HASH_CONSTANT) XOR (of_nat w * MAGIC_HASH_CONSTANT) XOR
     (Expr_hash hv e * MAGIC_HASH_CONSTANT)"
| "Expr_hash hv (CastExpr k e w) = (of_nat w * MAGIC_HASH_CONSTANT) XOR (Expr_hash hv e * MAGIC_HASH_CONSTANT)"
| "Expr_hash hv (NotExpr e) = Expr_hash hv e * MAGIC_HASH_CONSTANT * of_nat (kind_index KNot)"
| "Expr_hash hv (BinaryExpr k l r) = hash_kids (kind_index (KBinary k)) [Expr_hash hv l, Expr_hash hv r]"
| "UpdateNode_hash hv NoUpdate = 0"
| "UpdateNode_hash hv (UpdateNode i v next) =
     (if next = NoUpdate then Expr_hash hv i XOR Expr_hash hv v
      else (Expr_hash hv i XOR Expr_hash hv v) XOR UpdateNode_hash hv next)"

section \<open>Comparison\<close>

definition cmp_of :: "'a::linorder \<Rightarrow> 'a \<Rightarrow> int" where
  "cmp_of a b = (if a < b then - 1 else if b < a then 1 else 0)"

text \<open>\<open>if (int res = ...) return res;\<close>\<close>

definition or_else :: "int \<Rightarrow> int \<Rightarrow> int" where
  "or_else r s = (if r \<noteq> 0 then r else s)"

fun name_compare :: "string \<Rightarrow> string \<Rightarrow> int" where
  "name_compare [] [] = 0"
| "name_compare [] (c # cs) = - 1"
| "name_compare (c # cs) [] = 1"
| "name_compare (c # cs) (d # ds) = or_else (cmp_of (of_char c :: nat) (of_char d)) (name_compare cs ds)"

text \<open>The part of \<open>Expr::compare\<close> before the attributes.\<close>

definition head_compare :: "(nat \<Rightarrow> nat \<Rightarrow> 32 word) \<Rightarrow> expr \<Rightarrow> expr \<Rightarrow> int" where
  "head_compare hv a b = or_else (cmp_of (kind_index (getKind a)) (kind_index (getKind b))) (cmp_of (Expr_hash hv a) (Expr_hash hv b))"

definition root_compare :: "array \<Rightarrow> array \<Rightarrow> int" where
  "root_compare a b = or_else (name_compare (arr_name a) (arr_name b)) (cmp_of (arr_addr a) (arr_addr b))"

fun Expr_compare :: "(nat \<Rightarrow> nat \<Rightarrow> 32 word) \<Rightarrow> expr \<Rightarrow> expr \<Rightarrow> int"
and UpdateNode_compare :: "(nat \<Rightarrow> nat \<Rightarrow> 32 word) \<Rightarrow> updates \<Rightarrow> updates \<Rightarrow> int" where
  "Expr_compare hv (ConstantExpr w v) b = or_else (head_compare hv (ConstantExpr w v) b)
     (case b of ConstantExpr w' v' \<Rightarrow> or_else (cmp_of w w') (cmp_of v v') | _ \<Rightarrow> 0)"
| "Expr_compare hv (NotOptimizedExpr e) b = or_else (head_compare hv (NotOptimizedExpr e) b)
     (case b of NotOptimizedExpr e' \<Rightarrow> Expr_compare hv e e' | _ \<Rightarrow> 0)"
| "Expr_compare hv (ReadExpr a us i) b = or_else (head_compare hv (ReadExpr a us i) b)
     (case b of ReadExpr a' us' i' \<Rightarrow>
        or_else (or_else (root_compare a a') (or_else (cmp_of (getSize us) (getSize us')) (UpdateNode_compare hv us us')))
          (Expr_compare hv i i')
      | _ \<Rightarrow> 0)"
| "Expr_compare hv (SelectExpr c t f) b = or_else (head_compare hv (SelectExpr c t f) b)
     (case b of SelectExpr c' t' f' \<Rightarrow>
        or_else (Expr_compare hv c c') (or_else (Expr_compare hv t t') (Expr_compare hv f f'))
      | _ \<Rightarrow> 0)"
| "Expr_compare hv (ConcatExpr l r) b = or_else (head_compare hv (ConcatExpr l r) b)
     (case b of ConcatExpr l' r' \<Rightarrow>
        or_else (cmp_of (getWidth l + getWidth r) (getWidth l' + getWidth r'))
          (or_else (Expr_compare hv l l') (Expr_compare hv r r'))
      | _ \<Rightarrow> 0)"
| "Expr_compare hv (ExtractExpr e off w) b = or_else (head_compare hv (ExtractExpr e off w) b)
     (case b of ExtractExpr e' off' w' \<Rightarrow> or_else (cmp_of off off') (or_else (cmp_of w w') (Expr_compare hv e e')) | _ \<Rightarrow> 0)"
| "Expr_compare hv (CastExpr k e w) b = or_else (head_compare hv (CastExpr k e w) b)
     (case b of CastExpr k' e' w' \<Rightarrow> or_else (cmp_of w w') (Expr_compare hv e e') | _ \<Rightarrow> 0)"
| "Expr_compare hv (NotExpr e) b = or_else (head_compare hv (NotExpr e) b)
     (case b of NotExpr e' \<Rightarrow> Expr_compare hv e e' | _ \<Rightarrow> 0)"
| "Expr_compare hv (BinaryExpr k l r) b = or_else (head_compare hv (BinaryExpr k l r) b)
     (case b of BinaryExpr k' l' r' \<Rightarrow> or_else (Expr_compare hv l l') (Expr_compare hv r r') | _ \<Rightarrow> 0)"
| "UpdateNode_compare hv NoUpdate us' = 0"
| "UpdateNode_compare hv (UpdateNode i v us) us' =
     (case us' of NoUpdate \<Rightarrow> 0
      | UpdateNode i' v' us'' \<Rightarrow>
          or_else (or_else (Expr_compare hv i i') (Expr_compare hv v v')) (UpdateNode_compare hv us us''))"

section \<open>Comparison decides equality\<close>

lemma cmp_of_0 [simp]: "cmp_of a b = 0 \<longleftrightarrow> a = b"
  by (auto simp: cmp_of_def)

lemma or_else_0 [simp]: "or_else r s = 0 \<longleftrightarrow> r = 0 \<and> s = 0"
  by (simp add: or_else_def)

lemma castkind_index_inj [simp]: "castkind_index a = castkind_index b \<longleftrightarrow> a = b"
  by (cases a; cases b) auto

lemma binkind_index_inj [simp]: "binkind_index a = binkind_index b \<longleftrightarrow> a = b"
  by (cases a; cases b) simp_all

lemma castkind_index_range: "castkind_index k = 7 \<or> castkind_index k = 8"
  by (cases k) simp_all

lemma binkind_index_range: "10 \<le> binkind_index k"
  by (cases k) simp_all

lemma kind_index_inj [simp]: "kind_index a = kind_index b \<longleftrightarrow> a = b"
proof -
  have cast: "castkind_index k \<noteq> n" if "n < 7 \<or> 8 < n" for k n
    using castkind_index_range [of k] that by auto
  have bin: "binkind_index k \<noteq> n" if "n < 10" for k n
    using binkind_index_range [of k] that by linarith
  have "castkind_index k \<noteq> binkind_index k'" for k k'
    using castkind_index_range [of k] binkind_index_range [of k'] by linarith
  with cast bin cast [symmetric] bin [symmetric] this [symmetric] show ?thesis
    by (cases a; cases b) simp_all
qed

lemma head_compare_0 [simp]:
  "head_compare hv a b = 0 \<longleftrightarrow> getKind a = getKind b \<and> Expr_hash hv a = Expr_hash hv b"
  by (simp add: head_compare_def del: kind_index.simps Expr_hash.simps)

lemma name_compare_0 [simp]: "name_compare s t = 0 \<longleftrightarrow> s = t"
  by (induction s t rule: name_compare.induct) auto

text \<open>The arrays of an expression; two arrays at one address are one array.\<close>

fun arrays_of :: "expr \<Rightarrow> array set" and arrays_of_updates :: "updates \<Rightarrow> array set" where
  "arrays_of (ConstantExpr w v) = {}"
| "arrays_of (NotOptimizedExpr e) = arrays_of e"
| "arrays_of (ReadExpr a us i) = insert a (arrays_of_updates us \<union> arrays_of i)"
| "arrays_of (SelectExpr c t f) = arrays_of c \<union> arrays_of t \<union> arrays_of f"
| "arrays_of (ConcatExpr l r) = arrays_of l \<union> arrays_of r"
| "arrays_of (ExtractExpr e off w) = arrays_of e"
| "arrays_of (CastExpr k e w) = arrays_of e"
| "arrays_of (NotExpr e) = arrays_of e"
| "arrays_of (BinaryExpr k l r) = arrays_of l \<union> arrays_of r"
| "arrays_of_updates NoUpdate = {}"
| "arrays_of_updates (UpdateNode i v us) = arrays_of i \<union> arrays_of v \<union> arrays_of_updates us"

lemma Expr_compare_refl: "Expr_compare hv a a = 0" "UpdateNode_compare hv us us = 0"
  by (induction a and us rule: arrays_of_arrays_of_updates.induct) (simp_all add: root_compare_def)

lemma Expr_compare_kind: "Expr_compare hv a b = 0 \<Longrightarrow> getKind b = getKind a"
  by (cases a) (simp_all del: Expr_hash.simps getKind.simps)

lemma Expr_compare_eqD:
  assumes inj: "inj_on arr_addr A"
  shows "Expr_compare hv a b = 0 \<Longrightarrow> arrays_of a \<subseteq> A \<Longrightarrow> arrays_of b \<subseteq> A \<Longrightarrow> a = b"
  "UpdateNode_compare hv us us' = 0 \<Longrightarrow> getSize us = getSize us' \<Longrightarrow>
     arrays_of_updates us \<subseteq> A \<Longrightarrow> arrays_of_updates us' \<subseteq> A \<Longrightarrow> us = us'"
proof (induction a and us arbitrary: b and us' rule: arrays_of_arrays_of_updates.induct)
  case (3 a us i)
  obtain a' us' i' where b: "b = ReadExpr a' us' i'"
    using Expr_compare_kind [OF 3(3)] by (cases b) simp_all
  from 3(3) b have eqs: "root_compare a a' = 0" "getSize us = getSize us'"
    "UpdateNode_compare hv us us' = 0" "Expr_compare hv i i' = 0"
    by (simp_all del: Expr_hash.simps)
  from 3(4,5) b eqs(1) have "a = a'"
    by (intro inj_onD [OF inj]) (simp_all add: root_compare_def)
  moreover have "us = us'" using 3(4,5) b eqs by (intro 3(1)) simp_all
  moreover have "i = i'" using 3(4,5) b eqs by (intro 3(2)) simp_all
  ultimately show ?case by (simp add: b)
next
  case 10
  then show ?case by (cases us') simp_all
next
  case (11 i v us)
  then show ?case by (cases us') (simp_all del: Expr_hash.simps)
qed (case_tac [!] b, simp_all del: Expr_hash.simps)

section \<open>Comparison is antisymmetric\<close>

lemma cmp_of_neg: "cmp_of b a = - cmp_of a b"
  by (auto simp: cmp_of_def)

lemma or_else_neg: "or_else (- r) (- s) = - or_else r s"
  by (simp add: or_else_def)

lemma name_compare_neg: "name_compare t s = - name_compare s t"
proof (induction s t rule: name_compare.induct)
  case (4 c cs d ds)
  then show ?case
    by (simp add: cmp_of_neg [of "of_char d :: nat" "of_char c"] flip: or_else_neg)
qed simp_all

lemma head_compare_neg: "head_compare hv b a = - head_compare hv a b"
  unfolding head_compare_def or_else_neg [symmetric]
  by (subst (1 2) cmp_of_neg) simp

lemma root_compare_neg: "root_compare b a = - root_compare a b"
  unfolding root_compare_def or_else_neg [symmetric]
  by (subst name_compare_neg, subst cmp_of_neg) simp

lemmas compare_neg = cmp_of_neg head_compare_neg root_compare_neg

lemma or_else_neg_cong:
  "r' = - r \<Longrightarrow> s' = - s \<Longrightarrow> or_else r' s' = - or_else r s"
  by (simp add: or_else_neg)

lemma Expr_compare_neg:
  "Expr_compare hv b a = - Expr_compare hv a b"
  "UpdateNode_compare hv us' us = - UpdateNode_compare hv us us'"
proof (induction a and us arbitrary: b and us' rule: arrays_of_arrays_of_updates.induct)
  case 10
  show ?case by (cases us') simp_all
next
  case (11 i v us)
  then show ?case by (cases us') (auto intro!: or_else_neg_cong)
qed (case_tac [!] b, auto intro!: or_else_neg_cong compare_neg simp del: Expr_hash.simps)

section \<open>Equality\<close>

text \<open>C40: \<open>Expr::compare\<close> decides structural equality: on expressions whose arrays are told apart by
  their addresses it returns 0 exactly for equal expressions, whatever the hash of wide constants is,
  and swapping the arguments swaps the sign of the result.\<close>

theorem Expr_compare_equality:
  assumes "inj_on arr_addr (arrays_of a \<union> arrays_of b)"
  shows "(Expr_compare hv a b = 0 \<longleftrightarrow> a = b) \<and> Expr_compare hv b a = - Expr_compare hv a b"
proof
  show "Expr_compare hv a b = 0 \<longleftrightarrow> a = b"
    using Expr_compare_eqD(1) [OF assms, of hv a b] Expr_compare_refl(1) [of hv a] by blast
  show "Expr_compare hv b a = - Expr_compare hv a b"
    by (rule Expr_compare_neg(1))
qed

definition ex_twin :: "nat \<Rightarrow> array" where
  "ex_twin adr = \<lparr>arr_addr = adr, arr_name = ''a'', arr_size = 4, arr_domain = 32, arr_range = 8, arr_constantValues = []\<rparr>"

theorem Expr_compare_equality_witness:
  "inj_on arr_addr {ex_twin 1, ex_twin 2} \<and>
   Expr_compare (\<lambda>w v. 0) (ReadExpr (ex_twin 1) NoUpdate (ConstantExpr 32 0)) (ReadExpr (ex_twin 2) NoUpdate (ConstantExpr 32 0)) \<noteq> 0"
  using Expr_compare_equality [of "ReadExpr (ex_twin 1) NoUpdate (ConstantExpr 32 0)" "ReadExpr (ex_twin 2) NoUpdate (ConstantExpr 32 0)" "\<lambda>w v. 0"]
  by (simp add: ex_twin_def insert_commute del: Expr_compare.simps)

end
