(* ===== verification/Solver.thy ===== *)
theory Solver
  imports Constraints ExprCompare
begin

text \<open>
  \<^verbatim>\<open>include/klee/Solver/Solver.h\<close>, \<^verbatim>\<open>lib/Solver/Solver.cpp\<close>, \<^verbatim>\<open>lib/Solver/SolverImpl.cpp\<close> and
  \<^verbatim>\<open>lib/Solver/DummySolver.cpp\<close>: queries, the interface of the solvers of the chain, and the operations
  built on it. A call returns \<open>None\<close> if an assertion fails, otherwise the new state of the solver and
  \<open>None\<close> if the call returned \<open>false\<close> (the solver failed or timed out), \<open>Some x\<close> if it stored the
  result \<open>x\<close> and returned \<open>true\<close>. The core solvers are third-party programs; a solver is a record of
  its four operations, and the locale \<open>sound_solver\<close> is the contract that \<^verbatim>\<open>Solver.h\<close> documents.
\<close>

section \<open>Calls\<close>

type_synonym ('s, 'a) call = "'s \<Rightarrow> ('a option \<times> 's) option"

definition ret :: "'a \<Rightarrow> ('s, 'a) call" where
  "ret x s = Some (Some x, s)"

definition failed :: "('s, 'a) call" where
  "failed s = Some (None, s)"

definition asserted :: "('s, 'a) call" where
  "asserted s = None"

text \<open>\<open>if (!m(x)) return false; k(x)\<close>\<close>

definition andThen :: "('s, 'a) call \<Rightarrow> ('a \<Rightarrow> ('s, 'b) call) \<Rightarrow> ('s, 'b) call" where
  "andThen m k s = (case m s of None \<Rightarrow> None | Some (None, s') \<Rightarrow> Some (None, s') | Some (Some x, s') \<Rightarrow> k x s')"

text \<open>\<open>bool success = m(x); assert(success); k(x)\<close>\<close>

definition andMust :: "('s, 'a) call \<Rightarrow> ('a \<Rightarrow> ('s, 'b) call) \<Rightarrow> ('s, 'b) call" where
  "andMust m k s = (case m s of Some (Some x, s') \<Rightarrow> k x s' | _ \<Rightarrow> None)"

text \<open>An expression constructor, which may fail an assertion.\<close>

definition build :: "'a option \<Rightarrow> ('a \<Rightarrow> ('s, 'b) call) \<Rightarrow> ('s, 'b) call" where
  "build e k = (case e of None \<Rightarrow> asserted | Some x \<Rightarrow> k x)"

text \<open>A call to a solver that keeps its state inside a larger one.\<close>

definition inner :: "('s, 'a) call \<Rightarrow> ('c \<times> 's, 'a) call" where
  "inner m s = map_option (\<lambda>(r, s'). (r, (fst s, s'))) (m (snd s))"

text \<open>
  The judgement on calls: from a state with \<open>I\<close> the call ends in one, a result satisfies \<open>P\<close>; \<open>N\<close> says
  whether an assertion may fail and \<open>F\<close> whether the call may return \<open>false\<close>.
\<close>

definition call_ok :: "bool \<Rightarrow> bool \<Rightarrow> ('s \<Rightarrow> bool) \<Rightarrow> ('s, 'a) call \<Rightarrow> ('a \<Rightarrow> bool) \<Rightarrow> bool" where
  "call_ok N F I m P \<longleftrightarrow> (\<forall>s. I s \<longrightarrow>
     (case m s of None \<Rightarrow> N | Some (r, s') \<Rightarrow> I s' \<and> (case r of None \<Rightarrow> F | Some x \<Rightarrow> P x)))"

named_theorems call_intro "introduction rules for the judgement on calls"

lemma outcome_cases [case_names asserts fails returns]:
  obtains "m = None" | s where "m = Some (None, s)" | x s where "m = Some (Some x, s)"
  by (metis option.exhaust surj_pair)

text \<open>The judgement at one outcome.\<close>

definition outcome_ok :: "bool \<Rightarrow> bool \<Rightarrow> ('s \<Rightarrow> bool) \<Rightarrow> ('a \<Rightarrow> bool) \<Rightarrow> ('a option \<times> 's) option \<Rightarrow> bool" where
  "outcome_ok N F I P r = (case r of None \<Rightarrow> N | Some (r, s') \<Rightarrow> I s' \<and> (case r of None \<Rightarrow> F | Some x \<Rightarrow> P x))"

lemma outcome_ok_simps [simp]:
  "outcome_ok N F I P None = N" "outcome_ok N F I P (Some (None, s)) \<longleftrightarrow> I s \<and> F"
  "outcome_ok N F I P (Some (Some x, s)) \<longleftrightarrow> I s \<and> P x"
  by (simp_all add: outcome_ok_def)

lemma call_ok_iff: "call_ok N F I m P \<longleftrightarrow> (\<forall>s. I s \<longrightarrow> outcome_ok N F I P (m s))"
  by (simp add: call_ok_def outcome_ok_def)

lemma call_okI: "(\<And>s. I s \<Longrightarrow> outcome_ok N F I P (m s)) \<Longrightarrow> call_ok N F I m P"
  by (simp add: call_ok_iff)

lemma call_okD: "call_ok N F I m P \<Longrightarrow> I s \<Longrightarrow> outcome_ok N F I P (m s)"
  by (simp add: call_ok_iff)

lemma call_ok_ret [call_intro]: "P x \<Longrightarrow> call_ok N F I (ret x) P"
  by (simp add: call_ok_def ret_def)

lemma call_ok_failed [call_intro]: "F \<Longrightarrow> call_ok N F I failed P"
  by (simp add: call_ok_def failed_def)

lemma call_ok_asserted: "N \<Longrightarrow> call_ok N F I asserted P"
  by (simp add: call_ok_def asserted_def)

lemma call_ok_weaken:
  assumes "call_ok N F I m P" "N \<longrightarrow> N'" "F \<longrightarrow> F'" "\<And>x. P x \<Longrightarrow> Q x"
  shows "call_ok N' F' I m Q"
proof (rule call_okI)
  fix s assume "I s"
  from call_okD [OF assms(1) this] show "outcome_ok N' F' I Q (m s)"
    using assms(2-4) by (cases "m s" rule: outcome_cases) simp_all
qed

lemma call_ok_mono: "call_ok N F I m P \<Longrightarrow> (\<And>x. P x \<Longrightarrow> Q x) \<Longrightarrow> call_ok N F I m Q"
  by (erule call_ok_weaken) simp_all

lemma call_ok_andThen [call_intro]:
  assumes m: "call_ok N F I m Q" and k: "\<And>x. Q x \<Longrightarrow> call_ok N F I (k x) P"
  shows "call_ok N F I (andThen m k) P"
proof (rule call_okI)
  fix s assume "I s"
  note m' = call_okD [OF m this]
  show "outcome_ok N F I P (andThen m k s)"
  proof (cases "m s" rule: outcome_cases)
    case (returns x s')
    with m' have "Q x" "I s'" by simp_all
    from call_okD [OF k [OF this(1)] this(2)] returns show ?thesis by (simp add: andThen_def)
  qed (use m' in \<open>simp_all add: andThen_def\<close>)
qed

lemma call_ok_andMust [call_intro]:
  assumes m: "call_ok N F I m Q" and "F \<longrightarrow> N" and k: "\<And>x. Q x \<Longrightarrow> call_ok N F I (k x) P"
  shows "call_ok N F I (andMust m k) P"
proof (rule call_okI)
  fix s assume "I s"
  note m' = call_okD [OF m this]
  show "outcome_ok N F I P (andMust m k s)"
  proof (cases "m s" rule: outcome_cases)
    case (returns x s')
    with m' have "Q x" "I s'" by simp_all
    from call_okD [OF k [OF this(1)] this(2)] returns show ?thesis by (simp add: andMust_def)
  qed (use m' assms(2) in \<open>simp_all add: andMust_def\<close>)
qed

lemma call_ok_build [call_intro]:
  assumes "succeeds e Q" "\<And>x. Q x \<Longrightarrow> call_ok N F I (k x) P"
  shows "call_ok N F I (build e k) P"
  using assms by (auto simp: build_def succeeds_def)

lemma call_ok_if [call_intro]:
  "(b \<Longrightarrow> call_ok N F I m P) \<Longrightarrow> (\<not> b \<Longrightarrow> call_ok N F I n P) \<Longrightarrow> call_ok N F I (if b then m else n) P"
  by simp

lemma call_ok_inner [call_intro]:
  assumes m: "call_ok N F I m P"
  shows "call_ok N F (\<lambda>(c, s). J c \<and> I s) (inner m) P"
proof (rule call_okI)
  fix cs assume "(\<lambda>(c, s). J c \<and> I s) cs"
  then obtain c s where cs: "cs = (c, s)" "J c" "I s" by auto
  from call_okD [OF m cs(3)] cs show "outcome_ok N F (\<lambda>(c, s). J c \<and> I s) P (inner m cs)"
    by (cases "m s" rule: outcome_cases) (simp_all add: inner_def)
qed

section \<open>Queries\<close>

record query =
  constraints :: constraint_set
  q_expr :: expr

definition withExpr :: "query \<Rightarrow> expr \<Rightarrow> query" where
  "withExpr q e = q\<lparr>q_expr := e\<rparr>"

definition withFalse :: "query \<Rightarrow> query" where
  "withFalse q = withExpr q (ConstantExpr Bool 0)"

definition negateExpr :: "query \<Rightarrow> query option" where
  "negateExpr q = map_option (withExpr q) (createIsZero (q_expr q))"

datatype Validity = VTrue | VFalse | VUnknown

text \<open>
  What a query asks. The engine keeps its constraints satisfiable, and checks a divisor before it
  divides: the expression of a query has a value wherever the constraints hold.
\<close>

definition models :: "constraint_set \<Rightarrow> assignment \<Rightarrow> bool" where
  "models cs \<sigma> \<longleftrightarrow> wf_asg \<sigma> \<and> (\<forall>c\<in>set cs. eval \<sigma> c = Some 1)"

definition valid :: "query \<Rightarrow> bool" where
  "valid q \<longleftrightarrow> (\<forall>\<sigma>. models (constraints q) \<sigma> \<longrightarrow> eval \<sigma> (q_expr q) = Some 1)"

definition invalid :: "query \<Rightarrow> bool" where
  "invalid q \<longleftrightarrow> (\<forall>\<sigma>. models (constraints q) \<sigma> \<longrightarrow> eval \<sigma> (q_expr q) = Some 0)"

definition validity_of :: "query \<Rightarrow> Validity" where
  "validity_of q = (if valid q then VTrue else if invalid q then VFalse else VUnknown)"

definition possible :: "query \<Rightarrow> nat \<Rightarrow> bool" where
  "possible q v \<longleftrightarrow> (\<exists>\<sigma>. models (constraints q) \<sigma> \<and> eval \<sigma> (q_expr q) = Some v)"

definition admissible :: "query \<Rightarrow> bool" where
  "admissible q \<longleftrightarrow> list_all wf_constraint (constraints q) \<and> (\<exists>\<sigma>. models (constraints q) \<sigma>) \<and> wf_expr (q_expr q)
     \<and> (\<forall>\<sigma>. models (constraints q) \<sigma> \<longrightarrow> eval \<sigma> (q_expr q) \<noteq> None)"

definition bool_query :: "query \<Rightarrow> bool" where
  "bool_query q \<longleftrightarrow> admissible q \<and> getWidth (q_expr q) = Bool"

text \<open>The values of the objects at a solution of the constraints that falsifies the expression.\<close>

definition initial_values :: "query \<Rightarrow> array list \<Rightarrow> nat list list option \<Rightarrow> bool" where
  "initial_values q objects r =
     (case r of
        None \<Rightarrow> valid q
      | Some values \<Rightarrow> \<exists>\<sigma>. models (constraints q) \<sigma> \<and> eval \<sigma> (q_expr q) = Some 0
          \<and> values = map (\<lambda>a. map (arr_init \<sigma> a) [0..<arr_size a]) objects)"

lemma models_wf: "models cs \<sigma> \<Longrightarrow> wf_asg \<sigma>"
  by (simp add: models_def)

lemma withExpr_simps [simp]:
  "constraints (withExpr q e) = constraints q" "q_expr (withExpr q e) = e"
  by (simp_all add: withExpr_def)

lemma bool_query_cases:
  assumes "bool_query q" "models (constraints q) \<sigma>"
  obtains "eval \<sigma> (q_expr q) = Some 0" | "eval \<sigma> (q_expr q) = Some 1"
proof -
  from assms obtain v where v: "eval \<sigma> (q_expr q) = Some v" "wf_expr (q_expr q)" "getWidth (q_expr q) = 1"
    by (auto simp: bool_query_def admissible_def)
  with eval_less(1) [of "q_expr q" \<sigma> v] models_wf [OF assms(2)] have "v < 2" by simp
  with v that show ?thesis by (cases v) (auto simp: less_Suc_eq)
qed

text \<open>A query whose expression was replaced by one with the same values.\<close>

lemma query_refines:
  assumes "admissible q" "wf_expr e"
    and "\<forall>\<sigma> v. models (constraints q) \<sigma> \<longrightarrow> eval \<sigma> (q_expr q) = Some v \<longrightarrow> eval \<sigma> e = Some (f v)"
  shows "admissible (withExpr q e)" "models (constraints q) \<sigma> \<Longrightarrow> eval \<sigma> e = map_option f (eval \<sigma> (q_expr q))"
  using assms by (auto simp: admissible_def)

text \<open>A query built from another one: its answer is a statement on the values of the first.\<close>

lemma ask_query:
  assumes q: "admissible q" and m: "simplifies m e0" "getWidth e0 = Bool"
    and e0: "\<forall>\<sigma> v. models (constraints q) \<sigma> \<longrightarrow> eval \<sigma> (q_expr q) = Some v \<longrightarrow> eval \<sigma> e0 = Some (of_bool (g v))"
  shows "succeeds m (\<lambda>e. bool_query (withExpr q e) \<and> (valid (withExpr q e) \<longleftrightarrow> (\<forall>v. possible q v \<longrightarrow> g v))
    \<and> (invalid (withExpr q e) \<longleftrightarrow> (\<forall>v. possible q v \<longrightarrow> \<not> g v)))"
proof -
  from m(1) obtain e where e: "m = Some e" "refines e e0" by (rule simplifiesE)
  have mod: "\<forall>\<sigma> v. models (constraints q) \<sigma> \<longrightarrow> eval \<sigma> (q_expr q) = Some v \<longrightarrow> eval \<sigma> e = Some (of_bool (g v))"
    using e0 refines_eval [OF e(2)] models_wf by blast
  note new = query_refines [where f = "\<lambda>v. of_bool (g v)", OF q refines_wf [OF e(2)] mod]
  have "(eval \<sigma> e = Some 1 \<longleftrightarrow> (\<forall>v. eval \<sigma> (q_expr q) = Some v \<longrightarrow> g v))
    \<and> (eval \<sigma> e = Some 0 \<longleftrightarrow> (\<forall>v. eval \<sigma> (q_expr q) = Some v \<longrightarrow> \<not> g v))" if \<sigma>: "models (constraints q) \<sigma>" for \<sigma>
  proof -
    obtain v where "eval \<sigma> (q_expr q) = Some v" using q \<sigma> by (auto simp: admissible_def)
    with new(2) [OF \<sigma>] show ?thesis by simp
  qed
  then have "valid (withExpr q e) \<longleftrightarrow> (\<forall>v. possible q v \<longrightarrow> g v)" "invalid (withExpr q e) \<longleftrightarrow> (\<forall>v. possible q v \<longrightarrow> \<not> g v)"
    unfolding valid_def invalid_def possible_def withExpr_simps by blast+
  then show ?thesis using e new(1) m(2) refines_width [OF e(2)] by (simp add: bool_query_def)
qed

lemma bool_query_possible:
  assumes "bool_query q"
  shows "valid q \<longleftrightarrow> (\<forall>v. possible q v \<longrightarrow> v \<noteq> 0)" "invalid q \<longleftrightarrow> (\<forall>v. possible q v \<longrightarrow> v = 0)"
proof -
  have "eval \<sigma> (q_expr q) = Some 0 \<or> eval \<sigma> (q_expr q) = Some 1" if "models (constraints q) \<sigma>" for \<sigma>
    using bool_query_cases [OF assms that] by metis
  then show "valid q \<longleftrightarrow> (\<forall>v. possible q v \<longrightarrow> v \<noteq> 0)" "invalid q \<longleftrightarrow> (\<forall>v. possible q v \<longrightarrow> v = 0)"
    unfolding valid_def invalid_def possible_def by fastforce+
qed

lemma negateExpr_ok:
  assumes q: "bool_query q"
  shows "succeeds (negateExpr q) (\<lambda>n. bool_query n \<and> constraints n = constraints q
    \<and> valid n = invalid q \<and> invalid n = valid q)"
proof -
  have adm: "admissible q" and wf: "wf_expr (q_expr q)" using q by (auto simp: bool_query_def admissible_def)
  have "succeeds (createIsZero (q_expr q)) (\<lambda>e. bool_query (withExpr q e)
    \<and> (valid (withExpr q e) \<longleftrightarrow> (\<forall>v. possible q v \<longrightarrow> v = 0)) \<and> (invalid (withExpr q e) \<longleftrightarrow> (\<forall>v. possible q v \<longrightarrow> v \<noteq> 0)))"
    by (rule ask_query [OF adm createIsZero_simplifies [OF wf]]) simp_all
  then show ?thesis by (auto simp: negateExpr_def succeeds_def bool_query_possible [OF q])
qed

lemma not_both: "admissible q \<Longrightarrow> valid q \<Longrightarrow> \<not> invalid q"
  by (auto simp: admissible_def valid_def invalid_def)

section \<open>The interface of a solver\<close>

record 's SolverImpl =
  computeTruth :: "query \<Rightarrow> ('s, bool) call"
  computeValidity :: "query \<Rightarrow> ('s, Validity) call"
  computeValue :: "query \<Rightarrow> ('s, expr) call"
  computeInitialValues :: "query \<Rightarrow> array list \<Rightarrow> ('s, nat list list option) call"

text \<open>The default of \<open>computeValidity\<close>, in terms of \<open>computeTruth\<close>.\<close>

definition SolverImpl_computeValidity :: "(query \<Rightarrow> ('s, bool) call) \<Rightarrow> query \<Rightarrow> ('s, Validity) call" where
  "SolverImpl_computeValidity truth q =
     andThen (truth q) (\<lambda>isTrue.
       if isTrue then ret VTrue
       else build (negateExpr q) (\<lambda>n. andThen (truth n) (\<lambda>isFalse. ret (if isFalse then VFalse else VUnknown))))"

definition DummySolverImpl :: "'s SolverImpl" where
  "DummySolverImpl = \<lparr>computeTruth = (\<lambda>q. failed), computeValidity = (\<lambda>q. failed), computeValue = (\<lambda>q. failed),
     computeInitialValues = (\<lambda>q objects. failed)\<rparr>"

section \<open>The operations of a solver\<close>

definition Solver_evaluate :: "'s SolverImpl \<Rightarrow> query \<Rightarrow> ('s, Validity) call" where
  "Solver_evaluate impl q =
     (if getWidth (q_expr q) \<noteq> Bool then asserted
      else case dyn_cast_ConstantExpr (q_expr q) of
          Some (w, v) \<Rightarrow> ret (if ConstantExpr_isTrue w v then VTrue else VFalse)
        | None \<Rightarrow> computeValidity impl q)"

definition Solver_mustBeTrue :: "'s SolverImpl \<Rightarrow> query \<Rightarrow> ('s, bool) call" where
  "Solver_mustBeTrue impl q =
     (if getWidth (q_expr q) \<noteq> Bool then asserted
      else case dyn_cast_ConstantExpr (q_expr q) of
          Some (w, v) \<Rightarrow> ret (ConstantExpr_isTrue w v)
        | None \<Rightarrow> computeTruth impl q)"

definition Solver_mustBeFalse :: "'s SolverImpl \<Rightarrow> query \<Rightarrow> ('s, bool) call" where
  "Solver_mustBeFalse impl q = build (negateExpr q) (Solver_mustBeTrue impl)"

definition Solver_mayBeTrue :: "'s SolverImpl \<Rightarrow> query \<Rightarrow> ('s, bool) call" where
  "Solver_mayBeTrue impl q = andThen (Solver_mustBeFalse impl q) (\<lambda>res. ret (\<not> res))"

definition Solver_mayBeFalse :: "'s SolverImpl \<Rightarrow> query \<Rightarrow> ('s, bool) call" where
  "Solver_mayBeFalse impl q = andThen (Solver_mustBeTrue impl q) (\<lambda>res. ret (\<not> res))"

text \<open>\<open>cast<ConstantExpr>\<close> asserts that the value is a constant.\<close>

definition Solver_getValue :: "'s SolverImpl \<Rightarrow> query \<Rightarrow> ('s, expr) call" where
  "Solver_getValue impl q =
     (if isConstantExpr (q_expr q) then ret (q_expr q)
      else andThen (computeValue impl q) (\<lambda>tmp. if isConstantExpr tmp then ret tmp else asserted))"

definition Solver_getInitialValues :: "'s SolverImpl \<Rightarrow> query \<Rightarrow> array list \<Rightarrow> ('s, nat list list) call" where
  "Solver_getInitialValues impl q objects =
     andThen (computeInitialValues impl q objects) (\<lambda>r. case r of None \<Rightarrow> failed | Some values \<Rightarrow> ret values)"

section \<open>Ranges\<close>

text \<open>The three loops of \<open>getRange\<close>: the least number from \<open>lo\<close> to \<open>hi\<close> at which the answer is yes.\<close>

function binsearch :: "(nat \<Rightarrow> ('s, bool) call) \<Rightarrow> nat \<Rightarrow> nat \<Rightarrow> ('s, nat) call" where
  "binsearch ask lo hi =
     (if lo < hi then
        let mid = lo + (hi - lo) div 2
        in andMust (ask mid) (\<lambda>res. if res then binsearch ask lo mid else binsearch ask (mid + 1) hi)
      else ret lo)"
  by pat_completeness auto
termination
  by (relation "measure (\<lambda>(ask, lo, hi). hi - lo)") auto

declare binsearch.simps [simp del]

definition maxValueOfNBits :: "nat \<Rightarrow> nat option" where
  "maxValueOfNBits n = (if n \<le> 64 then Some (2 ^ n - 1) else None)"

definition ConstantExpr_create :: "nat \<Rightarrow> nat \<Rightarrow> expr option" where
  "ConstantExpr_create v w = (if w \<le> 64 \<and> (w = 0 \<or> v \<noteq> v mod 2 ^ w) then None else Some (ConstantExpr w v))"

definition rangeResult :: "nat \<Rightarrow> nat \<Rightarrow> nat \<Rightarrow> ('s, expr \<times> expr) call" where
  "rangeResult width mn mx =
     build (ConstantExpr_create mn width) (\<lambda>a. build (ConstantExpr_create mx width) (\<lambda>b. ret (a, b)))"

text \<open>The question whether the expression is at most \<open>mid\<close>.\<close>

definition askUpTo :: "(query \<Rightarrow> ('s, bool) call) \<Rightarrow> query \<Rightarrow> nat \<Rightarrow> ('s, bool) call" where
  "askUpTo solve q mid =
     build (ConstantExpr_create mid (getWidth (q_expr q)) \<bind> UleExpr_create (q_expr q)) (\<lambda>c. solve (withExpr q c))"

text \<open>The question whether only the lowest \<open>mid\<close> bits of the expression are used.\<close>

definition askBits :: "(query \<Rightarrow> ('s, bool) call) \<Rightarrow> query \<Rightarrow> nat \<Rightarrow> ('s, bool) call" where
  "askBits solve q mid =
     build (ConstantExpr_create mid (getWidth (q_expr q)) \<bind> LShrExpr_create (q_expr q)
       \<bind> (\<lambda>e. ConstantExpr_create 0 (getWidth (q_expr q)) \<bind> EqExpr_create e)) (\<lambda>c. solve (withExpr q c))"

definition Solver_getRange :: "'s SolverImpl \<Rightarrow> query \<Rightarrow> ('s, expr \<times> expr) call" where
  "Solver_getRange impl q =
     (let e = q_expr q; width = getWidth e
      in if width = 1 then
           andMust (Solver_evaluate impl q) (\<lambda>result. case result of
               VTrue \<Rightarrow> rangeResult width 1 1
             | VFalse \<Rightarrow> rangeResult width 0 0
             | VUnknown \<Rightarrow> rangeResult width 0 1)
         else case dyn_cast_ConstantExpr e of
           Some (w, v) \<Rightarrow> if w > 64 then asserted else rangeResult width v v
         | None \<Rightarrow>
             andMust (binsearch (askBits (Solver_mustBeTrue impl) q) 0 width) (\<lambda>bits.
             build (ConstantExpr_create 0 width \<bind> EqExpr_create e) (\<lambda>c. andMust (Solver_mayBeTrue impl (withExpr q c)) (\<lambda>res.
             andMust (if res then ret 0
               else build (maxValueOfNBits bits) (binsearch (askUpTo (Solver_mayBeTrue impl) q) 0)) (\<lambda>mn.
             andMust (build (maxValueOfNBits bits) (binsearch (askUpTo (Solver_mustBeTrue impl) q) mn)) (\<lambda>mx.
             rangeResult width mn mx))))))"

section \<open>The contract of a solver\<close>

locale sound_solver =
  fixes N :: bool and F :: bool and I :: "'s \<Rightarrow> bool" and impl :: "'s SolverImpl"
  assumes truth: "bool_query q \<Longrightarrow> call_ok N F I (computeTruth impl q) (\<lambda>b. b = valid q)"
    and validity: "bool_query q \<Longrightarrow> call_ok N F I (computeValidity impl q) (\<lambda>r. r = validity_of q)"
    and val: "admissible q \<Longrightarrow> call_ok N F I (computeValue impl q)
      (\<lambda>e. \<exists>v. possible q v \<and> e = ConstantExpr (getWidth (q_expr q)) v)"
    and initial: "bool_query q \<Longrightarrow> call_ok N F I (computeInitialValues impl q objects) (initial_values q objects)"
begin

lemma mustBeTrue_ok: "bool_query q \<Longrightarrow> call_ok N F I (Solver_mustBeTrue impl q) (\<lambda>b. b = valid q)"
proof -
  assume q: "bool_query q"
  have "call_ok N F I (ret (ConstantExpr_isTrue w v)) (\<lambda>b. b = valid q)" if "q_expr q = ConstantExpr w v" for w v
    using that q by (intro call_ok_ret) (auto simp: ConstantExpr_isTrue_def valid_def bool_query_def admissible_def)
  then show ?thesis using q truth [OF q]
    by (cases "dyn_cast_ConstantExpr (q_expr q)") (auto simp: Solver_mustBeTrue_def bool_query_def)
qed

lemma evaluate_ok: "bool_query q \<Longrightarrow> call_ok N F I (Solver_evaluate impl q) (\<lambda>r. r = validity_of q)"
proof -
  assume q: "bool_query q"
  have "call_ok N F I (ret (if ConstantExpr_isTrue w v then VTrue else VFalse)) (\<lambda>r. r = validity_of q)"
    if "q_expr q = ConstantExpr w v" for w v
    using that q by (intro call_ok_ret)
      (auto simp: ConstantExpr_isTrue_def validity_of_def valid_def invalid_def bool_query_def admissible_def)
  then show ?thesis using q validity [OF q]
    by (cases "dyn_cast_ConstantExpr (q_expr q)") (auto simp: Solver_evaluate_def bool_query_def)
qed

lemma mustBeFalse_ok: "bool_query q \<Longrightarrow> call_ok N F I (Solver_mustBeFalse impl q) (\<lambda>b. b = invalid q)"
  unfolding Solver_mustBeFalse_def
  by (rule call_ok_build [OF negateExpr_ok], assumption) (auto intro: call_ok_mono [OF mustBeTrue_ok])

lemma mayBeTrue_ok: "bool_query q \<Longrightarrow> call_ok N F I (Solver_mayBeTrue impl q) (\<lambda>b. b = (\<not> invalid q))"
  unfolding Solver_mayBeTrue_def by (rule call_ok_andThen [OF mustBeFalse_ok]) (auto intro: call_intro)

lemma mayBeFalse_ok: "bool_query q \<Longrightarrow> call_ok N F I (Solver_mayBeFalse impl q) (\<lambda>b. b = (\<not> valid q))"
  unfolding Solver_mayBeFalse_def by (rule call_ok_andThen [OF mustBeTrue_ok]) (auto intro: call_intro)

lemma getValue_ok:
  assumes "admissible q"
  shows "call_ok N F I (Solver_getValue impl q) (\<lambda>e. \<exists>v. possible q v \<and> e = ConstantExpr (getWidth (q_expr q)) v)"
proof (cases "isConstantExpr (q_expr q)")
  case True
  then obtain w v where "q_expr q = ConstantExpr w v" by (cases "q_expr q") auto
  with assms show ?thesis
    by (auto simp: Solver_getValue_def possible_def admissible_def intro!: call_intro)
next
  case False
  then show ?thesis unfolding Solver_getValue_def
    by (simp, intro call_ok_andThen [OF val [OF assms]]) (auto intro!: call_intro)
qed

lemma getInitialValues_ok:
  assumes "bool_query q" "F"
  shows "call_ok N F I (Solver_getInitialValues impl q objects) (\<lambda>vs. initial_values q objects (Some vs))"
  unfolding Solver_getInitialValues_def
  by (rule call_ok_andThen [OF initial [OF assms(1)]]) (use assms(2) in \<open>auto intro!: call_intro split: option.split\<close>)

text \<open>The default of \<open>computeValidity\<close> is sound if \<open>computeTruth\<close> is.\<close>

lemma default_validity_ok:
  assumes "bool_query q"
  shows "call_ok N F I (SolverImpl_computeValidity (computeTruth impl) q) (\<lambda>r. r = validity_of q)"
  unfolding SolverImpl_computeValidity_def
proof (rule call_ok_andThen [OF truth [OF assms]], rule call_ok_if)
  fix b assume b: "b = valid q"
  { assume "b" with b show "call_ok N F I (ret VTrue) (\<lambda>r. r = validity_of q)"
      by (intro call_intro) (simp add: validity_of_def) }
  assume nb: "\<not> b"
  show "call_ok N F I (build (negateExpr q) (\<lambda>n. andThen (computeTruth impl n) (\<lambda>isFalse.
    ret (if isFalse then VFalse else VUnknown)))) (\<lambda>r. r = validity_of q)"
  proof (rule call_ok_build [OF negateExpr_ok [OF assms]])
    fix n assume n: "bool_query n \<and> constraints n = constraints q \<and> valid n = invalid q \<and> invalid n = valid q"
    then have bn: "bool_query n" by simp
    show "call_ok N F I (andThen (computeTruth impl n) (\<lambda>isFalse. ret (if isFalse then VFalse else VUnknown))) (\<lambda>r. r = validity_of q)"
      by (rule call_ok_andThen [OF truth [OF bn]], rule call_ok_ret) (use n b nb in \<open>simp add: validity_of_def\<close>)
  qed
qed

end

lemma sound_solver_weaken:
  assumes "sound_solver N F I impl" and w: "N \<longrightarrow> N'" "F \<longrightarrow> F'"
  shows "sound_solver N' F' I impl"
  by unfold_locales (rule call_ok_weaken [OF sound_solver.truth [OF assms(1)] w]
    call_ok_weaken [OF sound_solver.validity [OF assms(1)] w] call_ok_weaken [OF sound_solver.val [OF assms(1)] w]
    call_ok_weaken [OF sound_solver.initial [OF assms(1)] w]; assumption)+

section \<open>Ranges are tight\<close>

lemma binsearch_ok:
  assumes "F \<longrightarrow> N" "lo \<le> hi" "P hi" "\<And>m n. m \<le> n \<Longrightarrow> P m \<Longrightarrow> P n"
    and "\<And>m. m < hi \<Longrightarrow> call_ok N F I (ask m) (\<lambda>b. b = P m)"
  shows "call_ok N F I (binsearch ask lo hi) (\<lambda>r. lo \<le> r \<and> r \<le> hi \<and> P r \<and> (\<forall>m. lo \<le> m \<and> m < r \<longrightarrow> \<not> P m))"
  using assms
proof (induction ask lo hi rule: binsearch.induct)
  case (1 ask lo hi)
  show ?case
  proof (cases "lo < hi")
    case False
    with 1 show ?thesis by (subst binsearch.simps) (auto intro!: call_intro)
  next
    case True
    define mid where "mid = lo + (hi - lo) div 2"
    have mid: "lo \<le> mid" "mid < hi" using True by (auto simp: mid_def)
    have "call_ok N F I (andMust (ask mid) (\<lambda>res. if res then binsearch ask lo mid else binsearch ask (mid + 1) hi))
      (\<lambda>r. lo \<le> r \<and> r \<le> hi \<and> P r \<and> (\<forall>m. lo \<le> m \<and> m < r \<longrightarrow> \<not> P m))"
    proof (rule call_ok_andMust [OF 1(7) [OF mid(2)] 1(3)], rule call_ok_if)
      fix b assume b: "b = P mid"
      { assume "b"
        show "call_ok N F I (binsearch ask lo mid) (\<lambda>r. lo \<le> r \<and> r \<le> hi \<and> P r \<and> (\<forall>m. lo \<le> m \<and> m < r \<longrightarrow> \<not> P m))"
          by (rule call_ok_mono [OF 1(1) [OF True mid_def \<open>b\<close>]]) (use 1 b \<open>b\<close> mid in auto) }
      assume "\<not> b"
      with b have low: "\<not> P m" if "m \<le> mid" for m using 1(6) that by blast
      show "call_ok N F I (binsearch ask (mid + 1) hi) (\<lambda>r. lo \<le> r \<and> r \<le> hi \<and> P r \<and> (\<forall>m. lo \<le> m \<and> m < r \<longrightarrow> \<not> P m))"
      proof (rule call_ok_mono [OF 1(2) [OF True mid_def \<open>\<not> b\<close>]])
        fix r assume r: "mid + 1 \<le> r \<and> r \<le> hi \<and> P r \<and> (\<forall>m. mid + 1 \<le> m \<and> m < r \<longrightarrow> \<not> P m)"
        have "\<not> P m" if "m < r" for m using r low [of m] that by (cases "m \<le> mid") auto
        with r mid show "lo \<le> r \<and> r \<le> hi \<and> P r \<and> (\<forall>m. lo \<le> m \<and> m < r \<longrightarrow> \<not> P m)" by auto
      qed (use 1 mid in auto)
    qed
    with True show ?thesis by (subst binsearch.simps) (simp add: Let_def flip: mid_def)
  qed
qed

lemma possible_less: "admissible q \<Longrightarrow> possible q v \<Longrightarrow> v < 2 ^ getWidth (q_expr q)"
  unfolding possible_def admissible_def by (metis eval_less(1) models_wf)

lemma possible_ex: "admissible q \<Longrightarrow> \<exists>v. possible q v"
  unfolding possible_def admissible_def by (metis not_None_eq)

text \<open>The questions of \<open>getRange\<close>.\<close>

lemma ask_upTo:
  assumes q: "admissible q" and m: "m < 2 ^ getWidth (q_expr q)"
  shows "succeeds (ConstantExpr_create m (getWidth (q_expr q)) \<bind> UleExpr_create (q_expr q))
    (\<lambda>e. bool_query (withExpr q e) \<and> (valid (withExpr q e) \<longleftrightarrow> (\<forall>v. possible q v \<longrightarrow> v \<le> m))
      \<and> (invalid (withExpr q e) \<longleftrightarrow> (\<forall>v. possible q v \<longrightarrow> \<not> v \<le> m)))"
proof (rule ask_query [OF q])
  have wf: "wf_expr (q_expr q)" using q by (simp add: admissible_def)
  show "simplifies (ConstantExpr_create m (getWidth (q_expr q)) \<bind> UleExpr_create (q_expr q))
    (BinaryExpr Ule (q_expr q) (ConstantExpr (getWidth (q_expr q)) m))"
    using m less_create_simplifies(2) [OF wf, of "ConstantExpr (getWidth (q_expr q)) m"] wf_getWidth_pos [OF wf]
    by (simp add: ConstantExpr_create_def)
qed simp_all

lemma ask_zero:
  assumes q: "admissible q"
  shows "succeeds (ConstantExpr_create 0 (getWidth (q_expr q)) \<bind> EqExpr_create (q_expr q))
    (\<lambda>e. bool_query (withExpr q e) \<and> (valid (withExpr q e) \<longleftrightarrow> (\<forall>v. possible q v \<longrightarrow> v = 0))
      \<and> (invalid (withExpr q e) \<longleftrightarrow> (\<forall>v. possible q v \<longrightarrow> \<not> v = 0)))"
proof (rule ask_query [OF q])
  have wf: "wf_expr (q_expr q)" using q by (simp add: admissible_def)
  show "simplifies (ConstantExpr_create 0 (getWidth (q_expr q)) \<bind> EqExpr_create (q_expr q))
    (BinaryExpr Eq (q_expr q) (ConstantExpr (getWidth (q_expr q)) 0))"
    using EqExpr_create_simplifies [OF wf, of "ConstantExpr (getWidth (q_expr q)) 0"] wf_getWidth_pos [OF wf]
    by (simp add: ConstantExpr_create_def)
qed simp_all

lemma ask_bits:
  assumes q: "admissible q" and m: "m < getWidth (q_expr q)"
  shows "succeeds (ConstantExpr_create m (getWidth (q_expr q)) \<bind> LShrExpr_create (q_expr q)
      \<bind> (\<lambda>e. ConstantExpr_create 0 (getWidth (q_expr q)) \<bind> EqExpr_create e))
    (\<lambda>e. bool_query (withExpr q e) \<and> (valid (withExpr q e) \<longleftrightarrow> (\<forall>v. possible q v \<longrightarrow> v < 2 ^ m))
      \<and> (invalid (withExpr q e) \<longleftrightarrow> (\<forall>v. possible q v \<longrightarrow> \<not> v < 2 ^ m)))"
proof (rule ask_query [OF q])
  let ?e = "q_expr q" and ?w = "getWidth (q_expr q)"
  have wf: "wf_expr ?e" and pos: "0 < ?w" and le: "m < 2 ^ ?w"
    using q wf_getWidth_pos [of ?e] less_trans [OF m less_exp] by (simp_all add: admissible_def)
  have "simplifies (LShrExpr_create ?e (ConstantExpr ?w m) \<bind> (\<lambda>e. EqExpr_create e (ConstantExpr ?w 0)))
    (BinaryExpr Eq (BinaryExpr LShr ?e (ConstantExpr ?w m)) (ConstantExpr ?w 0))"
  proof (rule simplifies_bind)
    show "simplifies (LShrExpr_create ?e (ConstantExpr ?w m)) (BinaryExpr LShr ?e (ConstantExpr ?w m))"
      using wf pos le by (intro shift_create_simplifies) auto
    fix e assume e: "refines e (BinaryExpr LShr ?e (ConstantExpr ?w m))"
    show "simplifies (EqExpr_create e (ConstantExpr ?w 0))
      (BinaryExpr Eq (BinaryExpr LShr ?e (ConstantExpr ?w m)) (ConstantExpr ?w 0))"
      using refines_wf [OF e] refines_width [OF e] pos
      by (intro simplifies_trans [OF EqExpr_create_simplifies refines_Binary [OF e]]) auto
  qed
  then show "simplifies (ConstantExpr_create m ?w \<bind> LShrExpr_create ?e
      \<bind> (\<lambda>e. ConstantExpr_create 0 ?w \<bind> EqExpr_create e))
    (BinaryExpr Eq (BinaryExpr LShr ?e (ConstantExpr ?w m)) (ConstantExpr ?w 0))"
    using le pos by (simp add: ConstantExpr_create_def)
  show "\<forall>\<sigma> v. models (constraints q) \<sigma> \<longrightarrow> eval \<sigma> ?e = Some v \<longrightarrow>
    eval \<sigma> (BinaryExpr Eq (BinaryExpr LShr ?e (ConstantExpr ?w m)) (ConstantExpr ?w 0)) = Some (of_bool (v < 2 ^ m))"
    using m by (auto simp: bv_lshr_def div_eq_0_iff)
qed simp

text \<open>The result of \<open>getRange\<close> has the bounds of the possible values.\<close>

definition tight_range :: "query \<Rightarrow> expr \<times> expr \<Rightarrow> bool" where
  "tight_range q r \<longleftrightarrow> (\<exists>mn mx. r = (ConstantExpr (getWidth (q_expr q)) mn, ConstantExpr (getWidth (q_expr q)) mx)
     \<and> possible q mn \<and> possible q mx \<and> (\<forall>v. possible q v \<longrightarrow> mn \<le> v \<and> v \<le> mx))"

lemma rangeResult_ok:
  assumes "admissible q" "possible q mn" "possible q mx" "\<forall>v. possible q v \<longrightarrow> mn \<le> v \<and> v \<le> mx"
  shows "call_ok N F I (rangeResult (getWidth (q_expr q)) mn mx) (tight_range q)"
proof -
  have "0 < getWidth (q_expr q)" using assms(1) wf_getWidth_pos by (auto simp: admissible_def)
  then have "ConstantExpr_create v (getWidth (q_expr q)) = Some (ConstantExpr (getWidth (q_expr q)) v)" if "possible q v" for v
    using possible_less [OF assms(1) that] by (simp add: ConstantExpr_create_def)
  with assms show ?thesis unfolding rangeResult_def build_def
    by (auto simp: tight_range_def intro!: call_intro)
qed

text \<open>The number of useful bits was found.\<close>

definition bits_ok :: "query \<Rightarrow> nat \<Rightarrow> bool" where
  "bits_ok q b \<longleftrightarrow> b \<le> 64 \<and> b \<le> getWidth (q_expr q) \<and> (\<forall>v. possible q v \<longrightarrow> v < 2 ^ b)"

lemma bits_ok_top:
  assumes "bits_ok q b"
  shows "succeeds (maxValueOfNBits b) (\<lambda>t. (\<forall>v. possible q v \<longrightarrow> v \<le> t) \<and> (\<forall>m < t. m < 2 ^ getWidth (q_expr q)))"
proof -
  have "(2::nat) ^ b \<le> 2 ^ getWidth (q_expr q)" using assms by (simp add: bits_ok_def)
  then have "m < 2 ^ getWidth (q_expr q)" if "m < 2 ^ b - 1" for m :: nat using that by linarith
  moreover have "\<forall>v. possible q v \<longrightarrow> v \<le> 2 ^ b - 1" using assms by (fastforce simp: bits_ok_def)
  ultimately show ?thesis using assms by (simp add: maxValueOfNBits_def bits_ok_def)
qed

context sound_solver
begin

lemma getRange_bool:
  assumes q: "bool_query q" and fn: "F \<longrightarrow> N"
  shows "call_ok N F I (andMust (Solver_evaluate impl q) (\<lambda>result. case result of
      VTrue \<Rightarrow> rangeResult (getWidth (q_expr q)) 1 1 | VFalse \<Rightarrow> rangeResult (getWidth (q_expr q)) 0 0
    | VUnknown \<Rightarrow> rangeResult (getWidth (q_expr q)) 0 1)) (tight_range q)"
proof (rule call_ok_andMust [OF evaluate_ok [OF q] fn])
  have adm: "admissible q" and w: "getWidth (q_expr q) = 1" using q by (simp_all add: bool_query_def)
  have two: "v = 0 \<or> v = 1" if "possible q v" for v using possible_less [OF adm that] w by auto
  obtain u where u: "possible q u" using possible_ex [OF adm] ..
  fix r assume r: "r = validity_of q"
  show "call_ok N F I (case r of VTrue \<Rightarrow> rangeResult (getWidth (q_expr q)) 1 1 | VFalse \<Rightarrow> rangeResult (getWidth (q_expr q)) 0 0
    | VUnknown \<Rightarrow> rangeResult (getWidth (q_expr q)) 0 1) (tight_range q)"
  proof (cases r)
    case VTrue
    with r have "\<forall>v. possible q v \<longrightarrow> v \<noteq> 0" using bool_query_possible(1) [OF q] by (auto simp: validity_of_def split: if_splits)
    with two u have "possible q 1" "\<forall>v. possible q v \<longrightarrow> 1 \<le> v \<and> v \<le> 1" by (metis, metis order_refl)
    from rangeResult_ok [OF adm this(1,1,2)] VTrue show ?thesis by simp
  next
    case VFalse
    with r have "\<forall>v. possible q v \<longrightarrow> v = 0" using bool_query_possible(2) [OF q] by (auto simp: validity_of_def split: if_splits)
    with u have "possible q 0" "\<forall>v. possible q v \<longrightarrow> 0 \<le> v \<and> v \<le> 0" by auto
    from rangeResult_ok [OF adm this(1,1,2)] VFalse show ?thesis by simp
  next
    case VUnknown
    with r have "\<not> valid q" "\<not> invalid q" by (auto simp: validity_of_def split: if_splits)
    then have "possible q 0" "possible q 1" using bool_query_possible [OF q] two by (metis, metis)
    moreover have "\<forall>v. possible q v \<longrightarrow> 0 \<le> v \<and> v \<le> 1" using two by fastforce
    ultimately have "call_ok N F I (rangeResult (getWidth (q_expr q)) 0 1) (tight_range q)"
      by (rule rangeResult_ok [OF adm])
    with VUnknown show ?thesis by simp
  qed
qed

lemma askUpTo_ok:
  assumes "admissible q" "m < 2 ^ getWidth (q_expr q)"
  shows "call_ok N F I (askUpTo (Solver_mayBeTrue impl) q m) (\<lambda>r. r = (\<exists>v. possible q v \<and> v \<le> m))"
    "call_ok N F I (askUpTo (Solver_mustBeTrue impl) q m) (\<lambda>r. r = (\<forall>v. possible q v \<longrightarrow> v \<le> m))"
  unfolding askUpTo_def
  by (rule call_ok_build [OF ask_upTo [OF assms]], rule call_ok_mono [OF mayBeTrue_ok]; auto)
    (rule call_ok_build [OF ask_upTo [OF assms]], rule call_ok_mono [OF mustBeTrue_ok]; auto)

lemma getRange_min:
  assumes q: "admissible q" and fn: "F \<longrightarrow> N" and b: "bits_ok q b"
  shows "call_ok N F I (build (maxValueOfNBits b) (binsearch (askUpTo (Solver_mayBeTrue impl) q) 0))
    (\<lambda>mn. possible q mn \<and> (\<forall>v. possible q v \<longrightarrow> mn \<le> v))"
proof (rule call_ok_build [OF bits_ok_top [OF b]], rule call_ok_mono)
  fix t assume t: "(\<forall>v. possible q v \<longrightarrow> v \<le> t) \<and> (\<forall>m < t. m < 2 ^ getWidth (q_expr q))"
  show "call_ok N F I (binsearch (askUpTo (Solver_mayBeTrue impl) q) 0 t)
    (\<lambda>r. 0 \<le> r \<and> r \<le> t \<and> (\<exists>v. possible q v \<and> v \<le> r) \<and> (\<forall>m. 0 \<le> m \<and> m < r \<longrightarrow> \<not> (\<exists>v. possible q v \<and> v \<le> m)))"
    by (intro binsearch_ok fn askUpTo_ok q) (use possible_ex [OF q] t order_trans in auto)
next
  fix t r assume r: "0 \<le> r \<and> r \<le> t \<and> (\<exists>v. possible q v \<and> v \<le> r) \<and> (\<forall>m. 0 \<le> m \<and> m < r \<longrightarrow> \<not> (\<exists>v. possible q v \<and> v \<le> m))"
  then obtain v where v: "possible q v" "v \<le> r" by auto
  have low: "r \<le> w" if "possible q w" for w using r that by (metis le0 not_le order_refl)
  with v have "v = r" by (simp add: antisym)
  with v low show "possible q r \<and> (\<forall>v. possible q v \<longrightarrow> r \<le> v)" by simp
qed

lemma getRange_max:
  assumes q: "admissible q" and fn: "F \<longrightarrow> N" and b: "bits_ok q b" and mn: "possible q mn"
  shows "call_ok N F I (build (maxValueOfNBits b) (binsearch (askUpTo (Solver_mustBeTrue impl) q) mn))
    (\<lambda>mx. possible q mx \<and> (\<forall>v. possible q v \<longrightarrow> v \<le> mx))"
proof (rule call_ok_build [OF bits_ok_top [OF b]], rule call_ok_mono)
  fix t assume t: "(\<forall>v. possible q v \<longrightarrow> v \<le> t) \<and> (\<forall>m < t. m < 2 ^ getWidth (q_expr q))"
  show "call_ok N F I (binsearch (askUpTo (Solver_mustBeTrue impl) q) mn t)
    (\<lambda>r. mn \<le> r \<and> r \<le> t \<and> (\<forall>v. possible q v \<longrightarrow> v \<le> r) \<and> (\<forall>m. mn \<le> m \<and> m < r \<longrightarrow> \<not> (\<forall>v. possible q v \<longrightarrow> v \<le> m)))"
    by (intro binsearch_ok fn askUpTo_ok q) (use mn t order_trans in auto)
next
  fix t r assume r: "mn \<le> r \<and> r \<le> t \<and> (\<forall>v. possible q v \<longrightarrow> v \<le> r) \<and> (\<forall>m. mn \<le> m \<and> m < r \<longrightarrow> \<not> (\<forall>v. possible q v \<longrightarrow> v \<le> m))"
  have "possible q r"
  proof (cases "r = mn")
    case False
    then have "mn \<le> r - 1 \<and> r - 1 < r" using r by auto
    then have "\<not> (\<forall>v. possible q v \<longrightarrow> v \<le> r - 1)" using r by blast
    then obtain v where v: "possible q v" "r - 1 < v" by auto
    then have "v = r" using r by fastforce
    with v show ?thesis by simp
  qed (use mn in simp)
  with r show "possible q r \<and> (\<forall>v. possible q v \<longrightarrow> v \<le> r)" by simp
qed

lemma askBits_ok:
  assumes "admissible q" "m < getWidth (q_expr q)"
  shows "call_ok N F I (askBits (Solver_mustBeTrue impl) q m) (\<lambda>r. r = (\<forall>v. possible q v \<longrightarrow> v < 2 ^ m))"
  unfolding askBits_def
  by (rule call_ok_build [OF ask_bits [OF assms]], rule call_ok_mono [OF mustBeTrue_ok]; auto)

lemma getRange_bits:
  assumes q: "admissible q" "getWidth (q_expr q) \<le> 64" and fn: "F \<longrightarrow> N"
  shows "call_ok N F I (binsearch (askBits (Solver_mustBeTrue impl) q) 0 (getWidth (q_expr q))) (bits_ok q)"
proof (rule call_ok_mono)
  show "call_ok N F I (binsearch (askBits (Solver_mustBeTrue impl) q) 0 (getWidth (q_expr q)))
      (\<lambda>r. 0 \<le> r \<and> r \<le> getWidth (q_expr q) \<and> (\<forall>v. possible q v \<longrightarrow> v < 2 ^ r)
      \<and> (\<forall>m. 0 \<le> m \<and> m < r \<longrightarrow> \<not> (\<forall>v. possible q v \<longrightarrow> v < 2 ^ m)))"
  proof (rule binsearch_ok [OF fn])
    fix m n :: nat assume "m \<le> n" "\<forall>v. possible q v \<longrightarrow> v < 2 ^ m"
    moreover have "(2::nat) ^ m \<le> 2 ^ n" using \<open>m \<le> n\<close> by simp
    ultimately show "\<forall>v. possible q v \<longrightarrow> v < 2 ^ n" using less_le_trans by blast
  qed (use possible_less [OF q(1)] askBits_ok [OF q(1)] in auto)
qed (use q(2) in \<open>auto simp: bits_ok_def\<close>)

lemma getRange_ok:
  assumes q: "admissible q" "getWidth (q_expr q) \<le> 64" and fn: "F \<longrightarrow> N"
  shows "call_ok N F I (Solver_getRange impl q) (tight_range q)"
proof -
  let ?w = "getWidth (q_expr q)"
  consider "?w = 1" | w v where "?w \<noteq> 1" "q_expr q = ConstantExpr w v" | "?w \<noteq> 1" "dyn_cast_ConstantExpr (q_expr q) = None"
    by (cases "q_expr q") auto
  then show ?thesis
  proof cases
    case 1
    then show ?thesis using getRange_bool [OF _ fn, of q] q by (simp add: Solver_getRange_def bool_query_def Let_def)
  next
    case 2
    then have "possible q u \<longleftrightarrow> u = v" for u using q by (auto simp: possible_def admissible_def)
    then have "call_ok N F I (rangeResult ?w v v) (tight_range q)" by (intro rangeResult_ok q(1)) simp_all
    with 2 q show ?thesis by (simp add: Solver_getRange_def Let_def)
  next
    case 3
    have zero: "succeeds (ConstantExpr_create 0 ?w \<bind> EqExpr_create (q_expr q))
      (\<lambda>e. bool_query (withExpr q e) \<and> (\<not> invalid (withExpr q e) \<longleftrightarrow> possible q 0))"
      by (rule succeeds_mono [OF ask_zero [OF q(1)]]) auto
    have "call_ok N F I (andMust (binsearch (askBits (Solver_mustBeTrue impl) q) 0 ?w) (\<lambda>bits.
      build (ConstantExpr_create 0 ?w \<bind> EqExpr_create (q_expr q)) (\<lambda>c. andMust (Solver_mayBeTrue impl (withExpr q c)) (\<lambda>res.
      andMust (if res then ret 0 else build (maxValueOfNBits bits) (binsearch (askUpTo (Solver_mayBeTrue impl) q) 0)) (\<lambda>mn.
      andMust (build (maxValueOfNBits bits) (binsearch (askUpTo (Solver_mustBeTrue impl) q) mn)) (\<lambda>mx.
      rangeResult ?w mn mx)))))) (tight_range q)"
    proof (rule call_ok_andMust [OF getRange_bits [OF q fn] fn], rule call_ok_build [OF zero], rule call_ok_andMust [OF mayBeTrue_ok fn])
      fix bits c res
      assume b: "bits_ok q bits" and c: "bool_query (withExpr q c) \<and> (\<not> invalid (withExpr q c) \<longleftrightarrow> possible q 0)"
        and res: "res = (\<not> invalid (withExpr q c))"
      have "call_ok N F I (if res then ret 0 else build (maxValueOfNBits bits) (binsearch (askUpTo (Solver_mayBeTrue impl) q) 0))
        (\<lambda>mn. possible q mn \<and> (\<forall>v. possible q v \<longrightarrow> mn \<le> v))"
        using getRange_min [OF q(1) fn b] c res by (intro call_ok_if call_ok_ret) auto
      then show "call_ok N F I (andMust (if res then ret 0 else build (maxValueOfNBits bits) (binsearch (askUpTo (Solver_mayBeTrue impl) q) 0)) (\<lambda>mn.
        andMust (build (maxValueOfNBits bits) (binsearch (askUpTo (Solver_mustBeTrue impl) q) mn)) (\<lambda>mx. rangeResult ?w mn mx))) (tight_range q)"
        by (rule call_ok_andMust [OF _ fn], elim conjE, intro call_ok_andMust [OF getRange_max [OF q(1) fn b] fn])
          (auto intro: rangeResult_ok [OF q(1)])
    qed simp
    with 3 show ?thesis by (simp add: Solver_getRange_def Let_def)
  qed
qed

end

interpretation dummy_solver: sound_solver False True "\<lambda>s. True" DummySolverImpl
  by unfold_locales (simp_all add: DummySolverImpl_def call_intro)

section \<open>What the operations answer\<close>

text \<open>
  A solver for the examples: it answers that a query is true if its expression is one of the
  constraints, and knows the value of an expression that a constraint equates to a constant.
\<close>

definition literalValue :: "query \<Rightarrow> nat option" where
  "literalValue q = List.find (\<lambda>v. BinaryExpr Eq (ConstantExpr (getWidth (q_expr q)) v) (q_expr q) \<in> set (constraints q))
     (List.map_filter (\<lambda>c. case c of BinaryExpr Eq (ConstantExpr w v) r \<Rightarrow> Some v | _ \<Rightarrow> None) (constraints q))"

definition LiteralSolver :: "unit SolverImpl" where
  "LiteralSolver =
     \<lparr>computeTruth = (\<lambda>q. if q_expr q \<in> set (constraints q) then ret True else failed),
      computeValidity = (\<lambda>q. if q_expr q \<in> set (constraints q) then ret VTrue else failed),
      computeValue = (\<lambda>q. case literalValue q of Some v \<Rightarrow> ret (ConstantExpr (getWidth (q_expr q)) v) | None \<Rightarrow> failed),
      computeInitialValues = (\<lambda>q objects. if q_expr q \<in> set (constraints q) then ret None else failed)\<rparr>"

lemma member_valid: "q_expr q \<in> set (constraints q) \<Longrightarrow> valid q"
  by (simp add: valid_def models_def)

lemma literalValue_possible:
  assumes "admissible q" "literalValue q = Some v"
  shows "possible q v"
proof -
  from assms(2) have "BinaryExpr Eq (ConstantExpr (getWidth (q_expr q)) v) (q_expr q) \<in> set (constraints q)"
    by (auto simp: literalValue_def find_Some_iff)
  moreover obtain \<sigma> u where "models (constraints q) \<sigma>" "eval \<sigma> (q_expr q) = Some u"
    using assms(1) unfolding admissible_def by blast
  ultimately have "eval \<sigma> (BinaryExpr Eq (ConstantExpr (getWidth (q_expr q)) v) (q_expr q)) = Some 1"
    unfolding models_def by blast
  with \<open>eval \<sigma> (q_expr q) = Some u\<close> have "v = u" by (cases "v = u") simp_all
  with \<open>models (constraints q) \<sigma>\<close> \<open>eval \<sigma> (q_expr q) = Some u\<close> show ?thesis by (auto simp: possible_def)
qed

interpretation literal_solver: sound_solver False True "\<lambda>s. True" LiteralSolver
proof unfold_locales
  fix q objects assume "bool_query q"
  show "call_ok False True (\<lambda>s. True) (computeTruth LiteralSolver q) (\<lambda>b. b = valid q)"
    "call_ok False True (\<lambda>s. True) (computeValidity LiteralSolver q) (\<lambda>r. r = validity_of q)"
    "call_ok False True (\<lambda>s. True) (computeInitialValues LiteralSolver q objects) (initial_values q objects)"
    using member_valid [of q]
    by (auto simp: LiteralSolver_def validity_of_def initial_values_def intro!: call_intro)
next
  fix q assume "admissible q"
  then show "call_ok False True (\<lambda>s. True) (computeValue LiteralSolver q)
    (\<lambda>e. \<exists>v. possible q v \<and> e = ConstantExpr (getWidth (q_expr q)) v)"
    using literalValue_possible [of q] by (auto simp: LiteralSolver_def intro!: call_intro split: option.split)
qed

definition ex_query :: query where
  "ex_query = \<lparr>constraints = [BinaryExpr Eq (ConstantExpr 8 5) (ex_read 0)], q_expr = BinaryExpr Eq (ConstantExpr 8 5) (ex_read 0)\<rparr>"

lemma ex_query_bool: "bool_query ex_query"
proof -
  have "models (constraints ex_query) (\<lambda>a i. 5 mod 2 ^ arr_range a)"
    by (simp add: models_def ex_query_def wf_asg_def ex_read_def ex_array_def arr_init_def isConstantArray_def isSymbolicArray_def)
  then show ?thesis
    by (auto simp: bool_query_def admissible_def ex_query_def wf_constraint_def ex_read_def)
qed

text \<open>C39: the operations of a solver answer what \<^verbatim>\<open>Solver.h\<close> documents, whatever sound implementation they
  are built on: \<open>evaluate\<close> tells apart valid, unsatisfiable and contingent expressions, and
  \<open>mustBeTrue\<close>, \<open>mustBeFalse\<close>, \<open>mayBeTrue\<close> and \<open>mayBeFalse\<close> decide the four questions. No assertion fails,
  unless the implementation fails one (\<open>N\<close>), and a failure is only passed on (\<open>F\<close>).\<close>

theorem Solver_operations_sound:
  assumes "sound_solver N F I impl" "bool_query q"
  shows "call_ok N F I (Solver_evaluate impl q) (\<lambda>r. r = validity_of q)
    \<and> call_ok N F I (Solver_mustBeTrue impl q) (\<lambda>b. b = (\<forall>\<sigma>. models (constraints q) \<sigma> \<longrightarrow> eval \<sigma> (q_expr q) = Some 1))
    \<and> call_ok N F I (Solver_mustBeFalse impl q) (\<lambda>b. b = (\<forall>\<sigma>. models (constraints q) \<sigma> \<longrightarrow> eval \<sigma> (q_expr q) = Some 0))
    \<and> call_ok N F I (Solver_mayBeTrue impl q) (\<lambda>b. b = (\<exists>\<sigma>. models (constraints q) \<sigma> \<and> eval \<sigma> (q_expr q) \<noteq> Some 0))
    \<and> call_ok N F I (Solver_mayBeFalse impl q) (\<lambda>b. b = (\<exists>\<sigma>. models (constraints q) \<sigma> \<and> eval \<sigma> (q_expr q) \<noteq> Some 1))
    \<and> call_ok N F I (SolverImpl_computeValidity (computeTruth impl) q) (\<lambda>r. r = validity_of q)"
  using sound_solver.evaluate_ok [OF assms] sound_solver.mustBeTrue_ok [OF assms] sound_solver.mustBeFalse_ok [OF assms]
    sound_solver.mayBeTrue_ok [OF assms] sound_solver.mayBeFalse_ok [OF assms] sound_solver.default_validity_ok [OF assms]
  by (simp add: valid_def invalid_def)

theorem Solver_operations_sound_witness:
  "Solver_evaluate LiteralSolver ex_query () = Some (Some VTrue, ()) \<and> validity_of ex_query = VTrue"
proof -
  have run: "Solver_evaluate LiteralSolver ex_query () = Some (Some VTrue, ())"
    by (simp add: Solver_evaluate_def LiteralSolver_def ex_query_def ret_def)
  have "call_ok False True (\<lambda>s. True) (Solver_evaluate LiteralSolver ex_query) (\<lambda>r. r = validity_of ex_query)"
    using Solver_operations_sound [OF literal_solver.sound_solver_axioms ex_query_bool] by blast
  from call_okD [OF this, of "()"] run show ?thesis by simp
qed

text \<open>C38: \<open>Solver::getRange\<close> returns the least and the greatest value that the expression takes under the
  constraints (the postcondition of \<^verbatim>\<open>Solver.h\<close>), for every width up to 64. If the implementation
  never fails, the binary searches end without a failed assertion.\<close>

theorem Solver_getRange_tight:
  assumes "sound_solver N F I impl" "F \<longrightarrow> N" "admissible q" "getWidth (q_expr q) \<le> 64"
  shows "call_ok N F I (Solver_getRange impl q) (\<lambda>r. \<exists>mn mx.
    r = (ConstantExpr (getWidth (q_expr q)) mn, ConstantExpr (getWidth (q_expr q)) mx)
    \<and> possible q mn \<and> possible q mx \<and> (\<forall>v. possible q v \<longrightarrow> mn \<le> v \<and> v \<le> mx))"
  using sound_solver.getRange_ok [OF assms(1,3,4,2)] by (simp add: tight_range_def [abs_def])

theorem Solver_getRange_tight_witness:
  "Solver_getRange LiteralSolver ex_query () = Some (Some (ConstantExpr 1 1, ConstantExpr 1 1), ()) \<and>
   {v. possible ex_query v} = {1}"
proof -
  have run: "Solver_getRange LiteralSolver ex_query () = Some (Some (ConstantExpr 1 1, ConstantExpr 1 1), ())"
    by (simp add: Solver_getRange_def Solver_evaluate_def LiteralSolver_def ex_query_def ret_def andMust_def
        rangeResult_def build_def ConstantExpr_create_def)
  have w: "getWidth (q_expr ex_query) = 1" by (simp add: ex_query_def)
  have adm: "admissible ex_query" using ex_query_bool by (simp add: bool_query_def)
  have "sound_solver True True (\<lambda>s. True) LiteralSolver"
    by (rule sound_solver_weaken [OF literal_solver.sound_solver_axioms]) simp_all
  from Solver_getRange_tight [OF this _ adm]
  have "call_ok True True (\<lambda>s. True) (Solver_getRange LiteralSolver ex_query) (\<lambda>r. \<exists>mn mx.
    r = (ConstantExpr 1 mn, ConstantExpr 1 mx) \<and> possible ex_query mn \<and> possible ex_query mx
    \<and> (\<forall>v. possible ex_query v \<longrightarrow> mn \<le> v \<and> v \<le> mx))" using w by simp
  from call_okD [OF this, of "()"] run show ?thesis by auto
qed

end
