(* ===== verification/SolverChain.thy ===== *)
theory SolverChain
  imports Solver
begin

text \<open>
  The solvers that wrap another solver: \<^verbatim>\<open>lib/Solver/IncompleteSolver.cpp\<close> (a staged solver asks an
  incomplete one first), \<^verbatim>\<open>lib/Solver/CachingSolver.cpp\<close> and \<^verbatim>\<open>lib/Solver/ValidatingSolver.cpp\<close>. The state of a
  wrapper is a pair of its own state and the one of the solver inside.

  The cache is an \<open>unordered_map\<close> whose keys are compared structurally (\<open>Expr_compare_equality\<close>), so it
  is a map here; \<open>insert\<close> keeps an entry that is already there.
\<close>

section \<open>Calls on pairs of states\<close>

definition onFst :: "('c, 'a) call \<Rightarrow> ('c \<times> 's, 'a) call" where
  "onFst m s = map_option (\<lambda>(r, c'). (r, (c', snd s))) (m (fst s))"

text \<open>\<open>if (m(x)) return true; return n(x);\<close>\<close>

definition orElse :: "('s, 'a) call \<Rightarrow> ('s, 'a) call \<Rightarrow> ('s, 'a) call" where
  "orElse m n s = (case m s of Some (None, s') \<Rightarrow> n s' | r \<Rightarrow> r)"

lemma call_ok_onFst [call_intro]:
  assumes m: "call_ok N F J m P"
  shows "call_ok N F (\<lambda>(c, s). J c \<and> I s) (onFst m) P"
proof (rule call_okI)
  fix cs assume "(\<lambda>(c, s). J c \<and> I s) cs"
  then obtain c s where cs: "cs = (c, s)" "J c" "I s" by auto
  from call_okD [OF m cs(2)] cs show "outcome_ok N F (\<lambda>(c, s). J c \<and> I s) P (onFst m cs)"
    by (cases "m c" rule: outcome_cases) (simp_all add: onFst_def)
qed

lemma call_ok_orElse [call_intro]:
  assumes m: "call_ok N True I m P" and n: "call_ok N F I n P"
  shows "call_ok N F I (orElse m n) P"
proof (rule call_okI)
  fix s assume s: "I s"
  show "outcome_ok N F I P (orElse m n s)"
    using call_okD [OF m s] call_okD [OF n]
    by (cases "m s" rule: outcome_cases) (simp_all add: orElse_def)
qed

section \<open>Incomplete solvers\<close>

datatype PartialValidity = MustBeTrue | MustBeFalse | MayBeTrue | MayBeFalse | TrueOrFalse | PVNone

fun negatePartialValidity :: "PartialValidity \<Rightarrow> PartialValidity option" where
  "negatePartialValidity MustBeTrue = Some MustBeFalse"
| "negatePartialValidity MustBeFalse = Some MustBeTrue"
| "negatePartialValidity MayBeTrue = Some MayBeFalse"
| "negatePartialValidity MayBeFalse = Some MayBeTrue"
| "negatePartialValidity TrueOrFalse = Some TrueOrFalse"
| "negatePartialValidity PVNone = None"

record 'p IncompleteSolver =
  i_computeTruth :: "query \<Rightarrow> ('p, PartialValidity) call"
  i_computeValidity :: "query \<Rightarrow> ('p, PartialValidity) call"
  i_computeValue :: "query \<Rightarrow> ('p, expr) call"
  i_computeInitialValues :: "query \<Rightarrow> array list \<Rightarrow> ('p, nat list list option) call"

definition IncompleteSolver_computeValidity :: "(query \<Rightarrow> ('p, PartialValidity) call) \<Rightarrow> query \<Rightarrow> ('p, PartialValidity) call" where
  "IncompleteSolver_computeValidity truth q =
     andThen (truth q) (\<lambda>trueResult.
       if trueResult = MustBeTrue then ret MustBeTrue
       else build (negateExpr q) (\<lambda>n. andThen (truth n) (\<lambda>falseResult.
         if falseResult = MustBeTrue then ret MustBeFalse
         else let trueCorrect = trueResult \<noteq> PVNone; falseCorrect = falseResult \<noteq> PVNone
           in ret (if trueCorrect \<and> falseCorrect then TrueOrFalse
                   else if trueCorrect then MayBeFalse
                   else if falseCorrect then MayBeTrue
                   else PVNone))))"

definition StagedSolverImpl :: "'p IncompleteSolver \<Rightarrow> 's SolverImpl \<Rightarrow> ('p \<times> 's) SolverImpl" where
  "StagedSolverImpl primary secondary =
     \<lparr>computeTruth = (\<lambda>q. andThen (onFst (i_computeTruth primary q)) (\<lambda>trueResult.
        if trueResult \<noteq> PVNone then ret (trueResult = MustBeTrue)
        else inner (computeTruth secondary q))),
      computeValidity = (\<lambda>q. andThen (onFst (i_computeValidity primary q)) (\<lambda>pv. case pv of
          MustBeTrue \<Rightarrow> ret VTrue
        | MustBeFalse \<Rightarrow> ret VFalse
        | TrueOrFalse \<Rightarrow> ret VUnknown
        | MayBeTrue \<Rightarrow> andThen (inner (computeTruth secondary q)) (\<lambda>tmp. ret (if tmp then VTrue else VUnknown))
        | MayBeFalse \<Rightarrow> build (negateExpr q) (\<lambda>n.
            andThen (inner (computeTruth secondary n)) (\<lambda>tmp. ret (if tmp then VFalse else VUnknown)))
        | PVNone \<Rightarrow> inner (computeValidity secondary q))),
      computeValue = (\<lambda>q. orElse (onFst (i_computeValue primary q)) (inner (computeValue secondary q))),
      computeInitialValues = (\<lambda>q objects.
        orElse (onFst (i_computeInitialValues primary q objects)) (inner (computeInitialValues secondary q objects)))\<rparr>"

text \<open>What a partial validity says of a query, and the contract of an incomplete solver: its
  \<open>computeTruth\<close> never answers \<open>MayBeTrue\<close>.\<close>

fun pv_ok :: "query \<Rightarrow> PartialValidity \<Rightarrow> bool" where
  "pv_ok q MustBeTrue = valid q"
| "pv_ok q MustBeFalse = invalid q"
| "pv_ok q MayBeTrue = (\<not> invalid q)"
| "pv_ok q MayBeFalse = (\<not> valid q)"
| "pv_ok q TrueOrFalse = (\<not> valid q \<and> \<not> invalid q)"
| "pv_ok q PVNone = True"

definition incomplete_ok :: "bool \<Rightarrow> ('p \<Rightarrow> bool) \<Rightarrow> 'p IncompleteSolver \<Rightarrow> bool" where
  "incomplete_ok N J primary \<longleftrightarrow>
     (\<forall>q. bool_query q \<longrightarrow> call_ok N False J (i_computeTruth primary q) (\<lambda>pv. pv_ok q pv \<and> pv \<noteq> MayBeTrue)) \<and>
     (\<forall>q. bool_query q \<longrightarrow> call_ok N False J (i_computeValidity primary q) (pv_ok q)) \<and>
     (\<forall>q. admissible q \<longrightarrow> call_ok N True J (i_computeValue primary q)
        (\<lambda>e. \<exists>v. possible q v \<and> e = ConstantExpr (getWidth (q_expr q)) v)) \<and>
     (\<forall>q objects. bool_query q \<longrightarrow> call_ok N True J (i_computeInitialValues primary q objects) (initial_values q objects))"

lemma bool_query_one: "bool_query q \<Longrightarrow> valid q \<Longrightarrow> \<not> invalid q"
  by (rule not_both) (simp_all add: bool_query_def)

lemma pv_ok_not_valid: "bool_query q \<Longrightarrow> pv_ok q pv \<Longrightarrow> pv \<noteq> MayBeTrue \<Longrightarrow> pv \<noteq> PVNone \<Longrightarrow> valid q \<longleftrightarrow> pv = MustBeTrue"
  using bool_query_one by (cases pv) auto

lemma pv_ok_negate:
  assumes "bool_query q" "pv_ok q pv" "pv \<noteq> PVNone" "valid n = invalid q" "invalid n = valid q"
  shows "succeeds (negatePartialValidity pv) (\<lambda>pv'. pv_ok n pv' \<and> pv' \<noteq> PVNone)"
  using assms by (cases pv) auto

lemma incomplete_validity_ok:
  assumes q: "bool_query q" and t: "\<And>q. bool_query q \<Longrightarrow> call_ok N F J (truth q) (\<lambda>pv. pv_ok q pv \<and> pv \<noteq> MayBeTrue)"
  shows "call_ok N F J (IncompleteSolver_computeValidity truth q) (pv_ok q)"
  unfolding IncompleteSolver_computeValidity_def Let_def
proof (rule call_ok_andThen [OF t [OF q]], rule call_ok_if)
  fix pv assume pv: "pv_ok q pv \<and> pv \<noteq> MayBeTrue"
  { assume "pv = MustBeTrue" with pv show "call_ok N F J (ret MustBeTrue) (pv_ok q)" by (auto intro: call_intro) }
  assume npv: "pv \<noteq> MustBeTrue"
  show "call_ok N F J (build (negateExpr q) (\<lambda>n. andThen (truth n) (\<lambda>falseResult.
      if falseResult = MustBeTrue then ret MustBeFalse
      else ret (if pv \<noteq> PVNone \<and> falseResult \<noteq> PVNone then TrueOrFalse else if pv \<noteq> PVNone then MayBeFalse
        else if falseResult \<noteq> PVNone then MayBeTrue else PVNone)))) (pv_ok q)"
  proof (rule call_ok_build [OF negateExpr_ok [OF q]], elim conjE, rule call_ok_andThen [OF t])
    fix n pv' assume n: "bool_query n" "valid n = invalid q" "invalid n = valid q" and pv': "pv_ok n pv' \<and> pv' \<noteq> MayBeTrue"
    have "pv \<noteq> PVNone \<Longrightarrow> \<not> valid q" using pv_ok_not_valid [OF q] pv npv by blast
    moreover have "pv' \<noteq> PVNone \<Longrightarrow> invalid q \<longleftrightarrow> pv' = MustBeTrue" using pv_ok_not_valid [OF n(1)] pv' n by blast
    moreover have "pv' = MustBeTrue \<Longrightarrow> invalid q" using pv' n by simp
    ultimately show "call_ok N F J (if pv' = MustBeTrue then ret MustBeFalse
      else ret (if pv \<noteq> PVNone \<and> pv' \<noteq> PVNone then TrueOrFalse else if pv \<noteq> PVNone then MayBeFalse
        else if pv' \<noteq> PVNone then MayBeTrue else PVNone)) (pv_ok q)"
      by (intro call_ok_if call_ok_ret) auto
  qed
qed

lemma incomplete_okD:
  assumes "incomplete_ok N J primary"
  shows "bool_query q \<Longrightarrow> call_ok N F (\<lambda>(p, s). J p \<and> I s) (onFst (i_computeTruth primary q)) (\<lambda>pv. pv_ok q pv \<and> pv \<noteq> MayBeTrue)"
    "bool_query q \<Longrightarrow> call_ok N F (\<lambda>(p, s). J p \<and> I s) (onFst (i_computeValidity primary q)) (pv_ok q)"
    "admissible q \<Longrightarrow> call_ok N True (\<lambda>(p, s). J p \<and> I s) (onFst (i_computeValue primary q))
      (\<lambda>e. \<exists>v. possible q v \<and> e = ConstantExpr (getWidth (q_expr q)) v)"
    "bool_query q \<Longrightarrow> call_ok N True (\<lambda>(p, s). J p \<and> I s) (onFst (i_computeInitialValues primary q objects)) (initial_values q objects)"
  using assms unfolding incomplete_ok_def by (blast intro: call_ok_onFst call_ok_weaken)+

lemma StagedSolverImpl_sound:
  assumes p: "incomplete_ok N J primary" and s: "sound_solver N F I secondary"
  shows "sound_solver N F (\<lambda>(p, s). J p \<and> I s) (StagedSolverImpl primary secondary)" (is "sound_solver N F ?I ?impl")
proof unfold_locales
  fix q assume q: "bool_query q"
  note truth = call_ok_inner [OF sound_solver.truth [OF s], where J = J]
  note validity = call_ok_inner [OF sound_solver.validity [OF s q], where J = J]
  show "call_ok N F ?I (computeTruth ?impl q) (\<lambda>b. b = valid q)"
    unfolding StagedSolverImpl_def SolverImpl.simps
    by (rule call_ok_andThen [OF incomplete_okD(1) [OF p q]], rule call_ok_if)
      (auto intro: call_ok_ret truth [OF q] simp: pv_ok_not_valid [OF q])
  show "call_ok N F ?I (computeValidity ?impl q) (\<lambda>r. r = validity_of q)"
    unfolding StagedSolverImpl_def SolverImpl.simps
  proof (rule call_ok_andThen [OF incomplete_okD(2) [OF p q]])
    fix pv assume pv: "pv_ok q pv"
    have may: "call_ok N F ?I (andThen (inner (computeTruth secondary q)) (\<lambda>tmp. ret (if tmp then VTrue else VUnknown))) (\<lambda>r. r = validity_of q)"
      if "\<not> invalid q"
      by (rule call_ok_andThen [OF truth [OF q]], rule call_ok_ret) (use that in \<open>simp add: validity_of_def\<close>)
    have mayn: "call_ok N F ?I (build (negateExpr q) (\<lambda>n. andThen (inner (computeTruth secondary n)) (\<lambda>tmp. ret (if tmp then VFalse else VUnknown))))
      (\<lambda>r. r = validity_of q)" if "\<not> valid q"
      by (rule call_ok_build [OF negateExpr_ok [OF q]], elim conjE, rule call_ok_andThen [OF truth], assumption, rule call_ok_ret)
        (use that in \<open>simp add: validity_of_def\<close>)
    show "call_ok N F ?I (case pv of MustBeTrue \<Rightarrow> ret VTrue | MustBeFalse \<Rightarrow> ret VFalse
        | MayBeTrue \<Rightarrow> andThen (inner (computeTruth secondary q)) (\<lambda>tmp. ret (if tmp then VTrue else VUnknown))
        | MayBeFalse \<Rightarrow> build (negateExpr q) (\<lambda>n. andThen (inner (computeTruth secondary n)) (\<lambda>tmp. ret (if tmp then VFalse else VUnknown)))
        | TrueOrFalse \<Rightarrow> ret VUnknown | PVNone \<Rightarrow> inner (computeValidity secondary q)) (\<lambda>r. r = validity_of q)"
      using pv may mayn validity bool_query_one [OF q]
      by (cases pv) (auto intro!: call_ok_ret simp: validity_of_def)
  qed
  fix objects
  show "call_ok N F ?I (computeInitialValues ?impl q objects) (initial_values q objects)"
    unfolding StagedSolverImpl_def SolverImpl.simps
    by (intro call_ok_orElse incomplete_okD(4) [OF p q] call_ok_inner sound_solver.initial [OF s q])
next
  fix q assume q: "admissible q"
  show "call_ok N F ?I (computeValue ?impl q) (\<lambda>e. \<exists>v. possible q v \<and> e = ConstantExpr (getWidth (q_expr q)) v)"
    unfolding StagedSolverImpl_def SolverImpl.simps
    by (intro call_ok_orElse incomplete_okD(3) [OF p q] call_ok_inner sound_solver.val [OF s q])
qed

section \<open>The caching solver\<close>

type_synonym cache_map = "constraint_set \<times> expr \<Rightarrow> PartialValidity option"

definition canonicalizeQuery :: "(nat \<Rightarrow> nat \<Rightarrow> 32 word) \<Rightarrow> expr \<Rightarrow> (expr \<times> bool) option" where
  "canonicalizeQuery hv originalQuery =
     createIsZero originalQuery \<bind> (\<lambda>negatedQuery.
       Some (if Expr_compare hv originalQuery negatedQuery < 0 then (originalQuery, False) else (negatedQuery, True)))"

definition cacheLookup :: "(nat \<Rightarrow> nat \<Rightarrow> 32 word) \<Rightarrow> cache_map \<Rightarrow> query \<Rightarrow> PartialValidity option option" where
  "cacheLookup hv cache q =
     canonicalizeQuery hv (q_expr q) \<bind> (\<lambda>(canonicalQuery, negationUsed).
       case cache (constraints q, canonicalQuery) of
         None \<Rightarrow> Some None
       | Some pv \<Rightarrow> map_option Some (if negationUsed then negatePartialValidity pv else Some pv))"

definition cacheInsert :: "(nat \<Rightarrow> nat \<Rightarrow> 32 word) \<Rightarrow> query \<Rightarrow> PartialValidity \<Rightarrow> cache_map \<Rightarrow> cache_map option" where
  "cacheInsert hv q result cache =
     canonicalizeQuery hv (q_expr q) \<bind> (\<lambda>(canonicalQuery, negationUsed).
     (if negationUsed then negatePartialValidity result else Some result) \<bind> (\<lambda>cachedResult.
     Some (map_insert cache (constraints q, canonicalQuery) cachedResult)))"

text \<open>Reading the cache, and going on with an entry added.\<close>

definition withCache :: "('c \<Rightarrow> ('c \<times> 's, 'a) call) \<Rightarrow> ('c \<times> 's, 'a) call" where
  "withCache k s = k (fst s) s"

definition andCache :: "('c \<Rightarrow> 'c option) \<Rightarrow> ('c \<times> 's, 'a) call \<Rightarrow> ('c \<times> 's, 'a) call" where
  "andCache f k s = f (fst s) \<bind> (\<lambda>c. k (c, snd s))"

definition CachingSolver_computeValidity :: "(nat \<Rightarrow> nat \<Rightarrow> 32 word) \<Rightarrow> 's SolverImpl \<Rightarrow> query \<Rightarrow> (cache_map \<times> 's, Validity) call" where
  "CachingSolver_computeValidity hv solver q = withCache (\<lambda>cache. build (cacheLookup hv cache q) (\<lambda>hit.
     case hit of
       Some MustBeTrue \<Rightarrow> ret VTrue
     | Some MustBeFalse \<Rightarrow> ret VFalse
     | Some TrueOrFalse \<Rightarrow> ret VUnknown
     | Some MayBeTrue \<Rightarrow> andThen (inner (computeTruth solver q)) (\<lambda>tmp.
         if tmp then andCache (cacheInsert hv q MustBeTrue) (ret VTrue)
         else andCache (cacheInsert hv q TrueOrFalse) (ret VUnknown))
     | Some MayBeFalse \<Rightarrow> build (negateExpr q) (\<lambda>n. andThen (inner (computeTruth solver n)) (\<lambda>tmp.
         if tmp then andCache (cacheInsert hv q MustBeFalse) (ret VFalse)
         else andCache (cacheInsert hv q TrueOrFalse) (ret VUnknown)))
     | Some PVNone \<Rightarrow> asserted
     | None \<Rightarrow> andThen (inner (computeValidity solver q)) (\<lambda>result.
         andCache (cacheInsert hv q (case result of VTrue \<Rightarrow> MustBeTrue | VFalse \<Rightarrow> MustBeFalse | VUnknown \<Rightarrow> TrueOrFalse))
           (ret result))))"

definition CachingSolver_computeTruth :: "(nat \<Rightarrow> nat \<Rightarrow> 32 word) \<Rightarrow> 's SolverImpl \<Rightarrow> query \<Rightarrow> (cache_map \<times> 's, bool) call" where
  "CachingSolver_computeTruth hv solver q = withCache (\<lambda>cache. build (cacheLookup hv cache q) (\<lambda>hit.
     if hit \<noteq> None \<and> hit \<noteq> Some MayBeTrue then ret (hit = Some MustBeTrue)
     else andThen (inner (computeTruth solver q)) (\<lambda>isValid.
       andCache (cacheInsert hv q (if isValid then MustBeTrue else if hit \<noteq> None then TrueOrFalse else MayBeFalse))
         (ret isValid))))"

definition CachingSolver :: "(nat \<Rightarrow> nat \<Rightarrow> 32 word) \<Rightarrow> 's SolverImpl \<Rightarrow> (cache_map \<times> 's) SolverImpl" where
  "CachingSolver hv solver =
     \<lparr>computeTruth = CachingSolver_computeTruth hv solver,
      computeValidity = CachingSolver_computeValidity hv solver,
      computeValue = (\<lambda>q. inner (computeValue solver q)),
      computeInitialValues = (\<lambda>q objects. inner (computeInitialValues solver q objects))\<rparr>"

subsection \<open>The cache holds true answers\<close>

definition cache_ok :: "cache_map \<Rightarrow> bool" where
  "cache_ok cache \<longleftrightarrow> (\<forall>q pv. cache (constraints q, q_expr q) = Some pv \<longrightarrow> pv_ok q pv \<and> pv \<noteq> PVNone)"

lemma withExpr_self: "constraints q' = constraints q \<Longrightarrow> withExpr q (q_expr q') = q'"
  by (simp add: withExpr_def)

lemma canonicalizeQuery_ok:
  assumes "bool_query q"
  shows "succeeds (canonicalizeQuery hv (q_expr q)) (\<lambda>(e, negated). bool_query (withExpr q e) \<and>
    (if negated then valid (withExpr q e) = invalid q \<and> invalid (withExpr q e) = valid q
     else valid (withExpr q e) = valid q \<and> invalid (withExpr q e) = invalid q))"
proof -
  obtain e where e: "createIsZero (q_expr q) = Some e" "bool_query (withExpr q e)"
    "valid (withExpr q e) = invalid q" "invalid (withExpr q e) = valid q"
    using negateExpr_ok [OF assms] by (auto simp: negateExpr_def succeeds_def)
  then show ?thesis using assms by (simp add: canonicalizeQuery_def withExpr_self)
qed

lemma pv_ok_cong: "valid q = valid q' \<Longrightarrow> invalid q = invalid q' \<Longrightarrow> pv_ok q pv = pv_ok q' pv"
  by (cases pv) simp_all

lemma cacheLookup_ok:
  assumes q: "bool_query q" and c: "cache_ok cache"
  shows "succeeds (cacheLookup hv cache q) (\<lambda>hit. case hit of None \<Rightarrow> True | Some pv \<Rightarrow> pv_ok q pv \<and> pv \<noteq> PVNone)"
proof -
  obtain e neg where e: "canonicalizeQuery hv (q_expr q) = Some (e, neg)" and be: "bool_query (withExpr q e)"
    and v: "if neg then valid (withExpr q e) = invalid q \<and> invalid (withExpr q e) = valid q
     else valid (withExpr q e) = valid q \<and> invalid (withExpr q e) = invalid q"
    using canonicalizeQuery_ok [OF q, of hv] by (auto simp: succeeds_def)
  show ?thesis
  proof (cases "cache (constraints q, e)")
    case (Some pv)
    with c have pv: "pv_ok (withExpr q e) pv" "pv \<noteq> PVNone"
      using withExpr_simps [of q e] unfolding cache_ok_def by metis+
    have "succeeds (if neg then negatePartialValidity pv else Some pv) (\<lambda>pv. pv_ok q pv \<and> pv \<noteq> PVNone)"
      using pv v pv_ok_negate [OF be pv, of q] pv_ok_cong [of "withExpr q e" q pv] by (cases neg) simp_all
    with e Some show ?thesis by (auto simp: cacheLookup_def succeeds_def)
  qed (use e in \<open>simp add: cacheLookup_def\<close>)
qed

lemma cacheInsert_ok:
  assumes q: "bool_query q" and c: "cache_ok cache" and pv: "pv_ok q pv" "pv \<noteq> PVNone"
  shows "succeeds (cacheInsert hv q pv cache) cache_ok"
proof -
  obtain e neg where e: "canonicalizeQuery hv (q_expr q) = Some (e, neg)"
    and v: "if neg then valid (withExpr q e) = invalid q \<and> invalid (withExpr q e) = valid q
     else valid (withExpr q e) = valid q \<and> invalid (withExpr q e) = invalid q"
    using canonicalizeQuery_ok [OF q, of hv] by (auto simp: succeeds_def)
  have "succeeds (if neg then negatePartialValidity pv else Some pv) (\<lambda>pv. pv_ok (withExpr q e) pv \<and> pv \<noteq> PVNone)"
    using pv v pv_ok_negate [OF q pv, of "withExpr q e"] pv_ok_cong [of "withExpr q e" q pv] by (cases neg) simp_all
  then obtain pv' where pv': "(if neg then negatePartialValidity pv else Some pv) = Some pv'" "pv_ok (withExpr q e) pv'" "pv' \<noteq> PVNone"
    by (auto simp: succeeds_def)
  have "cache_ok (map_insert cache (constraints q, e) pv')"
    using c pv' by (auto simp: cache_ok_def map_insert_def withExpr_self split: if_splits)
  with e pv'(1) show ?thesis by (simp add: cacheInsert_def)
qed

lemma call_ok_withCache:
  assumes "\<And>c. J c \<Longrightarrow> call_ok N F (\<lambda>(c, s). J c \<and> I s) (k c) P"
  shows "call_ok N F (\<lambda>(c, s). J c \<and> I s) (withCache k) P"
proof (rule call_okI)
  fix cs assume cs: "(\<lambda>(c, s). J c \<and> I s) cs"
  then have "J (fst cs)" by auto
  from call_okD [OF assms [OF this], of cs] cs
  show "outcome_ok N F (\<lambda>(c, s). J c \<and> I s) P (withCache k cs)" by (simp add: withCache_def)
qed

lemma call_ok_andCache:
  assumes f: "\<And>c. J c \<Longrightarrow> succeeds (f c) J" and k: "call_ok N F (\<lambda>(c, s). J c \<and> I s) k P"
  shows "call_ok N F (\<lambda>(c, s). J c \<and> I s) (andCache f k) P"
proof (rule call_okI)
  fix cs assume cs: "(\<lambda>(c, s). J c \<and> I s) cs"
  then obtain c where "f (fst cs) = Some c" "J c" using f [of "fst cs"] by (auto simp: succeeds_def)
  with call_okD [OF k, of "(c, snd cs)"] cs
  show "outcome_ok N F (\<lambda>(c, s). J c \<and> I s) P (andCache f k cs)" by (auto simp: andCache_def)
qed

context sound_solver
begin

lemma call_ok_cached:
  assumes "bool_query q" "pv_ok q pv" "pv \<noteq> PVNone" "P x"
  shows "call_ok N F (\<lambda>(c, s). cache_ok c \<and> I s) (andCache (cacheInsert hv q pv) (ret x)) P"
  by (intro call_ok_andCache call_ok_ret cacheInsert_ok assms)

lemma caching_truth:
  assumes q: "bool_query q"
  shows "call_ok N F (\<lambda>(c, s). cache_ok c \<and> I s) (CachingSolver_computeTruth hv impl q) (\<lambda>b. b = valid q)"
  unfolding CachingSolver_computeTruth_def
proof (rule call_ok_withCache, rule call_ok_build [OF cacheLookup_ok [OF q]], assumption, rule call_ok_if)
  fix hit :: "PartialValidity option"
  assume hit: "case hit of None \<Rightarrow> True | Some pv \<Rightarrow> pv_ok q pv \<and> pv \<noteq> PVNone"
  { assume "hit \<noteq> None \<and> hit \<noteq> Some MayBeTrue"
    with hit show "call_ok N F (\<lambda>(c, s). cache_ok c \<and> I s) (ret (hit = Some MustBeTrue)) (\<lambda>b. b = valid q)"
      by (intro call_ok_ret) (auto simp: pv_ok_not_valid [OF q]) }
  assume "\<not> (hit \<noteq> None \<and> hit \<noteq> Some MayBeTrue)"
  with hit have may: "hit = None \<or> (\<not> invalid q)" by auto
  show "call_ok N F (\<lambda>(c, s). cache_ok c \<and> I s) (andThen (inner (computeTruth impl q)) (\<lambda>isValid.
    andCache (cacheInsert hv q (if isValid then MustBeTrue else if hit \<noteq> None then TrueOrFalse else MayBeFalse)) (ret isValid))) (\<lambda>b. b = valid q)"
    by (rule call_ok_andThen [OF call_ok_inner [OF truth [OF q]]], rule call_ok_cached [OF q]) (use may in auto)
qed

lemma caching_validity:
  assumes q: "bool_query q"
  shows "call_ok N F (\<lambda>(c, s). cache_ok c \<and> I s) (CachingSolver_computeValidity hv impl q) (\<lambda>r. r = validity_of q)"
  unfolding CachingSolver_computeValidity_def
proof (rule call_ok_withCache, rule call_ok_build [OF cacheLookup_ok [OF q]], assumption)
  fix hit :: "PartialValidity option"
  assume hit: "case hit of None \<Rightarrow> True | Some pv \<Rightarrow> pv_ok q pv \<and> pv \<noteq> PVNone"
  let ?I = "\<lambda>(c, s). cache_ok c \<and> I s"
  note one = bool_query_one [OF q]
  have miss: "call_ok N F ?I (andThen (inner (computeValidity impl q)) (\<lambda>result. andCache (cacheInsert hv q
      (case result of VTrue \<Rightarrow> MustBeTrue | VFalse \<Rightarrow> MustBeFalse | VUnknown \<Rightarrow> TrueOrFalse)) (ret result))) (\<lambda>r. r = validity_of q)"
    by (rule call_ok_andThen [OF call_ok_inner [OF validity [OF q]]], rule call_ok_cached [OF q])
      (auto simp: validity_of_def split: Validity.split)
  have may: "call_ok N F ?I (andThen (inner (computeTruth impl q)) (\<lambda>tmp. if tmp then andCache (cacheInsert hv q MustBeTrue) (ret VTrue)
      else andCache (cacheInsert hv q TrueOrFalse) (ret VUnknown))) (\<lambda>r. r = validity_of q)" if "\<not> invalid q"
    by (rule call_ok_andThen [OF call_ok_inner [OF truth [OF q]]], rule call_ok_if; rule call_ok_cached [OF q])
      (use that in \<open>auto simp: validity_of_def\<close>)
  have mayn: "call_ok N F ?I (build (negateExpr q) (\<lambda>n. andThen (inner (computeTruth impl n)) (\<lambda>tmp.
      if tmp then andCache (cacheInsert hv q MustBeFalse) (ret VFalse)
      else andCache (cacheInsert hv q TrueOrFalse) (ret VUnknown)))) (\<lambda>r. r = validity_of q)" if "\<not> valid q"
    by (rule call_ok_build [OF negateExpr_ok [OF q]], elim conjE, rule call_ok_andThen [OF call_ok_inner [OF truth]], assumption,
        rule call_ok_if; rule call_ok_cached [OF q]) (use that in \<open>auto simp: validity_of_def\<close>)
  show "call_ok N F ?I (case hit of Some MustBeTrue \<Rightarrow> ret VTrue | Some MustBeFalse \<Rightarrow> ret VFalse | Some TrueOrFalse \<Rightarrow> ret VUnknown
     | Some MayBeTrue \<Rightarrow> andThen (inner (computeTruth impl q)) (\<lambda>tmp.
         if tmp then andCache (cacheInsert hv q MustBeTrue) (ret VTrue)
         else andCache (cacheInsert hv q TrueOrFalse) (ret VUnknown))
     | Some MayBeFalse \<Rightarrow> build (negateExpr q) (\<lambda>n. andThen (inner (computeTruth impl n)) (\<lambda>tmp.
         if tmp then andCache (cacheInsert hv q MustBeFalse) (ret VFalse)
         else andCache (cacheInsert hv q TrueOrFalse) (ret VUnknown)))
     | Some PVNone \<Rightarrow> asserted
     | None \<Rightarrow> andThen (inner (computeValidity impl q)) (\<lambda>result. andCache (cacheInsert hv q
         (case result of VTrue \<Rightarrow> MustBeTrue | VFalse \<Rightarrow> MustBeFalse | VUnknown \<Rightarrow> TrueOrFalse)) (ret result))) (\<lambda>r. r = validity_of q)"
  proof (cases hit)
    case (Some pv)
    with hit have "pv_ok q pv" "pv \<noteq> PVNone" by auto
    with Some may mayn one show ?thesis by (cases pv) (auto intro!: call_ok_ret simp: validity_of_def)
  qed (use miss in simp)
qed

lemma CachingSolver_sound_solver: "sound_solver N F (\<lambda>(c, s). cache_ok c \<and> I s) (CachingSolver hv impl)"
  by unfold_locales (simp_all add: CachingSolver_def caching_truth caching_validity call_ok_inner val initial)

end

interpretation caching_literal: sound_solver False True "\<lambda>(c, s). cache_ok c \<and> True" "CachingSolver hv LiteralSolver" for hv
  by (rule literal_solver.CachingSolver_sound_solver)

section \<open>The validating solver\<close>

text \<open>The constraints that bind the bytes of the arrays to the values of a solution; a value that is
  missing is an access out of range.\<close>

fun bindByte :: "array \<Rightarrow> nat list \<Rightarrow> nat \<Rightarrow> expr option" where
  "bindByte array bytes j =
     (if length bytes \<le> j then None
      else ReadExpr_create array NoUpdate (ConstantExpr (arr_domain array) (j mod 2 ^ arr_domain array)) \<bind> (\<lambda>r.
           EqExpr_create r (ConstantExpr (arr_range array) (bytes ! j mod 2 ^ arr_range array))))"

fun bindBytes :: "array \<Rightarrow> nat list \<Rightarrow> nat list \<Rightarrow> expr list option" where
  "bindBytes array bytes [] = Some []"
| "bindBytes array bytes (j # js) = bindByte array bytes j \<bind> (\<lambda>e. map_option (Cons e) (bindBytes array bytes js))"

fun bindings :: "array list \<Rightarrow> nat list list \<Rightarrow> expr list option" where
  "bindings objects [] = Some []"
| "bindings [] (v # vs) = None"
| "bindings (array # objects) (v # vs) =
     bindBytes array v [0..<arr_size array] \<bind> (\<lambda>es. map_option (append es) (bindings objects vs))"

fun conjoin :: "expr \<Rightarrow> expr list \<Rightarrow> expr option" where
  "conjoin e [] = Some e"
| "conjoin e (c # cs) = AndExpr_create e c \<bind> (\<lambda>e. conjoin e cs)"

definition ValidatingSolver :: "'s SolverImpl \<Rightarrow> 'o SolverImpl \<Rightarrow> ('s \<times> 'o) SolverImpl" where
  "ValidatingSolver solver oracle =
     \<lparr>computeTruth = (\<lambda>q.
        andThen (onFst (computeTruth solver q)) (\<lambda>isValid.
        andThen (inner (computeTruth oracle q)) (\<lambda>answer.
        if isValid \<noteq> answer then asserted else ret isValid))),
      computeValidity = (\<lambda>q.
        andThen (onFst (computeValidity solver q)) (\<lambda>result.
        andThen (inner (computeValidity oracle q)) (\<lambda>answer.
        if result \<noteq> answer then asserted else ret result))),
      computeValue = (\<lambda>q.
        andThen (onFst (computeValue solver q)) (\<lambda>result.
        build (NeExpr_create (q_expr q) result) (\<lambda>ne.
        andThen (inner (computeTruth oracle (withExpr q ne))) (\<lambda>answer.
        if answer then asserted else ret result)))),
      computeInitialValues = (\<lambda>q objects.
        andThen (onFst (computeInitialValues solver q objects)) (\<lambda>r. case r of
          Some values \<Rightarrow>
            build (bindings objects values) (\<lambda>bs.
            build (createIsZero (q_expr q) \<bind> (\<lambda>e. conjoin e (constraints q))) (\<lambda>all.
            andThen (inner (computeTruth oracle \<lparr>constraints = bs, q_expr = all\<rparr>)) (\<lambda>answer.
            if \<not> answer then asserted else ret r)))
        | None \<Rightarrow>
            andThen (inner (computeTruth oracle q)) (\<lambda>answer.
            if \<not> answer then asserted else ret r)))\<rparr>"

lemma call_ok_any: "call_ok True True (\<lambda>s. True) m (\<lambda>x. True)"
proof (rule call_okI)
  fix s show "outcome_ok True True (\<lambda>s. True) (\<lambda>x. True) (m s)"
    by (cases "m s" rule: outcome_cases) simp_all
qed

text \<open>The question that checks a value.\<close>

lemma ask_differs:
  assumes q: "admissible q" and v: "v < 2 ^ getWidth (q_expr q)"
  shows "succeeds (NeExpr_create (q_expr q) (ConstantExpr (getWidth (q_expr q)) v))
    (\<lambda>e. bool_query (withExpr q e) \<and> (valid (withExpr q e) \<longleftrightarrow> \<not> possible q v))"
proof -
  have wf: "wf_expr (q_expr q)" using q by (simp add: admissible_def)
  have "succeeds (NeExpr_create (q_expr q) (ConstantExpr (getWidth (q_expr q)) v)) (\<lambda>e. bool_query (withExpr q e)
    \<and> (valid (withExpr q e) \<longleftrightarrow> (\<forall>u. possible q u \<longrightarrow> u \<noteq> v)) \<and> (invalid (withExpr q e) \<longleftrightarrow> (\<forall>u. possible q u \<longrightarrow> \<not> u \<noteq> v)))"
    by (rule ask_query [OF q NeExpr_create_simplifies [OF wf]]) (use v wf_getWidth_pos [OF wf] in auto)
  then show ?thesis by (rule succeeds_mono) auto
qed

context sound_solver
begin

lemma validating_ok:
  assumes s: "call_ok N' F' J (computeTruth solver q) P" "call_ok N' F' J (computeValidity solver q) Q"
    and n: "N \<longrightarrow> N'" "F \<longrightarrow> F'" and q: "bool_query q"
    and agree: "\<not> N' \<Longrightarrow> (\<forall>b. P b \<longrightarrow> b = valid q) \<and> (\<forall>r. Q r \<longrightarrow> r = validity_of q)"
  shows "call_ok N' F' (\<lambda>(s, t). J s \<and> I t) (computeTruth (ValidatingSolver solver impl) q) (\<lambda>b. b = valid q)"
    "call_ok N' F' (\<lambda>(s, t). J s \<and> I t) (computeValidity (ValidatingSolver solver impl) q) (\<lambda>r. r = validity_of q)"
  unfolding ValidatingSolver_def SolverImpl.simps
  by (rule call_ok_andThen [OF call_ok_onFst [OF s(1)]], rule call_ok_andThen [OF call_ok_inner [OF call_ok_weaken [OF truth [OF q] n]]], assumption)
    (use agree in \<open>auto intro!: call_ok_if call_ok_ret call_ok_asserted\<close>,
     rule call_ok_andThen [OF call_ok_onFst [OF s(2)]], rule call_ok_andThen [OF call_ok_inner [OF call_ok_weaken [OF validity [OF q] n]]], assumption,
     use agree in \<open>auto intro!: call_ok_if call_ok_ret call_ok_asserted\<close>)

lemma validating_value:
  assumes s: "call_ok N' F' J (computeValue solver q) P" and n: "N \<longrightarrow> N'" "F \<longrightarrow> F'" and q: "admissible q"
    and P: "\<And>e. P e \<Longrightarrow> \<exists>v < 2 ^ getWidth (q_expr q). e = ConstantExpr (getWidth (q_expr q)) v \<and> (\<not> N' \<longrightarrow> possible q v)"
  shows "call_ok N' F' (\<lambda>(s, t). J s \<and> I t) (computeValue (ValidatingSolver solver impl) q)
    (\<lambda>e. \<exists>v. possible q v \<and> e = ConstantExpr (getWidth (q_expr q)) v)"
  unfolding ValidatingSolver_def SolverImpl.simps
proof (rule call_ok_andThen [OF call_ok_onFst [OF s]])
  fix e assume "P e"
  from P [OF this] obtain v where v: "v < 2 ^ getWidth (q_expr q)" "e = ConstantExpr (getWidth (q_expr q)) v" "\<not> N' \<longrightarrow> possible q v"
    by blast
  show "call_ok N' F' (\<lambda>(s, t). J s \<and> I t) (build (NeExpr_create (q_expr q) e) (\<lambda>ne.
    andThen (inner (computeTruth impl (withExpr q ne))) (\<lambda>answer. if answer then asserted else ret e)))
    (\<lambda>e. \<exists>v. possible q v \<and> e = ConstantExpr (getWidth (q_expr q)) v)"
    unfolding v(2)
    by (rule call_ok_build [OF ask_differs [OF q v(1)]], elim conjE,
        rule call_ok_andThen [OF call_ok_inner [OF call_ok_weaken [OF truth n]]], assumption, assumption)
      (use v in \<open>auto intro!: call_ok_if call_ok_ret call_ok_asserted\<close>)
qed

end

section \<open>Properties\<close>

text \<open>C31: a caching solver is as sound as the solver below it: the cache only holds true answers (a
  query and its negation share an entry), and every answer, from the cache or not, is right. No
  assertion fails, in particular the one behind the switch on the cached result.\<close>

theorem CachingSolver_sound:
  assumes "sound_solver N F I impl" "bool_query q"
  shows "call_ok N F (\<lambda>(cache, s). cache_ok cache \<and> I s) (computeTruth (CachingSolver hv impl) q) (\<lambda>b. b = valid q)
    \<and> call_ok N F (\<lambda>(cache, s). cache_ok cache \<and> I s) (computeValidity (CachingSolver hv impl) q) (\<lambda>r. r = validity_of q)
    \<and> cache_ok Map.empty"
  using sound_solver.caching_truth [OF assms] sound_solver.caching_validity [OF assms]
  by (simp add: CachingSolver_def cache_ok_def)

theorem CachingSolver_sound_witness:
  "bool_query ex_query \<and> call_ok False True (\<lambda>(cache, s). cache_ok cache \<and> True)
     (computeTruth (CachingSolver (\<lambda>w v. 0) LiteralSolver) ex_query) (\<lambda>b. b)"
  using CachingSolver_sound [OF literal_solver.sound_solver_axioms ex_query_bool, of "\<lambda>w v. 0"] ex_query_bool
    member_valid [of ex_query] by (auto simp: ex_query_def)

text \<open>A staged solver is sound if its incomplete solver is: partial answers of the primary are
  completed by the secondary, and the default \<open>computeValidity\<close> of an incomplete solver draws only
  sound conclusions from \<open>computeTruth\<close>.\<close>

theorem StagedSolver_sound:
  assumes "incomplete_ok N J primary" "sound_solver N F I secondary" "bool_query q"
  shows "call_ok N F (\<lambda>(p, s). J p \<and> I s) (computeTruth (StagedSolverImpl primary secondary) q) (\<lambda>b. b = valid q)
    \<and> call_ok N F (\<lambda>(p, s). J p \<and> I s) (computeValidity (StagedSolverImpl primary secondary) q) (\<lambda>r. r = validity_of q)
    \<and> call_ok N F (\<lambda>(p, s). J p \<and> I s) (computeInitialValues (StagedSolverImpl primary secondary) q objects) (initial_values q objects)
    \<and> call_ok N False J (IncompleteSolver_computeValidity (i_computeTruth primary) q) (pv_ok q)"
proof -
  note staged = StagedSolverImpl_sound [OF assms(1,2)]
  have "call_ok N False J (IncompleteSolver_computeValidity (i_computeTruth primary) q) (pv_ok q)"
    using assms(1) by (intro incomplete_validity_ok assms(3)) (simp add: incomplete_ok_def)
  then show ?thesis
    using sound_solver.truth [OF staged assms(3)] sound_solver.validity [OF staged assms(3)] sound_solver.initial [OF staged assms(3)]
    by blast
qed

definition ex_incomplete :: "unit IncompleteSolver" where
  "ex_incomplete =
     \<lparr>i_computeTruth = (\<lambda>q. ret (if q_expr q \<in> set (constraints q) then MustBeTrue else PVNone)),
      i_computeValidity = (\<lambda>q. ret (if q_expr q \<in> set (constraints q) then MustBeTrue else PVNone)),
      i_computeValue = (\<lambda>q. failed), i_computeInitialValues = (\<lambda>q objects. failed)\<rparr>"

theorem StagedSolver_sound_witness:
  "computeValidity (StagedSolverImpl ex_incomplete (DummySolverImpl :: unit SolverImpl)) ex_query ((), ()) = Some (Some VTrue, ((), ()))
   \<and> validity_of ex_query = VTrue"
proof -
  let ?impl = "StagedSolverImpl ex_incomplete (DummySolverImpl :: unit SolverImpl)"
  have "incomplete_ok False (\<lambda>s. True) ex_incomplete"
    using member_valid by (auto simp: incomplete_ok_def ex_incomplete_def intro!: call_intro)
  from StagedSolver_sound [OF this dummy_solver.sound_solver_axioms ex_query_bool, of "[]"]
  have ok: "call_ok False True (\<lambda>(p, s). True \<and> True) (computeValidity ?impl ex_query) (\<lambda>r. r = validity_of ex_query)"
    by blast
  have run: "computeValidity ?impl ex_query ((), ()) = Some (Some VTrue, ((), ()))"
    by (simp add: StagedSolverImpl_def ex_incomplete_def andThen_def onFst_def ret_def ex_query_def)
  from call_okD [OF ok, of "((), ())"] run show ?thesis by simp
qed

text \<open>A validating solver with a sound oracle never returns a wrong answer, whatever the solver it
  checks answers: a wrong truth, validity or value ends in a failed assertion. If the checked solver is
  sound, no assertion fails on these three operations.\<close>

theorem ValidatingSolver_checks:
  assumes "sound_solver N F I oracle" "bool_query q"
  shows "call_ok True True (\<lambda>(s, t). True \<and> I t) (computeTruth (ValidatingSolver solver oracle) q) (\<lambda>b. b = valid q)
    \<and> call_ok True True (\<lambda>(s, t). True \<and> I t) (computeValidity (ValidatingSolver solver oracle) q) (\<lambda>r. r = validity_of q)
    \<and> (call_ok True True (\<lambda>s. True) (computeValue solver q) (\<lambda>e. \<exists>v < 2. e = ConstantExpr 1 v) \<longrightarrow>
        call_ok True True (\<lambda>(s, t). True \<and> I t) (computeValue (ValidatingSolver solver oracle) q)
          (\<lambda>e. \<exists>v. possible q v \<and> e = ConstantExpr 1 v))
    \<and> (sound_solver N F J solver \<longrightarrow>
        call_ok N F (\<lambda>(s, t). J s \<and> I t) (computeTruth (ValidatingSolver solver oracle) q) (\<lambda>b. b = valid q)
        \<and> call_ok N F (\<lambda>(s, t). J s \<and> I t) (computeValidity (ValidatingSolver solver oracle) q) (\<lambda>r. r = validity_of q)
        \<and> call_ok N F (\<lambda>(s, t). J s \<and> I t) (computeValue (ValidatingSolver solver oracle) q)
            (\<lambda>e. \<exists>v. possible q v \<and> e = ConstantExpr 1 v))"
proof (intro conjI impI)
  have adm: "admissible q" and w: "getWidth (q_expr q) = 1" using assms(2) by (simp_all add: bool_query_def)
  show "call_ok True True (\<lambda>(s, t). True \<and> I t) (computeTruth (ValidatingSolver solver oracle) q) (\<lambda>b. b = valid q)"
    "call_ok True True (\<lambda>(s, t). True \<and> I t) (computeValidity (ValidatingSolver solver oracle) q) (\<lambda>r. r = validity_of q)"
    by (rule sound_solver.validating_ok [OF assms(1) call_ok_any call_ok_any _ _ assms(2)]; simp)+
  show "call_ok True True (\<lambda>(s, t). True \<and> I t) (computeValue (ValidatingSolver solver oracle) q)
      (\<lambda>e. \<exists>v. possible q v \<and> e = ConstantExpr 1 v)"
    if "call_ok True True (\<lambda>s. True) (computeValue solver q) (\<lambda>e. \<exists>v < 2. e = ConstantExpr 1 v)"
    using sound_solver.validating_value [OF assms(1) that _ _ adm] w by simp
  assume s: "sound_solver N F J solver"
  note u = sound_solver.truth [OF s assms(2)] and v = sound_solver.validity [OF s assms(2)]
  show "call_ok N F (\<lambda>(s, t). J s \<and> I t) (computeTruth (ValidatingSolver solver oracle) q) (\<lambda>b. b = valid q)"
    "call_ok N F (\<lambda>(s, t). J s \<and> I t) (computeValidity (ValidatingSolver solver oracle) q) (\<lambda>r. r = validity_of q)"
    by (rule sound_solver.validating_ok [OF assms(1) u v _ _ assms(2)]; simp)+
  show "call_ok N F (\<lambda>(s, t). J s \<and> I t) (computeValue (ValidatingSolver solver oracle) q)
      (\<lambda>e. \<exists>v. possible q v \<and> e = ConstantExpr 1 v)"
    using sound_solver.validating_value [OF assms(1) sound_solver.val [OF s adm] _ _ adm] possible_less [OF adm] w by auto
qed

text \<open>A checked solver that answers every question with no.\<close>

definition ex_wrong :: "unit SolverImpl" where
  "ex_wrong = LiteralSolver\<lparr>computeTruth := \<lambda>q. ret False\<rparr>"

theorem ValidatingSolver_checks_witness:
  "computeTruth (ValidatingSolver LiteralSolver LiteralSolver) ex_query ((), ()) = Some (Some True, ((), ()))
   \<and> valid ex_query \<and> computeTruth (ValidatingSolver ex_wrong LiteralSolver) ex_query ((), ()) = None"
proof -
  have ok: "call_ok True True (\<lambda>(s, t). True \<and> True) (computeTruth (ValidatingSolver LiteralSolver LiteralSolver) ex_query) (\<lambda>b. b = valid ex_query)"
    using ValidatingSolver_checks [OF literal_solver.sound_solver_axioms ex_query_bool] by blast
  have run: "computeTruth (ValidatingSolver LiteralSolver LiteralSolver) ex_query ((), ()) = Some (Some True, ((), ()))"
    "computeTruth (ValidatingSolver ex_wrong LiteralSolver) ex_query ((), ()) = None"
    by (simp_all add: ValidatingSolver_def LiteralSolver_def ex_wrong_def andThen_def onFst_def inner_def ret_def asserted_def ex_query_def)
  from call_okD [OF ok, of "((), ())"] run show ?thesis by simp
qed

end
