(* ===== verification/TimingSolver.thy ===== *)
theory TimingSolver
  imports SolverChain
begin

text \<open>
  \<^verbatim>\<open>lib/Core/TimingSolver.cpp\<close>: the solver the engine talks to. It answers constants itself and simplifies
  the expression under the constraints before it asks. \<open>simplifyExprs\<close> is \<open>None\<close> if simplification is off and the
  bound on the steps of the visitor otherwise; a simplification that does not end within it, or that
  fails an assertion, is a failed assertion of the call. The time spent, which is added to the
  query's meta data, is not modelled.
\<close>

definition timingSimplify :: "nat option \<Rightarrow> constraint_set \<Rightarrow> expr \<Rightarrow> expr option" where
  "timingSimplify simplifyExprs cs e =
     (case simplifyExprs of
        None \<Rightarrow> Some e
      | Some fuel \<Rightarrow> (case simplifyExpr fuel cs e of Inl err \<Rightarrow> None | Inr e' \<Rightarrow> Some e'))"

definition TimingSolver_evaluate :: "nat option \<Rightarrow> 's SolverImpl \<Rightarrow> constraint_set \<Rightarrow> expr \<Rightarrow> ('s, Validity) call" where
  "TimingSolver_evaluate simplifyExprs solver cs e =
     (case dyn_cast_ConstantExpr e of
        Some (w, v) \<Rightarrow> ret (if ConstantExpr_isTrue w v then VTrue else VFalse)
      | None \<Rightarrow> build (timingSimplify simplifyExprs cs e) (\<lambda>e. Solver_evaluate solver \<lparr>constraints = cs, q_expr = e\<rparr>))"

definition TimingSolver_mustBeTrue :: "nat option \<Rightarrow> 's SolverImpl \<Rightarrow> constraint_set \<Rightarrow> expr \<Rightarrow> ('s, bool) call" where
  "TimingSolver_mustBeTrue simplifyExprs solver cs e =
     (case dyn_cast_ConstantExpr e of
        Some (w, v) \<Rightarrow> ret (ConstantExpr_isTrue w v)
      | None \<Rightarrow> build (timingSimplify simplifyExprs cs e) (\<lambda>e. Solver_mustBeTrue solver \<lparr>constraints = cs, q_expr = e\<rparr>))"

definition TimingSolver_mustBeFalse :: "nat option \<Rightarrow> 's SolverImpl \<Rightarrow> constraint_set \<Rightarrow> expr \<Rightarrow> ('s, bool) call" where
  "TimingSolver_mustBeFalse simplifyExprs solver cs e =
     build (createIsZero e) (TimingSolver_mustBeTrue simplifyExprs solver cs)"

definition TimingSolver_mayBeTrue :: "nat option \<Rightarrow> 's SolverImpl \<Rightarrow> constraint_set \<Rightarrow> expr \<Rightarrow> ('s, bool) call" where
  "TimingSolver_mayBeTrue simplifyExprs solver cs e =
     andThen (TimingSolver_mustBeFalse simplifyExprs solver cs e) (\<lambda>res. ret (\<not> res))"

definition TimingSolver_mayBeFalse :: "nat option \<Rightarrow> 's SolverImpl \<Rightarrow> constraint_set \<Rightarrow> expr \<Rightarrow> ('s, bool) call" where
  "TimingSolver_mayBeFalse simplifyExprs solver cs e =
     andThen (TimingSolver_mustBeTrue simplifyExprs solver cs e) (\<lambda>res. ret (\<not> res))"

definition TimingSolver_getValue :: "nat option \<Rightarrow> 's SolverImpl \<Rightarrow> constraint_set \<Rightarrow> expr \<Rightarrow> ('s, expr) call" where
  "TimingSolver_getValue simplifyExprs solver cs e =
     (if isConstantExpr e then ret e
      else build (timingSimplify simplifyExprs cs e) (\<lambda>e. Solver_getValue solver \<lparr>constraints = cs, q_expr = e\<rparr>))"

text \<open>The result is only stored if there are objects; the callers pass an empty vector.\<close>

definition TimingSolver_getInitialValues :: "'s SolverImpl \<Rightarrow> constraint_set \<Rightarrow> array list \<Rightarrow> ('s, nat list list) call" where
  "TimingSolver_getInitialValues solver cs objects =
     (if objects = [] then ret []
      else Solver_getInitialValues solver \<lparr>constraints = cs, q_expr = ConstantExpr Bool 0\<rparr> objects)"

definition TimingSolver_getRange :: "'s SolverImpl \<Rightarrow> constraint_set \<Rightarrow> expr \<Rightarrow> ('s, expr \<times> expr) call" where
  "TimingSolver_getRange solver cs e = Solver_getRange solver \<lparr>constraints = cs, q_expr = e\<rparr>"

section \<open>Simplification does not change the question\<close>

definition same_question :: "query \<Rightarrow> query \<Rightarrow> bool" where
  "same_question q q' \<longleftrightarrow> constraints q' = constraints q \<and> admissible q' \<and> getWidth (q_expr q') = getWidth (q_expr q)
     \<and> (\<forall>\<sigma>. models (constraints q) \<sigma> \<longrightarrow> eval \<sigma> (q_expr q') = eval \<sigma> (q_expr q))"

lemma same_questionD:
  assumes "same_question q q'"
  shows "valid q' = valid q" "invalid q' = invalid q" "validity_of q' = validity_of q" "possible q' = possible q"
    "bool_query q \<Longrightarrow> bool_query q'" "admissible q'" "getWidth (q_expr q') = getWidth (q_expr q)"
proof -
  have eq: "constraints q' = constraints q" and ev: "models (constraints q) \<sigma> \<Longrightarrow> eval \<sigma> (q_expr q') = eval \<sigma> (q_expr q)" for \<sigma>
    using assms by (auto simp: same_question_def)
  show v: "valid q' = valid q" "invalid q' = invalid q" unfolding valid_def invalid_def eq using ev by simp_all
  show "validity_of q' = validity_of q" by (simp add: validity_of_def v)
  show "possible q' = possible q" unfolding possible_def eq fun_eq_iff using ev by metis
  show "bool_query q \<Longrightarrow> bool_query q'" "admissible q'" "getWidth (q_expr q') = getWidth (q_expr q)"
    using assms by (simp_all add: same_question_def bool_query_def)
qed

lemma timingSimplify_ok:
  assumes "admissible q" "timingSimplify se (constraints q) (q_expr q) = Some e"
  shows "same_question q (withExpr q e)"
proof (cases se)
  case None
  with assms(2) have "withExpr q e = q" using withExpr_self [of q q] by (simp add: timingSimplify_def)
  with assms(1) show ?thesis by (simp add: same_question_def)
next
  case (Some fuel)
  with assms(2) have e: "simplifyExpr fuel (constraints q) (q_expr q) = Inr e"
    by (simp add: timingSimplify_def split: sum.splits)
  have wf: "wf_expr (q_expr q)" "list_all wf_constraint (constraints q)" using assms(1) by (simp_all add: admissible_def)
  from simplifyExpr_sound [OF e wf] have t: "wf_expr e" "getWidth e = getWidth (q_expr q)"
    and r: "\<And>\<sigma>. wf_asg \<sigma> \<Longrightarrow> list_all (not_false \<sigma>) (constraints q) \<Longrightarrow> refines_at \<sigma> e (q_expr q)"
    by (auto simp: typed_as_def)
  have "\<forall>\<sigma> v. models (constraints q) \<sigma> \<longrightarrow> eval \<sigma> (q_expr q) = Some v \<longrightarrow> eval \<sigma> e = Some (id v)"
  proof (intro allI impI)
    fix \<sigma> v assume \<sigma>: "models (constraints q) \<sigma>" and v: "eval \<sigma> (q_expr q) = Some v"
    from \<sigma> have "wf_asg \<sigma>" "list_all (not_false \<sigma>) (constraints q)"
      by (auto simp: models_def not_false_def list.pred_set)
    from r [OF this] v show "eval \<sigma> e = Some (id v)" by (simp add: refines_at_def)
  qed
  from query_refines [OF assms(1) t(1) this] t(2) show ?thesis by (auto simp: same_question_def option.map_ident)
qed

context sound_solver
begin

lemma call_ok_simplified:
  assumes "admissible q" "se \<noteq> None \<longrightarrow> N" "\<And>q'. same_question q q' \<Longrightarrow> call_ok N F I (k q') P"
  shows "call_ok N F I (build (timingSimplify se (constraints q) (q_expr q)) (\<lambda>e. k \<lparr>constraints = constraints q, q_expr = e\<rparr>)) P"
proof (cases "timingSimplify se (constraints q) (q_expr q)")
  case None
  then have "se \<noteq> None" by (cases se) (auto simp: timingSimplify_def)
  with None assms(2) show ?thesis by (simp add: build_def call_ok_asserted)
next
  case (Some e)
  have "withExpr q e = \<lparr>constraints = constraints q, q_expr = e\<rparr>" by (simp add: withExpr_def)
  with assms(3) [OF timingSimplify_ok [OF assms(1) Some]] Some show ?thesis by (simp add: build_def)
qed

lemma timing_mustBeTrue:
  assumes q: "bool_query q" and se: "se \<noteq> None \<longrightarrow> N"
  shows "call_ok N F I (TimingSolver_mustBeTrue se impl (constraints q) (q_expr q)) (\<lambda>b. b = valid q)"
proof (cases "dyn_cast_ConstantExpr (q_expr q)")
  case None
  have "admissible q" using q by (simp add: bool_query_def)
  from call_ok_simplified [OF this se, where k = "Solver_mustBeTrue impl" and P = "\<lambda>b. b = valid q"] None
  show ?thesis using mustBeTrue_ok same_questionD(1,5) q unfolding TimingSolver_mustBeTrue_def by fastforce
next
  case (Some wv)
  with q show ?thesis
    by (cases wv) (auto simp: TimingSolver_mustBeTrue_def ConstantExpr_isTrue_def valid_def bool_query_def admissible_def intro!: call_ok_ret)
qed

lemma timing_mustBeFalse:
  assumes q: "bool_query q" and se: "se \<noteq> None \<longrightarrow> N"
  shows "call_ok N F I (TimingSolver_mustBeFalse se impl (constraints q) (q_expr q)) (\<lambda>b. b = invalid q)"
proof -
  obtain e where e: "createIsZero (q_expr q) = Some e" "bool_query (withExpr q e)" "valid (withExpr q e) = invalid q"
    using negateExpr_ok [OF q] by (auto simp: negateExpr_def succeeds_def)
  from timing_mustBeTrue [OF e(2) se] e show ?thesis by (simp add: TimingSolver_mustBeFalse_def build_def)
qed

lemma timing_mayBeTrue:
  assumes q: "bool_query q" and se: "se \<noteq> None \<longrightarrow> N"
  shows "call_ok N F I (TimingSolver_mayBeTrue se impl (constraints q) (q_expr q)) (\<lambda>b. b = (\<not> invalid q))"
  unfolding TimingSolver_mayBeTrue_def
  by (rule call_ok_andThen [OF timing_mustBeFalse [OF assms]]) (simp add: call_ok_ret)

lemma timing_mayBeFalse:
  assumes q: "bool_query q" and se: "se \<noteq> None \<longrightarrow> N"
  shows "call_ok N F I (TimingSolver_mayBeFalse se impl (constraints q) (q_expr q)) (\<lambda>b. b = (\<not> valid q))"
  unfolding TimingSolver_mayBeFalse_def
  by (rule call_ok_andThen [OF timing_mustBeTrue [OF assms]]) (simp add: call_ok_ret)

lemma timing_evaluate:
  assumes q: "bool_query q" and se: "se \<noteq> None \<longrightarrow> N"
  shows "call_ok N F I (TimingSolver_evaluate se impl (constraints q) (q_expr q)) (\<lambda>r. r = validity_of q)"
proof (cases "dyn_cast_ConstantExpr (q_expr q)")
  case None
  have "admissible q" using q by (simp add: bool_query_def)
  from call_ok_simplified [OF this se, where k = "Solver_evaluate impl" and P = "\<lambda>r. r = validity_of q"] None
  show ?thesis using evaluate_ok same_questionD(3,5) q unfolding TimingSolver_evaluate_def by fastforce
next
  case (Some wv)
  with q show ?thesis
    by (cases wv) (auto simp: TimingSolver_evaluate_def ConstantExpr_isTrue_def validity_of_def valid_def invalid_def
        bool_query_def admissible_def intro!: call_ok_ret)
qed

lemma timing_getValue:
  assumes q: "admissible q" and se: "se \<noteq> None \<longrightarrow> N"
  shows "call_ok N F I (TimingSolver_getValue se impl (constraints q) (q_expr q))
    (\<lambda>e. \<exists>v. possible q v \<and> e = ConstantExpr (getWidth (q_expr q)) v)"
proof (cases "isConstantExpr (q_expr q)")
  case True
  then obtain w v where "q_expr q = ConstantExpr w v" by (cases "q_expr q") auto
  with q show ?thesis by (auto simp: TimingSolver_getValue_def possible_def admissible_def intro!: call_ok_ret)
next
  case False
  from call_ok_simplified [OF q se, where k = "Solver_getValue impl" and P = "\<lambda>e. \<exists>v. possible q v \<and> e = ConstantExpr (getWidth (q_expr q)) v"]
  show ?thesis using getValue_ok same_questionD(4,6,7) False unfolding TimingSolver_getValue_def by fastforce
qed

end

end
