(* ===== verification/AddressResolve.thy ===== *)
theory AddressResolve
  imports AddressSpace TimingSolver
begin

text \<open>
  Resolution of pointers to memory objects, the rest of \<^verbatim>\<open>lib/Core/AddressSpace.cpp\<close>. The search for a symbolic
  pointer starts at the object an example value falls into, walks down and then up the addresses, and
  asks the solver at each object; the loops run on the iterators of the map. A loop has as fuel one
  more than the size of the map, which its steps never use up.
\<close>

section \<open>The model\<close>

text \<open>\<open>if (!m(x)) d; else k(x);\<close>\<close>

definition attempt :: "('s, 'a) call \<Rightarrow> ('s, 'b) call \<Rightarrow> ('a \<Rightarrow> ('s, 'b) call) \<Rightarrow> ('s, 'b) call" where
  "attempt m d k s = (case m s of None \<Rightarrow> None | Some (None, s') \<Rightarrow> d s' | Some (Some x, s') \<Rightarrow> k x s')"

definition resolveOne_const :: "AddressSpace \<Rightarrow> nat \<Rightarrow> binding option" where
  "resolveOne_const as address =
     (case lookup_previous as_key address (objects as) of
        None \<Rightarrow> None
      | Some b \<Rightarrow>
          let mo = fst b in
          if mo_size mo = 0 \<and> address = mo_address mo \<or> (address + 2 ^ 64 - mo_address mo) mod 2 ^ 64 < mo_size mo
          then Some b else None)"

text \<open>How the body of a loop ends: by returning from the function, by leaving the loop, or going on.\<close>

datatype signal = Done | Leave | Go

text \<open>\<open>while (oi != begin) { --oi; ... }\<close>\<close>

fun searchBackwards :: "nat \<Rightarrow> binding itree \<Rightarrow> (binding \<Rightarrow> 'a \<Rightarrow> ('s, 'a \<times> signal) call) \<Rightarrow> binding tree_iterator \<Rightarrow> 'a \<Rightarrow> ('s, 'a \<times> bool) call" where
  "searchBackwards 0 objs body oi acc = asserted"
| "searchBackwards (Suc n) objs body oi acc =
     (if iter_eq oi (tree_begin objs) then ret (acc, False)
      else let oi = iter_prev oi in
        build (iter_deref oi) (\<lambda>b. andThen (body b acc) (\<lambda>(acc, sig). case sig of
          Done \<Rightarrow> ret (acc, True)
        | Leave \<Rightarrow> ret (acc, False)
        | Go \<Rightarrow> searchBackwards n objs body oi acc)))"

text \<open>\<open>for (oi = start; oi != end; ++oi) { ... }\<close>\<close>

fun searchForwards :: "nat \<Rightarrow> binding itree \<Rightarrow> (binding \<Rightarrow> 'a \<Rightarrow> ('s, 'a \<times> signal) call) \<Rightarrow> binding tree_iterator \<Rightarrow> 'a \<Rightarrow> ('s, 'a \<times> bool) call" where
  "searchForwards 0 objs body oi acc = asserted"
| "searchForwards (Suc n) objs body oi acc =
     (if iter_eq oi (tree_end objs) then ret (acc, False)
      else build (iter_deref oi) (\<lambda>b. andThen (body b acc) (\<lambda>(acc, sig). case sig of
          Done \<Rightarrow> ret (acc, True)
        | Leave \<Rightarrow> ret (acc, False)
        | Go \<Rightarrow> build (iter_next oi) (\<lambda>oi. searchForwards n objs body oi acc))))"

text \<open>The questions asked at an object, of a solver under the constraints of the state. \<open>pw\<close> is the
  width of a pointer.\<close>

type_synonym 's asker = "expr \<Rightarrow> ('s, bool) call"

definition backOne :: "nat \<Rightarrow> 's asker \<Rightarrow> 's asker \<Rightarrow> expr \<Rightarrow> binding \<Rightarrow> binding option \<Rightarrow> ('s, binding option \<times> signal) call" where
  "backOne pw mayBeTrue mustBeTrue address b acc =
     build (getBoundsCheckPointer pw (fst b) address) (\<lambda>c. andThen (mayBeTrue c) (\<lambda>may.
       if may then ret (Some b, Done)
       else build (UgeExpr_create address (getBaseExpr pw (fst b))) (\<lambda>c. andThen (mustBeTrue c) (\<lambda>must.
         ret (None, if must then Leave else Go)))))"

definition forwardOne :: "nat \<Rightarrow> 's asker \<Rightarrow> 's asker \<Rightarrow> expr \<Rightarrow> binding \<Rightarrow> binding option \<Rightarrow> ('s, binding option \<times> signal) call" where
  "forwardOne pw mayBeTrue mustBeTrue address b acc =
     build (UltExpr_create address (getBaseExpr pw (fst b))) (\<lambda>c. andThen (mustBeTrue c) (\<lambda>must.
       if must then ret (None, Leave)
       else build (getBoundsCheckPointer pw (fst b) address) (\<lambda>c. andThen (mayBeTrue c) (\<lambda>may.
         if may then ret (Some b, Done) else ret (None, Go)))))"

definition resolveOne :: "nat \<Rightarrow> nat option \<Rightarrow> 's SolverImpl \<Rightarrow> constraint_set \<Rightarrow> AddressSpace \<Rightarrow> expr \<Rightarrow> ('s, binding option) call" where
  "resolveOne pw se solver cs as address =
     (let mayBeTrue = TimingSolver_mayBeTrue se solver cs; mustBeTrue = TimingSolver_mustBeTrue se solver cs;
          objs = objects as; fuel = tree_size objs + 1
      in case dyn_cast_ConstantExpr address of
        Some (w, c) \<Rightarrow> if w > 64 then asserted else ret (resolveOne_const as c)
      | None \<Rightarrow>
          andThen (TimingSolver_getValue se solver cs address) (\<lambda>cex. build (dyn_cast_ConstantExpr cex) (\<lambda>(w, example).
            if w > 64 then asserted
            else let previous = lookup_previous as_key example objs in
              if previous \<noteq> None \<and> (example + 2 ^ 64 - mo_address (fst (the previous))) mod 2 ^ 64 < mo_size (fst (the previous))
              then ret previous
              else let oi = upper_bound as_key example objs in
                andThen (searchBackwards fuel objs (backOne pw mayBeTrue mustBeTrue address) oi None) (\<lambda>(acc, returned).
                  if returned then ret acc
                  else andThen (searchForwards fuel objs (forwardOne pw mayBeTrue mustBeTrue address) oi None) (\<lambda>(acc, returned).
                    ret acc)))))"

text \<open>The second component of the result of \<open>checkPointerInObject\<close> is the number the code returns.\<close>

definition checkPointerInObject :: "nat \<Rightarrow> 's asker \<Rightarrow> 's asker \<Rightarrow> expr \<Rightarrow> binding \<Rightarrow> binding list \<Rightarrow> nat \<Rightarrow> ('s, binding list \<times> nat) call" where
  "checkPointerInObject pw mayBeTrue mustBeTrue p op rl maxResolutions =
     build (getBoundsCheckPointer pw (fst op) p) (\<lambda>inBounds.
     attempt (mayBeTrue inBounds) (ret (rl, 1)) (\<lambda>may.
       if may then
         let rl = rl @ [op] in
         if length rl = 1 then attempt (mustBeTrue inBounds) (ret (rl, 1)) (\<lambda>must. if must then ret (rl, 0) else ret (rl, 2))
         else if length rl = maxResolutions then ret (rl, 1)
         else ret (rl, 2)
       else ret (rl, 2)))"

text \<open>\<open>late\<close> says at which objects the time is up. The accumulator is the list of resolutions and whether
  the resolution is incomplete.\<close>

definition backAll :: "nat \<Rightarrow> 's asker \<Rightarrow> 's asker \<Rightarrow> (binding \<Rightarrow> bool) \<Rightarrow> expr \<Rightarrow> nat \<Rightarrow> binding \<Rightarrow> binding list \<times> bool
    \<Rightarrow> ('s, (binding list \<times> bool) \<times> signal) call" where
  "backAll pw mayBeTrue mustBeTrue late p maxResolutions b acc =
     (if late b then ret ((fst acc, True), Done)
      else andThen (checkPointerInObject pw mayBeTrue mustBeTrue p b (fst acc) maxResolutions) (\<lambda>(rl, incomplete).
        if incomplete \<noteq> 2 then ret ((rl, incomplete \<noteq> 0), Done)
        else build (UgeExpr_create p (getBaseExpr pw (fst b))) (\<lambda>c.
          attempt (mustBeTrue c) (ret ((rl, True), Done)) (\<lambda>must. ret ((rl, False), if must then Leave else Go)))))"

definition forwardAll :: "nat \<Rightarrow> 's asker \<Rightarrow> 's asker \<Rightarrow> (binding \<Rightarrow> bool) \<Rightarrow> expr \<Rightarrow> nat \<Rightarrow> binding \<Rightarrow> binding list \<times> bool
    \<Rightarrow> ('s, (binding list \<times> bool) \<times> signal) call" where
  "forwardAll pw mayBeTrue mustBeTrue late p maxResolutions b acc =
     (if late b then ret ((fst acc, True), Done)
      else build (UltExpr_create p (getBaseExpr pw (fst b))) (\<lambda>c.
        attempt (mustBeTrue c) (ret ((fst acc, True), Done)) (\<lambda>must.
          if must then ret ((fst acc, False), Leave)
          else andThen (checkPointerInObject pw mayBeTrue mustBeTrue p b (fst acc) maxResolutions) (\<lambda>(rl, incomplete).
            if incomplete \<noteq> 2 then ret ((rl, incomplete \<noteq> 0), Done) else ret ((rl, False), Go)))))"

definition resolve :: "nat \<Rightarrow> nat option \<Rightarrow> 's SolverImpl \<Rightarrow> constraint_set \<Rightarrow> (binding \<Rightarrow> bool) \<Rightarrow> AddressSpace \<Rightarrow> expr \<Rightarrow> binding list
    \<Rightarrow> nat \<Rightarrow> ('s, binding list \<times> bool) call" where
  "resolve pw se solver cs late as p rl maxResolutions =
     (let mayBeTrue = TimingSolver_mayBeTrue se solver cs; mustBeTrue = TimingSolver_mustBeTrue se solver cs;
          objs = objects as; fuel = tree_size objs + 1
      in case dyn_cast_ConstantExpr p of
        Some (w, c) \<Rightarrow> if w > 64 then asserted
          else ret (case resolveOne_const as c of Some res \<Rightarrow> rl @ [res] | None \<Rightarrow> rl, False)
      | None \<Rightarrow>
          attempt (TimingSolver_getValue se solver cs p) (ret (rl, True)) (\<lambda>cex. build (dyn_cast_ConstantExpr cex) (\<lambda>(w, example).
            if w > 64 then asserted
            else let oi = upper_bound as_key example objs in
              andThen (searchBackwards fuel objs (backAll pw mayBeTrue mustBeTrue late p maxResolutions) oi (rl, False)) (\<lambda>(acc, returned).
                if returned then ret acc
                else andThen (searchForwards fuel objs (forwardAll pw mayBeTrue mustBeTrue late p maxResolutions) oi (fst acc, False))
                  (\<lambda>(acc, returned). ret (if returned then acc else (fst acc, False)))))))"

section \<open>The loops walk over lists\<close>

fun walk :: "(binding \<Rightarrow> 'a \<Rightarrow> ('s, 'a \<times> signal) call) \<Rightarrow> binding list \<Rightarrow> 'a \<Rightarrow> ('s, 'a \<times> bool) call" where
  "walk body [] acc = ret (acc, False)"
| "walk body (b # bs) acc = andThen (body b acc) (\<lambda>(acc, sig). case sig of
     Done \<Rightarrow> ret (acc, True) | Leave \<Rightarrow> ret (acc, False) | Go \<Rightarrow> walk body bs acc)"

lemma push_left_begin: "path root (n # st) \<Longrightarrow> before (n # st) = [] \<Longrightarrow> push_left n st = push_left root []"
proof (induction st arbitrary: n)
  case (Cons m st)
  then have m: "n \<noteq> Terminator" "n = left m \<or> n = right m" "path root (m # st)" by auto
  from path_top [OF m(3)] Cons.prems(2) m have "n = left m" "before (m # st) = []" by (auto split: if_splits)
  with Cons.IH [OF m(3)] push_left_sub [OF path_top [OF m(3)]] show ?case by simp
qed simp

lemma at_begin:
  assumes "path root st" "passed root st = []"
  shows "st = push_left root []"
proof (cases st)
  case Nil
  with assms have "inorder root = []" by (simp add: passed_def)
  then show ?thesis using Nil by (cases root) simp_all
next
  case (Cons n st')
  with assms have b: "before (n # st') = []" "inorder (left n) = []" by (simp_all add: passed_def)
  with assms(1) Cons obtain l v r h where n: "n = Node l v r h" by (cases n) (auto dest: path_top)
  with b have "l = Terminator" by (cases l) simp_all
  with push_left_begin [OF _ b(1), of root] assms(1) Cons n show ?thesis by simp
qed

lemma iter_eq_begin:
  assumes "iter_ok key it"
  shows "iter_eq it (tree_begin (iter_root it)) \<longleftrightarrow> passed (iter_root it) (iter_stack it) = []"
proof
  have p: "path (iter_root it) (iter_stack it)" using assms by (simp add: iter_ok_def)
  { assume "passed (iter_root it) (iter_stack it) = []"
    from at_begin [OF p this] show "iter_eq it (tree_begin (iter_root it))" by (simp add: iter_eq_def tree_begin_def iter_make_def) }
  assume "iter_eq it (tree_begin (iter_root it))"
  then have "remaining (iter_stack it) = inorder (iter_root it)" by (simp add: iter_eq_def remaining_begin)
  with passed_remaining [OF p] show "passed (iter_root it) (iter_stack it) = []" by simp
qed

lemma searchBackwards_walk:
  assumes "iter_ok key oi" "length (passed (iter_root oi) (iter_stack oi)) < n"
  shows "searchBackwards n (iter_root oi) body oi acc = walk body (rev (passed (iter_root oi) (iter_stack oi))) acc"
  using assms
proof (induction n arbitrary: oi acc)
  case (Suc n)
  let ?p = "passed (iter_root oi) (iter_stack oi)" and ?oi = "iter_prev oi"
  show ?case
  proof (cases "?p = []")
    case True
    with iter_eq_begin [OF Suc.prems(1)] show ?thesis by simp
  next
    case False
    then obtain ys y where pq: "?p = ys @ [y]" by (metis rev_exhaust)
    note step = iter_prev_step [OF Suc.prems(1)]
    from step(3) [OF False] pq have p: "passed (iter_root oi) (iter_stack ?oi) = ys" by simp
    have "path (iter_root oi) (iter_stack oi)" "path (iter_root oi) (iter_stack ?oi)"
      using step(1,2) Suc.prems(1) by (simp_all add: iter_ok_def)
    from this [THEN passed_remaining] p pq have "remaining (iter_stack ?oi) = y # remaining (iter_stack oi)"
      by (metis append.assoc append_Cons append_Nil same_append_eq)
    then have "iter_deref ?oi = Some y" by (simp add: iter_deref_remaining)
    moreover have "searchBackwards n (iter_root oi) body ?oi acc = walk body (rev ys) acc" for acc
      using Suc.IH [OF step(1)] step(2) p pq Suc.prems(2) by simp
    ultimately show ?thesis using iter_eq_begin [OF Suc.prems(1)] pq by (simp add: build_def cong: signal.case_cong)
  qed
qed simp

lemma iter_eq_end: "iter_eq it (tree_end (iter_root it)) \<longleftrightarrow> iter_stack it = []"
  by (simp add: iter_eq_def tree_end_def iter_make_def)

lemma searchForwards_walk:
  assumes "iter_ok key oi" "length (remaining (iter_stack oi)) < n"
  shows "searchForwards n (iter_root oi) body oi acc = walk body (remaining (iter_stack oi)) acc"
  using assms
proof (induction n arbitrary: oi acc)
  case (Suc n)
  show ?case
  proof (cases "iter_stack oi = []")
    case True
    then show ?thesis using iter_eq_end [of oi] by (simp add: remaining_def)
  next
    case False
    then obtain oi' where oi': "iter_next oi = Some oi'" "iter_ok key oi'" "iter_root oi' = iter_root oi"
      "remaining (iter_stack oi') = tl (remaining (iter_stack oi))" using iter_next_step [OF Suc.prems(1)] by blast
    from False obtain x xs where r: "remaining (iter_stack oi) = x # xs" by (cases "remaining (iter_stack oi)") auto
    have "searchForwards n (iter_root oi) body oi' acc = walk body xs acc" for acc
      using Suc.IH [OF oi'(2)] oi'(3,4) r Suc.prems(2) by simp
    moreover have "iter_deref oi = Some x" by (simp add: iter_deref_remaining r)
    ultimately show ?thesis using iter_eq_end [of oi] False r oi'(1) by (simp add: build_def cong: signal.case_cong)
  qed
qed simp

lemma sorted_by_split: "sorted_by key xs \<Longrightarrow> filter (\<lambda>b. key b \<le> k) xs @ filter (\<lambda>b. k < key b) xs = xs"
proof (induction xs)
  case (Cons x xs)
  then have gt: "\<forall>y\<in>set xs. key x < key y" and IH: "filter (\<lambda>b. key b \<le> k) xs @ filter (\<lambda>b. k < key b) xs = xs" by simp_all
  have "filter (\<lambda>b. key b \<le> k) xs = []" if "k < key x" using gt that by (auto simp: filter_empty_conv intro: less_trans)
  moreover have "filter (\<lambda>b. k < key b) xs = xs" if "k < key x" using gt that by (auto simp: filter_id_conv intro: less_trans)
  ultimately show ?case using IH by (auto simp: not_le)
qed simp

text \<open>The search from the first object above an example value.\<close>

lemma search_walks:
  assumes "tree_ok as_key t"
  shows "searchBackwards (tree_size t + 1) t body (upper_bound as_key k t) acc = walk body (rev (filter (\<lambda>b. as_key b \<le> k) (inorder t))) acc"
    "searchForwards (tree_size t + 1) t body' (upper_bound as_key k t) acc' = walk body' (filter (\<lambda>b. k < as_key b) (inorder t)) acc'"
proof -
  let ?oi = "upper_bound as_key k t"
  note ub = upper_bound_ok [OF assms, of k]
  have root: "iter_root ?oi = t"
    by (auto simp: lower_bound_settle upper_bound_def iter_next_def iter_eq_def iter_make_def Let_def split: list.split)
  have rem: "remaining (iter_stack ?oi) = filter (\<lambda>b. k < as_key b) (inorder t)" using ub(2) by (simp add: above_def)
  have "passed t (iter_stack ?oi) @ remaining (iter_stack ?oi) = inorder t"
    using passed_remaining [of t] ub(1) root unfolding iter_ok_def by simp
  moreover have "filter (\<lambda>b. as_key b \<le> k) (inorder t) @ filter (\<lambda>b. k < as_key b) (inorder t) = inorder t"
    using sorted_by_split [of as_key "inorder t" k] assms by (simp add: tree_ok_def)
  ultimately have pas: "passed t (iter_stack ?oi) = filter (\<lambda>b. as_key b \<le> k) (inorder t)" using rem by (metis same_append_eq append_same_eq)
  have len: "length (filter P (inorder t)) < tree_size t + 1" for P by (simp add: size_inorder le_imp_less_Suc)
  from searchBackwards_walk [OF ub(1), of "tree_size t + 1" body acc] len pas root
  show "searchBackwards (tree_size t + 1) t body ?oi acc = walk body (rev (filter (\<lambda>b. as_key b \<le> k) (inorder t))) acc" by simp
  from searchForwards_walk [OF ub(1), of "tree_size t + 1" body' acc'] len rem root
  show "searchForwards (tree_size t + 1) t body' ?oi acc' = walk body' (filter (\<lambda>b. k < as_key b) (inorder t)) acc'" by simp
qed

section \<open>What a walk establishes\<close>

lemma call_ok_attempt:
  assumes m: "call_ok N F I m Q" and d: "F \<Longrightarrow> call_ok N G I d P" and k: "\<And>x. Q x \<Longrightarrow> call_ok N G I (k x) P"
  shows "call_ok N G I (attempt m d k) P"
proof (rule call_okI)
  fix s assume "I s"
  note m' = call_okD [OF m this]
  show "outcome_ok N G I P (attempt m d k s)"
  proof (cases "m s" rule: outcome_cases)
    case (fails s')
    with m' have "F" "I s'" by simp_all
    from call_okD [OF d [OF this(1)] this(2)] fails show ?thesis by (simp add: attempt_def)
  next
    case (returns x s')
    with m' have "Q x" "I s'" by simp_all
    from call_okD [OF k [OF this(1)] this(2)] returns show ?thesis by (simp add: attempt_def)
  qed (use m' in \<open>simp_all add: attempt_def\<close>)
qed

text \<open>
  \<open>Inv\<close> holds of the accumulator as long as the walk goes on, \<open>Cov acc b\<close> says that \<open>b\<close> needs no further
  attention, and \<open>Fin\<close> holds when the function returns. A body that leaves the loop knows that no object
  beyond this one matters.
\<close>

definition body_post :: "('a \<Rightarrow> bool) \<Rightarrow> ('a \<Rightarrow> binding \<Rightarrow> bool) \<Rightarrow> ('a \<Rightarrow> bool) \<Rightarrow> (binding \<Rightarrow> binding \<Rightarrow> bool) \<Rightarrow> binding set \<Rightarrow> binding \<Rightarrow> 'a \<Rightarrow> 'a \<times> signal \<Rightarrow> bool" where
  "body_post Inv Cov Fin beyond B b acc r =
     (case r of (acc', sig) \<Rightarrow>
       (case sig of
          Done \<Rightarrow> Fin acc'
        | Leave \<Rightarrow> Inv acc' \<and> Cov acc' b \<and> (\<forall>c\<in>B. Cov acc c \<longrightarrow> Cov acc' c) \<and> (\<forall>c\<in>B. beyond b c \<longrightarrow> Cov acc' c)
        | Go \<Rightarrow> Inv acc' \<and> Cov acc' b \<and> (\<forall>c\<in>B. Cov acc c \<longrightarrow> Cov acc' c)))"

lemma body_post_simps [simp]:
  "body_post Inv Cov Fin beyond B b acc (acc', Done) = Fin acc'"
  "body_post Inv Cov Fin beyond B b acc (acc', Leave) \<longleftrightarrow>
     Inv acc' \<and> Cov acc' b \<and> (\<forall>c\<in>B. Cov acc c \<longrightarrow> Cov acc' c) \<and> (\<forall>c\<in>B. beyond b c \<longrightarrow> Cov acc' c)"
  "body_post Inv Cov Fin beyond B b acc (acc', Go) \<longleftrightarrow> Inv acc' \<and> Cov acc' b \<and> (\<forall>c\<in>B. Cov acc c \<longrightarrow> Cov acc' c)"
  by (simp_all add: body_post_def)

definition walk_post :: "('a \<Rightarrow> bool) \<Rightarrow> ('a \<Rightarrow> binding \<Rightarrow> bool) \<Rightarrow> ('a \<Rightarrow> bool) \<Rightarrow> binding set \<Rightarrow> binding list \<Rightarrow> 'a \<Rightarrow> 'a \<times> bool \<Rightarrow> bool" where
  "walk_post Inv Cov Fin B bs acc r =
     (case r of (acc', returned) \<Rightarrow>
       if returned then Fin acc' else Inv acc' \<and> (\<forall>c\<in>B. Cov acc c \<longrightarrow> Cov acc' c) \<and> (\<forall>c\<in>set bs. Cov acc' c))"

lemma walk_ok:
  assumes "set bs \<subseteq> B" "sorted_wrt beyond bs" "Inv acc"
    and body: "\<And>b acc. b \<in> B \<Longrightarrow> Inv acc \<Longrightarrow> call_ok N F I (body b acc) (body_post Inv Cov Fin beyond B b acc)"
  shows "call_ok N F I (walk body bs acc) (walk_post Inv Cov Fin B bs acc)"
  using assms(1-3)
proof (induction bs arbitrary: acc)
  case Nil
  then show ?case by (auto simp: walk_post_def intro!: call_ok_ret)
next
  case (Cons b bs)
  show ?case unfolding walk.simps
  proof (rule call_ok_andThen [OF body])
    fix r assume r: "body_post Inv Cov Fin beyond B b acc r"
    obtain acc' sig where eq: "r = (acc', sig)" by (cases r)
    have "call_ok N F I (walk body bs acc') (walk_post Inv Cov Fin B (b # bs) acc)" if "sig = Go"
    proof -
      have i: "Inv acc'" "Cov acc' b" "\<forall>c\<in>B. Cov acc c \<longrightarrow> Cov acc' c" using r eq that by simp_all
      have "call_ok N F I (walk body bs acc') (walk_post Inv Cov Fin B bs acc')" using Cons i(1) by simp
      then show ?thesis by (rule call_ok_mono) (use i Cons.prems(1) in \<open>auto simp: walk_post_def split: if_splits\<close>)
    qed
    moreover have "\<forall>c\<in>set bs. Cov acc' c" if "sig = Leave" using r eq that Cons.prems by fastforce
    ultimately show "call_ok N F I (case r of (acc, sig) \<Rightarrow> case sig of Done \<Rightarrow> ret (acc, True) | Leave \<Rightarrow> ret (acc, False) | Go \<Rightarrow> walk body bs acc)
      (walk_post Inv Cov Fin B (b # bs) acc)"
      using r eq Cons.prems by (cases sig) (auto simp: walk_post_def intro!: call_ok_ret)
  qed (use Cons.prems in auto)
qed

text \<open>Down from an example value and then up: together the walks attend to every object.\<close>

definition search_post :: "('a \<Rightarrow> bool) \<Rightarrow> ('a \<Rightarrow> binding \<Rightarrow> bool) \<Rightarrow> ('a \<Rightarrow> bool) \<Rightarrow> binding set \<Rightarrow> 'a \<times> bool \<Rightarrow> bool" where
  "search_post Inv Cov Fin B r = (case r of (acc, returned) \<Rightarrow> if returned then Fin acc else Inv acc \<and> (\<forall>c\<in>B. Cov acc c))"

lemma search_both:
  fixes t :: "binding itree"
  defines "B \<equiv> set (inorder t)"
  assumes t: "tree_ok as_key t" and acc: "Inv acc" and g: "\<And>acc. Inv acc \<Longrightarrow> Inv (g acc) \<and> (\<forall>c\<in>B. Cov acc c \<longrightarrow> Cov (g acc) c)"
    and bk: "\<And>b acc. b \<in> B \<Longrightarrow> Inv acc \<Longrightarrow> call_ok N F I (bk b acc) (body_post Inv Cov Fin (\<lambda>b c. as_key c < as_key b) B b acc)"
    and fw: "\<And>b acc. b \<in> B \<Longrightarrow> Inv acc \<Longrightarrow> call_ok N F I (fw b acc) (body_post Inv Cov Fin (\<lambda>b c. as_key b < as_key c) B b acc)"
    and fin: "\<And>acc. Fin acc \<Longrightarrow> Q acc" and k: "\<And>r. search_post Inv Cov Fin B r \<Longrightarrow> call_ok N F I (k r) Q"
  shows "call_ok N F I (andThen (searchBackwards (tree_size t + 1) t bk (upper_bound as_key v t) acc)
    (\<lambda>(acc, returned). if returned then ret acc
      else andThen (searchForwards (tree_size t + 1) t fw (upper_bound as_key v t) (g acc)) k)) Q"
  unfolding search_walks [OF t]
proof (rule call_ok_andThen [OF walk_ok [OF _ _ acc bk]])
  have sorted: "sorted_wrt (\<lambda>b c. as_key b < as_key c) (inorder t)" using t by (simp add: tree_ok_def sorted_by_def)
  then show "sorted_wrt (\<lambda>b c. as_key c < as_key b) (rev (filter (\<lambda>b. as_key b \<le> v) (inorder t)))"
    by (simp add: sorted_wrt_rev sorted_wrt_filter)
  fix r assume r: "walk_post Inv Cov Fin B (rev (filter (\<lambda>b. as_key b \<le> v) (inorder t))) acc r"
  obtain acc' returned where eq: "r = (acc', returned)" by (cases r)
  have "call_ok N F I (andThen (walk fw (filter (\<lambda>b. v < as_key b) (inorder t)) (g acc')) k) Q" if ret: "\<not> returned"
  proof (rule call_ok_andThen [OF walk_ok [OF _ _ _ fw] k])
    have inv: "Inv acc'" "\<forall>c\<in>B. as_key c \<le> v \<longrightarrow> Cov acc' c" using r eq ret by (auto simp: walk_post_def B_def)
    with g show "Inv (g acc')" by simp
    fix r' assume "walk_post Inv Cov Fin B (filter (\<lambda>b. v < as_key b) (inorder t)) (g acc') r'"
    with inv g [OF inv(1)] show "search_post Inv Cov Fin B r'"
      by (cases r') (auto simp: walk_post_def search_post_def B_def not_le split: if_splits)
  qed (use sorted in \<open>auto simp: B_def sorted_wrt_filter\<close>)
  with r eq fin show "call_ok N F I (case r of (acc, returned) \<Rightarrow> if returned then ret acc
      else andThen (walk fw (filter (\<lambda>b. v < as_key b) (inorder t)) (g acc)) k) Q"
    by (auto simp: walk_post_def intro!: call_ok_ret)
qed (auto simp: B_def)

section \<open>Pointers and objects\<close>

text \<open>The memory objects of an address space: they lie within the 64-bit addresses and do not overlap.
  An object of size zero still has its address to itself.\<close>

definition in_object :: "MemoryObject \<Rightarrow> nat \<Rightarrow> bool" where
  "in_object mo v \<longleftrightarrow> mo_address mo \<le> v \<and> (v < mo_address mo + mo_size mo \<or> mo_size mo = 0 \<and> v = mo_address mo)"

definition layout_ok :: "AddressSpace \<Rightarrow> bool" where
  "layout_ok as \<longleftrightarrow> tree_ok as_key (objects as)
     \<and> (\<forall>b\<in>set (inorder (objects as)). mo_address (fst b) + mo_size (fst b) < 2 ^ 64)
     \<and> (\<forall>b\<in>set (inorder (objects as)). \<forall>c\<in>set (inorder (objects as)). as_key b < as_key c \<longrightarrow> as_key b + mo_size (fst b) \<le> as_key c)"

definition points_to :: "query \<Rightarrow> binding \<Rightarrow> bool" where
  "points_to q b \<longleftrightarrow> (\<exists>v. possible q v \<and> in_object (fst b) v)"

lemma in_object_unique:
  assumes "layout_ok as" "b \<in> set (inorder (objects as))" "c \<in> set (inorder (objects as))" "in_object (fst b) v" "in_object (fst c) v"
  shows "b = c"
proof -
  have "as_key b = as_key c"
  proof (rule ccontr)
    assume "as_key b \<noteq> as_key c"
    then consider "as_key b < as_key c" | "as_key c < as_key b" by linarith
    then show False
    proof cases
      case 1
      with assms have "as_key b + mo_size (fst b) \<le> as_key c" by (auto simp: layout_ok_def)
      with 1 assms(4,5) show False by (auto simp: in_object_def as_key_def)
    next
      case 2
      with assms have "as_key c + mo_size (fst c) \<le> as_key b" by (auto simp: layout_ok_def)
      with 2 assms(4,5) show False by (auto simp: in_object_def as_key_def)
    qed
  qed
  moreover have t: "tree_ok as_key (objects as)" using assms(1) by (simp add: layout_ok_def)
  ultimately show ?thesis using assms(2,3) tree_store.lookup_iff [OF t] by (metis option.inject)
qed

lemma offset_in_bounds:
  assumes "v < 2 ^ 64" "mo_address mo + mo_size mo < 2 ^ 64" "0 < mo_size mo"
  shows "(v + 2 ^ 64 - mo_address mo) mod 2 ^ 64 < mo_size mo \<longleftrightarrow> in_object mo v"
proof (cases "mo_address mo \<le> v")
  case True
  then have "(v + 2 ^ 64 - mo_address mo) mod 2 ^ 64 = v - mo_address mo" using assms(1) by (simp add: mod_if)
  with True assms(3) show ?thesis by (auto simp: in_object_def)
next
  case False
  then have "(v + 2 ^ 64 - mo_address mo) mod 2 ^ 64 = v + 2 ^ 64 - mo_address mo" using assms(1) by simp
  with False assms(2) show ?thesis by (auto simp: in_object_def)
qed

text \<open>The three questions, for a pointer of 64 bits.\<close>

lemma bv_sub_address:
  assumes "a < 2 ^ 64"
  shows "bv_sub 64 v a = (v + 2 ^ 64 - a) mod 2 ^ 64"
proof -
  have "int (v + 2 ^ 64 - a) = (int v - int a) + 2 ^ 64" using assms by (simp add: of_nat_diff)
  then have "(int v - int a) mod 2 ^ 64 = int (v + 2 ^ 64 - a) mod 2 ^ 64" by (simp only: mod_add_self2)
  then show ?thesis by (simp only: bv_sub_def wrap_def) (simp add: nat_mod_distrib nat_power_eq del: of_nat_diff)
qed

lemma ask_inBounds:
  assumes q: "admissible q" "getWidth (q_expr q) = 64" and mo: "mo_address mo + mo_size mo < 2 ^ 64"
  shows "succeeds (getBoundsCheckPointer 64 mo (q_expr q)) (\<lambda>e. bool_query (withExpr q e)
    \<and> (valid (withExpr q e) \<longleftrightarrow> (\<forall>v. possible q v \<longrightarrow> in_object mo v))
    \<and> (invalid (withExpr q e) \<longleftrightarrow> (\<forall>v. possible q v \<longrightarrow> \<not> in_object mo v)))"
proof (rule ask_query [OF q(1)])
  let ?p = "q_expr q" and ?a = "ConstantExpr 64 (mo_address mo)"
  let ?c = "if mo_size mo = 0 then BinaryExpr Eq (BinaryExpr Sub ?p ?a) (ConstantExpr 64 0)
    else BinaryExpr Ult (BinaryExpr Sub ?p ?a) (ConstantExpr 64 (mo_size mo))"
  have wf: "wf_expr ?p" "wf_expr ?a" using q(1) mo by (simp_all add: admissible_def)
  have const: "getBaseExpr 64 mo = ?a" "getSizeExpr 64 mo = ConstantExpr 64 (mo_size mo)"
    using mo by (simp_all add: getBaseExpr_def getSizeExpr_def)
  show "simplifies (getBoundsCheckPointer 64 mo ?p) ?c"
    unfolding getBoundsCheckPointer_def getOffsetExpr_def const
  proof (rule simplifies_bind [OF SubExpr_create_simplifies [OF wf]])
    fix e assume e: "refines e (BinaryExpr Sub ?p ?a)"
    have we: "wf_expr e" "getWidth e = 64" using refines_wf [OF e] refines_width [OF e] q(2) by simp_all
    have "simplifies (EqExpr_create e (ConstantExpr 64 0)) (BinaryExpr Eq (BinaryExpr Sub ?p ?a) (ConstantExpr 64 0))"
      "simplifies (UltExpr_create e (ConstantExpr 64 (mo_size mo))) (BinaryExpr Ult (BinaryExpr Sub ?p ?a) (ConstantExpr 64 (mo_size mo)))"
      using we q(2) mo by (intro simplifies_trans [OF EqExpr_create_simplifies refines_Binary [OF e]]
          simplifies_trans [OF less_create_simplifies(1) refines_Binary [OF e]]; simp)+
    then show "simplifies (getBoundsCheckOffset 64 mo e) ?c" by (simp add: getBoundsCheckOffset_def const)
  qed (use q(2) in simp)
  show "\<forall>\<sigma> v. models (constraints q) \<sigma> \<longrightarrow> eval \<sigma> ?p = Some v \<longrightarrow> eval \<sigma> ?c = Some (of_bool (in_object mo v))"
  proof (intro allI impI)
    fix \<sigma> v assume "models (constraints q) \<sigma>" and v: "eval \<sigma> ?p = Some v"
    then have lt: "v < 2 ^ 64" using possible_less [OF q(1), of v] q(2) by (auto simp: possible_def)
    have sub: "bv_sub 64 v (mo_address mo) = (v + 2 ^ 64 - mo_address mo) mod 2 ^ 64" using mo by (intro bv_sub_address) simp
    have "(v + 2 ^ 64 - mo_address mo) mod 2 ^ 64 = 0 \<longleftrightarrow> v = mo_address mo"
      using lt mo by (cases "mo_address mo \<le> v") (auto simp: mod_if)
    with v sub offset_in_bounds [OF lt mo] q(2) show "eval \<sigma> ?c = Some (of_bool (in_object mo v))"
      by (auto simp: in_object_def)
  qed
qed (use q(2) in simp)

lemma ask_above:
  assumes q: "admissible q" "getWidth (q_expr q) = 64" and mo: "mo_address mo + mo_size mo < 2 ^ 64"
  shows "succeeds (UgeExpr_create (q_expr q) (getBaseExpr 64 mo)) (\<lambda>e. bool_query (withExpr q e)
      \<and> (valid (withExpr q e) \<longleftrightarrow> (\<forall>v. possible q v \<longrightarrow> mo_address mo \<le> v))
      \<and> (invalid (withExpr q e) \<longleftrightarrow> (\<forall>v. possible q v \<longrightarrow> \<not> mo_address mo \<le> v)))"
    "succeeds (UltExpr_create (q_expr q) (getBaseExpr 64 mo)) (\<lambda>e. bool_query (withExpr q e)
      \<and> (valid (withExpr q e) \<longleftrightarrow> (\<forall>v. possible q v \<longrightarrow> v < mo_address mo))
      \<and> (invalid (withExpr q e) \<longleftrightarrow> (\<forall>v. possible q v \<longrightarrow> \<not> v < mo_address mo)))"
proof -
  have wf: "wf_expr (q_expr q)" "wf_expr (getBaseExpr 64 mo)" "getWidth (q_expr q) = getWidth (getBaseExpr 64 mo)"
    and base: "getBaseExpr 64 mo = ConstantExpr 64 (mo_address mo)"
    using q mo by (simp_all add: admissible_def getBaseExpr_def)
  show "succeeds (UgeExpr_create (q_expr q) (getBaseExpr 64 mo)) (\<lambda>e. bool_query (withExpr q e)
      \<and> (valid (withExpr q e) \<longleftrightarrow> (\<forall>v. possible q v \<longrightarrow> mo_address mo \<le> v))
      \<and> (invalid (withExpr q e) \<longleftrightarrow> (\<forall>v. possible q v \<longrightarrow> \<not> mo_address mo \<le> v)))"
    by (rule ask_query [OF q(1) greater_create_simplifies(2) [OF wf]]) (simp_all add: base)
  show "succeeds (UltExpr_create (q_expr q) (getBaseExpr 64 mo)) (\<lambda>e. bool_query (withExpr q e)
      \<and> (valid (withExpr q e) \<longleftrightarrow> (\<forall>v. possible q v \<longrightarrow> v < mo_address mo))
      \<and> (invalid (withExpr q e) \<longleftrightarrow> (\<forall>v. possible q v \<longrightarrow> \<not> v < mo_address mo)))"
    by (rule ask_query [OF q(1) less_create_simplifies(1) [OF wf]]) (simp_all add: base)
qed

section \<open>Concrete addresses\<close>

lemma layout_okD:
  assumes "layout_ok as"
  shows "tree_ok as_key (objects as)" "b \<in> set (inorder (objects as)) \<Longrightarrow> mo_address (fst b) + mo_size (fst b) < 2 ^ 64"
    "b \<in> set (inorder (objects as)) \<Longrightarrow> c \<in> set (inorder (objects as)) \<Longrightarrow> as_key b < as_key c \<Longrightarrow> as_key b + mo_size (fst b) \<le> as_key c"
  using assms by (simp_all add: layout_ok_def)

lemma in_object_previous:
  assumes as: "layout_ok as" and c: "c \<in> set (inorder (objects as))" "in_object (fst c) v"
  shows "lookup_previous as_key v (objects as) = Some c"
proof -
  note t = layout_okD(1) [OF as]
  have le: "as_key c \<le> v" using c(2) by (simp add: in_object_def as_key_def)
  with c(1) tree_store.previous_none [OF t, of v] obtain b where b: "lookup_previous as_key v (objects as) = Some b"
    by (metis not_None_eq linorder_not_le)
  note prev = tree_store.previous_greatest [OF t b]
  have "as_key c = as_key b"
  proof (rule ccontr)
    assume "as_key c \<noteq> as_key b"
    with prev(3) c(1) le have lt: "as_key c < as_key b" by fastforce
    from layout_okD(3) [OF as c(1) prev(1) this] prev(2) lt c(2) show False by (auto simp: in_object_def as_key_def)
  qed
  with c(1) prev(1) b tree_store.lookup_iff [OF t] show ?thesis by (metis option.inject)
qed

lemma resolveOne_const_iff:
  assumes as: "layout_ok as" and v: "v < 2 ^ 64"
  shows "resolveOne_const as v = Some b \<longleftrightarrow> b \<in> set (inorder (objects as)) \<and> in_object (fst b) v"
proof (cases "lookup_previous as_key v (objects as)")
  case None
  then have "\<not> (b \<in> set (inorder (objects as)) \<and> in_object (fst b) v)" using in_object_previous [OF as] by (metis option.distinct(1))
  with None show ?thesis by (simp add: resolveOne_const_def)
next
  case (Some c)
  note prev = tree_store.previous_greatest [OF layout_okD(1) [OF as] Some]
  have "mo_size (fst c) = 0 \<and> v = mo_address (fst c) \<or> (v + 2 ^ 64 - mo_address (fst c)) mod 2 ^ 64 < mo_size (fst c) \<longleftrightarrow> in_object (fst c) v"
    using offset_in_bounds [OF v layout_okD(2) [OF as prev(1)]] by (auto simp: in_object_def)
  with Some prev(1) in_object_previous [OF as, of b v] show ?thesis by (auto simp: resolveOne_const_def Let_def)
qed

lemma resolveOne_const_none:
  assumes as: "layout_ok as" and v: "v < 2 ^ 64"
  shows "resolveOne_const as v = None \<longleftrightarrow> (\<forall>b\<in>set (inorder (objects as)). \<not> in_object (fst b) v)"
  using resolveOne_const_iff [OF assms] by (metis not_None_eq)

lemma possible_constant:
  assumes "admissible q" "dyn_cast_ConstantExpr (q_expr q) = Some (w, c)"
  shows "possible q v \<longleftrightarrow> v = c"
  using assms by (cases "q_expr q") (auto simp: possible_def admissible_def)

section \<open>Symbolic pointers\<close>

lemma above_all:
  assumes as: "layout_ok as" and bc: "b \<in> set (inorder (objects as))" "c \<in> set (inorder (objects as))" "as_key c < as_key b"
    and ge: "\<forall>v. possible q v \<longrightarrow> mo_address (fst b) \<le> v"
  shows "\<not> points_to q c"
proof
  assume "points_to q c"
  then obtain v where v: "possible q v" "in_object (fst c) v" by (auto simp: points_to_def)
  with ge layout_okD(3) [OF as bc(2,1,3)] bc(3) show False by (fastforce simp: in_object_def as_key_def)
qed

lemma below_all:
  assumes "as_key b \<le> as_key c" and lt: "\<forall>v. possible q v \<longrightarrow> v < mo_address (fst b)"
  shows "\<not> points_to q c"
  using assms by (fastforce simp: points_to_def in_object_def as_key_def)

context sound_solver
begin

lemma timing_inBounds:
  assumes q: "admissible q" "getWidth (q_expr q) = 64" and se: "se \<noteq> None \<longrightarrow> N" and mo: "mo_address mo + mo_size mo < 2 ^ 64"
  shows "succeeds (getBoundsCheckPointer 64 mo (q_expr q)) (\<lambda>e.
      call_ok N F I (TimingSolver_mayBeTrue se impl (constraints q) e) (\<lambda>b. b = (\<exists>v. possible q v \<and> in_object mo v))
    \<and> call_ok N F I (TimingSolver_mustBeTrue se impl (constraints q) e) (\<lambda>b. b = (\<forall>v. possible q v \<longrightarrow> in_object mo v)))"
proof (rule succeeds_mono [OF ask_inBounds [OF q mo]])
  fix e assume e: "bool_query (withExpr q e) \<and> (valid (withExpr q e) \<longleftrightarrow> (\<forall>v. possible q v \<longrightarrow> in_object mo v))
    \<and> (invalid (withExpr q e) \<longleftrightarrow> (\<forall>v. possible q v \<longrightarrow> \<not> in_object mo v))"
  with timing_mayBeTrue [of "withExpr q e" se] timing_mustBeTrue [of "withExpr q e" se] se
  show "call_ok N F I (TimingSolver_mayBeTrue se impl (constraints q) e) (\<lambda>b. b = (\<exists>v. possible q v \<and> in_object mo v))
    \<and> call_ok N F I (TimingSolver_mustBeTrue se impl (constraints q) e) (\<lambda>b. b = (\<forall>v. possible q v \<longrightarrow> in_object mo v))" by simp
qed

lemma timing_above:
  assumes q: "admissible q" "getWidth (q_expr q) = 64" and se: "se \<noteq> None \<longrightarrow> N" and mo: "mo_address mo + mo_size mo < 2 ^ 64"
  shows "succeeds (UgeExpr_create (q_expr q) (getBaseExpr 64 mo)) (\<lambda>e.
      call_ok N F I (TimingSolver_mustBeTrue se impl (constraints q) e) (\<lambda>b. b = (\<forall>v. possible q v \<longrightarrow> mo_address mo \<le> v)))"
    "succeeds (UltExpr_create (q_expr q) (getBaseExpr 64 mo)) (\<lambda>e.
      call_ok N F I (TimingSolver_mustBeTrue se impl (constraints q) e) (\<lambda>b. b = (\<forall>v. possible q v \<longrightarrow> v < mo_address mo)))"
proof -
  have ask: "call_ok N F I (TimingSolver_mustBeTrue se impl (constraints q) e) (\<lambda>b. b = P)"
    if "bool_query (withExpr q e) \<and> valid (withExpr q e) = P \<and> R" for e P R
    using timing_mustBeTrue [of "withExpr q e" se] se that by simp
  show "succeeds (UgeExpr_create (q_expr q) (getBaseExpr 64 mo)) (\<lambda>e.
      call_ok N F I (TimingSolver_mustBeTrue se impl (constraints q) e) (\<lambda>b. b = (\<forall>v. possible q v \<longrightarrow> mo_address mo \<le> v)))"
    by (rule succeeds_mono [OF ask_above(1) [OF q mo]]) (rule ask)
  show "succeeds (UltExpr_create (q_expr q) (getBaseExpr 64 mo)) (\<lambda>e.
      call_ok N F I (TimingSolver_mustBeTrue se impl (constraints q) e) (\<lambda>b. b = (\<forall>v. possible q v \<longrightarrow> v < mo_address mo)))"
    by (rule succeeds_mono [OF ask_above(2) [OF q mo]]) (rule ask)
qed

subsection \<open>One object\<close>

lemma backOne_ok:
  assumes q: "admissible q" "getWidth (q_expr q) = 64" and se: "se \<noteq> None \<longrightarrow> N" and as: "layout_ok as"
    and b: "b \<in> set (inorder (objects as))"
  shows "call_ok N F I (backOne 64 (TimingSolver_mayBeTrue se impl (constraints q)) (TimingSolver_mustBeTrue se impl (constraints q)) (q_expr q) b acc)
    (body_post (\<lambda>acc. acc = None) (\<lambda>acc c. \<not> points_to q c) (\<lambda>acc. \<exists>b\<in>set (inorder (objects as)). acc = Some b \<and> points_to q b)
      (\<lambda>b c. as_key c < as_key b) (set (inorder (objects as))) b acc)"
  unfolding backOne_def
  apply (rule call_ok_build [OF timing_inBounds [OF q se layout_okD(2) [OF as b]]], elim conjE, erule call_ok_andThen)
  apply (rule call_ok_if)
   apply (rule call_ok_ret, use b in \<open>simp add: points_to_def\<close>)
  apply (rule call_ok_build [OF timing_above(1) [OF q se layout_okD(2) [OF as b]]], erule call_ok_andThen)
  apply (rule call_ok_ret, use above_all [OF as b] in \<open>auto simp: points_to_def\<close>)
  done

lemma forwardOne_ok:
  assumes q: "admissible q" "getWidth (q_expr q) = 64" and se: "se \<noteq> None \<longrightarrow> N" and as: "layout_ok as"
    and b: "b \<in> set (inorder (objects as))"
  shows "call_ok N F I (forwardOne 64 (TimingSolver_mayBeTrue se impl (constraints q)) (TimingSolver_mustBeTrue se impl (constraints q)) (q_expr q) b acc)
    (body_post (\<lambda>acc. acc = None) (\<lambda>acc c. \<not> points_to q c) (\<lambda>acc. \<exists>b\<in>set (inorder (objects as)). acc = Some b \<and> points_to q b)
      (\<lambda>b c. as_key b < as_key c) (set (inorder (objects as))) b acc)"
  unfolding forwardOne_def
  apply (rule call_ok_build [OF timing_above(2) [OF q se layout_okD(2) [OF as b]]], erule call_ok_andThen)
  apply (rule call_ok_if)
   apply (rule call_ok_ret, use below_all [of b] in \<open>auto simp: less_imp_le\<close>)
  apply (rule call_ok_build [OF timing_inBounds [OF q se layout_okD(2) [OF as b]]], elim conjE, erule call_ok_andThen)
  apply (rule call_ok_if; rule call_ok_ret, use b in \<open>simp add: points_to_def\<close>)
  done

lemma resolveOne_ok:
  assumes q: "admissible q" "getWidth (q_expr q) = 64" and se: "se \<noteq> None \<longrightarrow> N" and as: "layout_ok as"
  shows "call_ok N F I (resolveOne 64 se impl (constraints q) as (q_expr q))
    (\<lambda>r. case r of Some b \<Rightarrow> b \<in> set (inorder (objects as)) \<and> points_to q b
       | None \<Rightarrow> \<forall>b\<in>set (inorder (objects as)). \<not> points_to q b)" (is "call_ok N F I _ ?Q")
proof (cases "dyn_cast_ConstantExpr (q_expr q)")
  case (Some wc)
  then obtain c where c: "dyn_cast_ConstantExpr (q_expr q) = Some (64, c)" using q(2) by (cases "q_expr q") auto
  from possible_constant [OF q(1) c] possible_less [OF q(1)] q(2) have "c < 2 ^ 64" by metis
  note res = resolveOne_const_iff [OF as this] resolveOne_const_none [OF as this]
  have "?Q (resolveOne_const as c)"
    using res possible_constant [OF q(1) c] by (cases "resolveOne_const as c") (auto simp: points_to_def)
  then show ?thesis unfolding resolveOne_def Let_def c by (simp add: call_ok_ret)
next
  case None
  let ?bk = "backOne 64 (TimingSolver_mayBeTrue se impl (constraints q)) (TimingSolver_mustBeTrue se impl (constraints q)) (q_expr q)"
    and ?fw = "forwardOne 64 (TimingSolver_mayBeTrue se impl (constraints q)) (TimingSolver_mustBeTrue se impl (constraints q)) (q_expr q)"
  note t = layout_okD(1) [OF as]
  show ?thesis
    unfolding resolveOne_def Let_def None option.case
  proof (rule call_ok_andThen [OF timing_getValue [OF q(1) se]], elim exE conjE, goal_cases)
    case (1 cex v)
    have v: "v < 2 ^ 64" using possible_less [OF q(1) 1(1)] q(2) by simp
    have search: "call_ok N F I (andThen (searchBackwards (tree_size (objects as) + 1) (objects as) ?bk (upper_bound as_key v (objects as)) None)
      (\<lambda>(acc, returned). if returned then ret acc
        else andThen (searchForwards (tree_size (objects as) + 1) (objects as) ?fw (upper_bound as_key v (objects as)) None)
          (\<lambda>(acc, returned). ret acc))) ?Q"
      by (rule search_both [OF t _ _ backOne_ok [OF q se as] forwardOne_ok [OF q se as]])
        (auto simp: search_post_def intro!: call_ok_ret split: if_splits option.split)
    have hit: "?Q (Some b)" if b: "lookup_previous as_key v (objects as) = Some b"
      "(v + 2 ^ 64 - mo_address (fst b)) mod 2 ^ 64 < mo_size (fst b)" for b
    proof -
      have "b \<in> set (inorder (objects as))" by (rule tree_store.previous_greatest(1) [OF t b(1)])
      with offset_in_bounds [OF v layout_okD(2) [OF as this]] b(2) 1(1) show ?thesis by (auto simp: points_to_def)
    qed
    show ?case using 1(2) q(2) search hit by (auto simp: build_def intro!: call_ok_ret)
  qed
qed

end

section \<open>Lists of resolutions\<close>

text \<open>\<open>rl\<close> holds objects the pointer may point to; \<open>covers\<close> says that an object is there if it has to be.\<close>

definition resolved :: "query \<Rightarrow> binding set \<Rightarrow> binding list \<Rightarrow> bool" where
  "resolved q B rl \<longleftrightarrow> (\<forall>b\<in>set rl. b \<in> B \<and> points_to q b)"

definition covers :: "query \<Rightarrow> binding list \<Rightarrow> binding \<Rightarrow> bool" where
  "covers q rl b \<longleftrightarrow> (points_to q b \<longrightarrow> b \<in> set rl)"

definition check_post :: "query \<Rightarrow> binding set \<Rightarrow> nat \<Rightarrow> binding \<Rightarrow> binding list \<Rightarrow> binding list \<times> nat \<Rightarrow> bool" where
  "check_post q B mx b rl r = (case r of (rl', k) \<Rightarrow> resolved q B rl' \<and> set rl \<subseteq> set rl' \<and> (2 \<le> mx \<longrightarrow> length rl' \<le> mx)
     \<and> (k = 0 \<longrightarrow> (\<forall>c\<in>B. covers q rl' c)) \<and> (k = 2 \<longrightarrow> covers q rl' b \<and> (2 \<le> mx \<longrightarrow> length rl' < mx)))"

text \<open>While the search goes on there is room for another object.\<close>

definition going :: "query \<Rightarrow> binding set \<Rightarrow> nat \<Rightarrow> binding list \<times> bool \<Rightarrow> bool" where
  "going q B mx acc \<longleftrightarrow> resolved q B (fst acc) \<and> (2 \<le> mx \<longrightarrow> length (fst acc) < mx) \<and> \<not> snd acc"

definition finished :: "query \<Rightarrow> binding set \<Rightarrow> nat \<Rightarrow> binding list \<times> bool \<Rightarrow> bool" where
  "finished q B mx acc \<longleftrightarrow> resolved q B (fst acc) \<and> (2 \<le> mx \<longrightarrow> length (fst acc) \<le> mx)
     \<and> (\<not> snd acc \<longrightarrow> (\<forall>c\<in>B. covers q (fst acc) c))"

lemma only_object:
  assumes "layout_ok as" "b \<in> set (inorder (objects as))" "\<forall>v. possible q v \<longrightarrow> in_object (fst b) v" "b \<in> set rl"
    "c \<in> set (inorder (objects as))"
  shows "covers q rl c"
  using in_object_unique [OF assms(1,2,5)] assms(3,4) by (auto simp: covers_def points_to_def)

context sound_solver
begin

lemma checkPointerInObject_ok:
  assumes q: "admissible q" "getWidth (q_expr q) = 64" and se: "se \<noteq> None \<longrightarrow> N" and as: "layout_ok as"
    and b: "b \<in> set (inorder (objects as))" and rl: "resolved q (set (inorder (objects as))) rl" "2 \<le> mx \<longrightarrow> length rl < mx"
  shows "call_ok N False I (checkPointerInObject 64 (TimingSolver_mayBeTrue se impl (constraints q)) (TimingSolver_mustBeTrue se impl (constraints q))
    (q_expr q) b rl mx) (check_post q (set (inorder (objects as))) mx b rl)"
  unfolding checkPointerInObject_def
proof (rule call_ok_build [OF timing_inBounds [OF q se layout_okD(2) [OF as b]]], elim conjE, erule call_ok_attempt, goal_cases)
  case 1
  then show ?case using rl by (auto simp: check_post_def intro!: call_ok_ret)
next
  case (2 e may)
  show ?case
  proof (cases may)
    case False
    then show ?thesis using 2 rl by (auto simp: check_post_def covers_def points_to_def intro!: call_ok_ret)
  next
    case True
    then have pt: "points_to q b" using 2 by (simp add: points_to_def)
    then have new: "resolved q (set (inorder (objects as))) (rl @ [b])" "covers q (rl @ [b]) b" using rl b by (auto simp: resolved_def covers_def)
    have "call_ok N False I (attempt (TimingSolver_mustBeTrue se impl (constraints q) e) (ret (rl @ [b], 1))
      (\<lambda>must. if must then ret (rl @ [b], 0) else ret (rl @ [b], 2))) (check_post q (set (inorder (objects as))) mx b rl)" if "rl = []"
      by (rule call_ok_attempt [OF 2(1)]) (use new rl that only_object [OF as b] in \<open>auto simp: check_post_def intro!: call_ok_ret\<close>)
    with True new rl show ?thesis by (auto simp: check_post_def Let_def intro!: call_ok_ret)
  qed
qed

lemma backAll_ok:
  assumes q: "admissible q" "getWidth (q_expr q) = 64" and se: "se \<noteq> None \<longrightarrow> N" and as: "layout_ok as"
    and b: "b \<in> set (inorder (objects as))" and acc: "going q (set (inorder (objects as))) mx acc"
  shows "call_ok N False I (backAll 64 (TimingSolver_mayBeTrue se impl (constraints q)) (TimingSolver_mustBeTrue se impl (constraints q))
      late (q_expr q) mx b acc)
    (body_post (going q (set (inorder (objects as))) mx) (\<lambda>acc. covers q (fst acc)) (finished q (set (inorder (objects as))) mx)
      (\<lambda>b c. as_key c < as_key b) (set (inorder (objects as))) b acc)" (is "call_ok N False I _ ?P")
proof -
  let ?B = "set (inorder (objects as))"
  have rl: "resolved q ?B (fst acc)" "2 \<le> mx \<longrightarrow> length (fst acc) < mx" using acc by (simp_all add: going_def)
  have late: "?P ((fst acc, True), Done)" using rl by (auto simp: finished_def)
  show ?thesis unfolding backAll_def
  proof (rule call_ok_if [OF call_ok_ret [where P = ?P, OF late]], rule call_ok_andThen [OF checkPointerInObject_ok [OF q se as b rl]])
    fix r assume r: "check_post q ?B mx b (fst acc) r"
    obtain rl' k where eq: "r = (rl', k)" by (cases r)
    have fin: "?P ((rl', k \<noteq> 0), Done)" using r eq by (auto simp: check_post_def finished_def)
    have "call_ok N False I (build (UgeExpr_create (q_expr q) (getBaseExpr 64 (fst b))) (\<lambda>c.
      attempt (TimingSolver_mustBeTrue se impl (constraints q) c) (ret ((rl', True), Done)) (\<lambda>must. ret ((rl', False), if must then Leave else Go)))) ?P"
      if k: "k = 2"
    proof (rule call_ok_build [OF timing_above(1) [OF q se layout_okD(2) [OF as b]]], erule call_ok_attempt)
      show "call_ok N False I (ret ((rl', True), Done)) ?P"
        using r eq by (auto simp: check_post_def finished_def intro!: call_ok_ret)
      have go: "going q ?B mx (rl', False)" "covers q rl' b" "\<forall>c. covers q (fst acc) c \<longrightarrow> covers q rl' c"
        using r eq k by (auto simp: check_post_def going_def covers_def)
      moreover have "\<forall>c\<in>?B. as_key c < as_key b \<longrightarrow> covers q rl' c" if "\<forall>v. possible q v \<longrightarrow> mo_address (fst b) \<le> v"
        using above_all [OF as b _ _ that] by (simp add: covers_def)
      ultimately show "call_ok N False I (ret ((rl', False), if must then Leave else Go)) ?P"
        if "must = (\<forall>v. possible q v \<longrightarrow> mo_address (fst b) \<le> v)" for must
        using that by (auto intro!: call_ok_ret)
    qed
    with fin eq show "call_ok N False I (case r of (rl, incomplete) \<Rightarrow> if incomplete \<noteq> 2 then ret ((rl, incomplete \<noteq> 0), Done)
        else build (UgeExpr_create (q_expr q) (getBaseExpr 64 (fst b))) (\<lambda>c.
          attempt (TimingSolver_mustBeTrue se impl (constraints q) c) (ret ((rl, True), Done)) (\<lambda>must. ret ((rl, False), if must then Leave else Go)))) ?P"
      by (auto intro!: call_ok_ret)
  qed
qed

lemma forwardAll_ok:
  assumes q: "admissible q" "getWidth (q_expr q) = 64" and se: "se \<noteq> None \<longrightarrow> N" and as: "layout_ok as"
    and b: "b \<in> set (inorder (objects as))" and acc: "going q (set (inorder (objects as))) mx acc"
  shows "call_ok N False I (forwardAll 64 (TimingSolver_mayBeTrue se impl (constraints q)) (TimingSolver_mustBeTrue se impl (constraints q))
      late (q_expr q) mx b acc)
    (body_post (going q (set (inorder (objects as))) mx) (\<lambda>acc. covers q (fst acc)) (finished q (set (inorder (objects as))) mx)
      (\<lambda>b c. as_key b < as_key c) (set (inorder (objects as))) b acc)" (is "call_ok N False I _ ?P")
proof -
  let ?B = "set (inorder (objects as))"
  have rl: "resolved q ?B (fst acc)" "2 \<le> mx \<longrightarrow> length (fst acc) < mx" using acc by (simp_all add: going_def)
  have late: "?P ((fst acc, True), Done)" using rl by (auto simp: finished_def)
  note late = call_ok_ret [where P = ?P, OF late]
  show ?thesis unfolding forwardAll_def
  proof (rule call_ok_if [OF late], rule call_ok_build [OF timing_above(2) [OF q se layout_okD(2) [OF as b]]],
      erule call_ok_attempt, rule late, rule call_ok_if, goal_cases)
    case (1 e must)
    have cov: "covers q (fst acc) c" if "as_key b \<le> as_key c" for c using below_all [OF that] 1 by (simp add: covers_def)
    have "going q ?B mx (fst acc, False)" using acc by (simp add: going_def)
    with cov show ?case by (intro call_ok_ret) (simp add: less_imp_le)
  next
    case (2 e must)
    show ?case
    proof (rule call_ok_andThen [OF checkPointerInObject_ok [OF q se as b rl]])
      fix r assume r: "check_post q ?B mx b (fst acc) r"
      obtain rl' k where eq: "r = (rl', k)" by (cases r)
      have "?P ((rl', k \<noteq> 0), Done)" "k = 2 \<Longrightarrow> ?P ((rl', False), Go)" using r eq by (auto simp: check_post_def finished_def going_def covers_def)
      with eq show "call_ok N False I (case r of (rl, incomplete) \<Rightarrow>
        if incomplete \<noteq> 2 then ret ((rl, incomplete \<noteq> 0), Done) else ret ((rl, False), Go)) ?P" by (auto intro!: call_ok_ret simp del: body_post_simps)
    qed
  qed
qed

lemma resolve_ok:
  assumes q: "admissible q" "getWidth (q_expr q) = 64" and se: "se \<noteq> None \<longrightarrow> N" and as: "layout_ok as"
  shows "call_ok N False I (resolve 64 se impl (constraints q) late as (q_expr q) [] mx) (finished q (set (inorder (objects as))) mx)"
proof (cases "dyn_cast_ConstantExpr (q_expr q)")
  case (Some wc)
  then obtain c where c: "dyn_cast_ConstantExpr (q_expr q) = Some (64, c)" using q(2) by (cases "q_expr q") auto
  from possible_constant [OF q(1) c] possible_less [OF q(1)] q(2) have "c < 2 ^ 64" by metis
  note res = resolveOne_const_iff [OF as this] resolveOne_const_none [OF as this]
  have "finished q (set (inorder (objects as))) mx (case resolveOne_const as c of Some res \<Rightarrow> [] @ [res] | None \<Rightarrow> [], False)"
  proof (cases "resolveOne_const as c")
    case None
    with res possible_constant [OF q(1) c] show ?thesis by (auto simp: finished_def resolved_def covers_def points_to_def)
  next
    case (Some b)
    with res(1) have b: "b \<in> set (inorder (objects as))" "in_object (fst b) c" by blast+
    with only_object [OF as b(1), of q "[b]"] possible_constant [OF q(1) c] show ?thesis
      unfolding Some by (simp add: finished_def resolved_def points_to_def)
  qed
  then show ?thesis unfolding resolve_def Let_def c by (simp add: call_ok_ret)
next
  case None
  let ?B = "set (inorder (objects as))"
  let ?bk = "backAll 64 (TimingSolver_mayBeTrue se impl (constraints q)) (TimingSolver_mustBeTrue se impl (constraints q)) late (q_expr q) mx"
    and ?fw = "forwardAll 64 (TimingSolver_mayBeTrue se impl (constraints q)) (TimingSolver_mustBeTrue se impl (constraints q)) late (q_expr q) mx"
  have empty: "going q ?B mx ([], False)" "finished q ?B mx ([], True)" by (auto simp: going_def finished_def resolved_def)
  have search: "call_ok N False I (andThen (searchBackwards (tree_size (objects as) + 1) (objects as) ?bk (upper_bound as_key v (objects as)) ([], False))
      (\<lambda>(acc, returned). if returned then ret acc
        else andThen (searchForwards (tree_size (objects as) + 1) (objects as) ?fw (upper_bound as_key v (objects as)) (fst acc, False))
          (\<lambda>(acc, returned). ret (if returned then acc else (fst acc, False))))) (finished q ?B mx)" for v
    by (rule search_both [OF layout_okD(1) [OF as] empty(1) _ backAll_ok [OF q se as] forwardAll_ok [OF q se as]])
      (auto simp: search_post_def going_def finished_def intro!: call_ok_ret split: if_splits)
  show ?thesis unfolding resolve_def Let_def None option.case
    by (rule call_ok_attempt [OF timing_getValue [OF q(1) se]])
      (use q(2) search in \<open>auto simp: build_def intro!: call_ok_ret empty(2)\<close>)
qed

end

section \<open>Properties\<close>

text \<open>C34: \<open>resolveOne\<close> on a sound solver. If it finds an object, that object is bound in the address space
  and the pointer can point into it under the constraints; if it reports that there is none, the
  pointer cannot point into any object that is bound. The searches down and up the map may be
  left early, and the loops never exhaust their bound. Objects must not overlap.\<close>

theorem resolveOne_correct:
  assumes "sound_solver N F I impl" "layout_ok as" "admissible q" "getWidth (q_expr q) = 64" "se \<noteq> None \<longrightarrow> N"
  shows "call_ok N F I (resolveOne 64 se impl (constraints q) as (q_expr q))
    (\<lambda>r. case r of
        Some b \<Rightarrow> b \<in> set (inorder (objects as)) \<and> (\<exists>v. possible q v \<and> in_object (fst b) v)
      | None \<Rightarrow> \<forall>b\<in>set (inorder (objects as)). \<forall>v. possible q v \<longrightarrow> \<not> in_object (fst b) v)"
proof (rule call_ok_mono [OF sound_solver.resolveOne_ok [OF assms(1,3,4,5,2)]])
  fix r assume "case r of Some b \<Rightarrow> b \<in> set (inorder (objects as)) \<and> points_to q b
       | None \<Rightarrow> \<forall>b\<in>set (inorder (objects as)). \<not> points_to q b"
  then show "case r of
        Some b \<Rightarrow> b \<in> set (inorder (objects as)) \<and> (\<exists>v. possible q v \<and> in_object (fst b) v)
      | None \<Rightarrow> \<forall>b\<in>set (inorder (objects as)). \<forall>v. possible q v \<longrightarrow> \<not> in_object (fst b) v"
    by (cases r) (auto simp: points_to_def)
qed

definition ex_low :: MemoryObject where
  "ex_low = \<lparr>mo_id = 1, mo_address = 4, mo_size = 4, mo_isUserSpecified = False, mo_symsize = None\<rparr>"

definition ex_space :: AddressSpace where
  "ex_space = \<lparr>cowKey = 1, objects = newNode (newNode Terminator (ex_low, 0) Terminator) (ex_mo, 1) Terminator\<rparr>"

definition ex_pointer :: query where
  "ex_pointer = \<lparr>constraints = [BinaryExpr Eq (ConstantExpr 64 5) (CastExpr ZExt (ex_read 0) 64)], q_expr = CastExpr ZExt (ex_read 0) 64\<rparr>"

lemma ex_space_layout: "layout_ok ex_space"
  by (simp add: layout_ok_def ex_space_def ex_low_def ex_mo_def newNode_def tree_ok_def as_key_def)

lemma ex_space_previous [simp]:
  "lookup_previous as_key 5 (objects ex_space) = Some (ex_low, 0)" "lookup_previous as_key 4097 (objects ex_space) = Some (ex_mo, 1)"
  by (rule in_object_previous [OF ex_space_layout]; simp add: ex_space_def newNode_def in_object_def ex_low_def ex_mo_def)+

lemma ex_pointer_admissible: "admissible ex_pointer" "getWidth (q_expr ex_pointer) = 64"
proof -
  have "models (constraints ex_pointer) (\<lambda>a i. 5 mod 2 ^ arr_range a)"
    by (simp add: models_def ex_pointer_def wf_asg_def ex_read_def ex_array_def arr_init_def isConstantArray_def isSymbolicArray_def)
  then show "admissible ex_pointer" "getWidth (q_expr ex_pointer) = 64"
    by (auto simp: admissible_def ex_pointer_def wf_constraint_def ex_read_def)
qed

theorem resolveOne_correct_witness:
  "resolveOne 64 None LiteralSolver (constraints ex_pointer) ex_space (q_expr ex_pointer) () = Some (Some (Some (ex_low, 0)), ())
   \<and> (\<exists>v. possible ex_pointer v \<and> in_object ex_low v)"
proof -
  have run: "resolveOne 64 None LiteralSolver (constraints ex_pointer) ex_space (q_expr ex_pointer) () = Some (Some (Some (ex_low, 0)), ())"
    by (simp add: resolveOne_def TimingSolver_getValue_def timingSimplify_def Solver_getValue_def LiteralSolver_def literalValue_def
        ex_pointer_def ex_low_def build_def map_filter_simps andThen_def ret_def Let_def)
  from resolveOne_correct [OF literal_solver.sound_solver_axioms ex_space_layout ex_pointer_admissible, of None]
    call_okD [of False True "\<lambda>s. True" _ _ "()"] run show ?thesis by fastforce
qed

text \<open>C35: \<open>resolve\<close> on a sound solver, from an empty list. Every object of the result is bound and can be pointed to;
  if the result is not marked incomplete, it has every object the pointer can point to under the
  constraints, whenever the time is up and wherever a query failed; and a bound of two or more on
  the number of resolutions is kept. The call itself never fails.\<close>

theorem resolve_correct:
  assumes "sound_solver N F I impl" "layout_ok as" "admissible q" "getWidth (q_expr q) = 64" "se \<noteq> None \<longrightarrow> N"
  shows "call_ok N False I (resolve 64 se impl (constraints q) late as (q_expr q) [] maxResolutions)
    (\<lambda>(rl, incomplete). (\<forall>b\<in>set rl. b \<in> set (inorder (objects as)) \<and> points_to q b)
       \<and> (\<not> incomplete \<longrightarrow> {b \<in> set (inorder (objects as)). points_to q b} \<subseteq> set rl)
       \<and> (2 \<le> maxResolutions \<longrightarrow> length rl \<le> maxResolutions))"
  by (rule call_ok_mono [OF sound_solver.resolve_ok [OF assms(1,3,4,5,2)]])
    (auto simp: finished_def resolved_def covers_def)

theorem resolve_correct_witness:
  "resolve 64 None LiteralSolver [] (\<lambda>b. False) ex_space (ConstantExpr 64 4097) [] 0 () = Some (Some ([(ex_mo, 1)], False), ())
   \<and> {b \<in> set (inorder (objects ex_space)). points_to \<lparr>constraints = [], q_expr = ConstantExpr 64 4097\<rparr> b} \<subseteq> {(ex_mo, 1)}"
proof -
  let ?q = "\<lparr>constraints = [], q_expr = ConstantExpr 64 4097\<rparr>"
  have run: "resolve 64 None LiteralSolver [] (\<lambda>b. False) ex_space (ConstantExpr 64 4097) [] 0 () = Some (Some ([(ex_mo, 1)], False), ())"
    by (simp add: resolve_def resolveOne_const_def ex_mo_def ret_def Let_def)
  have "admissible ?q" using ex_pointer_admissible(1) by (auto simp: admissible_def models_def)
  from resolve_correct [OF literal_solver.sound_solver_axioms ex_space_layout this, of None "\<lambda>b. False" 0]
    call_okD [of False False "\<lambda>s. True" _ _ "()"] run show ?thesis by fastforce
qed

end
