(* ===== verification/ExecutionState.thy ===== *)
theory ExecutionState
  imports AddressSpace TimingSolver
begin

text \<open>
  \<^verbatim>\<open>lib/Core/ExecutionState.h\<close> and \<^verbatim>\<open>lib/Core/ExecutionState.cpp\<close>: the state of one path under exploration
  and how it is created, copied and branched. Instructions are numbers. \<open>ptreeNode\<close>, the streams of
  the path writers, the open merges, the unwinding information and the statistics of the solver are left out:
  the node of a state is kept by the engine of the searchers.
\<close>

section \<open>The model\<close>

record KFunction =
  kf_function :: nat
  numRegisters :: nat
  instructions_of :: nat

record StackFrame =
  caller :: "nat option"
  kf :: KFunction
  allocas :: "MemoryObject list"
  locals :: "expr option list"
  minDistToUncoveredOnReturn :: nat
  varargs :: "MemoryObject option"

record ExecutionState =
  pc :: nat
  prevPC :: nat
  stack :: "StackFrame list"
  incomingBBIndex :: nat
  depth :: nat
  addressSpace :: AddressSpace
  path :: constraint_set
  coveredLines :: "(string \<times> nat set) list"
  completecoveredLines :: "string set"
  BBcount :: "string \<Rightarrow> nat option"
  constraint_lines :: "string \<Rightarrow> string set option"
  OOBW :: bool
  symaddr_base :: "expr \<Rightarrow> expr option"
  map_symbolic_address :: "expr \<Rightarrow> expr option"
  map_address_symbolic :: "expr \<Rightarrow> expr option"
  symbolics :: "(MemoryObject \<times> array) list"
  arrayNames :: "string set"
  steppedInstructions :: nat
  instsSinceCovNew :: nat
  state_id :: nat
  coveredNew :: bool
  forkDisabled :: bool

definition StackFrame_new :: "nat option \<Rightarrow> KFunction \<Rightarrow> StackFrame" where
  "StackFrame_new c f =
     \<lparr>caller = c, kf = f, allocas = [], locals = replicate (numRegisters f) None, minDistToUncoveredOnReturn = 0, varargs = None\<rparr>"

text \<open>The locals are copied one by one; a vector of another length than \<open>numRegisters\<close> is cut or read out of its bounds.\<close>

definition StackFrame_copy :: "StackFrame \<Rightarrow> StackFrame option" where
  "StackFrame_copy s =
     (if numRegisters (kf s) \<le> length (locals s)
      then Some \<lparr>caller = caller s, kf = kf s, allocas = allocas s, locals = take (numRegisters (kf s)) (locals s),
             minDistToUncoveredOnReturn = minDistToUncoveredOnReturn s, varargs = varargs s\<rparr>
      else None)"

fun copyStack :: "StackFrame list \<Rightarrow> StackFrame list option" where
  "copyStack [] = Some []"
| "copyStack (s # ss) = StackFrame_copy s \<bind> (\<lambda>s. copyStack ss \<bind> (\<lambda>ss. Some (s # ss)))"

definition pushFrame :: "ExecutionState \<Rightarrow> nat option \<Rightarrow> KFunction \<Rightarrow> ExecutionState" where
  "pushFrame st c f = st\<lparr>stack := stack st @ [StackFrame_new c f]\<rparr>"

definition popFrame :: "ExecutionState \<Rightarrow> ExecutionState option" where
  "popFrame st =
     (if stack st = [] then None
      else Some (st\<lparr>addressSpace := foldl unbindObject (addressSpace st) (allocas (last (stack st))), stack := butlast (stack st)\<rparr>))"

definition addSymbolic :: "ExecutionState \<Rightarrow> MemoryObject \<Rightarrow> array \<Rightarrow> ExecutionState" where
  "addSymbolic st mo a = st\<lparr>symbolics := symbolics st @ [(mo, a)]\<rparr>"

text \<open>\<open>nextID\<close> is a static counter of 32 bits.\<close>

definition setID :: "ExecutionState \<Rightarrow> nat \<Rightarrow> ExecutionState \<times> nat" where
  "setID st nextID = (st\<lparr>state_id := nextID\<rparr>, (nextID + 1) mod 2 ^ 32)"

text \<open>The constructor initialises neither \<open>incomingBBIndex\<close> nor \<open>OOBW\<close>: they are arguments.\<close>

definition ExecutionState_new :: "nat \<Rightarrow> bool \<Rightarrow> KFunction \<Rightarrow> nat \<Rightarrow> ExecutionState \<times> nat" where
  "ExecutionState_new bb oobw f nextID =
     setID (pushFrame
       \<lparr>pc = instructions_of f, prevPC = instructions_of f, stack = [], incomingBBIndex = bb, depth = 0, addressSpace = AddressSpace_new, path = [],
        coveredLines = [], completecoveredLines = {}, BBcount = Map.empty, constraint_lines = Map.empty, OOBW = oobw,
        symaddr_base = Map.empty, map_symbolic_address = Map.empty, map_address_symbolic = Map.empty, symbolics = [], arrayNames = {},
        steppedInstructions = 0, instsSinceCovNew = 0, state_id = 0, coveredNew = False, forkDisabled = False\<rparr> None f) nextID"

text \<open>The copy constructor. It advances the key of the address space it copies; the first component is the state that was copied.\<close>

definition ExecutionState_copy :: "ExecutionState \<Rightarrow> (ExecutionState \<times> ExecutionState) option" where
  "ExecutionState_copy st =
     copyStack (stack st) \<bind> (\<lambda>frames.
     case AddressSpace_copy (addressSpace st) of (old, new) \<Rightarrow>
     Some (st\<lparr>addressSpace := old\<rparr>,
       \<lparr>pc = pc st, prevPC = prevPC st, stack = frames, incomingBBIndex = incomingBBIndex st, depth = depth st, addressSpace = new, path = path st,
        coveredLines = coveredLines st, completecoveredLines = completecoveredLines st, BBcount = BBcount st, constraint_lines = constraint_lines st,
        OOBW = OOBW st, symaddr_base = symaddr_base st, map_symbolic_address = Map.empty, map_address_symbolic = Map.empty,
        symbolics = symbolics st, arrayNames = arrayNames st, steppedInstructions = steppedInstructions st, instsSinceCovNew = instsSinceCovNew st,
        state_id = 0, coveredNew = coveredNew st, forkDisabled = forkDisabled st\<rparr>))"

text \<open>\<open>branch\<close> returns the state itself, the new state and the next number.\<close>

definition ExecutionState_branch :: "ExecutionState \<Rightarrow> nat \<Rightarrow> (ExecutionState \<times> ExecutionState \<times> nat) option" where
  "ExecutionState_branch st nextID =
     ExecutionState_copy (st\<lparr>depth := (depth st + 1) mod 2 ^ 32\<rparr>) \<bind> (\<lambda>(st, falseState).
     case setID falseState nextID of (falseState, nextID) \<Rightarrow>
     Some (st, falseState\<lparr>coveredNew := False, coveredLines := []\<rparr>, nextID))"

text \<open>\<open>fuel\<close> bounds the simplification of the constraints; \<open>None\<close> is a failed assertion or a simplification that goes on.\<close>

definition ExecutionState_addConstraint :: "nat \<Rightarrow> ExecutionState \<Rightarrow> expr \<Rightarrow> ExecutionState option" where
  "ExecutionState_addConstraint fuel st e = (case addConstraint fuel e (path st) of Inl err \<Rightarrow> None | Inr cs \<Rightarrow> Some (st\<lparr>path := cs\<rparr>))"

section \<open>Path conditions\<close>

text \<open>
  What the engine keeps of a path condition: its constraints are booleans, they can be satisfied, and
  a division by zero makes a constraint undefined only where another one is false.
\<close>

definition guarded :: "constraint_set \<Rightarrow> bool" where
  "guarded cs \<longleftrightarrow> (\<forall>\<sigma>. wf_asg \<sigma> \<longrightarrow> list_all (not_false \<sigma>) cs \<longrightarrow> models cs \<sigma>)"

definition path_wf :: "constraint_set \<Rightarrow> bool" where
  "path_wf cs \<longleftrightarrow> list_all wf_constraint cs \<and> guarded cs"

definition path_ok :: "constraint_set \<Rightarrow> bool" where
  "path_ok cs \<longleftrightarrow> path_wf cs \<and> (\<exists>\<sigma>. models cs \<sigma>)"

text \<open>A condition that has a value wherever the path condition holds.\<close>

definition condition_ok :: "constraint_set \<Rightarrow> expr \<Rightarrow> bool" where
  "condition_ok cs e \<longleftrightarrow> wf_constraint e \<and> (\<forall>\<sigma>. models cs \<sigma> \<longrightarrow> eval \<sigma> e \<noteq> None)"

lemma models_iff: "models cs \<sigma> \<longleftrightarrow> wf_asg \<sigma> \<and> list_all (holds \<sigma>) cs"
  by (simp add: models_def holds_def list.pred_set)

lemma path_wf_Nil: "path_wf []"
  by (simp add: path_wf_def guarded_def models_def)

lemma condition_ok_query: "path_ok cs \<Longrightarrow> condition_ok cs e \<Longrightarrow> bool_query \<lparr>constraints = cs, q_expr = e\<rparr>"
  by (auto simp: path_ok_def path_wf_def condition_ok_def bool_query_def admissible_def wf_constraint_def)

lemma condition_values:
  assumes "condition_ok cs e" "models cs \<sigma>"
  obtains "eval \<sigma> e = Some 0" | "eval \<sigma> e = Some 1"
proof -
  from assms obtain v where v: "eval \<sigma> e = Some v" "wf_expr e" "getWidth e = 1" by (auto simp: condition_ok_def wf_constraint_def)
  with eval_less(1) [of e \<sigma> v] models_wf [OF assms(2)] have "v < 2" by simp
  with v that show ?thesis by (cases v) (auto simp: less_Suc_eq)
qed

text \<open>Adding a condition to a path keeps exactly the solutions at which it holds.\<close>

lemma addConstraint_path:
  assumes "addConstraint fuel e cs = Inr cs'" "path_wf cs" "condition_ok cs e"
  shows "path_wf cs'" "models cs' \<sigma> \<longleftrightarrow> models cs \<sigma> \<and> eval \<sigma> e = Some 1"
proof -
  have wf: "wf_constraint e" "list_all wf_constraint cs" using assms(2,3) by (auto simp: path_wf_def condition_ok_def)
  note add = addConstraint_sound [OF assms(1) wf, unfolded added_def]
  have exact: "list_all (not_false \<tau>) cs' \<Longrightarrow> wf_asg \<tau> \<Longrightarrow> models (e # cs) \<tau>" for \<tau>
  proof -
    assume \<tau>: "list_all (not_false \<tau>) cs'" "wf_asg \<tau>"
    with add have nf: "list_all (not_false \<tau>) (e # cs)" by (simp add: replaces_def)
    with \<tau> assms(2) have m: "models cs \<tau>" by (simp add: path_wf_def guarded_def)
    with nf assms(3) show "models (e # cs) \<tau>" by (auto simp: models_def condition_ok_def not_false_def)
  qed
  have sat: "models (e # cs) \<tau> \<Longrightarrow> models cs' \<tau>" for \<tau> using add by (auto simp: models_iff replaces_def)
  from exact sat add show "path_wf cs'" unfolding path_wf_def guarded_def by blast
  have "list_all (not_false \<sigma>) cs'" if "models cs' \<sigma>" using that by (simp add: models_def not_false_def list.pred_set)
  with exact [of \<sigma>] sat [of \<sigma>] models_wf have "models cs' \<sigma> \<longleftrightarrow> models (e # cs) \<sigma>" by blast
  then show "models cs' \<sigma> \<longleftrightarrow> models cs \<sigma> \<and> eval \<sigma> e = Some 1" by (auto simp: models_def)
qed

lemma ExecutionState_addConstraint_ok:
  assumes "ExecutionState_addConstraint fuel st e = Some st'" "path_wf (path st)" "condition_ok (path st) e"
  shows "path_wf (path st')" "models (path st') \<sigma> \<longleftrightarrow> models (path st) \<sigma> \<and> eval \<sigma> e = Some 1" "\<exists>cs. st' = st\<lparr>path := cs\<rparr>"
proof -
  from assms(1) obtain cs where cs: "addConstraint fuel e (path st) = Inr cs" "st' = st\<lparr>path := cs\<rparr>"
    by (simp add: ExecutionState_addConstraint_def split: sum.splits)
  then show "\<exists>cs. st' = st\<lparr>path := cs\<rparr>" by blast
  from addConstraint_path [OF cs(1) assms(2,3)] cs(2)
  show "path_wf (path st')" "models (path st') \<sigma> \<longleftrightarrow> models (path st) \<sigma> \<and> eval \<sigma> e = Some 1" by simp_all
qed

section \<open>Branching\<close>

definition frame_ok :: "StackFrame \<Rightarrow> bool" where
  "frame_ok s \<longleftrightarrow> length (locals s) = numRegisters (kf s)"

lemma copyStack_ok: "list_all frame_ok ss \<Longrightarrow> copyStack ss = Some ss"
  by (induction ss) (simp_all add: StackFrame_copy_def frame_ok_def)

definition state_ok :: "ExecutionState \<Rightarrow> bool" where
  "state_ok st \<longleftrightarrow> list_all frame_ok (stack st)"

text \<open>What a branch leaves alone: the two states execute the same program on the same values.\<close>

lemma branch_ok:
  assumes "state_ok st" "ExecutionState_branch st n = Some (t, f, n')"
  shows "path t = path st" "path f = path st" "stack t = stack st" "stack f = stack st" "pc f = pc st" "state_ok t" "state_ok f"
    "objects (addressSpace t) = objects (addressSpace st)" "objects (addressSpace f) = objects (addressSpace st)"
    "state_id f = n" "state_id t = state_id st" "depth f = depth t" "depth t = (depth st + 1) mod 2 ^ 32" "forkDisabled t = forkDisabled st" "forkDisabled f = forkDisabled st"
  using assms copyStack_ok [of "stack st"]
  by (auto simp: ExecutionState_branch_def ExecutionState_copy_def AddressSpace_copy_def setID_def state_ok_def Let_def)

lemma branch_returns: "state_ok st \<Longrightarrow> \<exists>t f n'. ExecutionState_branch st n = Some (t, f, n')"
  using copyStack_ok [of "stack st"]
  by (simp add: ExecutionState_branch_def ExecutionState_copy_def AddressSpace_copy_def setID_def state_ok_def Let_def)

end
