(* ===== verification/RNG.thy ===== *)
theory RNG
  imports Prelude "HOL-Library.Word"
begin

text \<open>
  \<^verbatim>\<open>lib/Support/RNG.cpp\<close>: the Mersenne twister from which the engine takes its random choices, on words of 32
  bits. An access outside the state vector is \<open>None\<close>; the invariant shows that there is none. The
  floating point results, which only the weighted searchers use, are not modelled.
\<close>

unbundle bit_operations_syntax

section \<open>The model\<close>

definition RNG_N :: nat where "RNG_N = 624"

definition RNG_M :: nat where "RNG_M = 397"

definition MATRIX_A :: "32 word" where "MATRIX_A = 0x9908b0df"

definition UPPER_MASK :: "32 word" where "UPPER_MASK = 0x80000000"

definition LOWER_MASK :: "32 word" where "LOWER_MASK = 0x7fffffff"

record RNG =
  mt :: "32 word list"
  mti :: nat

definition elem_at :: "'a list \<Rightarrow> nat \<Rightarrow> 'a option" where
  "elem_at xs i = (if i < length xs then Some (xs ! i) else None)"

text \<open>The loop of \<open>seed\<close>; the vector grows from the front.\<close>

fun seedFrom :: "nat \<Rightarrow> nat \<Rightarrow> 32 word \<Rightarrow> 32 word list" where
  "seedFrom 0 i prev = []"
| "seedFrom (Suc n) i prev =
     (let y = 1812433253 * (prev XOR drop_bit 30 prev) + of_nat i in y # seedFrom n (i + 1) y)"

definition RNG_seed :: "32 word \<Rightarrow> RNG" where
  "RNG_seed s = \<lparr>mt = s # seedFrom (RNG_N - 1) 1 s, mti = RNG_N\<rparr>"

text \<open>One word of the next state vector, from the words at \<open>kk\<close>, \<open>kk'\<close> and \<open>m\<close>.\<close>

definition twist :: "nat \<Rightarrow> nat \<Rightarrow> nat \<Rightarrow> 32 word list \<Rightarrow> 32 word list option" where
  "twist kk kk' m v =
     elem_at v kk \<bind> (\<lambda>a. elem_at v kk' \<bind> (\<lambda>b. elem_at v m \<bind> (\<lambda>c.
       let y = (a AND UPPER_MASK) OR (b AND LOWER_MASK) in
       Some (v[kk := c XOR drop_bit 1 y XOR (if y AND 1 = 0 then 0 else MATRIX_A)]))))"

fun twistAll :: "(nat \<times> nat \<times> nat) list \<Rightarrow> 32 word list \<Rightarrow> 32 word list option" where
  "twistAll [] v = Some v"
| "twistAll ((kk, kk', m) # is) v = twist kk kk' m v \<bind> twistAll is"

definition twistOrder :: "(nat \<times> nat \<times> nat) list" where
  "twistOrder = map (\<lambda>kk. (kk, kk + 1, kk + RNG_M)) [0..<RNG_N - RNG_M]
     @ map (\<lambda>kk. (kk, kk + 1, kk + RNG_M - RNG_N)) [RNG_N - RNG_M..<RNG_N - 1] @ [(RNG_N - 1, 0, RNG_M - 1)]"

definition temper :: "32 word \<Rightarrow> 32 word" where
  "temper y =
     (let y = y XOR drop_bit 11 y; y = y XOR (push_bit 7 y AND 0x9d2c5680); y = y XOR (push_bit 15 y AND 0xefc60000)
      in y XOR drop_bit 18 y)"

definition RNG_getInt32 :: "RNG \<Rightarrow> (32 word \<times> RNG) option" where
  "RNG_getInt32 g =
     (if mti g \<ge> RNG_N then twistAll twistOrder (mt g) \<bind> (\<lambda>v. Some (g\<lparr>mt := v, mti := 0\<rparr>)) else Some g) \<bind> (\<lambda>g.
     elem_at (mt g) (mti g) \<bind> (\<lambda>y. Some (temper y, g\<lparr>mti := mti g + 1\<rparr>)))"

definition RNG_getInt31 :: "RNG \<Rightarrow> (32 word \<times> RNG) option" where
  "RNG_getInt31 g = RNG_getInt32 g \<bind> (\<lambda>(y, g). Some (drop_bit 1 y, g))"

definition RNG_getBool :: "RNG \<Rightarrow> (bool \<times> RNG) option" where
  "RNG_getBool g = RNG_getInt32 g \<bind> (\<lambda>(b, g).
     let b = b XOR drop_bit 16 b; b = b XOR drop_bit 8 b; b = b XOR drop_bit 4 b; b = b XOR drop_bit 2 b;
         b = b XOR drop_bit 1 b
     in Some (b AND 1 \<noteq> 0, g))"

section \<open>The accesses stay within the vector\<close>

definition rng_ok :: "RNG \<Rightarrow> bool" where
  "rng_ok g \<longleftrightarrow> length (mt g) = RNG_N \<and> mti g \<le> RNG_N"

lemma length_seedFrom [simp]: "length (seedFrom n i prev) = n"
  by (induction n arbitrary: i prev) (simp_all add: Let_def)

lemma rng_ok_seed: "rng_ok (RNG_seed s)"
  by (simp add: rng_ok_def RNG_seed_def RNG_N_def)

lemma twistAll_length:
  assumes "\<forall>(kk, kk', m)\<in>set is. kk < length v \<and> kk' < length v \<and> m < length v"
  shows "succeeds (twistAll is v) (\<lambda>v'. length v' = length v)"
  using assms by (induction "is" v rule: twistAll.induct) (auto simp: twist_def elem_at_def Let_def)

lemma twistOrder_range: "\<forall>(kk, kk', m)\<in>set twistOrder. kk < RNG_N \<and> kk' < RNG_N \<and> m < RNG_N"
proof -
  have "0 < RNG_M" "RNG_M < RNG_N" by (simp_all add: RNG_N_def RNG_M_def)
  then show ?thesis by (auto simp: twistOrder_def)
qed

lemma RNG_getInt32_ok:
  assumes "rng_ok g"
  shows "succeeds (RNG_getInt32 g) (\<lambda>(y, g'). rng_ok g')"
proof (cases "mti g \<ge> RNG_N")
  case True
  obtain v where "twistAll twistOrder (mt g) = Some v" "length v = RNG_N"
    using twistAll_length [of twistOrder "mt g"] twistOrder_range assms by (auto simp: rng_ok_def elim: succeedsE)
  with True show ?thesis by (simp add: RNG_getInt32_def rng_ok_def elem_at_def RNG_N_def)
next
  case False
  with assms show ?thesis by (simp add: RNG_getInt32_def rng_ok_def elem_at_def)
qed

lemma RNG_getBool_ok:
  assumes "rng_ok g"
  shows "succeeds (RNG_getBool g) (\<lambda>(b, g'). rng_ok g')"
  unfolding RNG_getBool_def by (rule succeeds_bind [OF RNG_getInt32_ok [OF assms]]) (auto simp: Let_def)

end
