(* ===== verification/PTree.thy ===== *)
theory PTree
  imports RNG
begin

text \<open>
  The process tree, \<^verbatim>\<open>lib/Core/PTree.cpp\<close>, whose leaves are the states of the engine. Nodes are cells of a
  heap, with the pointers of the code; a pointer carries the tag of the searchers that own the node
  it leads to. \<open>None\<close> is a failed assertion or the use of a null or dangling pointer. A state is known
  by its number. The loop that climbs to the root has as fuel one more than the number of the node
  it starts at: a parent has a smaller number than its children.
\<close>

unbundle bit_operations_syntax

section \<open>The model\<close>

type_synonym PTreeNodePtr = "nat option \<times> 8 word"

record PTreeNode =
  parent :: "nat option"
  nleft :: PTreeNodePtr
  nright :: PTreeNodePtr
  nstate :: "nat option"

record PTree =
  registeredIds :: nat
  root :: PTreeNodePtr
  nodes :: "nat \<Rightarrow> PTreeNode option"
  next_node :: nat

definition PTreeNode_new :: "nat option \<Rightarrow> nat \<Rightarrow> PTreeNode" where
  "PTreeNode_new p st = \<lparr>parent = p, nleft = (None, 0), nright = (None, 0), nstate = Some st\<rparr>"

definition PTree_new :: "nat \<Rightarrow> PTree" where
  "PTree_new initialState = \<lparr>registeredIds = 0, root = (Some 0, 0), nodes = [0 \<mapsto> PTreeNode_new None initialState], next_node = 1\<rparr>"

definition PtrBitCount :: nat where "PtrBitCount = 3"

text \<open>\<open>None\<close> is the call of \<open>klee_error\<close>.\<close>

definition getNextId :: "PTree \<Rightarrow> (8 word \<times> PTree) option" where
  "getNextId t =
     (let i = push_bit (registeredIds t) 1; t = t\<lparr>registeredIds := registeredIds t + 1\<rparr>
      in if registeredIds t > PtrBitCount then None else Some (i, t))"

text \<open>The pointer that leads to a node, in its parent or in the tree.\<close>

definition childPtr :: "PTree \<Rightarrow> nat \<Rightarrow> PTreeNode \<Rightarrow> PTreeNodePtr option" where
  "childPtr t n nd =
     (case parent nd of
        None \<Rightarrow> Some (root t)
      | Some p \<Rightarrow> nodes t p \<bind> (\<lambda>pd. Some (if fst (nleft pd) = Some n then nleft pd else nright pd)))"

text \<open>The result has the nodes made for the left and for the right state, which the constructor of
  \<open>PTreeNode\<close> stores in the states. \<open>rightNode\<close> is the node of the right state.\<close>

definition PTree_attach :: "PTree \<Rightarrow> nat \<Rightarrow> nat \<Rightarrow> nat \<Rightarrow> nat option \<Rightarrow> (nat \<times> nat \<times> PTree) option" where
  "PTree_attach t node leftState rightState rightNode =
     nodes t node \<bind> (\<lambda>nd.
     if fst (nleft nd) \<noteq> None \<or> fst (nright nd) \<noteq> None \<or> rightNode \<noteq> Some node then None
     else childPtr t node nd \<bind> (\<lambda>ptr.
       let l = next_node t; r = l + 1;
           currentNodeTag = snd ptr
       in Some (l, r, t\<lparr>nodes := (nodes t)(node \<mapsto> nd\<lparr>nstate := None, nleft := (Some l, 0), nright := (Some r, currentNodeTag)\<rparr>,
                  l \<mapsto> PTreeNode_new (Some node) leftState, r \<mapsto> PTreeNode_new (Some node) rightState),
                next_node := r + 1\<rparr>)))"

text \<open>The loop of \<open>remove\<close>; the result has the node at which it ends, if any.\<close>

definition cut :: "PTreeNode \<Rightarrow> nat \<Rightarrow> PTreeNode option" where
  "cut pd n = (if fst (nleft pd) = Some n then Some (pd\<lparr>nleft := (None, 0)\<rparr>)
     else if fst (nright pd) = Some n then Some (pd\<lparr>nright := (None, 0)\<rparr>) else None)"

fun removeUp :: "nat \<Rightarrow> PTree \<Rightarrow> nat \<Rightarrow> (nat option \<times> PTree) option" where
  "removeUp 0 t n = None"
| "removeUp (Suc k) t n =
     nodes t n \<bind> (\<lambda>nd.
     case parent nd of
       None \<Rightarrow> Some (None, t\<lparr>nodes := (nodes t)(n := None)\<rparr>)
     | Some p \<Rightarrow> nodes t p \<bind> (\<lambda>pd. cut pd n \<bind> (\<lambda>pd.
         let t = t\<lparr>nodes := (nodes t)(p \<mapsto> pd, n := None)\<rparr>
         in if fst (nleft pd) = None \<and> fst (nright pd) = None then removeUp k t p else Some (Some p, t))))"

definition compress :: "PTree \<Rightarrow> nat \<Rightarrow> PTree option" where
  "compress t n =
     nodes t n \<bind> (\<lambda>nd.
     let child = (if fst (nleft nd) \<noteq> None then nleft nd else nright nd) in
     fst child \<bind> (\<lambda>c. nodes t c \<bind> (\<lambda>cd.
     let t = t\<lparr>nodes := (nodes t)(c \<mapsto> cd\<lparr>parent := parent nd\<rparr>)\<rparr> in
     case parent nd of
       None \<Rightarrow> Some (t\<lparr>root := child, nodes := (nodes t)(n := None)\<rparr>)
     | Some p \<Rightarrow> nodes t p \<bind> (\<lambda>pd.
         (if fst (nleft pd) = Some n then Some (pd\<lparr>nleft := child\<rparr>)
          else if fst (nright pd) = Some n then Some (pd\<lparr>nright := child\<rparr>) else None) \<bind> (\<lambda>pd.
         Some (t\<lparr>nodes := (nodes t)(p \<mapsto> pd, n := None)\<rparr>))))))"

definition PTree_remove :: "bool \<Rightarrow> PTree \<Rightarrow> nat \<Rightarrow> PTree option" where
  "PTree_remove compressProcessTree t n =
     nodes t n \<bind> (\<lambda>nd.
     if fst (nleft nd) \<noteq> None \<or> fst (nright nd) \<noteq> None then None
     else removeUp (n + 1) t n \<bind> (\<lambda>(stop, t).
       case stop of
         Some m \<Rightarrow> if compressProcessTree then compress t m else Some t
       | None \<Rightarrow> Some t))"

section \<open>The shape of the tree\<close>

definition kids :: "PTreeNode \<Rightarrow> nat set" where
  "kids nd = set_option (fst (nleft nd)) \<union> set_option (fst (nright nd))"

lemma kids_empty: "kids nd = {} \<longleftrightarrow> fst (nleft nd) = None \<and> fst (nright nd) = None"
  by (auto simp: kids_def)

text \<open>Nodes in \<open>X\<close> have lost their children; every other node has children or a state.\<close>

definition node_ok :: "PTree \<Rightarrow> nat set \<Rightarrow> nat \<Rightarrow> PTreeNode \<Rightarrow> bool" where
  "node_ok t X n nd \<longleftrightarrow> n < next_node t
     \<and> (case parent nd of None \<Rightarrow> fst (root t) = Some n | Some p \<Rightarrow> p < n \<and> (\<exists>pd. nodes t p = Some pd \<and> n \<in> kids pd))
     \<and> (\<forall>c\<in>kids nd. \<exists>cd. nodes t c = Some cd \<and> parent cd = Some n)
     \<and> (fst (nleft nd) = fst (nright nd) \<longrightarrow> fst (nleft nd) = None)
     \<and> (if n \<in> X then kids nd = {} else nstate nd = None \<longleftrightarrow> kids nd \<noteq> {})"

lemma node_okI:
  assumes "n < next_node t" "parent nd = None \<Longrightarrow> fst (root t) = Some n"
    "\<And>p. parent nd = Some p \<Longrightarrow> p < n \<and> (\<exists>pd. nodes t p = Some pd \<and> n \<in> kids pd)"
    "\<And>c. c \<in> kids nd \<Longrightarrow> \<exists>cd. nodes t c = Some cd \<and> parent cd = Some n"
    "\<And>c. fst (nleft nd) = Some c \<Longrightarrow> fst (nright nd) \<noteq> Some c"
    "if n \<in> X then kids nd = {} else nstate nd = None \<longleftrightarrow> kids nd \<noteq> {}"
  shows "node_ok t X n nd"
  using assms by (cases "parent nd"; cases "fst (nleft nd)") (auto simp: node_ok_def)

definition ptree_inv :: "nat set \<Rightarrow> PTree \<Rightarrow> bool" where
  "ptree_inv X t \<longleftrightarrow> (\<forall>n nd. nodes t n = Some nd \<longrightarrow> node_ok t X n nd)"

abbreviation ptree_ok :: "PTree \<Rightarrow> bool" where "ptree_ok \<equiv> ptree_inv {}"

definition state_at :: "PTree \<Rightarrow> nat \<Rightarrow> nat option" where
  "state_at t n = nodes t n \<bind> nstate"

lemma ptree_invD:
  assumes "ptree_inv X t" "nodes t n = Some nd"
  shows "n < next_node t" "parent nd = None \<Longrightarrow> fst (root t) = Some n"
    "parent nd = Some p \<Longrightarrow> p < n \<and> (\<exists>pd. nodes t p = Some pd \<and> n \<in> kids pd)"
    "c \<in> kids nd \<Longrightarrow> n < c \<and> (\<exists>cd. nodes t c = Some cd \<and> parent cd = Some n)"
    "fst (nleft nd) = Some c \<Longrightarrow> fst (nright nd) \<noteq> Some c"
    "n \<notin> X \<Longrightarrow> nstate nd = None \<longleftrightarrow> kids nd \<noteq> {}" "n \<in> X \<Longrightarrow> kids nd = {}"
proof -
  have ok: "node_ok t X m md" if "nodes t m = Some md" for m md using assms(1) that by (simp add: ptree_inv_def)
  show "n < next_node t" "parent nd = None \<Longrightarrow> fst (root t) = Some n"
    "parent nd = Some p \<Longrightarrow> p < n \<and> (\<exists>pd. nodes t p = Some pd \<and> n \<in> kids pd)"
    "fst (nleft nd) = Some c \<Longrightarrow> fst (nright nd) \<noteq> Some c"
    "n \<notin> X \<Longrightarrow> nstate nd = None \<longleftrightarrow> kids nd \<noteq> {}" "n \<in> X \<Longrightarrow> kids nd = {}"
    using ok [OF assms(2)] by (auto simp: node_ok_def)
  assume "c \<in> kids nd"
  then obtain cd where "nodes t c = Some cd" "parent cd = Some n" using ok [OF assms(2)] by (auto simp: node_ok_def)
  with ok [of c cd] show "n < c \<and> (\<exists>cd. nodes t c = Some cd \<and> parent cd = Some n)" by (simp add: node_ok_def)
qed

lemma ptree_ok_new: "ptree_ok (PTree_new st)"
  by (simp add: ptree_inv_def node_ok_def PTree_new_def PTreeNode_new_def kids_def)

lemma state_at_new: "state_at (PTree_new st) = [0 \<mapsto> st]"
  by (auto simp: state_at_def PTree_new_def PTreeNode_new_def fun_eq_iff)

text \<open>A node with the greatest number is a leaf, so a tree without states has no nodes.\<close>

lemma no_states_no_nodes:
  assumes "ptree_ok t" "\<forall>n. state_at t n = None"
  shows "nodes t n = None"
proof (rule ccontr)
  assume "nodes t n \<noteq> None"
  let ?D = "{m. nodes t m \<noteq> None}"
  have "?D \<subseteq> {..<next_node t}" using ptree_invD(1) [OF assms(1)] by auto
  then have "finite ?D" by (rule finite_subset) simp
  with \<open>nodes t n \<noteq> None\<close> have "Max ?D \<in> ?D" by (intro Max_in) auto
  then obtain nd where nd: "nodes t (Max ?D) = Some nd" by auto
  have "kids nd = {}"
  proof (rule ccontr)
    assume "kids nd \<noteq> {}"
    then obtain c where "c \<in> kids nd" by auto
    from ptree_invD(4) [OF assms(1) nd this] have "c \<in> ?D" "Max ?D < c" by auto
    with Max_ge [OF \<open>finite ?D\<close>] show False by (metis not_le)
  qed
  with ptree_invD(6) [OF assms(1) nd] assms(2) [THEN spec, of "Max ?D"] nd show False by (auto simp: state_at_def)
qed

lemma attach_ok:
  assumes t: "ptree_ok t" and st: "state_at t node = Some r"
  shows "succeeds (PTree_attach t node l r (Some node)) (\<lambda>(ln, rn, t'). ptree_ok t' \<and> ln \<noteq> rn \<and> nodes t ln = None \<and> nodes t rn = None
    \<and> state_at t' = (state_at t)(node := None, ln \<mapsto> l, rn \<mapsto> r))"
proof -
  from st obtain nd where nd: "nodes t node = Some nd" "nstate nd = Some r" by (auto simp: state_at_def bind_eq_Some_conv)
  have kids: "fst (nleft nd) = None" "fst (nright nd) = None" using ptree_invD(6) [OF t nd(1)] nd(2) by (auto simp: kids_def)
  have less: "nodes t m = Some md \<Longrightarrow> m < next_node t" for m md by (rule ptree_invD(1) [OF t])
  then have fresh: "nodes t (next_node t) = None" "nodes t (Suc (next_node t)) = None" "node < next_node t"
    using nd(1) by (metis less_irrefl not_None_eq, metis Suc_lessD less_irrefl not_None_eq, metis)
  obtain ptr where ptr: "childPtr t node nd = Some ptr"
    using ptree_invD(3) [OF t nd(1)] by (cases "parent nd") (force simp: childPtr_def)+
  have no_kids: "c \<in> kids md \<Longrightarrow> nodes t m = Some md \<Longrightarrow> c < next_node t" for m md c
    using ptree_invD(4) [OF t] less by blast
  let ?t = "t\<lparr>nodes := (nodes t)(node \<mapsto> nd\<lparr>nstate := None, nleft := (Some (next_node t), 0), nright := (Some (Suc (next_node t)), snd ptr)\<rparr>,
    next_node t \<mapsto> PTreeNode_new (Some node) l, Suc (next_node t) \<mapsto> PTreeNode_new (Some node) r), next_node := Suc (Suc (next_node t))\<rparr>"
  have run: "PTree_attach t node l r (Some node) = Some (next_node t, Suc (next_node t), ?t)"
    using nd kids ptr by (simp add: PTree_attach_def Let_def)
  have "ptree_ok ?t" unfolding ptree_inv_def
  proof (intro allI impI)
    fix n md assume md: "nodes ?t n = Some md"
    consider "n = node" | "n = next_node t" | "n = Suc (next_node t)" | "n \<noteq> node" "n < next_node t" "nodes t n = Some md"
      using md less by (auto split: if_splits)
    then show "node_ok ?t {} n md"
    proof cases
      case 1
      with md fresh have "md = nd\<lparr>nstate := None, nleft := (Some (next_node t), 0), nright := (Some (Suc (next_node t)), snd ptr)\<rparr>" by auto
      with 1 fresh ptree_invD(1-3) [OF t nd(1)] show ?thesis
        by (cases "parent nd") (auto simp: node_ok_def kids_def PTreeNode_new_def)
    next
      case 4
      have "p \<noteq> node" "p < next_node t" if "parent md = Some p" for p
        using ptree_invD(3) [OF t 4(3) that] nd kids 4(2) by (auto simp: kids_def)
      moreover have "\<exists>cd. nodes ?t c = Some cd \<and> parent cd = Some n" if "c \<in> kids md" for c
        using ptree_invD(4) [OF t 4(3) that] no_kids [OF that 4(3)] nd by auto
      ultimately show ?thesis using 4 ptree_invD [OF t 4(3)]
        by (cases "parent md") (auto simp: node_ok_def)
    qed (use md fresh in \<open>auto simp: node_ok_def kids_def PTreeNode_new_def\<close>)
  qed
  moreover have "state_at ?t = (state_at t)(node := None, next_node t \<mapsto> l, Suc (next_node t) \<mapsto> r)"
    using fresh by (auto simp: state_at_def PTreeNode_new_def fun_eq_iff)
  ultimately show ?thesis using run fresh by simp
qed

subsection \<open>Removal\<close>

lemma cut_kids:
  assumes "ptree_inv X t" "nodes t p = Some pd" "n \<in> kids pd"
  obtains pd' where "cut pd n = Some pd'" "kids pd' = kids pd - {n}" "parent pd' = parent pd" "nstate pd' = nstate pd"
    "fst (nleft pd') = None \<or> fst (nright pd') = None"
proof -
  have "\<exists>pd'. cut pd n = Some pd' \<and> kids pd' = kids pd - {n} \<and> parent pd' = parent pd \<and> nstate pd' = nstate pd
    \<and> (fst (nleft pd') = None \<or> fst (nright pd') = None)"
    using assms(3) ptree_invD(5) [OF assms(1,2), of n] ptree_invD(5) [OF assms(1,2)]
    by (cases "fst (nleft pd)"; cases "fst (nright pd)") (auto simp: cut_def kids_def)
  with that show ?thesis by blast
qed

lemma removeLeaf_inv:
  assumes t: "ptree_inv {n} t" and nd: "nodes t n = Some nd" "parent nd = None"
  shows "ptree_inv {} (t\<lparr>nodes := (nodes t)(n := None)\<rparr>)"
  unfolding ptree_inv_def
proof (intro allI impI)
  fix m md assume "nodes (t\<lparr>nodes := (nodes t)(n := None)\<rparr>) m = Some md"
  then have m: "m \<noteq> n" "nodes t m = Some md" by (auto split: if_splits)
  note no = ptree_invD(7) [OF t nd(1)]
  have "p \<noteq> n" if "parent md = Some p" for p using ptree_invD(3) [OF t m(2) that] nd(1) no by auto
  moreover have "c \<noteq> n" if "c \<in> kids md" for c using ptree_invD(4) [OF t m(2) that] nd by auto
  ultimately show "node_ok (t\<lparr>nodes := (nodes t)(n := None)\<rparr>) {} m md"
    using ptree_invD [OF t m(2)] m(1) by (cases "parent md") (fastforce simp: node_ok_def)+
qed

lemma cut_inv:
  assumes t: "ptree_inv {n} t" and nd: "nodes t n = Some nd" "parent nd = Some p"
    and pd: "nodes t p = Some pd" "kids pd' = kids pd - {n}" "parent pd' = parent pd" "nstate pd' = nstate pd"
      "fst (nleft pd') = None \<or> fst (nright pd') = None"
  shows "ptree_inv (if kids pd' = {} then {p} else {}) (t\<lparr>nodes := (nodes t)(p \<mapsto> pd', n := None)\<rparr>)" (is "ptree_inv ?X ?t")
  unfolding ptree_inv_def
proof (intro allI impI)
  fix m md assume md: "nodes ?t m = Some md"
  have pn: "p < n" "n \<in> kids pd" using ptree_invD(3) [OF t nd] pd(1) by auto
  have keep: "\<exists>cd. nodes ?t c = Some cd \<and> parent cd = parent cd'" if "nodes t c = Some cd'" "c \<noteq> n" for c cd'
    using that pd(1,3) by (cases "c = p") auto
  have keep': "\<exists>cd. nodes ?t c = Some cd \<and> m \<in> kids cd" if "nodes t c = Some cd'" "m \<in> kids cd'" "c \<noteq> n" "m \<noteq> n" for c cd'
    using that pd(1,2) by (cases "c = p") auto
  show "node_ok ?t ?X m md"
  proof (cases "m = p")
    case True
    with md pn have md': "md = pd'" by simp
    have "parent pd' = Some q \<Longrightarrow> q \<noteq> n" for q using ptree_invD(3) [OF t pd(1)] pd(3) pn(1) by fastforce
    moreover have "\<exists>cd. nodes ?t c = Some cd \<and> parent cd = Some p" if "c \<in> kids pd'" for c
      using ptree_invD(4) [OF t pd(1), of c] that pd(2) keep by force
    moreover have "nstate pd' = None" using ptree_invD(6) [OF t pd(1)] pn pd(4) by auto
    moreover have "q < p \<and> (\<exists>cd. nodes ?t q = Some cd \<and> p \<in> kids cd)" if "parent pd' = Some q" for q
      using ptree_invD(3) [OF t pd(1), of q] that pd(3) keep' True pn(1) \<open>\<And>q. parent pd' = Some q \<Longrightarrow> q \<noteq> n\<close> by auto
    ultimately show ?thesis unfolding True md' using ptree_invD(1,2) [OF t pd(1)] pd(3,5)
      by (intro node_okI) auto
  next
    case False
    with md have m: "m \<noteq> n" "nodes t m = Some md" by (auto split: if_splits)
    have "q \<noteq> n" if "parent md = Some q" for q using ptree_invD(3) [OF t m(2) that] ptree_invD(7) [OF t nd(1)] nd(1) by auto
    moreover have "c \<noteq> n" if "c \<in> kids md" for c using ptree_invD(4) [OF t m(2) that] nd False by auto
    ultimately have "\<exists>cd. nodes ?t c = Some cd \<and> parent cd = Some m" if "c \<in> kids md" for c
      using ptree_invD(4) [OF t m(2) that] keep that by metis
    moreover have "q < m \<and> (\<exists>cd. nodes ?t q = Some cd \<and> m \<in> kids cd)" if "parent md = Some q" for q
      using ptree_invD(3) [OF t m(2) that] keep' \<open>\<And>q. parent md = Some q \<Longrightarrow> q \<noteq> n\<close> that m(1) by metis
    ultimately show ?thesis using ptree_invD(1,2,5,6) [OF t m(2)] False m(1) by (intro node_okI) auto
  qed
qed

definition removal :: "PTree \<Rightarrow> nat \<Rightarrow> nat option \<times> PTree \<Rightarrow> bool" where
  "removal t n r = (case r of (stop, t') \<Rightarrow> ptree_ok t' \<and> state_at t' = (state_at t)(n := None)
     \<and> (\<forall>m. stop = Some m \<longrightarrow> (\<exists>md. nodes t' m = Some md \<and> (fst (nleft md) = None \<longleftrightarrow> fst (nright md) \<noteq> None))))"

lemma removeUp_ok:
  assumes "ptree_inv {n} t" "nodes t n = Some nd" "n < k"
  shows "succeeds (removeUp k t n) (removal t n)"
  using assms
proof (induction k arbitrary: t n nd)
  case (Suc k)
  note t = Suc.prems(1) and nd = Suc.prems(2)
  show ?case
  proof (cases "parent nd")
    case None
    with nd removeLeaf_inv [OF t nd None] show ?thesis by (auto simp: removal_def state_at_def fun_eq_iff)
  next
    case (Some p)
    then obtain pd where pd: "p < n" "nodes t p = Some pd" "n \<in> kids pd" using ptree_invD(3) [OF t nd] by auto
    obtain pd' where pd': "cut pd n = Some pd'" "kids pd' = kids pd - {n}" "parent pd' = parent pd" "nstate pd' = nstate pd"
      "fst (nleft pd') = None \<or> fst (nright pd') = None" by (rule cut_kids [OF t pd(2,3)])
    let ?t = "t\<lparr>nodes := (nodes t)(p \<mapsto> pd', n := None)\<rparr>"
    have none: "nstate pd' = None" using ptree_invD(6) [OF t pd(2)] pd pd'(4) by auto
    have st: "state_at ?t = (state_at t)(n := None)" using pd pd'(4) by (auto simp: state_at_def fun_eq_iff)
    have inv: "ptree_inv (if kids pd' = {} then {p} else {}) ?t" by (rule cut_inv [OF t nd Some pd(2) pd'(2-5)])
    show ?thesis
    proof (cases "kids pd' = {}")
      case True
      have "succeeds (removeUp k ?t p) (removal ?t p)" using Suc.IH [of p ?t pd'] inv True pd(1) Suc.prems(3) by simp
      moreover have "(state_at ?t)(p := None) = state_at ?t" using none pd(1) by (auto simp: state_at_def fun_eq_iff)
      ultimately have "succeeds (removeUp k ?t p) (removal t n)" by (simp add: removal_def [abs_def] st)
      with True [unfolded kids_empty] nd Some pd(2) pd'(1) show ?thesis by simp
    next
      case False
      with inv st pd(1) pd'(5) have "removal t n (Some p, ?t)" by (auto simp: removal_def kids_empty)
      with False [unfolded kids_empty] nd Some pd(2) pd'(1) show ?thesis by auto
    qed
  qed
qed simp

text \<open>Taking out a node with one child.\<close>

definition relink :: "PTreeNode \<Rightarrow> nat \<Rightarrow> PTreeNodePtr \<Rightarrow> PTreeNode" where
  "relink pd n child = (if fst (nleft pd) = Some n then pd\<lparr>nleft := child\<rparr> else pd\<lparr>nright := child\<rparr>)"

lemma relink_frame [simp]: "parent (relink pd n child) = parent pd" "nstate (relink pd n child) = nstate pd"
  by (simp_all add: relink_def)

lemma compress_eq:
  assumes t: "ptree_ok t" and nd: "nodes t n = Some nd" "fst (nleft nd) = None \<longleftrightarrow> fst (nright nd) \<noteq> None"
  obtains child c cd where "child = (if fst (nleft nd) \<noteq> None then nleft nd else nright nd)" "fst child = Some c" "kids nd = {c}"
    "nodes t c = Some cd" "parent cd = Some n" "n < c"
    "compress t n = Some (case parent nd of None \<Rightarrow> t\<lparr>root := child, nodes := (nodes t)(c \<mapsto> cd\<lparr>parent := None\<rparr>, n := None)\<rparr>
       | Some p \<Rightarrow> t\<lparr>nodes := (nodes t)(c \<mapsto> cd\<lparr>parent := Some p\<rparr>, p \<mapsto> relink (the (nodes t p)) n child, n := None)\<rparr>)"
proof -
  let ?child = "if fst (nleft nd) \<noteq> None then nleft nd else nright nd"
  obtain c where c: "fst ?child = Some c" "kids nd = {c}"
    using nd(2) by (cases "fst (nleft nd)"; cases "fst (nright nd)") (auto simp: kids_def)
  with ptree_invD(4) [OF t nd(1), of c] obtain cd where cd: "nodes t c = Some cd" "parent cd = Some n" "n < c" by auto
  have "compress t n = Some (case parent nd of None \<Rightarrow> t\<lparr>root := ?child, nodes := (nodes t)(c \<mapsto> cd\<lparr>parent := None\<rparr>, n := None)\<rparr>
       | Some p \<Rightarrow> t\<lparr>nodes := (nodes t)(c \<mapsto> cd\<lparr>parent := Some p\<rparr>, p \<mapsto> relink (the (nodes t p)) n ?child, n := None)\<rparr>)"
  proof (cases "parent nd")
    case None
    with nd(1) c cd show ?thesis by (simp add: compress_def Let_def)
  next
    case (Some p)
    from ptree_invD(3) [OF t nd(1) Some] obtain pd where pd: "p < n" "nodes t p = Some pd" "n \<in> kids pd" by auto
    then have "p \<noteq> c" "fst (nleft pd) = Some n \<or> fst (nright pd) = Some n" using cd(3) by (auto simp: kids_def)
    with Some nd(1) c cd pd show ?thesis by (auto simp: compress_def Let_def relink_def)
  qed
  with c cd that show ?thesis by blast
qed

lemma compress_root_ok:
  assumes t: "ptree_ok t" and n: "nodes t n = Some nd" "kids nd = {c}" "parent nd = None" "nstate nd = None"
    and c: "nodes t c = Some cd" "fst child = Some c" "n < c"
  shows "ptree_ok (t\<lparr>root := child, nodes := (nodes t)(c \<mapsto> cd\<lparr>parent := None\<rparr>, n := None)\<rparr>)" (is "ptree_ok ?t")
  unfolding ptree_inv_def
proof (intro allI impI)
  fix m md assume md: "nodes ?t m = Some md"
  then obtain md' where m: "m \<noteq> n" "nodes t m = Some md'" "kids md = kids md'" "nstate md = nstate md'" "nleft md = nleft md'" "nright md = nright md'"
    "m \<noteq> c \<longrightarrow> parent md = parent md'" "m = c \<longrightarrow> parent md = None" using c(1) by (cases "m = c") (auto simp: kids_def split: if_splits)
  have up: "m = c" if "parent md' = Some n" using ptree_invD(3) [OF t m(2) that] n(1,2) by auto
  show "node_ok ?t {} m md"
  proof (rule node_okI)
    show "fst (root ?t) = Some m" if "parent md = None" using that m ptree_invD(2) [OF t m(2)] ptree_invD(2) [OF t n(1,3)] c(2) by auto
    fix p assume "parent md = Some p"
    with m up have p: "parent md' = Some p" "p \<noteq> n" by auto
    from ptree_invD(3) [OF t m(2) p(1)] p(2) c(1) show "p < m \<and> (\<exists>pd. nodes ?t p = Some pd \<and> m \<in> kids pd)" by (auto simp: kids_def)
  next
    fix k assume "k \<in> kids md"
    with m ptree_invD(4) [OF t m(2), of k] obtain kd where k: "nodes t k = Some kd" "parent kd = Some m" by auto
    with n m(1) have "k \<noteq> n" by auto
    moreover have "k \<noteq> c" using k c(1) ptree_invD(4) [OF t n(1), of c] n(2) m(1) by auto
    ultimately show "\<exists>cd. nodes ?t k = Some cd \<and> parent cd = Some m" using k by auto
  qed (use m ptree_invD(1,5,6) [OF t m(2)] in auto)
qed

lemma relink_kids:
  assumes "ptree_inv X t" "nodes t p = Some pd" "n \<in> kids pd" "fst child = Some c" "c \<notin> kids pd"
  shows "kids (relink pd n child) = kids pd - {n} \<union> {c}" "fst (nleft (relink pd n child)) = Some k \<Longrightarrow> fst (nright (relink pd n child)) \<noteq> Some k"
  using assms(3-5) ptree_invD(5) [OF assms(1,2), of n] ptree_invD(5) [OF assms(1,2), of k]
  by (auto simp: relink_def kids_def)

lemma compress_inner_ok:
  assumes t: "ptree_ok t" and n: "nodes t n = Some nd" "kids nd = {c}" "parent nd = Some p" "nstate nd = None"
    and c: "nodes t c = Some cd" "fst child = Some c" "n < c" and pd: "nodes t p = Some pd" "n \<in> kids pd" "p < n"
  shows "ptree_ok (t\<lparr>nodes := (nodes t)(c \<mapsto> cd\<lparr>parent := Some p\<rparr>, p \<mapsto> relink pd n child, n := None)\<rparr>)" (is "ptree_ok ?t")
  unfolding ptree_inv_def
proof (intro allI impI)
  have pc: "parent cd = Some n" using ptree_invD(4) [OF t n(1), of c] n(2) c(1) by auto
  have c': "c \<notin> kids pd" using ptree_invD(4) [OF t pd(1), of c] pc pd(3) c(1) by auto
  note rk = relink_kids [OF t pd(1,2) c(2) c']
  fix m md assume md: "nodes ?t m = Some md"
  have mn: "m \<noteq> n" using md by auto
  then obtain md' where m: "nodes t m = Some md'" "nstate md = nstate md'"
    "m \<noteq> p \<longrightarrow> kids md = kids md' \<and> nleft md = nleft md' \<and> nright md = nright md'" "m \<noteq> c \<longrightarrow> parent md = parent md'"
    "m = c \<longrightarrow> parent md = Some p" "m = p \<longrightarrow> md = relink pd n child \<and> md' = pd"
    using md c(1,3) pd by (cases "m = c"; cases "m = p") (auto simp: kids_def)
  show "node_ok ?t {} m md"
  proof (rule node_okI)
    show "m < next_node ?t" using ptree_invD(1) [OF t m(1)] by simp
    show "fst (root ?t) = Some m" if "parent md = None" using that m(4,5) ptree_invD(2) [OF t m(1)] by (cases "m = c") auto
    show "q < m \<and> (\<exists>qd. nodes ?t q = Some qd \<and> m \<in> kids qd)" if "parent md = Some q" for q
    proof (cases "m = c")
      case True
      with that m(5) have "q = p" by simp
      with True rk(1) pd c(3) show ?thesis by auto
    next
      case False
      with that m(4) have q: "parent md' = Some q" by simp
      from ptree_invD(3) [OF t m(1) this] obtain qd where qd: "q < m" "nodes t q = Some qd" "m \<in> kids qd" by auto
      have "q \<noteq> n"
      proof
        assume "q = n"
        with qd(2) n(1) have "qd = nd" by simp
        with qd(3) n(2) False show False by simp
      qed
      then show ?thesis using qd rk(1) pd(1) c(1) mn by (cases "q = p"; cases "q = c") (auto simp: kids_def)
    qed
    show "\<exists>kd. nodes ?t k = Some kd \<and> parent kd = Some m" if "k \<in> kids md" for k
    proof (cases "k = c")
      case True
      have "m = p"
      proof (rule ccontr)
        assume "m \<noteq> p"
        with that True m(3) have "c \<in> kids md'" by simp
        from ptree_invD(4) [OF t m(1) this] pc c(1) mn show False by simp
      qed
      with True c(3) pd(3) show ?thesis by auto
    next
      case False
      then have "k \<in> kids md'" using that m(3,6) rk(1) by (cases "m = p") auto
      from ptree_invD(4) [OF t m(1) this] obtain kd where kd: "nodes t k = Some kd" "parent kd = Some m" by auto
      have "k \<noteq> n" using kd n that m(3,6) rk(1) c(3) by (cases "m = p") auto
      then show ?thesis using kd False pd(1) by auto
    qed
    show "fst (nright md) \<noteq> Some k" if "fst (nleft md) = Some k" for k
      using that m(3,6) ptree_invD(5) [OF t m(1)] rk(2) by (cases "m = p") auto
    show "if m \<in> {} then kids md = {} else (nstate md = None) = (kids md \<noteq> {})"
      using m(2,3,6) ptree_invD(6) [OF t m(1)] pd(2) rk(1) by (cases "m = p") auto
  qed
qed

lemma compress_ok:
  assumes t: "ptree_ok t" and nd: "nodes t n = Some nd" "fst (nleft nd) = None \<longleftrightarrow> fst (nright nd) \<noteq> None"
  shows "succeeds (compress t n) (\<lambda>t'. ptree_ok t' \<and> state_at t' = state_at t)"
proof -
  obtain child c cd where c: "fst child = Some c" "kids nd = {c}" "nodes t c = Some cd" "n < c"
    and run: "compress t n = Some (case parent nd of None \<Rightarrow> t\<lparr>root := child, nodes := (nodes t)(c \<mapsto> cd\<lparr>parent := None\<rparr>, n := None)\<rparr>
       | Some p \<Rightarrow> t\<lparr>nodes := (nodes t)(c \<mapsto> cd\<lparr>parent := Some p\<rparr>, p \<mapsto> relink (the (nodes t p)) n child, n := None)\<rparr>)"
    by (rule compress_eq [OF assms])
  have st: "nstate nd = None" using ptree_invD(6) [OF t nd(1)] c(2) by simp
  show ?thesis
  proof (cases "parent nd")
    case None
    with run compress_root_ok [OF t nd(1) c(2) None st c(3,1,4)] nd(1) st c(3) show ?thesis
      by (auto simp: state_at_def fun_eq_iff)
  next
    case (Some p)
    from ptree_invD(3) [OF t nd(1) Some] obtain pd where pd: "nodes t p = Some pd" "n \<in> kids pd" "p < n" by auto
    with Some run compress_inner_ok [OF t nd(1) c(2) Some st c(3,1,4) pd] nd(1) st c(3,4) show ?thesis
      by (auto simp: state_at_def fun_eq_iff)
  qed
qed

lemma remove_ok:
  assumes t: "ptree_ok t" and st: "state_at t n \<noteq> None"
  shows "succeeds (PTree_remove cp t n) (\<lambda>t'. ptree_ok t' \<and> state_at t' = (state_at t)(n := None))"
proof -
  from st obtain nd where nd: "nodes t n = Some nd" "nstate nd \<noteq> None" by (auto simp: state_at_def bind_eq_Some_conv)
  have kids: "kids nd = {}" using ptree_invD(6) [OF t nd(1)] nd(2) by blast
  with t nd(1) have "ptree_inv {n} t" by (auto simp: ptree_inv_def node_ok_def)
  from removeUp_ok [OF this nd(1), of "n + 1"] obtain stop t1 where r: "removeUp (n + 1) t n = Some (stop, t1)" "removal t n (stop, t1)"
    by (auto elim: succeedsE)
  show ?thesis
  proof (cases "cp \<and> stop \<noteq> None")
    case True
    then obtain m md where m: "stop = Some m" "nodes t1 m = Some md" "fst (nleft md) = None \<longleftrightarrow> fst (nright md) \<noteq> None" "ptree_ok t1"
      "state_at t1 = (state_at t)(n := None)" using r(2) by (auto simp: removal_def)
    from compress_ok [OF m(4,2,3)] m True nd(1) kids r(1) show ?thesis by (simp add: PTree_remove_def kids_empty)
  next
    case False
    with nd(1) kids r show ?thesis by (cases stop) (auto simp: PTree_remove_def kids_empty removal_def)
  qed
qed

section \<open>Properties\<close>

text \<open>C37: the leaves of the process tree are the states of the engine. Attaching a state to the leaf of
  the state it was forked from gives leaves to both, removing a state removes its leaf, no other
  leaf is touched, no assertion fails and the links between the nodes stay consistent, with
  compression and without; when the last state is removed no node is left.\<close>

theorem PTree_tracks_states:
  assumes "ptree_ok t" "state_at t node = Some st"
  shows "succeeds (PTree_attach t node new st (Some node)) (\<lambda>(ln, rn, t').
      ptree_ok t' \<and> ln \<noteq> rn \<and> nodes t ln = None \<and> nodes t rn = None \<and> state_at t' = (state_at t)(node := None, ln \<mapsto> new, rn \<mapsto> st))
    \<and> succeeds (PTree_remove compressProcessTree t node) (\<lambda>t'.
      ptree_ok t' \<and> state_at t' = (state_at t)(node := None) \<and> ((\<forall>k. state_at t' k = None) \<longrightarrow> nodes t' = Map.empty))"
proof
  show "succeeds (PTree_attach t node new st (Some node)) (\<lambda>(ln, rn, t').
      ptree_ok t' \<and> ln \<noteq> rn \<and> nodes t ln = None \<and> nodes t rn = None \<and> state_at t' = (state_at t)(node := None, ln \<mapsto> new, rn \<mapsto> st))"
    by (rule attach_ok [OF assms])
  show "succeeds (PTree_remove compressProcessTree t node) (\<lambda>t'.
      ptree_ok t' \<and> state_at t' = (state_at t)(node := None) \<and> ((\<forall>k. state_at t' k = None) \<longrightarrow> nodes t' = Map.empty))"
    by (rule succeeds_mono [OF remove_ok [OF assms(1)]]) (use assms(2) no_states_no_nodes in auto)
qed

theorem PTree_tracks_states_witness:
  "\<exists>ln rn t'. PTree_attach (PTree_new 7) 0 8 7 (Some 0) = Some (ln, rn, t') \<and> state_at t' = [ln \<mapsto> 8, rn \<mapsto> 7]"
proof -
  have "state_at (PTree_new 7) 0 = Some 7" by (simp add: state_at_new)
  from PTree_tracks_states [OF ptree_ok_new this, of 8, THEN conjunct1]
  show ?thesis by (auto simp: succeeds_def state_at_new)
qed

end
