(* ===== verification/RandomPathSearcher.thy ===== *)
theory RandomPathSearcher
  imports PTree
begin

text \<open>
  \<open>RandomPathSearcher\<close> of \<^verbatim>\<open>lib/Core/Searcher.cpp\<close>, which finds a state by a random walk down the process tree. It
  keeps to the nodes it owns, which it marks in the tags of the pointers. The loops that climb to
  the root have as fuel one more than the number of the node they start at, the walk the number
  of the next node of the tree.
\<close>

unbundle bit_operations_syntax

section \<open>The model\<close>

definition ours :: "8 word \<Rightarrow> PTreeNodePtr \<Rightarrow> bool" where
  "ours idBitMask ptr \<longleftrightarrow> fst ptr \<noteq> None \<and> snd ptr AND idBitMask \<noteq> 0"

definition setChildTag :: "PTree \<Rightarrow> nat \<Rightarrow> PTreeNode \<Rightarrow> (8 word \<Rightarrow> 8 word) \<Rightarrow> PTree option" where
  "setChildTag t n nd f =
     (case parent nd of
        None \<Rightarrow> Some (t\<lparr>root := map_prod id f (root t)\<rparr>)
      | Some p \<Rightarrow> nodes t p \<bind> (\<lambda>pd.
          Some (t\<lparr>nodes := (nodes t)(p \<mapsto>
            (if fst (nleft pd) = Some n then pd\<lparr>nleft := map_prod id f (nleft pd)\<rparr> else pd\<lparr>nright := map_prod id f (nright pd)\<rparr>))\<rparr>)))"

text \<open>The loop over the added states, for one of them.\<close>

fun markUp :: "nat \<Rightarrow> 8 word \<Rightarrow> PTree \<Rightarrow> nat \<Rightarrow> PTree option" where
  "markUp 0 idBitMask t n = None"
| "markUp (Suc k) idBitMask t n =
     nodes t n \<bind> (\<lambda>nd. childPtr t n nd \<bind> (\<lambda>ptr.
     if ours idBitMask ptr then Some t
     else setChildTag t n nd (\<lambda>tag. tag OR idBitMask) \<bind> (\<lambda>t.
       case parent nd of None \<Rightarrow> Some t | Some p \<Rightarrow> markUp k idBitMask t p)))"

text \<open>The loop over the removed states, for one of them.\<close>

fun unmarkUp :: "nat \<Rightarrow> 8 word \<Rightarrow> PTree \<Rightarrow> nat \<Rightarrow> PTree option" where
  "unmarkUp 0 idBitMask t n = None"
| "unmarkUp (Suc k) idBitMask t n =
     nodes t n \<bind> (\<lambda>nd.
     if ours idBitMask (nleft nd) \<or> ours idBitMask (nright nd) then Some t
     else childPtr t n nd \<bind> (\<lambda>ptr.
       if \<not> ours idBitMask ptr then None
       else setChildTag t n nd (\<lambda>tag. tag AND NOT idBitMask) \<bind> (\<lambda>t.
         case parent nd of None \<Rightarrow> Some t | Some p \<Rightarrow> unmarkUp k idBitMask t p)))"

fun forStates :: "(PTree \<Rightarrow> nat \<Rightarrow> PTree option) \<Rightarrow> (nat \<Rightarrow> nat option) \<Rightarrow> nat list \<Rightarrow> PTree \<Rightarrow> PTree option" where
  "forStates f ptreeNode [] t = Some t"
| "forStates f ptreeNode (es # ss) t = ptreeNode es \<bind> (\<lambda>n. f t n \<bind> forStates f ptreeNode ss)"

text \<open>\<open>ptreeNode\<close> is the field of the states with that name.\<close>

definition RandomPathSearcher_update :: "8 word \<Rightarrow> (nat \<Rightarrow> nat option) \<Rightarrow> nat list \<Rightarrow> nat list \<Rightarrow> PTree \<Rightarrow> PTree option" where
  "RandomPathSearcher_update idBitMask ptreeNode addedStates removedStates t =
     forStates (\<lambda>t n. markUp (n + 1) idBitMask t n) ptreeNode addedStates t \<bind>
     forStates (\<lambda>t n. unmarkUp (n + 1) idBitMask t n) ptreeNode removedStates"

text \<open>The walk has as fuel the number of the next node: a child has a greater number than its parent.\<close>

fun walkDown :: "nat \<Rightarrow> 8 word \<Rightarrow> PTree \<Rightarrow> RNG \<Rightarrow> 32 word \<Rightarrow> nat \<Rightarrow> nat \<Rightarrow> (nat \<times> RNG) option" where
  "walkDown 0 idBitMask t rng flips bits n = None"
| "walkDown (Suc k) idBitMask t rng flips bits n =
     nodes t n \<bind> (\<lambda>nd.
     case nstate nd of
       Some st \<Rightarrow> Some (st, rng)
     | None \<Rightarrow>
         if \<not> ours idBitMask (nleft nd) then
           if \<not> ours idBitMask (nright nd) \<or> fst (nright nd) = Some n then None
           else fst (nright nd) \<bind> walkDown k idBitMask t rng flips bits
         else if \<not> ours idBitMask (nright nd) then
           if fst (nleft nd) = Some n then None
           else fst (nleft nd) \<bind> walkDown k idBitMask t rng flips bits
         else (if bits = 0 then RNG_getInt32 rng \<bind> (\<lambda>(flips, rng). Some (flips, 32, rng)) else Some (flips, bits, rng)) \<bind>
           (\<lambda>(flips, bits, rng).
             let bits = bits - 1 in
             fst (if flips AND push_bit bits 1 \<noteq> 0 then nleft nd else nright nd) \<bind> walkDown k idBitMask t rng flips bits))"

definition RandomPathSearcher_selectState :: "8 word \<Rightarrow> PTree \<Rightarrow> RNG \<Rightarrow> (nat \<times> RNG) option" where
  "RandomPathSearcher_selectState idBitMask t rng =
     (if snd (root t) AND idBitMask = 0 then None
      else fst (root t) \<bind> walkDown (next_node t) idBitMask t rng 0 0)"

definition RandomPathSearcher_empty :: "8 word \<Rightarrow> PTree \<Rightarrow> bool" where
  "RandomPathSearcher_empty idBitMask t \<longleftrightarrow> \<not> ours idBitMask (root t)"

section \<open>Ownership\<close>

definition tag_at :: "8 word \<Rightarrow> PTree \<Rightarrow> nat \<Rightarrow> bool" where
  "tag_at m t n = (case nodes t n of None \<Rightarrow> False | Some nd \<Rightarrow> (case childPtr t n nd of None \<Rightarrow> False | Some ptr \<Rightarrow> ours m ptr))"

lemma tag_at_simps:
  "nodes t n = None \<Longrightarrow> \<not> tag_at m t n"
  "nodes t n = Some nd \<Longrightarrow> parent nd = None \<Longrightarrow> tag_at m t n = ours m (root t)"
  "nodes t n = Some nd \<Longrightarrow> parent nd = Some p \<Longrightarrow> nodes t p = Some pd \<Longrightarrow>
     tag_at m t n = ours m (if fst (nleft pd) = Some n then nleft pd else nright pd)"
  by (simp_all add: tag_at_def childPtr_def)

text \<open>A leaf has to be tagged if its state belongs to the searcher, another node if one of its children is.\<close>

definition wants :: "8 word \<Rightarrow> nat set \<Rightarrow> PTree \<Rightarrow> PTreeNode \<Rightarrow> bool" where
  "wants m S t nd = (case nstate nd of Some st \<Rightarrow> st \<in> S | None \<Rightarrow> \<exists>c\<in>kids nd. tag_at m t c)"

definition owned_but :: "nat set \<Rightarrow> 8 word \<Rightarrow> nat set \<Rightarrow> PTree \<Rightarrow> bool" where
  "owned_but X m S t \<longleftrightarrow> (\<forall>n nd. nodes t n = Some nd \<longrightarrow> n \<notin> X \<longrightarrow> tag_at m t n = wants m S t nd)"

abbreviation owned :: "8 word \<Rightarrow> nat set \<Rightarrow> PTree \<Rightarrow> bool" where "owned \<equiv> owned_but {}"

lemma child_tag:
  assumes t: "ptree_ok t" and pd: "nodes t p = Some pd"
  shows "ours m (nleft pd) \<longleftrightarrow> (\<exists>c. fst (nleft pd) = Some c \<and> tag_at m t c)"
    "ours m (nright pd) \<longleftrightarrow> (\<exists>c. fst (nright pd) = Some c \<and> tag_at m t c)"
proof -
  have tag: "tag_at m t c = ours m (if fst (nleft pd) = Some c then nleft pd else nright pd)" if "c \<in> kids pd" for c
    using ptree_invD(4) [OF t pd that] pd by (auto simp: tag_at_simps(3))
  have "tag_at m t c = ours m (nleft pd)" if "fst (nleft pd) = Some c" for c using tag [of c] that by (simp add: kids_def)
  then show "ours m (nleft pd) \<longleftrightarrow> (\<exists>c. fst (nleft pd) = Some c \<and> tag_at m t c)" by (auto simp: ours_def)
  have "tag_at m t c = ours m (nright pd)" if "fst (nright pd) = Some c" for c
    using tag [of c] that ptree_invD(5) [OF t pd] by (auto simp: kids_def)
  then show "ours m (nright pd) \<longleftrightarrow> (\<exists>c. fst (nright pd) = Some c \<and> tag_at m t c)" by (auto simp: ours_def)
qed

lemma wants_pointers:
  assumes "ptree_ok t" "nodes t n = Some nd"
  shows "ours m (nleft nd) \<or> ours m (nright nd) \<longleftrightarrow> (\<exists>c\<in>kids nd. tag_at m t c)"
  using child_tag [OF assms, of m] by (auto simp: kids_def)

definition same_node :: "PTreeNode option \<Rightarrow> PTreeNode option \<Rightarrow> bool" where
  "same_node a b \<longleftrightarrow> map_option (\<lambda>nd. (parent nd, fst (nleft nd), fst (nright nd), nstate nd)) a
     = map_option (\<lambda>nd. (parent nd, fst (nleft nd), fst (nright nd), nstate nd)) b"

definition same_shape :: "PTree \<Rightarrow> PTree \<Rightarrow> bool" where
  "same_shape t t' \<longleftrightarrow> next_node t' = next_node t \<and> fst (root t') = fst (root t) \<and> (\<forall>n. same_node (nodes t n) (nodes t' n))"

lemma same_shapeD:
  assumes "same_shape t t'" "nodes t' n = Some nd'"
  obtains nd where "nodes t n = Some nd" "parent nd' = parent nd" "fst (nleft nd') = fst (nleft nd)" "fst (nright nd') = fst (nright nd)"
    "nstate nd' = nstate nd" "kids nd' = kids nd"
proof -
  have "same_node (nodes t n) (nodes t' n)" using assms(1) by (simp add: same_shape_def)
  with assms(2) that show ?thesis by (auto simp: same_node_def kids_def)
qed

lemma same_shape_refl: "same_shape t t"
  by (simp add: same_shape_def same_node_def)

lemma same_shape_sym: "same_shape t t' \<Longrightarrow> same_shape t' t"
  by (simp add: same_shape_def same_node_def)

lemma same_shape_trans: "same_shape t t' \<Longrightarrow> same_shape t' t'' \<Longrightarrow> same_shape t t''"
  by (simp add: same_shape_def same_node_def)

lemma same_shape_ok:
  assumes "ptree_ok t" "same_shape t t'"
  shows "ptree_ok t'"
  unfolding ptree_inv_def
proof (intro allI impI)
  fix n nd' assume "nodes t' n = Some nd'"
  with assms(2) obtain nd where nd: "nodes t n = Some nd" "parent nd' = parent nd" "fst (nleft nd') = fst (nleft nd)"
    "fst (nright nd') = fst (nright nd)" "nstate nd' = nstate nd" "kids nd' = kids nd" by (rule same_shapeD)
  have keep: "\<exists>md'. nodes t' k = Some md' \<and> parent md' = parent md \<and> kids md' = kids md" if "nodes t k = Some md" for k md
    using same_shapeD [OF same_shape_sym [OF assms(2)] that] by metis
  note ok = ptree_invD [OF assms(1) nd(1)]
  show "node_ok t' {} n nd'"
  proof (rule node_okI)
    show "p < n \<and> (\<exists>pd. nodes t' p = Some pd \<and> n \<in> kids pd)" if "parent nd' = Some p" for p
      using ok(3) [of p] keep that nd(2) by metis
    show "\<exists>cd. nodes t' c = Some cd \<and> parent cd = Some n" if "c \<in> kids nd'" for c
      using ok(4) [of c] keep that nd(6) by metis
  qed (use ok nd assms(2) in \<open>simp_all add: same_shape_def\<close>)
qed

lemma same_shape_state_at: "same_shape t t' \<Longrightarrow> state_at t' = state_at t"
proof
  fix n assume "same_shape t t'"
  then have "same_node (nodes t n) (nodes t' n)" by (simp add: same_shape_def)
  then show "state_at t' n = state_at t n" by (cases "nodes t n"; cases "nodes t' n") (simp_all add: same_node_def state_at_def)
qed

lemma setChildTag_ok:
  assumes t: "ptree_ok t" and nd: "nodes t n = Some nd" and f: "\<And>tag. f tag AND m \<noteq> 0 \<longleftrightarrow> b"
  shows "succeeds (setChildTag t n nd f) (\<lambda>t'. same_shape t t' \<and> tag_at m t' = (tag_at m t)(n := b))"
proof (cases "parent nd")
  case None
  note root = ptree_invD(2) [OF t nd None]
  let ?t = "t\<lparr>root := map_prod id f (root t)\<rparr>"
  have "tag_at m ?t k = (if k = n then b else tag_at m t k)" for k
  proof (cases "k = n")
    case True
    with None nd root f show ?thesis by (simp add: tag_at_def childPtr_def ours_def)
  next
    case False
    then have "parent kd \<noteq> None" if "nodes t k = Some kd" for kd using ptree_invD(2) [OF t that] root by auto
    with False show ?thesis by (cases "nodes t k") (auto simp: tag_at_def childPtr_def)
  qed
  moreover have "same_shape t ?t" by (simp add: same_shape_def same_node_def)
  ultimately show ?thesis using None by (simp add: setChildTag_def fun_eq_iff)
next
  case (Some p)
  from ptree_invD(3) [OF t nd Some] obtain pd where pd: "p < n" "nodes t p = Some pd" "n \<in> kids pd" by auto
  let ?pd = "if fst (nleft pd) = Some n then pd\<lparr>nleft := map_prod id f (nleft pd)\<rparr> else pd\<lparr>nright := map_prod id f (nright pd)\<rparr>"
  let ?t = "t\<lparr>nodes := (nodes t)(p \<mapsto> ?pd)\<rparr>"
  have run: "setChildTag t n nd f = Some ?t" using Some pd(2) by (simp add: setChildTag_def)
  have shape: "same_shape t ?t" using pd(2) by (simp add: same_shape_def same_node_def)
  have "tag_at m ?t k = (if k = n then b else tag_at m t k)" for k
  proof (cases "nodes t k")
    case (Some kd)
    have "\<exists>kd'. nodes ?t k = Some kd' \<and> parent kd' = parent kd" using Some pd(2) by auto
    then obtain kd' where kd': "nodes ?t k = Some kd'" "parent kd' = parent kd" by blast
    show ?thesis
    proof (cases "parent kd")
      case None
      moreover have "k \<noteq> n" using None Some nd \<open>parent nd = Some p\<close> by auto
      ultimately show ?thesis using kd' Some by (simp add: tag_at_simps(2))
    next
      case (Some q)
      from ptree_invD(3) [OF t \<open>nodes t k = Some kd\<close> Some] obtain qd where qd: "nodes t q = Some qd" "k \<in> kids qd" by auto
      show ?thesis
      proof (cases "q = p")
        case True
        with qd pd(2) have k: "k \<in> kids pd" by simp
        have "tag_at m ?t k = ours m (if fst (nleft ?pd) = Some k then nleft ?pd else nright ?pd)"
          using kd' Some True by (intro tag_at_simps(3)) auto
        moreover have "tag_at m t k = ours m (if fst (nleft pd) = Some k then nleft pd else nright pd)"
          using Some True pd(2) \<open>nodes t k = Some kd\<close> by (intro tag_at_simps(3)) auto
        ultimately show ?thesis using k pd(3) f ptree_invD(5) [OF t pd(2)] by (auto simp: ours_def kids_def)
      next
        case False
        then have "k \<noteq> n" using Some \<open>nodes t k = Some kd\<close> nd \<open>parent nd = Some p\<close> by auto
        with False kd' Some qd \<open>nodes t k = Some kd\<close> show ?thesis by (simp add: tag_at_simps(3))
      qed
    qed
  next
    case None
    with pd(2) nd have "nodes ?t k = None" "k \<noteq> n" by auto
    with None show ?thesis by (simp add: tag_at_simps(1))
  qed
  with run shape show ?thesis by (simp add: fun_eq_iff)
qed

text \<open>Another searcher, with a mask of its own, does not notice.\<close>

lemma setChildTag_other:
  assumes t: "ptree_ok t" and nd: "nodes t n = Some nd" and run: "setChildTag t n nd f = Some t'" and f: "\<And>tag. f tag AND m = tag AND m"
  shows "tag_at m t' = tag_at m t"
proof
  fix k
  show "tag_at m t' k = tag_at m t k"
  proof (cases "parent nd")
    case None
    with run have "t' = t\<lparr>root := map_prod id f (root t)\<rparr>" by (simp add: setChildTag_def)
    then show ?thesis using f by (auto simp: tag_at_def childPtr_def ours_def split: option.split)
  next
    case (Some p)
    from ptree_invD(3) [OF t nd Some] obtain pd where pd: "nodes t p = Some pd" by auto
    let ?pd = "if fst (nleft pd) = Some n then pd\<lparr>nleft := map_prod id f (nleft pd)\<rparr> else pd\<lparr>nright := map_prod id f (nright pd)\<rparr>"
    have t': "t' = t\<lparr>nodes := (nodes t)(p \<mapsto> ?pd)\<rparr>" using run Some pd by (simp add: setChildTag_def)
    have ours: "ours m (if fst (nleft ?pd) = Some k then nleft ?pd else nright ?pd) = ours m (if fst (nleft pd) = Some k then nleft pd else nright pd)"
      using f by (auto simp: ours_def)
    show ?thesis
    proof (cases "nodes t k")
      case None
      moreover from None pd t' have "nodes t' k = None" by auto
      ultimately show ?thesis by (simp add: tag_at_simps(1))
    next
      case (Some kd)
      have "\<exists>kd'. nodes t' k = Some kd' \<and> parent kd' = parent kd" using Some pd t' by auto
      then obtain kd' where kd': "nodes t' k = Some kd'" "parent kd' = parent kd" by blast
      show ?thesis
      proof (cases "parent kd")
        case None
        with kd' Some t' show ?thesis by (simp add: tag_at_simps(2))
      next
        case (Some q)
        from ptree_invD(3) [OF t \<open>nodes t k = Some kd\<close> Some] obtain qd where qd: "nodes t q = Some qd" by auto
        note old = tag_at_simps(3) [OF \<open>nodes t k = Some kd\<close> Some qd, of m]
        show ?thesis
        proof (cases "q = p")
          case True
          with t' have "nodes t' q = Some ?pd" by simp
          from tag_at_simps(3) [OF kd'(1) _ this, of m] kd'(2) Some True qd pd old ours show ?thesis by simp
        next
          case False
          with t' qd have "nodes t' q = Some qd" by simp
          from tag_at_simps(3) [OF kd'(1) _ this, of m] kd'(2) Some old show ?thesis by simp
        qed
      qed
    qed
  qed
qed

subsection \<open>Marking and unmarking\<close>

lemma childPtr_some:
  assumes "ptree_ok t" "nodes t n = Some nd"
  obtains ptr where "childPtr t n nd = Some ptr" "tag_at m t n = ours m ptr"
proof -
  have "childPtr t n nd \<noteq> None" using ptree_invD(3) [OF assms] by (cases "parent nd") (auto simp: childPtr_def)
  then obtain ptr where "childPtr t n nd = Some ptr" by blast
  with assms(2) that show ?thesis by (simp add: tag_at_def)
qed

text \<open>Changing the tag of one node matters only to that node and its parent.\<close>

lemma retag:
  assumes t: "ptree_ok t" and sh: "same_shape t t'" "tag_at m t' = (tag_at m t)(n := b)" and nd: "nodes t n = Some nd"
    and own: "owned_but {n} m S t" and b: "b = wants m S t nd"
  shows "owned_but (set_option (parent nd)) m S t'"
    "parent nd = Some p \<Longrightarrow> nodes t' p = Some pd \<Longrightarrow> wants m S t' pd = (\<exists>c\<in>kids pd. tag_at m t' c)"
proof -
  have no_self: "n \<notin> kids nd" using ptree_invD(4) [OF t nd] by blast
  show "owned_but (set_option (parent nd)) m S t'" unfolding owned_but_def
  proof (intro allI impI)
    fix k kd' assume k: "nodes t' k = Some kd'" "k \<notin> set_option (parent nd)"
    obtain kd where kd: "nodes t k = Some kd" "nstate kd' = nstate kd" "kids kd' = kids kd" by (rule same_shapeD [OF sh(1) k(1)])
    have "n \<notin> kids kd" using ptree_invD(4) [OF t kd(1), of n] nd k(2) by auto
    then have w: "wants m S t' kd' = wants m S t kd" using kd(2,3) sh(2) by (auto simp: wants_def split: option.split)
    show "tag_at m t' k = wants m S t' kd'"
      using own kd(1) nd b w sh(2) by (cases "k = n") (auto simp: owned_but_def)
  qed
  assume p: "parent nd = Some p" "nodes t' p = Some pd"
  obtain pd0 where pd0: "nodes t p = Some pd0" "nstate pd = nstate pd0" "kids pd = kids pd0" by (rule same_shapeD [OF sh(1) p(2)])
  with ptree_invD(3) [OF t nd p(1)] ptree_invD(6) [OF t pd0(1)] have "nstate pd = None" by auto
  then show "wants m S t' pd = (\<exists>c\<in>kids pd. tag_at m t' c)" by (simp add: wants_def)
qed

lemma and_not_other: "m AND m' = 0 \<Longrightarrow> (tag AND NOT m) AND m' = tag AND (m' :: 8 word)"
  by (rule bit_eqI) (auto simp: bit_simps dest!: arg_cong [where f = "\<lambda>x. bit x k" for k])

definition retagged :: "8 word \<Rightarrow> nat set \<Rightarrow> PTree \<Rightarrow> PTree \<Rightarrow> bool" where
  "retagged m S t t' \<longleftrightarrow> same_shape t t' \<and> owned m S t' \<and> (\<forall>m'. m AND m' = 0 \<longrightarrow> tag_at m' t' = tag_at m' t)"

lemma retagged_trans:
  assumes "same_shape t t1" "\<forall>m'. m AND m' = 0 \<longrightarrow> tag_at m' t1 = tag_at m' t" "retagged m S t1 t2"
  shows "retagged m S t t2"
  using assms same_shape_trans by (auto simp: retagged_def)

lemma markUp_ok:
  assumes "ptree_ok t" "nodes t n = Some nd" "n < k" "m \<noteq> 0" "owned_but {n} m S t" "wants m S t nd"
  shows "succeeds (markUp k m t n) (retagged m S t)"
  using assms
proof (induction k arbitrary: t n nd)
  case (Suc k)
  note t = Suc.prems(1) and nd = Suc.prems(2)
  obtain ptr where ptr: "childPtr t n nd = Some ptr" "tag_at m t n = ours m ptr" by (rule childPtr_some [OF t nd])
  show ?case
  proof (cases "ours m ptr")
    case True
    have "tag_at m t k = wants m S t kd" if "nodes t k = Some kd" for k kd
      using that Suc.prems(5,6) nd ptr(2) True by (cases "k = n") (auto simp: owned_but_def)
    then have "owned m S t" by (simp add: owned_but_def)
    with nd ptr True show ?thesis by (simp add: retagged_def same_shape_refl)
  next
    case False
    have "(tag OR m) AND m \<noteq> 0 \<longleftrightarrow> True" for tag using Suc.prems(4) by (simp add: bit.conj_disj_distrib2)
    from setChildTag_ok [where f = "\<lambda>tag. tag OR m", OF t nd this] obtain t1 where t1: "setChildTag t n nd (\<lambda>tag. tag OR m) = Some t1" "same_shape t t1"
      "tag_at m t1 = (tag_at m t)(n := True)" by (auto elim: succeedsE)
    have other: "\<forall>m'. m AND m' = 0 \<longrightarrow> tag_at m' t1 = tag_at m' t"
      using setChildTag_other [OF t nd t1(1)] by (auto simp: bit.conj_disj_distrib2)
    note re = retag [OF t t1(2,3) nd Suc.prems(5)]
    have ok: "ptree_ok t1" by (rule same_shape_ok [OF t t1(2)])
    show ?thesis
    proof (cases "parent nd")
      case None
      with re(1) Suc.prems(6) nd ptr False t1 other show ?thesis by (simp add: retagged_def)
    next
      case (Some p)
      from ptree_invD(3) [OF t nd Some] obtain pd0 where pd0: "p < n" "nodes t p = Some pd0" "n \<in> kids pd0" by auto
      then obtain pd where pd: "nodes t1 p = Some pd" "kids pd = kids pd0" using same_shapeD [OF same_shape_sym [OF t1(2)] pd0(2)] by metis
      have "wants m S t1 pd" using re(2) [OF _ Some pd(1)] Suc.prems(6) pd pd0(3) t1(3) by auto
      moreover have "owned_but {p} m S t1" using re(1) Suc.prems(6) Some by simp
      ultimately have "succeeds (markUp k m t1 p) (retagged m S t1)" using Suc.IH [OF ok pd(1)] pd0(1) Suc.prems(3,4) by simp
      then have "succeeds (markUp k m t1 p) (retagged m S t)"
        by (rule succeeds_mono) (rule retagged_trans [OF t1(2) other])
      with Some nd ptr False t1(1) show ?thesis by simp
    qed
  qed
qed simp

lemma unmarkUp_ok:
  assumes "ptree_ok t" "nodes t n = Some nd" "n < k" "owned_but {n} m S t" "tag_at m t n" "\<forall>st. nstate nd = Some st \<longrightarrow> st \<notin> S"
  shows "succeeds (unmarkUp k m t n) (retagged m S t)"
  using assms
proof (induction k arbitrary: t n nd)
  case (Suc k)
  note t = Suc.prems(1) and nd = Suc.prems(2)
  obtain ptr where ptr: "childPtr t n nd = Some ptr" "tag_at m t n = ours m ptr" by (rule childPtr_some [OF t nd])
  show ?case
  proof (cases "ours m (nleft nd) \<or> ours m (nright nd)")
    case True
    then have "kids nd \<noteq> {}" "\<exists>c\<in>kids nd. tag_at m t c" using wants_pointers [OF t nd] by auto
    then have "wants m S t nd" using ptree_invD(6) [OF t nd] by (simp add: wants_def)
    then have "tag_at m t k = wants m S t kd" if "nodes t k = Some kd" for k kd
      using that Suc.prems(4,5) nd by (cases "k = n") (auto simp: owned_but_def)
    then have "owned m S t" by (simp add: owned_but_def)
    with nd True show ?thesis by (auto simp: retagged_def same_shape_refl)
  next
    case False
    then have w: "\<not> wants m S t nd" using wants_pointers [OF t nd] Suc.prems(6) by (auto simp: wants_def split: option.split)
    have "(tag AND NOT m) AND m \<noteq> 0 \<longleftrightarrow> False" for tag by (simp add: and.assoc)
    from setChildTag_ok [where f = "\<lambda>tag. tag AND NOT m", OF t nd this] obtain t1 where t1: "setChildTag t n nd (\<lambda>tag. tag AND NOT m) = Some t1" "same_shape t t1"
      "tag_at m t1 = (tag_at m t)(n := False)" by (auto elim: succeedsE)
    have other: "\<forall>m'. m AND m' = 0 \<longrightarrow> tag_at m' t1 = tag_at m' t"
      using setChildTag_other [OF t nd t1(1)] and_not_other by blast
    note re = retag [OF t t1(2,3) nd Suc.prems(4)]
    have ok: "ptree_ok t1" by (rule same_shape_ok [OF t t1(2)])
    show ?thesis
    proof (cases "parent nd")
      case None
      with re(1) w nd ptr False t1 Suc.prems(5) other show ?thesis by (simp add: retagged_def)
    next
      case (Some p)
      from ptree_invD(3) [OF t nd Some] obtain pd0 where pd0: "p < n" "nodes t p = Some pd0" "n \<in> kids pd0" by auto
      then obtain pd where pd: "nodes t1 p = Some pd" "kids pd = kids pd0" "nstate pd = nstate pd0"
        using same_shapeD [OF same_shape_sym [OF t1(2)] pd0(2)] by metis
      have none: "nstate pd0 = None" using ptree_invD(6) [OF t pd0(2)] pd0(3) by auto
      have "tag_at m t p" using Suc.prems(4,5) pd0 none by (auto simp: owned_but_def wants_def)
      then have "tag_at m t1 p" using t1(3) pd0(1) by simp
      moreover have "owned_but {p} m S t1" using re(1) w Some by simp
      ultimately have "succeeds (unmarkUp k m t1 p) (retagged m S t1)" using Suc.IH [OF ok pd(1)] pd0(1) Suc.prems(3) none pd(3) by simp
      then have "succeeds (unmarkUp k m t1 p) (retagged m S t)"
        by (rule succeeds_mono) (rule retagged_trans [OF t1(2) other])
      with Some nd ptr False t1(1) Suc.prems(5) show ?thesis by simp
    qed
  qed
qed simp

subsection \<open>The searcher\<close>

text \<open>The states know their nodes.\<close>

definition tracks :: "(nat \<Rightarrow> nat option) \<Rightarrow> PTree \<Rightarrow> bool" where
  "tracks ptreeNode t \<longleftrightarrow> (\<forall>n st. state_at t n = Some st \<longrightarrow> ptreeNode st = Some n)"

lemma ran_state_at:
  assumes "st \<in> ran (state_at t)" "tracks ptreeNode t"
  obtains n nd where "ptreeNode st = Some n" "nodes t n = Some nd" "nstate nd = Some st"
  using assms by (auto simp: ran_def tracks_def state_at_def bind_eq_Some_conv)

lemma wants_other:
  assumes "tracks ptreeNode t" "nodes t k = Some kd" "ptreeNode st = Some n" "k \<noteq> n"
  shows "wants m (insert st S) t kd = wants m S t kd" "wants m (S - {st}) t kd = wants m S t kd"
proof -
  have "nstate kd \<noteq> Some st"
  proof
    assume "nstate kd = Some st"
    with assms(2) have "state_at t k = Some st" by (simp add: state_at_def)
    with assms(1,3,4) show False by (auto simp: tracks_def)
  qed
  then show "wants m (insert st S) t kd = wants m S t kd" "wants m (S - {st}) t kd = wants m S t kd"
    by (auto simp: wants_def split: option.split)
qed

lemma mark_ok:
  assumes t: "ptree_ok t" "tracks ptreeNode t" "owned m S t" "m \<noteq> 0" "st \<in> ran (state_at t)"
  shows "succeeds (ptreeNode st \<bind> (\<lambda>n. markUp (n + 1) m t n)) (retagged m (insert st S) t)"
proof -
  obtain n nd where n: "ptreeNode st = Some n" "nodes t n = Some nd" "nstate nd = Some st" by (rule ran_state_at [OF t(5,2)])
  have "owned_but {n} m (insert st S) t" using t(3) wants_other(1) [OF t(2) _ n(1)] by (simp add: owned_but_def)
  moreover have "wants m (insert st S) t nd" using n(3) by (simp add: wants_def)
  ultimately show ?thesis using markUp_ok [OF t(1) n(2) _ t(4), of "n + 1"] n(1) by (simp del: markUp.simps)
qed

lemma unmark_ok:
  assumes t: "ptree_ok t" "tracks ptreeNode t" "owned m S t" "st \<in> ran (state_at t)" "st \<in> S"
  shows "succeeds (ptreeNode st \<bind> (\<lambda>n. unmarkUp (n + 1) m t n)) (retagged m (S - {st}) t)"
proof -
  obtain n nd where n: "ptreeNode st = Some n" "nodes t n = Some nd" "nstate nd = Some st" by (rule ran_state_at [OF t(4,2)])
  have "owned_but {n} m (S - {st}) t" using t(3) wants_other(2) [OF t(2) _ n(1)] by (simp add: owned_but_def)
  moreover have "tag_at m t n" using t(3,5) n by (auto simp: owned_but_def wants_def)
  ultimately show ?thesis using unmarkUp_ok [OF t(1) n(2), of "n + 1"] n(1,3) by (simp del: unmarkUp.simps)
qed

lemma tracks_shape: "same_shape t t' \<Longrightarrow> tracks ptreeNode t \<Longrightarrow> tracks ptreeNode t'"
  by (simp add: tracks_def same_shape_state_at)

lemma forStates_ok:
  assumes "ptree_ok t" "tracks ptreeNode t" "owned m S t" "set ss \<subseteq> ran (state_at t)"
    and step: "\<And>t S st. ptree_ok t \<Longrightarrow> tracks ptreeNode t \<Longrightarrow> owned m S t \<Longrightarrow> st \<in> ran (state_at t) \<Longrightarrow> P S st \<Longrightarrow>
      succeeds (ptreeNode st \<bind> f t) (retagged m (g S st) t)"
    and P: "\<And>i. i < length ss \<Longrightarrow> P (foldl g S (take i ss)) (ss ! i)"
  shows "succeeds (forStates f ptreeNode ss t) (retagged m (foldl g S ss) t)"
  using assms(1-4) P
proof (induction ss arbitrary: t S)
  case Nil
  then show ?case by (simp add: retagged_def same_shape_refl)
next
  case (Cons st ss)
  have "P S st" using Cons.prems(5) [of 0] by simp
  with Cons.prems have "succeeds (ptreeNode st \<bind> f t) (retagged m (g S st) t)" by (intro step) simp_all
  then obtain n t1 where t1: "ptreeNode st = Some n" "f t n = Some t1" "retagged m (g S st) t t1"
    by (auto simp: succeeds_def bind_eq_Some_conv)
  then have sh: "same_shape t t1" "owned m (g S st) t1" "\<forall>m'. m AND m' = 0 \<longrightarrow> tag_at m' t1 = tag_at m' t" by (simp_all add: retagged_def)
  have "succeeds (forStates f ptreeNode ss t1) (retagged m (foldl g (g S st) ss) t1)"
  proof (rule Cons.IH)
    show "set ss \<subseteq> ran (state_at t1)" using Cons.prems(4) same_shape_state_at [OF sh(1)] by simp
    show "P (foldl g (g S st) (take i ss)) (ss ! i)" if "i < length ss" for i using Cons.prems(5) [of "Suc i"] that by simp
  qed (use sh same_shape_ok [OF Cons.prems(1)] tracks_shape Cons.prems(2) in auto)
  then have "succeeds (forStates f ptreeNode ss t1) (retagged m (foldl g S (st # ss)) t)"
    by (rule succeeds_mono) (use retagged_trans [OF sh(1,3)] in simp)
  with t1 show ?case by simp
qed

lemma foldl_insert: "foldl (\<lambda>S st. insert st S) S ss = S \<union> set ss"
  by (induction ss arbitrary: S) auto

lemma foldl_remove: "foldl (\<lambda>S st. S - {st}) S ss = S - set ss"
  by (induction ss arbitrary: S) auto

lemma update_ok:
  assumes t: "ptree_ok t" "tracks ptreeNode t" "owned m S t" "m \<noteq> 0"
    and added: "set added \<subseteq> ran (state_at t)" and gone: "set gone \<subseteq> S \<union> set added" "S \<subseteq> ran (state_at t)" "distinct gone"
  shows "succeeds (RandomPathSearcher_update m ptreeNode added gone t) (retagged m (S \<union> set added - set gone) t)"
proof -
  have "succeeds (forStates (\<lambda>t n. markUp (n + 1) m t n) ptreeNode added t) (retagged m (foldl (\<lambda>S st. insert st S) S added) t)"
    by (rule forStates_ok [where P = "\<lambda>S st. True", OF t(1-3) added]) (use t(4) mark_ok in simp_all)
  then obtain t1 where t1: "forStates (\<lambda>t n. markUp (n + 1) m t n) ptreeNode added t = Some t1" "same_shape t t1" "owned m (S \<union> set added) t1"
    "\<forall>m'. m AND m' = 0 \<longrightarrow> tag_at m' t1 = tag_at m' t" by (auto simp: retagged_def foldl_insert elim: succeedsE)
  have "succeeds (forStates (\<lambda>t n. unmarkUp (n + 1) m t n) ptreeNode gone t1)
    (retagged m (foldl (\<lambda>S st. S - {st}) (S \<union> set added) gone) t1)"
  proof (rule forStates_ok [where P = "\<lambda>S st. st \<in> S", OF _ _ t1(3)])
    show "set gone \<subseteq> ran (state_at t1)" using gone(1,2) added same_shape_state_at [OF t1(2)] by auto
    fix i assume i: "i < length gone"
    then have "gone ! i \<notin> set (take i gone)" using gone(3) by (auto simp: in_set_conv_nth distinct_conv_nth)
    with gone(1) i show "gone ! i \<in> foldl (\<lambda>S st. S - {st}) (S \<union> set added) (take i gone)"
      using subsetD [OF gone(1) nth_mem [OF i]] by (simp add: foldl_remove)
  qed (use same_shape_ok [OF t(1) t1(2)] tracks_shape [OF t1(2) t(2)] unmark_ok in simp_all)
  then have "succeeds (forStates (\<lambda>t n. unmarkUp (n + 1) m t n) ptreeNode gone t1) (retagged m (S \<union> set added - set gone) t)"
    by (rule succeeds_mono) (use retagged_trans [OF t1(2,4)] in \<open>simp add: foldl_remove\<close>)
  with t1(1) show ?thesis by (simp add: RandomPathSearcher_update_def)
qed

lemma root_node: "ptree_ok t \<Longrightarrow> nodes t n = Some nd \<Longrightarrow> \<exists>r rd. fst (root t) = Some r \<and> nodes t r = Some rd \<and> parent rd = None"
proof (induction n arbitrary: nd rule: less_induct)
  case (less n)
  then show ?case using ptree_invD(2,3) [OF less.prems] by (cases "parent nd") blast+
qed

lemma tagged_root:
  assumes t: "ptree_ok t" "owned m S t"
  shows "nodes t n = Some nd \<Longrightarrow> tag_at m t n \<Longrightarrow> \<exists>r rd. fst (root t) = Some r \<and> nodes t r = Some rd \<and> tag_at m t r \<and> ours m (root t)"
proof (induction n arbitrary: nd rule: less_induct)
  case (less n)
  show ?case
  proof (cases "parent nd")
    case None
    with less.prems ptree_invD(2) [OF t(1) less.prems(1)] show ?thesis by (auto simp: tag_at_simps(2))
  next
    case (Some p)
    from ptree_invD(3) [OF t(1) less.prems(1) Some] obtain pd where pd: "p < n" "nodes t p = Some pd" "n \<in> kids pd" by auto
    then have "nstate pd = None" using ptree_invD(6) [OF t(1) pd(2)] by auto
    with pd less.prems(2) have "wants m S t pd" by (auto simp: wants_def)
    with t(2) pd(2) have "tag_at m t p" by (simp add: owned_but_def)
    with less.IH pd show ?thesis by blast
  qed
qed

lemma walkDown_ok:
  assumes "ptree_ok t" "owned m S t" "nodes t n = Some nd" "tag_at m t n" "next_node t - n \<le> k" "rng_ok rng"
  shows "succeeds (walkDown k m t rng flips bits n) (\<lambda>(st, rng'). st \<in> S \<and> st \<in> ran (state_at t) \<and> rng_ok rng')"
  using assms(3-6)
proof (induction k arbitrary: n nd rng flips bits)
  case 0
  then show ?case using ptree_invD(1) [OF assms(1)] by fastforce
next
  case (Suc k)
  have w: "wants m S t nd" using assms(2) Suc.prems(1,2) by (simp add: owned_but_def)
  have down: "succeeds (fst ptr \<bind> walkDown k m t rng flips bits) (\<lambda>(st, rng'). st \<in> S \<and> st \<in> ran (state_at t) \<and> rng_ok rng')"
    if side: "ptr = nleft nd \<or> ptr = nright nd" "ours m ptr" "rng_ok rng" for ptr rng flips bits
  proof -
    obtain c where c: "fst ptr = Some c" "tag_at m t c" "c \<in> kids nd"
      using side(1,2) child_tag [OF assms(1) Suc.prems(1), of m] by (auto simp: kids_def)
    from ptree_invD(4) [OF assms(1) Suc.prems(1) c(3)] obtain cd where "nodes t c = Some cd" "n < c" by auto
    with Suc.IH [of c cd rng flips bits] c Suc.prems(3) side(3) show ?thesis by simp
  qed
  show ?case
  proof (cases "nstate nd")
    case (Some st)
    with w Suc.prems(1,4) show ?thesis by (auto simp: wants_def state_at_def ran_def intro!: exI [of _ n])
  next
    case None
    have some: "ours m (nleft nd) \<or> ours m (nright nd)" using w None wants_pointers [OF assms(1) Suc.prems(1)] by (simp add: wants_def)
    have self: "fst (nleft nd) \<noteq> Some n" "fst (nright nd) \<noteq> Some n" using ptree_invD(4) [OF assms(1) Suc.prems(1), of n] by (auto simp: kids_def)
    have pick: "succeeds (if bits = 0 then RNG_getInt32 rng \<bind> (\<lambda>(flips, rng). Some (flips, 32, rng)) else Some (flips, bits, rng))
      (\<lambda>(flips, bits, rng). rng_ok rng)"
      using RNG_getInt32_ok [OF Suc.prems(4)] Suc.prems(4) by (auto simp: succeeds_def)
    have both: "succeeds ((if bits = 0 then RNG_getInt32 rng \<bind> (\<lambda>(flips, rng). Some (flips, 32, rng)) else Some (flips, bits, rng)) \<bind>
           (\<lambda>(flips, bits, rng). let bits = bits - 1 in
             fst (if flips AND push_bit bits 1 \<noteq> 0 then nleft nd else nright nd) \<bind> walkDown k m t rng flips bits))
        (\<lambda>(st, rng'). st \<in> S \<and> st \<in> ran (state_at t) \<and> rng_ok rng')" if "ours m (nleft nd)" "ours m (nright nd)"
      by (rule succeeds_bind [OF pick]) (use that down [of "nleft nd"] down [of "nright nd"] in \<open>auto simp: Let_def\<close>)
    show ?thesis using Suc.prems(1,4) None some self both down [of "nleft nd"] down [of "nright nd"] by auto
  qed
qed

lemma select_ok:
  assumes t: "ptree_ok t" "owned m S t" and S: "S \<noteq> {}" "S \<subseteq> ran (state_at t)" and rng: "rng_ok rng"
  shows "succeeds (RandomPathSearcher_selectState m t rng) (\<lambda>(st, rng'). st \<in> S \<and> rng_ok rng')"
proof -
  from S obtain st where "st \<in> S" "st \<in> ran (state_at t)" by blast
  then obtain n where st: "st \<in> S" "state_at t n = Some st" by (auto simp: ran_def)
  then obtain nd where nd: "nodes t n = Some nd" "nstate nd = Some st" by (auto simp: state_at_def bind_eq_Some_conv)
  with t(2) st(1) have "tag_at m t n" by (auto simp: owned_but_def wants_def)
  from tagged_root [OF t nd(1) this] obtain r rd where r: "fst (root t) = Some r" "nodes t r = Some rd" "tag_at m t r" "snd (root t) AND m \<noteq> 0"
    by (auto simp: ours_def)
  from walkDown_ok [OF t r(2,3) _ rng, of "next_node t" 0 0] r(1,4) show ?thesis
    by (auto simp: RandomPathSearcher_selectState_def elim: succeeds_mono)
qed

lemma empty_ok:
  assumes t: "ptree_ok t" "owned m S t" and S: "S \<subseteq> ran (state_at t)" and some: "nodes t k = Some kd"
  shows "RandomPathSearcher_empty m t \<longleftrightarrow> S = {}"
proof
  show "S = {}" if "RandomPathSearcher_empty m t"
  proof (rule ccontr)
    assume "S \<noteq> {}"
    with S obtain st where "st \<in> S" "st \<in> ran (state_at t)" by blast
    then obtain n where st: "st \<in> S" "state_at t n = Some st" by (auto simp: ran_def)
    then obtain nd where nd: "nodes t n = Some nd" "nstate nd = Some st" by (auto simp: state_at_def bind_eq_Some_conv)
    with t(2) st(1) have "tag_at m t n" by (auto simp: owned_but_def wants_def)
    from tagged_root [OF t nd(1) this] that show False by (auto simp: RandomPathSearcher_empty_def)
  qed
  assume "S = {}"
  then have none: "\<not> tag_at m t n" if "nodes t n = Some nd" for n nd
    using that
  proof (induction "next_node t - n" arbitrary: n nd rule: less_induct)
    case less
    have "\<not> tag_at m t c" if "c \<in> kids nd" for c
    proof -
      from ptree_invD(4) [OF t(1) less.prems(2) that] obtain cd where cd: "n < c" "nodes t c = Some cd" by auto
      with ptree_invD(1) [OF t(1) less.prems(2)] have "next_node t - c < next_node t - n" by linarith
      from less.hyps [OF this less.prems(1) cd(2)] show ?thesis .
    qed
    with t(2) less.prems show ?case by (auto simp: owned_but_def wants_def split: option.split_asm)
  qed
  obtain r rd where "nodes t r = Some rd" "parent rd = None" using root_node [OF t(1) some] by auto
  with none [of r rd] show "RandomPathSearcher_empty m t" by (simp add: RandomPathSearcher_empty_def tag_at_simps(2))
qed

subsection \<open>Growing and shrinking the tree\<close>

lemma attach_owned:
  assumes t: "ptree_ok t" and own: "owned m S t" and st: "state_at t node = Some r" and l: "l \<notin> S"
    and run: "PTree_attach t node l r (Some node) = Some (ln, rn, t')"
  shows "owned m S t'"
proof -
  from st obtain nd where nd: "nodes t node = Some nd" "nstate nd = Some r" by (auto simp: state_at_def bind_eq_Some_conv)
  have kids: "fst (nleft nd) = None" "fst (nright nd) = None" using ptree_invD(6) [OF t nd(1)] nd(2) by (auto simp: kids_def)
  obtain ptr where ptr: "childPtr t node nd = Some ptr" "tag_at m t node = ours m ptr" by (rule childPtr_some [OF t nd(1)])
  let ?nd = "nd\<lparr>nstate := None, nleft := (Some ln, 0), nright := (Some rn, snd ptr)\<rparr>"
  have new: "ln = next_node t" "rn = Suc ln"
    "t' = t\<lparr>nodes := (nodes t)(node \<mapsto> ?nd, ln \<mapsto> PTreeNode_new (Some node) l, rn \<mapsto> PTreeNode_new (Some node) r), next_node := Suc rn\<rparr>"
    using run nd kids ptr by (auto simp: PTree_attach_def Let_def)
  have less: "nodes t k = Some kd \<Longrightarrow> k < ln" for k kd using ptree_invD(1) [OF t] new(1) by blast
  have lt: "node < ln" "nodes t' node = Some ?nd" "nodes t' ln = Some (PTreeNode_new (Some node) l)" "nodes t' rn = Some (PTreeNode_new (Some node) r)"
    using less [OF nd(1)] new by auto
  have tag_l: "\<not> tag_at m t' ln" and tag_r: "tag_at m t' rn \<longleftrightarrow> snd ptr AND m \<noteq> 0"
    using lt new(2) tag_at_simps(3) [OF lt(3) _ lt(2), of m] tag_at_simps(3) [OF lt(4) _ lt(2), of m] by (auto simp: PTreeNode_new_def ours_def)
  have old: "tag_at m t' k = tag_at m t k" if k: "nodes t k = Some kd" for k kd
  proof (cases "parent kd")
    case None
    moreover obtain kd' where "nodes t' k = Some kd'" "parent kd' = parent kd" using k nd(1) new less [OF k] by (cases "k = node") auto
    ultimately show ?thesis using k new(3) by (auto simp: tag_at_simps(2))
  next
    case (Some p)
    from ptree_invD(3) [OF t k Some] obtain pd where pd: "nodes t p = Some pd" "k \<in> kids pd" by auto
    have "p \<noteq> node" using pd nd(1) kids by (auto simp: kids_def)
    moreover obtain kd' where "nodes t' k = Some kd'" "parent kd' = parent kd" using k nd(1) new less [OF k] by (cases "k = node") auto
    ultimately show ?thesis using k Some pd new less [OF pd(1)] by (simp add: tag_at_simps(3))
  qed
  have ptr': "fst ptr \<noteq> None"
    using ptr(1) ptree_invD(2,3) [OF t nd(1)] by (cases "parent nd") (auto simp: childPtr_def kids_def)
  have "tag_at m t' k = wants m S t' kd" if kd: "nodes t' k = Some kd" for k kd
  proof -
    consider "k = node" | "k = ln" | "k = rn" | "k \<noteq> node" "nodes t k = Some kd" using kd new by (auto split: if_splits)
    then show ?thesis
    proof cases
      case 1
      with kd lt(2) have "kd = ?nd" by simp
      with 1 old [OF nd(1)] ptr(2) ptr' tag_l tag_r show ?thesis by (auto simp: wants_def kids_def ours_def)
    next
      case 2
      with kd lt(3) tag_l l show ?thesis by (auto simp: wants_def PTreeNode_new_def)
    next
      case 3
      have "tag_at m t node \<longleftrightarrow> r \<in> S" using own nd by (auto simp: owned_but_def wants_def)
      with 3 kd lt(4) tag_r ptr(2) ptr' show ?thesis by (auto simp: wants_def PTreeNode_new_def ours_def)
    next
      case 4
      have "tag_at m t' c = tag_at m t c" if "c \<in> kids kd" for c using ptree_invD(4) [OF t 4(2) that] old by blast
      then have "wants m S t' kd = wants m S t kd" by (auto simp: wants_def split: option.split)
      with 4 old own show ?thesis by (auto simp: owned_but_def)
    qed
  qed
  then show ?thesis by (simp add: owned_but_def)
qed

lemma cut_owned:
  assumes t: "ptree_inv {n} t" "owned m S t" "\<not> tag_at m t n" and nd: "nodes t n = Some nd" "parent nd = Some p"
    and pd: "nodes t p = Some pd" "cut pd n = Some pd'" "kids pd' = kids pd - {n}"
  shows "owned m S (t\<lparr>nodes := (nodes t)(p \<mapsto> pd', n := None)\<rparr>)" (is "owned m S ?t")
    "nstate pd = None \<Longrightarrow> kids pd' = {} \<Longrightarrow> \<not> tag_at m (t\<lparr>nodes := (nodes t)(p \<mapsto> pd', n := None)\<rparr>) p"
proof -
  have pn: "p < n" "n \<in> kids pd" using ptree_invD(3) [OF t(1) nd] pd(1) by auto
  have pd': "parent pd' = parent pd" "nstate pd' = nstate pd" using pd(2) by (auto simp: cut_def split: if_splits)
  have ptr: "(if fst (nleft pd') = Some k then nleft pd' else nright pd') = (if fst (nleft pd) = Some k then nleft pd else nright pd)"
    if "k \<in> kids pd" "k \<noteq> n" for k using that pd(2) by (auto simp: cut_def kids_def split: if_splits)
  have tag: "tag_at m ?t k = tag_at m t k" if k: "nodes t k = Some kd" "k \<noteq> n" for k kd
  proof -
    obtain kd' where kd': "nodes ?t k = Some kd'" "parent kd' = parent kd" using k pd(1) pd'(1) by (cases "k = p") auto
    show ?thesis
    proof (cases "parent kd")
      case None
      with k(1) kd' show ?thesis by (simp add: tag_at_simps(2))
    next
      case (Some q)
      from ptree_invD(3) [OF t(1) k(1) Some] obtain qd where qd: "nodes t q = Some qd" "k \<in> kids qd" by auto
      have "q \<noteq> n" using qd nd(1) ptree_invD(7) [OF t(1) nd(1)] by auto
      show ?thesis
      proof (cases "q = p")
        case True
        have "nodes ?t p = Some pd'" using pn(1) by simp
        with True qd pd(1) kd' Some k ptr [of k] tag_at_simps(3) [OF kd'(1), of p pd' m] tag_at_simps(3) [OF k(1), of p pd m] show ?thesis by simp
      next
        case False
        with \<open>q \<noteq> n\<close> qd have "nodes ?t q = Some qd" by simp
        with qd kd' Some k show ?thesis by (simp add: tag_at_simps(3))
      qed
    qed
  qed
  have w: "tag_at m ?t k = wants m S ?t kd" if kd: "nodes ?t k = Some kd" for k kd
  proof -
    have kn: "k \<noteq> n" using kd by auto
    obtain kd0 where kd0: "nodes t k = Some kd0" "nstate kd = nstate kd0" "kids kd = kids kd0 - {n}"
    proof (cases "k = p")
      case False
      have "n \<notin> kids kd" if "nodes t k = Some kd" using ptree_invD(4) [OF t(1) that, of n] nd False by auto
      with kd kn False that show ?thesis by auto
    qed (use kd kn pd pd' that in auto)
    have "tag_at m ?t c = tag_at m t c" if "c \<in> kids kd" for c
      using ptree_invD(4) [OF t(1) kd0(1), of c] that kd0(3) tag by auto
    then have "wants m S ?t kd = wants m S t kd0" using kd0(2,3) t(3) by (auto simp: wants_def split: option.split)
    with t(2) kd0(1) tag [OF kd0(1) kn] show ?thesis by (simp add: owned_but_def)
  qed
  then show "owned m S ?t" by (simp add: owned_but_def)
  assume "nstate pd = None" "kids pd' = {}"
  moreover have "nodes ?t p = Some pd'" using pn(1) by simp
  ultimately show "\<not> tag_at m ?t p" using w [of p pd'] pd'(2) by (simp add: wants_def)
qed

lemma only_root:
  assumes "ptree_inv X t" "nodes t n = Some nd" "parent nd = None" "kids nd = {}"
  shows "nodes t k = Some kd \<Longrightarrow> k = n"
proof (induction k arbitrary: kd rule: less_induct)
  case (less k)
  show ?case
  proof (cases "parent kd")
    case None
    with ptree_invD(2) [OF assms(1) less.prems] ptree_invD(2) [OF assms(1,2)] assms(3) show ?thesis by simp
  next
    case (Some p)
    from ptree_invD(3) [OF assms(1) less.prems Some] obtain pd where "p < k" "nodes t p = Some pd" "k \<in> kids pd" by auto
    with less.IH assms(2,4) show ?thesis by fastforce
  qed
qed

lemma removeUp_owned:
  assumes "ptree_inv {n} t" "nodes t n = Some nd" "owned m S t" "\<not> tag_at m t n" "removeUp k t n = Some (stop, t')"
  shows "owned m S t'"
  using assms
proof (induction k arbitrary: t n nd)
  case (Suc k)
  note t = Suc.prems(1) and nd = Suc.prems(2)
  show ?case
  proof (cases "parent nd")
    case None
    then have "t' = t\<lparr>nodes := (nodes t)(n := None)\<rparr>" using Suc.prems(5) nd by simp
    with only_root [OF t nd None ptree_invD(7) [OF t nd]] show ?thesis by (auto simp: owned_but_def split: if_splits)
  next
    case (Some p)
    then obtain pd where pd: "p < n" "nodes t p = Some pd" "n \<in> kids pd" using ptree_invD(3) [OF t nd] by auto
    obtain pd' where pd': "cut pd n = Some pd'" "kids pd' = kids pd - {n}" "parent pd' = parent pd" "nstate pd' = nstate pd"
      "fst (nleft pd') = None \<or> fst (nright pd') = None" by (rule cut_kids [OF t pd(2,3)])
    let ?t = "t\<lparr>nodes := (nodes t)(p \<mapsto> pd', n := None)\<rparr>"
    have none: "nstate pd = None" using ptree_invD(6) [OF t pd(2)] pd by auto
    note own = cut_owned [OF t Suc.prems(3,4) nd Some pd(2) pd'(1,2)]
    show ?thesis
    proof (cases "kids pd' = {}")
      case True
      have "ptree_inv {p} ?t" using cut_inv [OF t nd Some pd(2) pd'(2-5)] True by simp
      moreover have "removeUp k ?t p = Some (stop, t')" using Suc.prems(5) True [unfolded kids_empty] nd Some pd(2) pd'(1) by simp
      ultimately show ?thesis using Suc.IH [of p ?t pd'] own none True pd(1) by simp
    next
      case False
      then have "t' = ?t" using Suc.prems(5) nd Some pd(2) pd'(1) by (auto simp: kids_empty)
      with own show ?thesis by simp
    qed
  qed
qed simp

lemma compress_owned:
  assumes t: "ptree_ok t" and own: "owned m S t" and nd: "nodes t n = Some nd" "fst (nleft nd) = None \<longleftrightarrow> fst (nright nd) \<noteq> None"
    and run': "compress t n = Some t'"
  shows "owned m S t'"
proof -
  obtain child c cd where child: "child = (if fst (nleft nd) \<noteq> None then nleft nd else nright nd)"
    and c: "fst child = Some c" "kids nd = {c}" "nodes t c = Some cd" "parent cd = Some n" "n < c"
    and run: "compress t n = Some (case parent nd of None \<Rightarrow> t\<lparr>root := child, nodes := (nodes t)(c \<mapsto> cd\<lparr>parent := None\<rparr>, n := None)\<rparr>
       | Some p \<Rightarrow> t\<lparr>nodes := (nodes t)(c \<mapsto> cd\<lparr>parent := Some p\<rparr>, p \<mapsto> relink (the (nodes t p)) n child, n := None)\<rparr>)"
    by (rule compress_eq [OF t nd])
  have st: "nstate nd = None" using ptree_invD(6) [OF t nd(1)] c(2) by simp
  have tag_c: "tag_at m t c = ours m child" using tag_at_simps(3) [OF c(3,4) nd(1)] child c(1) by auto
  have tag_n: "tag_at m t n = tag_at m t c" using own nd(1) st c(2) by (simp add: owned_but_def wants_def)
  have kd0: "\<exists>kd'. nodes t' k = Some kd' \<and> nstate kd' = nstate kd \<and> (k \<noteq> c \<longrightarrow> parent kd' = parent kd)
      \<and> (parent nd \<noteq> Some k \<longrightarrow> nleft kd' = nleft kd \<and> nright kd' = nright kd)
      \<and> (parent nd = Some k \<longrightarrow> kd' = relink kd n child)" if k: "nodes t k = Some kd" "k \<noteq> n" for k kd
    using run run' c(3,5) k nd(1) ptree_invD(3) [OF t nd(1)] by (cases "parent nd"; cases "k = c") (auto simp: relink_def)
  have pd: "n \<in> kids pd" "c \<notin> kids pd" "p < n" if "parent nd = Some p" "nodes t p = Some pd" for p pd
    using ptree_invD(3) [OF t nd(1) that(1)] that(2) ptree_invD(4) [OF t that(2), of c] c(3,4) by auto
  have tag: "tag_at m t' k = tag_at m t k" if k: "nodes t k = Some kd" "k \<noteq> n" for k kd
  proof (cases "k = c")
    case True
    show ?thesis
    proof (cases "parent nd")
      case None
      with run run' True tag_c c(5) show ?thesis by (simp add: tag_at_simps(2))
    next
      case (Some p)
      from ptree_invD(3) [OF t nd(1) Some] obtain qd where qd: "nodes t p = Some qd" "p < n" by auto
      then have "nodes t' c = Some (cd\<lparr>parent := Some p\<rparr>)" "nodes t' p = Some (relink qd n child)" using run run' Some c(5) by auto
      from tag_at_simps(3) [OF this(1) _ this(2), of m] True tag_c c(1) pd [OF Some qd(1)] show ?thesis
        by (auto simp: relink_def kids_def split: if_splits)
    qed
  next
    case False
    obtain kd' where kd': "nodes t' k = Some kd'" "parent kd' = parent kd" using kd0 [OF k] False by auto
    show ?thesis
    proof (cases "parent kd")
      case None
      then have "parent nd \<noteq> None" using ptree_invD(2) [OF t k(1)] ptree_invD(2) [OF t nd(1)] k(2) by auto
      with None kd' k(1) run run' show ?thesis by (auto simp: tag_at_simps(2))
    next
      case (Some q)
      from ptree_invD(3) [OF t k(1) Some] obtain qd where qd: "nodes t q = Some qd" "k \<in> kids qd" by auto
      have "q \<noteq> n"
      proof
        assume "q = n"
        with qd(1) nd(1) have "qd = nd" by simp
        with qd(2) c(2) False show False by simp
      qed
      from kd0 [OF qd(1) this] obtain qd' where qd': "nodes t' q = Some qd'"
        "parent nd \<noteq> Some q \<longrightarrow> nleft qd' = nleft qd \<and> nright qd' = nright qd" "parent nd = Some q \<longrightarrow> qd' = relink qd n child" by blast
      have "(if fst (nleft qd') = Some k then nleft qd' else nright qd') = (if fst (nleft qd) = Some k then nleft qd else nright qd)"
        using qd' pd [of q qd] qd k(2) False c(1) by (cases "parent nd = Some q") (auto simp: relink_def kids_def)
      with tag_at_simps(3) [OF kd'(1) _ qd'(1), of m] tag_at_simps(3) [OF k(1) Some qd(1), of m] kd'(2) Some show ?thesis by simp
    qed
  qed
  show ?thesis unfolding owned_but_def
  proof (intro allI impI)
    fix k kd' assume kd': "nodes t' k = Some kd'"
    have k: "k \<noteq> n" using kd' run run' by (cases "parent nd") auto
    have "nodes t k \<noteq> None" using kd' run run' c(3) ptree_invD(3) [OF t nd(1)] by (cases "parent nd") (auto split: if_splits)
    then obtain kd where kd: "nodes t k = Some kd" by blast
    have tags: "tag_at m t' j = tag_at m t j" if "j \<in> kids kd" "j \<noteq> n" for j
      using ptree_invD(4) [OF t kd that(1)] tag that(2) by blast
    have "wants m S t' kd' = wants m S t kd"
    proof (cases "parent nd = Some k")
      case True
      have "kids kd' = kids kd - {n} \<union> {c}" "nstate kd' = nstate kd"
        using relink_kids(1) [OF t kd pd(1) [OF True kd] c(1) pd(2) [OF True kd]] kd0 [OF kd k] True kd' by auto
      with tags tag [OF c(3)] tag_n c(5) pd(1) [OF True kd] show ?thesis by (auto simp: wants_def split: option.split)
    next
      case False
      then have "n \<notin> kids kd" using ptree_invD(4) [OF t kd, of n] nd(1) by auto
      moreover have "kids kd' = kids kd" "nstate kd' = nstate kd" using kd0 [OF kd k] False kd' by (auto simp: kids_def)
      ultimately show ?thesis using tags by (auto simp: wants_def split: option.split)
    qed
    with own kd tag [OF kd k] show "tag_at m t' k = wants m S t' kd'" by (simp add: owned_but_def)
  qed
qed

lemma remove_owned:
  assumes t: "ptree_ok t" and own: "owned m S t" and st: "state_at t n = Some st" "st \<notin> S"
    and run: "PTree_remove cp t n = Some t'"
  shows "owned m S t'"
proof -
  from st obtain nd where nd: "nodes t n = Some nd" "nstate nd = Some st" by (auto simp: state_at_def bind_eq_Some_conv)
  have kids: "kids nd = {}" using ptree_invD(6) [OF t nd(1)] nd(2) by auto
  with t nd(1) have inv: "ptree_inv {n} t" by (auto simp: ptree_inv_def node_ok_def)
  have no: "\<not> tag_at m t n" using own nd st(2) by (auto simp: owned_but_def wants_def)
  from removeUp_ok [OF inv nd(1), of "n + 1"] obtain stop t1 where r: "removeUp (n + 1) t n = Some (stop, t1)" "removal t n (stop, t1)"
    by (auto elim: succeedsE)
  have own1: "owned m S t1" by (rule removeUp_owned [OF inv nd(1) own no r(1)])
  show ?thesis
  proof (cases "cp \<and> stop \<noteq> None")
    case True
    then obtain j jd where j: "stop = Some j" "nodes t1 j = Some jd" "fst (nleft jd) = None \<longleftrightarrow> fst (nright jd) \<noteq> None" "ptree_ok t1"
      using r(2) by (auto simp: removal_def)
    then have "compress t1 j = Some t'" using run True nd(1) kids r(1) by (simp add: PTree_remove_def kids_empty)
    from compress_owned [OF j(4) own1 j(2,3) this] show ?thesis .
  next
    case False
    with run nd(1) kids r(1) own1 show ?thesis by (cases stop) (auto simp: PTree_remove_def kids_empty)
  qed
qed

end
