(* ===== verification/Searcher.thy ===== *)
theory Searcher
  imports RandomPathSearcher
begin

text \<open>
  The searchers of \<^verbatim>\<open>lib/Core/Searcher.cpp\<close>, which choose the state to execute next. A searcher is a record of
  its virtual functions on its own data and on what it shares with the engine: the random numbers,
  the process tree with the nodes of the states, the time and the number of instructions. \<open>None\<close> is a
  failed assertion or undefined behaviour (the last element of an empty vector, the erasure of the
  end). \<open>WeightedRandomSearcher\<close>, whose weights are floating point numbers, and \<open>MergingSearcher\<close> are not modelled.
\<close>

section \<open>The interface\<close>

record engine =
  theRNG :: RNG
  processTree :: PTree
  ptreeNode_of :: "nat \<Rightarrow> nat option"
  wallTime :: nat
  instructions :: nat

record 'c Searcher =
  selectState :: "engine \<Rightarrow> 'c \<Rightarrow> (nat \<times> 'c \<times> engine) option"
  update :: "nat option \<Rightarrow> nat list \<Rightarrow> nat list \<Rightarrow> engine \<Rightarrow> 'c \<Rightarrow> ('c \<times> engine) option"
  isEmpty :: "engine \<Rightarrow> 'c \<Rightarrow> bool"

section \<open>Searchers on vectors of states\<close>

text \<open>\<open>states.erase(std::find(states.begin(), states.end(), state))\<close>\<close>

definition eraseState :: "nat \<Rightarrow> nat list \<Rightarrow> nat list option" where
  "eraseState st xs = (if st \<in> set xs then Some (remove1 st xs) else None)"

fun eraseAll :: "(nat \<Rightarrow> nat list \<Rightarrow> nat list option) \<Rightarrow> nat list \<Rightarrow> nat list \<Rightarrow> nat list option" where
  "eraseAll f [] xs = Some xs"
| "eraseAll f (st # ss) xs = f st xs \<bind> eraseAll f ss"

definition DFSSearcher_erase :: "nat \<Rightarrow> nat list \<Rightarrow> nat list option" where
  "DFSSearcher_erase st xs = (if xs = [] then None else if st = last xs then Some (butlast xs) else eraseState st xs)"

definition DFSSearcher :: "nat list Searcher" where
  "DFSSearcher =
     \<lparr>selectState = (\<lambda>g xs. if xs = [] then None else Some (last xs, xs, g)),
      update = (\<lambda>current added removed g xs. eraseAll DFSSearcher_erase removed (xs @ added) \<bind> (\<lambda>xs. Some (xs, g))),
      isEmpty = (\<lambda>g xs. xs = [])\<rparr>"

definition BFSSearcher_erase :: "nat \<Rightarrow> nat list \<Rightarrow> nat list option" where
  "BFSSearcher_erase st xs = (if xs = [] then None else if st = hd xs then Some (tl xs) else eraseState st xs)"

definition BFSSearcher :: "nat list Searcher" where
  "BFSSearcher =
     \<lparr>selectState = (\<lambda>g xs. if xs = [] then None else Some (hd xs, xs, g)),
      update = (\<lambda>current added removed g xs.
        (case current of
           Some c \<Rightarrow> if added \<noteq> [] \<and> c \<notin> set removed then eraseState c xs \<bind> (\<lambda>xs. Some (xs @ [c])) else Some xs
         | None \<Rightarrow> Some xs) \<bind> (\<lambda>xs.
        eraseAll BFSSearcher_erase removed (xs @ added) \<bind> (\<lambda>xs. Some (xs, g)))),
      isEmpty = (\<lambda>g xs. xs = [])\<rparr>"

definition RandomSearcher :: "nat list Searcher" where
  "RandomSearcher =
     \<lparr>selectState = (\<lambda>g xs. if xs = [] then None
        else RNG_getInt32 (theRNG g) \<bind> (\<lambda>(y, rng). Some (xs ! (unat y mod length xs), xs, g\<lparr>theRNG := rng\<rparr>))),
      update = (\<lambda>current added removed g xs. eraseAll eraseState removed (xs @ added) \<bind> (\<lambda>xs. Some (xs, g))),
      isEmpty = (\<lambda>g xs. xs = [])\<rparr>"

text \<open>The searcher on the process tree has no data but its mask.\<close>

definition RandomPathSearcher :: "8 word Searcher" where
  "RandomPathSearcher =
     \<lparr>selectState = (\<lambda>g m. RandomPathSearcher_selectState m (processTree g) (theRNG g) \<bind> (\<lambda>(st, rng). Some (st, m, g\<lparr>theRNG := rng\<rparr>))),
      update = (\<lambda>current added removed g m.
        RandomPathSearcher_update m (ptreeNode_of g) added removed (processTree g) \<bind> (\<lambda>t. Some (m, g\<lparr>processTree := t\<rparr>))),
      isEmpty = (\<lambda>g m. RandomPathSearcher_empty m (processTree g))\<rparr>"

section \<open>The searchers behind one interface\<close>

datatype CoreSearchType = DFS | BFS | RandomState | RandomPath

datatype core = CoreDFS "nat list" | CoreBFS "nat list" | CoreRandom "nat list" | CorePath "8 word"

definition getNewSearcher :: "CoreSearchType \<Rightarrow> engine \<Rightarrow> (core \<times> engine) option" where
  "getNewSearcher ty g = (case ty of
     DFS \<Rightarrow> Some (CoreDFS [], g)
   | BFS \<Rightarrow> Some (CoreBFS [], g)
   | RandomState \<Rightarrow> Some (CoreRandom [], g)
   | RandomPath \<Rightarrow> getNextId (processTree g) \<bind> (\<lambda>(m, t). Some (CorePath m, g\<lparr>processTree := t\<rparr>)))"

text \<open>The dispatch of a virtual function.\<close>

definition dispatch :: "(nat list Searcher \<Rightarrow> (nat list \<Rightarrow> core) \<Rightarrow> nat list \<Rightarrow> 'r) \<Rightarrow> (8 word Searcher \<Rightarrow> (8 word \<Rightarrow> core) \<Rightarrow> 8 word \<Rightarrow> 'r) \<Rightarrow> core \<Rightarrow> 'r" where
  "dispatch f h c = (case c of
     CoreDFS xs \<Rightarrow> f DFSSearcher CoreDFS xs
   | CoreBFS xs \<Rightarrow> f BFSSearcher CoreBFS xs
   | CoreRandom xs \<Rightarrow> f RandomSearcher CoreRandom xs
   | CorePath m \<Rightarrow> h RandomPathSearcher CorePath m)"

definition CoreSearcher :: "core Searcher" where
  "CoreSearcher =
     \<lparr>selectState = (\<lambda>g. dispatch (\<lambda>s mk d. map_option (map_prod id (map_prod mk id)) (selectState s g d))
                              (\<lambda>s mk d. map_option (map_prod id (map_prod mk id)) (selectState s g d))),
      update = (\<lambda>current added removed g. dispatch (\<lambda>s mk d. map_option (map_prod mk id) (update s current added removed g d))
                              (\<lambda>s mk d. map_option (map_prod mk id) (update s current added removed g d))),
      isEmpty = (\<lambda>g. dispatch (\<lambda>s mk d. isEmpty s g d) (\<lambda>s mk d. isEmpty s g d))\<rparr>"

section \<open>Searchers on searchers\<close>

text \<open>The fields of the interleaved searcher are its searchers and \<open>index\<close>.\<close>

fun updateAll :: "'c Searcher \<Rightarrow> nat option \<Rightarrow> nat list \<Rightarrow> nat list \<Rightarrow> engine \<Rightarrow> 'c list \<Rightarrow> ('c list \<times> engine) option" where
  "updateAll s current added removed g [] = Some ([], g)"
| "updateAll s current added removed g (c # cs) =
     update s current added removed g c \<bind> (\<lambda>(c, g). updateAll s current added removed g cs \<bind> (\<lambda>(cs, g). Some (c # cs, g)))"

definition InterleavedSearcher :: "'c Searcher \<Rightarrow> ('c list \<times> nat) Searcher" where
  "InterleavedSearcher s =
     \<lparr>selectState = (\<lambda>g (cs, index).
        if index = 0 \<or> index > length cs then None
        else let index = index - 1 in
          selectState s g (cs ! index) \<bind> (\<lambda>(st, c, g).
          Some (st, (cs[index := c], if index = 0 then length cs else index), g))),
      update = (\<lambda>current added removed g (cs, index).
        updateAll s current added removed g cs \<bind> (\<lambda>(cs, g). Some ((cs, index), g))),
      isEmpty = (\<lambda>g (cs, index). isEmpty s g (hd cs))\<rparr>"

record 'c BatchingSearcher =
  b_base :: 'c
  timeBudget :: nat
  instructionBudget :: nat
  lastState :: "nat option"
  lastStartTime :: nat
  lastStartInstructions :: nat

text \<open>Times are numbers of microseconds; \<open>t *= 1.1\<close> is exact here.\<close>

definition BatchingSearcher :: "'c Searcher \<Rightarrow> 'c BatchingSearcher Searcher" where
  "BatchingSearcher s =
     \<lparr>selectState = (\<lambda>g b.
        let delta = wallTime g - lastStartTime b in
        case lastState b of
          Some st \<Rightarrow>
            if timeBudget b > 0 \<and> delta > timeBudget b
               \<or> instructionBudget b > 0 \<and> (instructions g + 2 ^ 64 - lastStartInstructions b) mod 2 ^ 64 > instructionBudget b
            then let b = (if 10 * delta > 11 * timeBudget b then b\<lparr>timeBudget := delta\<rparr> else b) in
              selectState s g (b_base b) \<bind> (\<lambda>(st, c, g).
              Some (st, b\<lparr>b_base := c, lastState := Some st, lastStartTime := wallTime g, lastStartInstructions := instructions g mod 2 ^ 32\<rparr>, g))
            else Some (st, b, g)
        | None \<Rightarrow>
            selectState s g (b_base b) \<bind> (\<lambda>(st, c, g).
            Some (st, b\<lparr>b_base := c, lastState := Some st, lastStartTime := wallTime g, lastStartInstructions := instructions g mod 2 ^ 32\<rparr>, g))),
      update = (\<lambda>current added removed g b.
        let b = (if lastState b \<noteq> None \<and> the (lastState b) \<in> set removed then b\<lparr>lastState := None\<rparr> else b) in
        update s current added removed g (b_base b) \<bind> (\<lambda>(c, g). Some (b\<lparr>b_base := c\<rparr>, g))),
      isEmpty = (\<lambda>g b. isEmpty s g (b_base b))\<rparr>"

record 'c DeepeningSearcher =
  d_base :: 'c
  startTime :: nat
  d_time :: nat
  pausedStates :: "nat set"

definition IterativeDeepeningTimeSearcher :: "'c Searcher \<Rightarrow> 'c DeepeningSearcher Searcher" where
  "IterativeDeepeningTimeSearcher s =
     \<lparr>selectState = (\<lambda>g d. selectState s g (d_base d) \<bind> (\<lambda>(st, c, g). Some (st, d\<lparr>d_base := c, startTime := wallTime g\<rparr>, g))),
      update = (\<lambda>current added removed g d.
        let elapsed = wallTime g - startTime d;
            alt = filter (\<lambda>st. st \<notin> pausedStates d) removed;
            d = d\<lparr>pausedStates := pausedStates d - set removed\<rparr>
        in update s current added alt g (d_base d) \<bind> (\<lambda>(c, g).
        (case current of
           Some cur \<Rightarrow>
             if cur \<notin> set removed \<and> elapsed > d_time d
             then update s None [] [cur] g c \<bind> (\<lambda>(c, g). Some (d\<lparr>d_base := c, pausedStates := insert cur (pausedStates d)\<rparr>, g))
             else Some (d\<lparr>d_base := c\<rparr>, g)
         | None \<Rightarrow> Some (d\<lparr>d_base := c\<rparr>, g)) \<bind> (\<lambda>(d, g).
        if isEmpty s g (d_base d)
        then update s None (sorted_list_of_set (pausedStates d)) [] g (d_base d) \<bind> (\<lambda>(c, g).
          Some (d\<lparr>d_base := c, d_time := 2 * d_time d, pausedStates := {}\<rparr>, g))
        else Some (d, g)))),
      isEmpty = (\<lambda>g d. isEmpty s g (d_base d) \<and> pausedStates d = {})\<rparr>"

text \<open>A searcher that is an object of one of two classes.\<close>

definition EitherSearcher :: "'a Searcher \<Rightarrow> 'b Searcher \<Rightarrow> ('a + 'b) Searcher" where
  "EitherSearcher s1 s2 =
     \<lparr>selectState = (\<lambda>g. case_sum (\<lambda>c. map_option (map_prod id (map_prod Inl id)) (selectState s1 g c))
                              (\<lambda>c. map_option (map_prod id (map_prod Inr id)) (selectState s2 g c))),
      update = (\<lambda>current added removed g. case_sum (\<lambda>c. map_option (map_prod Inl id) (update s1 current added removed g c))
                              (\<lambda>c. map_option (map_prod Inr id) (update s2 current added removed g c))),
      isEmpty = (\<lambda>g. case_sum (isEmpty s1 g) (isEmpty s2 g))\<rparr>"

section \<open>The contract of a searcher\<close>

text \<open>What the searchers share with the engine is consistent; a call of a searcher changes the random
  numbers and the tags of the tree only.\<close>

definition engine_ok :: "engine \<Rightarrow> bool" where
  "engine_ok g \<longleftrightarrow> rng_ok (theRNG g) \<and> ptree_ok (processTree g) \<and> tracks (ptreeNode_of g) (processTree g) \<and> nodes (processTree g) \<noteq> Map.empty"

definition attached :: "engine \<Rightarrow> nat set" where
  "attached g = ran (state_at (processTree g))"

definition engine_step :: "engine \<Rightarrow> engine \<Rightarrow> bool" where
  "engine_step g g' \<longleftrightarrow> engine_ok g' \<and> same_shape (processTree g) (processTree g') \<and> ptreeNode_of g' = ptreeNode_of g
     \<and> wallTime g' = wallTime g \<and> instructions g' = instructions g"

lemma engine_step_refl: "engine_ok g \<Longrightarrow> engine_step g g"
  by (simp add: engine_step_def same_shape_refl)

lemma engine_step_trans: "engine_step g g' \<Longrightarrow> engine_step g' g'' \<Longrightarrow> engine_step g g''"
  by (auto simp: engine_step_def intro: same_shape_trans)

lemma engine_stepD: "engine_step g g' \<Longrightarrow> engine_ok g'" "engine_step g g' \<Longrightarrow> attached g' = attached g"
  by (auto simp: engine_step_def attached_def same_shape_state_at)

text \<open>The states a searcher is told about. \<open>busy\<close> are states it will not choose for now.\<close>

definition changes :: "engine \<Rightarrow> nat set \<Rightarrow> nat set \<Rightarrow> nat option \<Rightarrow> nat list \<Rightarrow> nat list \<Rightarrow> bool" where
  "changes g busy S current added removed \<longleftrightarrow> distinct added \<and> set added \<inter> S = {} \<and> set added \<subseteq> attached g
     \<and> distinct removed \<and> set removed \<subseteq> S \<union> set added \<and> (\<forall>c. current = Some c \<longrightarrow> c \<in> S \<and> c \<notin> busy)"

locale searcher =
  fixes impl :: "'c Searcher" and rep :: "engine \<Rightarrow> 'c \<Rightarrow> nat set \<Rightarrow> bool" and busy :: "'c \<Rightarrow> nat set"
  assumes select: "engine_ok g \<Longrightarrow> rep g c S \<Longrightarrow> S \<noteq> {} \<Longrightarrow>
      succeeds (selectState impl g c) (\<lambda>(st, c', g'). st \<in> S \<and> st \<notin> busy c' \<and> rep g' c' S \<and> engine_step g g')"
    and updates: "engine_ok g \<Longrightarrow> rep g c S \<Longrightarrow> changes g (busy c) S current added removed \<Longrightarrow>
      succeeds (update impl current added removed g c) (\<lambda>(c', g'). rep g' c' (S \<union> set added - set removed) \<and> engine_step g g')"
    and is_empty: "engine_ok g \<Longrightarrow> rep g c S \<Longrightarrow> isEmpty impl g c \<longleftrightarrow> S = {}"
    and rep_attached: "rep g c S \<Longrightarrow> finite S"

text \<open>Searchers that may be asked in turn: none makes a state unavailable, and one leaves the others alone.\<close>

locale shared_searcher = searcher +
  fixes apart :: "'a \<Rightarrow> 'a \<Rightarrow> bool"
  assumes never_busy: "busy c = {}"
    and select_frame: "engine_ok g \<Longrightarrow> selectState impl g c = Some (st, c', g') \<Longrightarrow> engine_step g g' \<Longrightarrow> rep g c S \<Longrightarrow> rep g d T \<Longrightarrow> apart c d \<Longrightarrow>
      rep g' d T \<and> (\<forall>e. apart c' e = apart c e \<and> apart e c' = apart e c)"
    and update_frame: "engine_ok g \<Longrightarrow> rep g c S \<Longrightarrow> changes g {} S current added removed \<Longrightarrow> update impl current added removed g c = Some (c', g') \<Longrightarrow>
      rep g d T \<Longrightarrow> apart c d \<Longrightarrow> rep g' d T"
    and update_apart: "update impl current added removed g c = Some (c', g') \<Longrightarrow> apart c' e = apart c e \<and> apart e c' = apart e c"

subsection \<open>Vectors of states\<close>

lemma eraseAll_ok:
  assumes "\<And>st xs. distinct xs \<Longrightarrow> st \<in> set xs \<Longrightarrow> succeeds (f st xs) (\<lambda>ys. distinct ys \<and> set ys = set xs - {st})"
    and "distinct ss" "set ss \<subseteq> set xs" "distinct xs"
  shows "succeeds (eraseAll f ss xs) (\<lambda>ys. distinct ys \<and> set ys = set xs - set ss)"
  using assms(2-)
proof (induction ss arbitrary: xs)
  case (Cons st ss)
  then obtain ys where ys: "f st xs = Some ys" "distinct ys" "set ys = set xs - {st}" using assms(1) [of xs st] by (auto elim: succeedsE)
  then have "set ss \<subseteq> set ys" "set ys - set ss = set xs - set (st # ss)" using Cons.prems by auto
  with Cons.IH [of ys] Cons.prems ys show ?case by simp
qed simp

lemma erase_ok:
  assumes "distinct xs" "st \<in> set xs"
  shows "succeeds (eraseState st xs) (\<lambda>ys. distinct ys \<and> set ys = set xs - {st})"
    "succeeds (DFSSearcher_erase st xs) (\<lambda>ys. distinct ys \<and> set ys = set xs - {st})"
    "succeeds (BFSSearcher_erase st xs) (\<lambda>ys. distinct ys \<and> set ys = set xs - {st})"
proof -
  show e: "succeeds (eraseState st xs) (\<lambda>ys. distinct ys \<and> set ys = set xs - {st})" using assms by (simp add: eraseState_def)
  show "succeeds (DFSSearcher_erase st xs) (\<lambda>ys. distinct ys \<and> set ys = set xs - {st})"
    using assms e by (cases xs rule: rev_cases) (auto simp: DFSSearcher_erase_def)
  show "succeeds (BFSSearcher_erase st xs) (\<lambda>ys. distinct ys \<and> set ys = set xs - {st})"
    using assms e by (cases xs) (auto simp: BFSSearcher_erase_def)
qed

definition list_rep :: "engine \<Rightarrow> nat list \<Rightarrow> nat set \<Rightarrow> bool" where
  "list_rep g xs S \<longleftrightarrow> distinct xs \<and> set xs = S"

lemma list_update_ok:
  assumes f: "\<And>st xs. distinct xs \<Longrightarrow> st \<in> set xs \<Longrightarrow> succeeds (f st xs) (\<lambda>ys. distinct ys \<and> set ys = set xs - {st})"
    and "engine_ok g" "list_rep g xs S" "changes g {} S current added removed"
  shows "succeeds (eraseAll f removed (xs @ added) \<bind> (\<lambda>xs. Some (xs, g)))
    (\<lambda>(xs', g'). list_rep g' xs' (S \<union> set added - set removed) \<and> engine_step g g')"
  by (rule succeeds_bind [OF eraseAll_ok [OF f]])
    (use assms in \<open>auto simp: list_rep_def changes_def engine_step_refl\<close>)

interpretation dfs: searcher DFSSearcher list_rep "\<lambda>xs. {}"
proof
  fix g c S current added removed assume "engine_ok g" "list_rep g c S" "changes g {} S current added removed"
  from list_update_ok [OF erase_ok(2) this] show "succeeds (update DFSSearcher current added removed g c)
    (\<lambda>(c', g'). list_rep g' c' (S \<union> set added - set removed) \<and> engine_step g g')" by (simp add: DFSSearcher_def)
qed (auto simp: DFSSearcher_def list_rep_def engine_step_refl)

interpretation bfs: searcher BFSSearcher list_rep "\<lambda>xs. {}"
proof
  fix g c S current added removed assume a: "engine_ok g" "list_rep g c S" "changes g {} S current added removed"
  have "succeeds (case current of
      Some c' \<Rightarrow> if added \<noteq> [] \<and> c' \<notin> set removed then eraseState c' c \<bind> (\<lambda>xs. Some (xs @ [c'])) else Some c
    | None \<Rightarrow> Some c) (\<lambda>xs. list_rep g xs S)"
    using a(2,3) by (auto simp: list_rep_def changes_def eraseState_def split: option.split)
  then show "succeeds (update BFSSearcher current added removed g c)
    (\<lambda>(c', g'). list_rep g' c' (S \<union> set added - set removed) \<and> engine_step g g')"
    unfolding BFSSearcher_def by (simp, rule succeeds_bind) (rule list_update_ok [OF erase_ok(3) a(1) _ a(3)])
qed (auto simp: BFSSearcher_def list_rep_def engine_step_refl)

interpretation random: searcher RandomSearcher list_rep "\<lambda>xs. {}"
proof
  fix g c S current added removed assume "engine_ok g" "list_rep g c S" "changes g {} S current added removed"
  from list_update_ok [OF erase_ok(1) this] show "succeeds (update RandomSearcher current added removed g c)
    (\<lambda>(c', g'). list_rep g' c' (S \<union> set added - set removed) \<and> engine_step g g')" by (simp add: RandomSearcher_def)
next
  fix g c S assume g: "engine_ok g" "list_rep g c S" "S \<noteq> {}"
  obtain y rng where y: "RNG_getInt32 (theRNG g) = Some (y, rng)" "rng_ok rng"
    using RNG_getInt32_ok [of "theRNG g"] g(1) by (auto simp: engine_ok_def succeeds_def)
  from g(1) y(2) have "engine_step g (g\<lparr>theRNG := rng\<rparr>)" by (simp add: engine_step_def engine_ok_def same_shape_refl)
  with g y(1) show "succeeds (selectState RandomSearcher g c) (\<lambda>(st, c', g'). st \<in> S \<and> st \<notin> {} \<and> list_rep g' c' S \<and> engine_step g g')"
    by (auto simp: RandomSearcher_def list_rep_def)
qed (auto simp: RandomSearcher_def list_rep_def)

subsection \<open>The process tree\<close>

definition path_rep :: "engine \<Rightarrow> 8 word \<Rightarrow> nat set \<Rightarrow> bool" where
  "path_rep g m S \<longleftrightarrow> m \<noteq> 0 \<and> owned m S (processTree g) \<and> S \<subseteq> attached g \<and> finite S"

lemma path_update_ok:
  assumes "engine_ok g" "path_rep g m S" "changes g {} S current added removed"
  shows "succeeds (RandomPathSearcher_update m (ptreeNode_of g) added removed (processTree g)) (\<lambda>t.
    path_rep (g\<lparr>processTree := t\<rparr>) m (S \<union> set added - set removed) \<and> engine_step g (g\<lparr>processTree := t\<rparr>)
      \<and> (\<forall>m'. m AND m' = 0 \<longrightarrow> tag_at m' t = tag_at m' (processTree g)))"
proof (rule succeeds_mono [OF update_ok])
  fix t assume re: "retagged m (S \<union> set added - set removed) (processTree g) t"
  then have sh: "same_shape (processTree g) t" by (simp add: retagged_def)
  have "nodes t \<noteq> Map.empty"
  proof
    assume "nodes t = Map.empty"
    then have "nodes (processTree g) n = None" for n
      using same_shape_sym [OF sh] by (cases "nodes (processTree g) n") (auto elim: same_shapeD [OF same_shape_sym [OF sh]])
    with assms(1) show False by (auto simp: engine_ok_def)
  qed
  with re sh assms show "path_rep (g\<lparr>processTree := t\<rparr>) m (S \<union> set added - set removed) \<and> engine_step g (g\<lparr>processTree := t\<rparr>)
      \<and> (\<forall>m'. m AND m' = 0 \<longrightarrow> tag_at m' t = tag_at m' (processTree g))"
    by (auto simp: path_rep_def attached_def engine_step_def engine_ok_def retagged_def same_shape_state_at changes_def
        intro: same_shape_ok tracks_shape)
qed (use assms in \<open>auto simp: engine_ok_def path_rep_def changes_def attached_def\<close>)

interpretation random_path: searcher RandomPathSearcher path_rep "\<lambda>m. {}"
proof
  fix g c S current added removed assume "engine_ok g" "path_rep g c S" "changes g {} S current added removed"
  from path_update_ok [OF this] show "succeeds (update RandomPathSearcher current added removed g c)
    (\<lambda>(c', g'). path_rep g' c' (S \<union> set added - set removed) \<and> engine_step g g')" by (auto simp: RandomPathSearcher_def succeeds_def)
next
  fix g c S assume g: "engine_ok g" "path_rep g c S"
  { assume "S \<noteq> {}"
    with g obtain st rng where y: "RandomPathSearcher_selectState c (processTree g) (theRNG g) = Some (st, rng)" "st \<in> S" "rng_ok rng"
      using select_ok [of "processTree g" c S "theRNG g"] by (auto simp: engine_ok_def path_rep_def attached_def succeeds_def)
    from g(1) y(3) have "engine_step g (g\<lparr>theRNG := rng\<rparr>)" by (simp add: engine_step_def engine_ok_def same_shape_refl)
    with g y show "succeeds (selectState RandomPathSearcher g c) (\<lambda>(st, c', g'). st \<in> S \<and> st \<notin> {} \<and> path_rep g' c' S \<and> engine_step g g')"
      by (simp add: RandomPathSearcher_def path_rep_def attached_def) }
  obtain k kd where "nodes (processTree g) k = Some kd" using g(1) by (auto simp: engine_ok_def fun_eq_iff)
  with g show "isEmpty RandomPathSearcher g c \<longleftrightarrow> S = {}"
    using empty_ok [of "processTree g" c S k kd] by (simp add: RandomPathSearcher_def engine_ok_def path_rep_def attached_def)
qed (simp add: path_rep_def)

subsection \<open>Any of them\<close>

definition core_rep :: "engine \<Rightarrow> core \<Rightarrow> nat set \<Rightarrow> bool" where
  "core_rep g c S = (case c of CorePath m \<Rightarrow> path_rep g m S | CoreDFS xs \<Rightarrow> list_rep g xs S | CoreBFS xs \<Rightarrow> list_rep g xs S | CoreRandom xs \<Rightarrow> list_rep g xs S)"

definition core_apart :: "core \<Rightarrow> core \<Rightarrow> bool" where
  "core_apart c d = (case c of CorePath m \<Rightarrow> (case d of CorePath m' \<Rightarrow> m AND m' = 0 | _ \<Rightarrow> True) | _ \<Rightarrow> True)"

lemma succeeds_map: "succeeds (map_option f m) P \<longleftrightarrow> succeeds m (\<lambda>x. P (f x))"
  by (cases m) simp_all

interpretation core: searcher CoreSearcher core_rep "\<lambda>c. {}"
proof
  fix g c S assume a: "engine_ok g" "core_rep g c S"
  { assume "S \<noteq> {}"
    with a show "succeeds (selectState CoreSearcher g c) (\<lambda>(st, c', g'). st \<in> S \<and> st \<notin> {} \<and> core_rep g' c' S \<and> engine_step g g')"
      using dfs.select bfs.select random.select random_path.select
      by (cases c) (auto simp: CoreSearcher_def dispatch_def core_rep_def succeeds_map case_prod_unfold) }
  show "isEmpty CoreSearcher g c \<longleftrightarrow> S = {}"
    using a dfs.is_empty bfs.is_empty random.is_empty random_path.is_empty
    by (cases c) (simp_all add: CoreSearcher_def dispatch_def core_rep_def)
  fix current added removed assume "changes g {} S current added removed"
  with a show "succeeds (update CoreSearcher current added removed g c) (\<lambda>(c', g'). core_rep g' c' (S \<union> set added - set removed) \<and> engine_step g g')"
    using dfs.updates bfs.updates random.updates random_path.updates
    by (cases c) (auto simp: CoreSearcher_def dispatch_def core_rep_def succeeds_map case_prod_unfold)
qed (auto simp: core_rep_def list_rep_def path_rep_def split: core.splits)

lemma owned_same_tags:
  assumes "owned m S t" "same_shape t t'" "tag_at m t' = tag_at m t"
  shows "owned m S t'"
  unfolding owned_but_def
proof (intro allI impI)
  fix n nd' assume "nodes t' n = Some nd'"
  with assms(2) obtain nd where "nodes t n = Some nd" "nstate nd' = nstate nd" "kids nd' = kids nd" by (rule same_shapeD)
  with assms(1,3) show "tag_at m t' n = wants m S t' nd'" by (simp add: owned_but_def wants_def split: option.split)
qed

lemma rep_rng [simp]: "core_rep (g\<lparr>theRNG := rng\<rparr>) d T = core_rep g d T"
  by (auto simp: core_rep_def path_rep_def list_rep_def attached_def split: core.split)

interpretation shared_core: shared_searcher CoreSearcher core_rep "\<lambda>c. {}" core_apart
proof
  fix g c st c' g' S d T e assume "selectState CoreSearcher g c = Some (st, c', g')" "core_rep g d T"
  then show "core_rep g' d T \<and> (\<forall>e. core_apart c' e = core_apart c e \<and> core_apart e c' = core_apart e c)"
    by (cases c) (auto simp: CoreSearcher_def dispatch_def DFSSearcher_def BFSSearcher_def RandomSearcher_def RandomPathSearcher_def
        bind_eq_Some_conv split: if_splits)
next
  fix current added removed g c c' g' e assume "update CoreSearcher current added removed g c = Some (c', g')"
  then show "core_apart c' e = core_apart c e \<and> core_apart e c' = core_apart e c"
    by (cases c) (auto simp: CoreSearcher_def dispatch_def core_apart_def RandomPathSearcher_def bind_eq_Some_conv split: core.split)
next
  fix g c S current added removed c' g' d T
  assume a: "engine_ok g" "core_rep g c S" "changes g {} S current added removed" "update CoreSearcher current added removed g c = Some (c', g')"
    "core_rep g d T" "core_apart c d"
  show "core_rep g' d T"
  proof (cases c)
    case (CorePath m)
    with a(2) have rep: "path_rep g m S" by (simp add: core_rep_def)
    obtain t where t: "RandomPathSearcher_update m (ptreeNode_of g) added removed (processTree g) = Some t"
      "engine_step g (g\<lparr>processTree := t\<rparr>)" "\<forall>m'. m AND m' = 0 \<longrightarrow> tag_at m' t = tag_at m' (processTree g)"
      using path_update_ok [OF a(1) rep a(3)] by (auto elim: succeedsE)
    with a(4) CorePath have g': "g' = g\<lparr>processTree := t\<rparr>" by (auto simp: CoreSearcher_def dispatch_def RandomPathSearcher_def)
    from t(2) have sh: "same_shape (processTree g) t" "attached g' = attached g" using engine_stepD(2) [OF t(2)] g' by (simp_all add: engine_step_def)
    show ?thesis
    proof (cases d)
      case (CorePath m')
      with a(5,6) \<open>c = CorePath m\<close> t(3) sh g' owned_same_tags [OF _ sh(1), of m' T] show ?thesis
        by (auto simp: core_rep_def path_rep_def core_apart_def)
    qed (use a(5) in \<open>simp_all add: core_rep_def list_rep_def\<close>)
  next
    case (CoreDFS xs)
    then have "g' = g" using a(4) by (auto simp: CoreSearcher_def dispatch_def DFSSearcher_def bind_eq_Some_conv)
    with a(5) show ?thesis by simp
  next
    case (CoreBFS xs)
    then have "g' = g" using a(4) by (auto simp: CoreSearcher_def dispatch_def BFSSearcher_def bind_eq_Some_conv)
    with a(5) show ?thesis by simp
  next
    case (CoreRandom xs)
    then have "g' = g" using a(4) by (auto simp: CoreSearcher_def dispatch_def RandomSearcher_def bind_eq_Some_conv)
    with a(5) show ?thesis by simp
  qed
qed simp

subsection \<open>Taking turns\<close>

definition interleaved_rep :: "(engine \<Rightarrow> 'c \<Rightarrow> nat set \<Rightarrow> bool) \<Rightarrow> ('c \<Rightarrow> 'c \<Rightarrow> bool) \<Rightarrow> engine \<Rightarrow> 'c list \<times> nat \<Rightarrow> nat set \<Rightarrow> bool" where
  "interleaved_rep rep apart g ci S = (case ci of (cs, index) \<Rightarrow> 0 < index \<and> index \<le> length cs \<and> (\<forall>c\<in>set cs. rep g c S)
     \<and> (\<forall>i<length cs. \<forall>j<length cs. i \<noteq> j \<longrightarrow> apart (cs ! i) (cs ! j)))"

context shared_searcher
begin

lemma updateAll_ok:
  assumes "engine_ok g" "\<forall>c\<in>set cs. rep g c S" "\<forall>i<length cs. \<forall>j<length cs. i \<noteq> j \<longrightarrow> apart (cs ! i) (cs ! j)"
    "changes g {} S current added removed"
  shows "succeeds (updateAll impl current added removed g cs) (\<lambda>(cs', g'). length cs' = length cs
    \<and> (\<forall>c\<in>set cs'. rep g' c (S \<union> set added - set removed)) \<and> engine_step g g'
    \<and> (\<forall>d T. (\<forall>c\<in>set cs. apart c d) \<longrightarrow> rep g d T \<longrightarrow> rep g' d T)
    \<and> (\<forall>i<length cs. \<forall>e. apart (cs' ! i) e = apart (cs ! i) e \<and> apart e (cs' ! i) = apart e (cs ! i)))"
  using assms
proof (induction cs arbitrary: g)
  case Nil
  then show ?case by (simp add: engine_step_refl)
next
  case (Cons c cs)
  let ?S = "S \<union> set added - set removed"
  have ap: "apart c d" "apart d c" if "d \<in> set cs" for d
  proof -
    from that obtain i where "i < length cs" "d = cs ! i" by (auto simp: in_set_conv_nth)
    with Cons.prems(3) [rule_format, of 0 "Suc i"] Cons.prems(3) [rule_format, of "Suc i" 0] show "apart c d" "apart d c" by simp_all
  qed
  have ap': "\<forall>i<length cs. \<forall>j<length cs. i \<noteq> j \<longrightarrow> apart (cs ! i) (cs ! j)" 
    using Cons.prems(3) [rule_format, of "Suc i" "Suc j" for i j] by simp
  obtain c1 g1 where u: "update impl current added removed g c = Some (c1, g1)" "rep g1 c1 ?S" "engine_step g g1"
    using updates [OF Cons.prems(1), of c S current added removed] Cons.prems(2,4) never_busy by (auto elim!: succeedsE)
  note frame = update_frame [OF Cons.prems(1) _ Cons.prems(4) u(1)]
  have "changes g1 {} S current added removed" using Cons.prems(4) engine_stepD(2) [OF u(3)] by (simp add: changes_def)
  moreover have "\<forall>d\<in>set cs. rep g1 d S" using frame ap(1) Cons.prems(2) by auto
  ultimately obtain cs2 g2 where r: "updateAll impl current added removed g1 cs = Some (cs2, g2)" "length cs2 = length cs"
      "\<forall>c\<in>set cs2. rep g2 c ?S" "engine_step g1 g2" "\<forall>d T. (\<forall>c\<in>set cs. apart c d) \<longrightarrow> rep g1 d T \<longrightarrow> rep g2 d T"
      "\<forall>i<length cs. \<forall>e. apart (cs2 ! i) e = apart (cs ! i) e \<and> apart e (cs2 ! i) = apart e (cs ! i)"
    using Cons.IH [OF engine_stepD(1) [OF u(3)] _ ap'] by (auto elim!: succeedsE)
  have c1: "apart c1 e = apart c e \<and> apart e c1 = apart e c" for e by (rule update_apart [OF u(1)])
  have "rep g2 c1 ?S" using r(5) u(2) ap(2) c1 by blast
  moreover have "\<forall>d T. (\<forall>c\<in>set (c # cs). apart c d) \<longrightarrow> rep g d T \<longrightarrow> rep g2 d T" using r(5) frame Cons.prems(2) by auto
  moreover have "\<forall>i<length (c # cs). \<forall>e. apart ((c1 # cs2) ! i) e = apart ((c # cs) ! i) e \<and> apart e ((c1 # cs2) ! i) = apart e ((c # cs) ! i)"
    using r(2,6) c1 by (auto simp: nth_Cons split: nat.split)
  ultimately show ?case using u(1) r(1-4) engine_step_trans [OF u(3) r(4)] by simp
qed

lemma interleaved: "searcher (InterleavedSearcher impl) (interleaved_rep rep apart) (\<lambda>ci. {})"
proof
  fix g ci S assume g: "engine_ok g" and r: "interleaved_rep rep apart g ci S"
  obtain cs index where ci: "ci = (cs, index)" by (cases ci)
  with r have idx: "0 < index" "index \<le> length cs" and reps: "\<forall>c\<in>set cs. rep g c S"
    and ap: "\<forall>i<length cs. \<forall>j<length cs. i \<noteq> j \<longrightarrow> apart (cs ! i) (cs ! j)" by (simp_all add: interleaved_rep_def)
  show "isEmpty (InterleavedSearcher impl) g ci \<longleftrightarrow> S = {}"
    using ci idx is_empty [OF g, of "hd cs" S] reps by (cases cs) (simp_all add: InterleavedSearcher_def)
  { assume "S \<noteq> {}"
    have i: "index - 1 < length cs" using idx by linarith
    then obtain st c' g' where s: "selectState impl g (cs ! (index - 1)) = Some (st, c', g')" "st \<in> S" "rep g' c' S" "engine_step g g'"
      using select [OF g _ \<open>S \<noteq> {}\<close>, of "cs ! (index - 1)"] reps by (auto elim!: succeedsE)
    have ri: "rep g (cs ! (index - 1)) S" using reps i by simp
    have keep: "rep g' (cs ! j) S \<and> (\<forall>e. apart c' e = apart (cs ! (index - 1)) e \<and> apart e c' = apart e (cs ! (index - 1)))"
      if "j < length cs" "j \<noteq> index - 1" for j using select_frame [OF g s(1,4) ri, of "cs ! j" S] reps ap i that by simp
    have "\<forall>d\<in>set (cs[index - 1 := c']). rep g' d S"
      using keep s(3) i by (auto simp: in_set_conv_nth nth_list_update)
    moreover have "\<forall>j<length cs. \<forall>k<length cs. j \<noteq> k \<longrightarrow> apart (cs[index - 1 := c'] ! j) (cs[index - 1 := c'] ! k)"
      using keep ap i by (auto simp: nth_list_update)
    ultimately show "succeeds (selectState (InterleavedSearcher impl) g ci)
      (\<lambda>(st, c', g'). st \<in> S \<and> st \<notin> {} \<and> interleaved_rep rep apart g' c' S \<and> engine_step g g')"
      using ci idx s i by (auto simp: InterleavedSearcher_def interleaved_rep_def Let_def) }
  fix current added removed assume "changes g {} S current added removed"
  from updateAll_ok [OF g reps ap this] ci idx ap
  show "succeeds (update (InterleavedSearcher impl) current added removed g ci)
    (\<lambda>(c', g'). interleaved_rep rep apart g' c' (S \<union> set added - set removed) \<and> engine_step g g')"
    by (auto simp: InterleavedSearcher_def interleaved_rep_def succeeds_def)
next
  fix g ci S assume "interleaved_rep rep apart g ci S"
  then have "\<forall>c\<in>set (fst ci). rep g c S" "0 < length (fst ci)" by (auto simp: interleaved_rep_def split: prod.splits)
  then have "rep g (fst ci ! 0) S" using nth_mem by blast
  then show "finite S" by (rule rep_attached)
qed

end

subsection \<open>Batches\<close>

definition batching_rep :: "(engine \<Rightarrow> 'c \<Rightarrow> nat set \<Rightarrow> bool) \<Rightarrow> engine \<Rightarrow> 'c BatchingSearcher \<Rightarrow> nat set \<Rightarrow> bool" where
  "batching_rep rep g b S \<longleftrightarrow> rep g (b_base b) S \<and> (\<forall>st. lastState b = Some st \<longrightarrow> st \<in> S)"

subsection \<open>Deepening\<close>

text \<open>The states are those of the searcher below and the paused ones; it has some whenever there are any.\<close>

definition deepening_rep :: "(engine \<Rightarrow> 'c \<Rightarrow> nat set \<Rightarrow> bool) \<Rightarrow> engine \<Rightarrow> 'c DeepeningSearcher \<Rightarrow> nat set \<Rightarrow> bool" where
  "deepening_rep rep g d S \<longleftrightarrow> rep g (d_base d) (S - pausedStates d) \<and> pausedStates d \<subseteq> S \<and> finite S \<and> S \<subseteq> attached g
     \<and> (S \<noteq> {} \<longrightarrow> S - pausedStates d \<noteq> {})"

context searcher
begin

lemma batching:
  assumes idle: "\<And>c. busy c = {}"
  shows "searcher (BatchingSearcher impl) (batching_rep rep) (\<lambda>b. {})"
proof
  fix g b S assume g: "engine_ok g" and r: "batching_rep rep g b S"
  then have rep: "rep g (b_base b) S" by (simp add: batching_rep_def)
  show "isEmpty (BatchingSearcher impl) g b \<longleftrightarrow> S = {}" using is_empty [OF g rep] by (simp add: BatchingSearcher_def)
  { assume "S \<noteq> {}"
    then obtain st c g' where s: "selectState impl g (b_base b) = Some (st, c, g')" "st \<in> S" "rep g' c S" "engine_step g g'"
      using select [OF g rep] by (auto elim!: succeedsE)
    with r engine_step_refl [OF g] show "succeeds (selectState (BatchingSearcher impl) g b)
      (\<lambda>(st, b', g'). st \<in> S \<and> st \<notin> {} \<and> batching_rep rep g' b' S \<and> engine_step g g')"
      by (auto simp: BatchingSearcher_def batching_rep_def Let_def split: option.split) }
  fix current added removed assume ch: "changes g {} S current added removed"
  then obtain c g' where "update impl current added removed g (b_base b) = Some (c, g')" "rep g' c (S \<union> set added - set removed)" "engine_step g g'"
    using updates [OF g rep, of current added removed] idle by (auto elim!: succeedsE)
  with r show "succeeds (update (BatchingSearcher impl) current added removed g b)
    (\<lambda>(b', g'). batching_rep rep g' b' (S \<union> set added - set removed) \<and> engine_step g g')"
    by (auto simp: BatchingSearcher_def batching_rep_def Let_def)
next
  fix g b S assume "batching_rep rep g b S"
  then show "finite S" by (auto simp: batching_rep_def intro: rep_attached)
qed

lemma deepening:
  assumes idle: "\<And>c. busy c = {}"
  shows "searcher (IterativeDeepeningTimeSearcher impl) (deepening_rep rep) pausedStates"
proof
  fix g d S assume g: "engine_ok g" and r: "deepening_rep rep g d S"
  then have rep: "rep g (d_base d) (S - pausedStates d)" and sub: "pausedStates d \<subseteq> S" "finite S" "S \<subseteq> attached g"
    and more: "S \<noteq> {} \<longrightarrow> S - pausedStates d \<noteq> {}" by (simp_all add: deepening_rep_def)
  show "isEmpty (IterativeDeepeningTimeSearcher impl) g d \<longleftrightarrow> S = {}"
    using is_empty [OF g rep] sub(1) more by (auto simp: IterativeDeepeningTimeSearcher_def)
  { assume "S \<noteq> {}"
    with more obtain st c g' where s: "selectState impl g (d_base d) = Some (st, c, g')" "st \<in> S - pausedStates d" "rep g' c (S - pausedStates d)" "engine_step g g'"
      using select [OF g rep] by (auto elim!: succeedsE)
    with sub more engine_stepD(2) [OF s(4)] show "succeeds (selectState (IterativeDeepeningTimeSearcher impl) g d)
      (\<lambda>(st, d', g'). st \<in> S \<and> st \<notin> pausedStates d' \<and> deepening_rep rep g' d' S \<and> engine_step g g')"
      by (auto simp: IterativeDeepeningTimeSearcher_def deepening_rep_def) }
  fix current added removed assume ch: "changes g (pausedStates d) S current added removed"
  let ?P = "pausedStates d" let ?alt = "filter (\<lambda>st. st \<notin> ?P) removed" and ?S = "S \<union> set added - set removed" and ?P1 = "?P - set removed"
  have "changes g {} (S - ?P) current added ?alt" using ch by (auto simp: changes_def)
  then obtain c1 g1 where u: "update impl current added ?alt g (d_base d) = Some (c1, g1)" "rep g1 c1 (S - ?P \<union> set added - set ?alt)" "engine_step g g1"
    using updates [OF g rep, of current added ?alt] idle by (auto elim!: succeedsE)
  have eq: "S - ?P \<union> set added - set ?alt = ?S - ?P1" using ch sub(1) by (auto simp: changes_def)
  note rep1 = u(2) [unfolded eq]
  have g1: "engine_ok g1" "attached g1 = attached g" using engine_stepD [OF u(3)] by simp_all
  let ?pause = "\<lambda>cur. update impl None [] [cur] g1 c1 \<bind> (\<lambda>(c, g). Some (d\<lparr>d_base := c, pausedStates := insert cur ?P1\<rparr>, g))"
  let ?post = "\<lambda>(d2, g2). rep g2 (d_base d2) (?S - pausedStates d2) \<and> pausedStates d2 \<subseteq> ?S \<and> engine_step g g2"
  have pause: "succeeds (?pause cur) ?post" if "current = Some cur" "cur \<notin> set removed" for cur
  proof -
    have cur: "cur \<in> ?S - ?P1" using that ch by (auto simp: changes_def)
    then have "changes g1 {} (?S - ?P1) None [] [cur]" by (auto simp: changes_def)
    from updates [OF g1(1) rep1, of None "[]" "[cur]"] this idle obtain c2 g2 where
      "update impl None [] [cur] g1 c1 = Some (c2, g2)" "rep g2 c2 (?S - ?P1 - {cur})" "engine_step g1 g2" by (auto elim!: succeedsE)
    moreover have "?S - ?P1 - {cur} = ?S - insert cur ?P1" by auto
    moreover have "insert cur ?P1 \<subseteq> ?S" using cur sub(1) by auto
    ultimately show ?thesis using engine_step_trans [OF u(3)] by auto
  qed
  have stay: "?post (d\<lparr>pausedStates := ?P1, d_base := c1\<rparr>, g1)" using rep1 u(3) sub(1) by auto
  let ?after = "case current of Some cur \<Rightarrow> if cur \<notin> set removed \<and> wallTime g - startTime d > d_time d then ?pause cur else Some (d\<lparr>pausedStates := ?P1, d_base := c1\<rparr>, g1)
    | None \<Rightarrow> Some (d\<lparr>pausedStates := ?P1, d_base := c1\<rparr>, g1)"
  have "succeeds ?after ?post" using pause stay by (cases current) auto
  then obtain d2 g2 where a: "?after = Some (d2, g2)" "?post (d2, g2)" by (auto elim: succeedsE)
  have fin: "finite ?S" "?S \<subseteq> attached g2" using sub ch a(2) engine_stepD(2) [of g g2] by (auto simp: changes_def)
  have g2: "engine_ok g2" "rep g2 (d_base d2) (?S - pausedStates d2)" "pausedStates d2 \<subseteq> ?S" "engine_step g g2"
    using a(2) engine_stepD(1) by auto
  let ?refill = "if isEmpty impl g2 (d_base d2)
    then update impl None (sorted_list_of_set (pausedStates d2)) [] g2 (d_base d2) \<bind> (\<lambda>(c, g). Some (d2\<lparr>d_base := c, d_time := 2 * d_time d2, pausedStates := {}\<rparr>, g))
    else Some (d2, g2)"
  have "succeeds ?refill (\<lambda>(d', g'). deepening_rep rep g' d' ?S \<and> engine_step g g')"
  proof (cases "?S - pausedStates d2 = {}")
    case True
    then have P2: "pausedStates d2 = ?S" using g2(3) by auto
    then have "changes g2 {} {} None (sorted_list_of_set ?S) []" using fin by (simp add: changes_def)
    from updates [OF g2(1) _, of "d_base d2" "{}" None "sorted_list_of_set ?S" "[]"] this idle g2(2) True fin(1) obtain c3 g3 where
      u3: "update impl None (sorted_list_of_set ?S) [] g2 (d_base d2) = Some (c3, g3)" "rep g3 c3 ?S" "engine_step g2 g3"
      by (auto elim!: succeedsE)
    with True P2 fin engine_stepD(2) [OF u3(3)] engine_step_trans [OF g2(4) u3(3)] is_empty [OF g2(1,2)] show ?thesis
      by (simp add: deepening_rep_def)
  next
    case False
    with is_empty [OF g2(1,2)] g2 fin show ?thesis by (simp add: deepening_rep_def)
  qed
  moreover have "update (IterativeDeepeningTimeSearcher impl) current added removed g d = ?refill"
  proof -
    have "update (IterativeDeepeningTimeSearcher impl) current added removed g d = ?after \<bind> (\<lambda>(d, g).
        if isEmpty impl g (d_base d)
        then update impl None (sorted_list_of_set (pausedStates d)) [] g (d_base d) \<bind> (\<lambda>(c, g).
          Some (d\<lparr>d_base := c, d_time := 2 * d_time d, pausedStates := {}\<rparr>, g))
        else Some (d, g))"
      using u(1) by (simp add: IterativeDeepeningTimeSearcher_def Let_def cong: option.case_cong if_cong)
    with a(1) show ?thesis by simp
  qed
  ultimately show "succeeds (update (IterativeDeepeningTimeSearcher impl) current added removed g d)
    (\<lambda>(d', g'). deepening_rep rep g' d' ?S \<and> engine_step g g')" by simp
next
  fix g d S assume "deepening_rep rep g d S"
  then show "finite S" by (simp add: deepening_rep_def)
qed

end

subsection \<open>One or the other\<close>

definition either_rep :: "(engine \<Rightarrow> 'a \<Rightarrow> nat set \<Rightarrow> bool) \<Rightarrow> (engine \<Rightarrow> 'b \<Rightarrow> nat set \<Rightarrow> bool) \<Rightarrow> engine \<Rightarrow> 'a + 'b \<Rightarrow> nat set \<Rightarrow> bool" where
  "either_rep r1 r2 g = case_sum (r1 g) (r2 g)"

lemma either_searcher:
  assumes "searcher s1 r1 b1" "searcher s2 r2 b2"
  shows "searcher (EitherSearcher s1 s2) (either_rep r1 r2) (case_sum b1 b2)"
proof
  fix g c S assume a: "engine_ok g" "either_rep r1 r2 g c S"
  { assume "S \<noteq> {}"
    with a show "succeeds (selectState (EitherSearcher s1 s2) g c)
      (\<lambda>(st, c', g'). st \<in> S \<and> st \<notin> case_sum b1 b2 c' \<and> either_rep r1 r2 g' c' S \<and> engine_step g g')"
      using searcher.select [OF assms(1)] searcher.select [OF assms(2)]
      by (cases c) (auto simp: EitherSearcher_def either_rep_def succeeds_map case_prod_unfold) }
  show "isEmpty (EitherSearcher s1 s2) g c \<longleftrightarrow> S = {}"
    using a searcher.is_empty [OF assms(1)] searcher.is_empty [OF assms(2)]
    by (cases c) (simp_all add: EitherSearcher_def either_rep_def)
  fix current added removed assume "changes g (case_sum b1 b2 c) S current added removed"
  with a show "succeeds (update (EitherSearcher s1 s2) current added removed g c)
      (\<lambda>(c', g'). either_rep r1 r2 g' c' (S \<union> set added - set removed) \<and> engine_step g g')"
    using searcher.updates [OF assms(1)] searcher.updates [OF assms(2)]
    by (cases c) (auto simp: EitherSearcher_def either_rep_def succeeds_map case_prod_unfold)
next
  fix g c S assume "either_rep r1 r2 g c S"
  then show "finite S" using searcher.rep_attached [OF assms(1)] searcher.rep_attached [OF assms(2)]
    by (cases c) (auto simp: either_rep_def)
qed

section \<open>The searcher of the user\<close>

text \<open>The searcher that the options ask for: one core searcher, or several in turn; then batches or not; then
  deepening or not. Core searchers with weights and merging are left out.\<close>

definition initializeSearchOptions :: "CoreSearchType list \<Rightarrow> CoreSearchType list" where
  "initializeSearchOptions coreSearch = (if coreSearch = [] then [DFS] else coreSearch)"

fun getNewSearchers :: "CoreSearchType list \<Rightarrow> engine \<Rightarrow> (core list \<times> engine) option" where
  "getNewSearchers [] g = Some ([], g)"
| "getNewSearchers (ty # tys) g = getNewSearcher ty g \<bind> (\<lambda>(c, g). getNewSearchers tys g \<bind> (\<lambda>(cs, g). Some (c # cs, g)))"

type_synonym chosen = "core + core list \<times> nat"
type_synonym batched = "chosen + chosen BatchingSearcher"
type_synonym user_searcher = "batched + batched DeepeningSearcher"

definition BatchingSearcher_new :: "'c \<Rightarrow> nat \<Rightarrow> nat \<Rightarrow> 'c BatchingSearcher" where
  "BatchingSearcher_new c batchTime batchInstructions =
     \<lparr>b_base = c, timeBudget = batchTime, instructionBudget = batchInstructions, lastState = None, lastStartTime = 0, lastStartInstructions = 0\<rparr>"

definition IterativeDeepeningTimeSearcher_new :: "'c \<Rightarrow> 'c DeepeningSearcher" where
  "IterativeDeepeningTimeSearcher_new c = \<lparr>d_base = c, startTime = 0, d_time = 1000000, pausedStates = {}\<rparr>"

record search_options =
  CoreSearch :: "CoreSearchType list"
  UseBatchingSearch :: bool
  BatchTime :: nat
  BatchInstructions :: nat
  UseIterativeDeepeningTimeSearch :: bool

definition constructUserSearcher :: "search_options \<Rightarrow> engine \<Rightarrow> (user_searcher \<times> engine) option" where
  "constructUserSearcher opts g =
     (case CoreSearch opts of
        [] \<Rightarrow> None
      | ty # tys \<Rightarrow>
          getNewSearcher ty g \<bind> (\<lambda>(c, g).
          (if tys \<noteq> [] then getNewSearchers tys g \<bind> (\<lambda>(cs, g). Some (Inr (c # cs, 1), g)) else Some (Inl c, g)) \<bind> (\<lambda>(chosen, g).
          let batched = (if UseBatchingSearch opts then Inr (BatchingSearcher_new chosen (BatchTime opts) (BatchInstructions opts)) else Inl chosen)
          in Some (if UseIterativeDeepeningTimeSearch opts then Inr (IterativeDeepeningTimeSearcher_new batched) else Inl batched, g))))"

text \<open>The virtual functions of that searcher.\<close>

definition ChosenSearcher :: "chosen Searcher" where
  "ChosenSearcher = EitherSearcher CoreSearcher (InterleavedSearcher CoreSearcher)"

definition BatchedSearcher :: "batched Searcher" where
  "BatchedSearcher = EitherSearcher ChosenSearcher (BatchingSearcher ChosenSearcher)"

definition UserSearcher :: "user_searcher Searcher" where
  "UserSearcher = EitherSearcher BatchedSearcher (IterativeDeepeningTimeSearcher BatchedSearcher)"

definition chosen_rep :: "engine \<Rightarrow> chosen \<Rightarrow> nat set \<Rightarrow> bool" where
  "chosen_rep = either_rep core_rep (interleaved_rep core_rep core_apart)"

definition batched_rep :: "engine \<Rightarrow> batched \<Rightarrow> nat set \<Rightarrow> bool" where
  "batched_rep = either_rep chosen_rep (batching_rep chosen_rep)"

definition user_rep :: "engine \<Rightarrow> user_searcher \<Rightarrow> nat set \<Rightarrow> bool" where
  "user_rep = either_rep batched_rep (deepening_rep batched_rep)"

definition user_paused :: "user_searcher \<Rightarrow> nat set" where
  "user_paused = case_sum (\<lambda>_. {}) pausedStates"

lemma case_sum_const: "case_sum (\<lambda>_. k) (\<lambda>_. k) = (\<lambda>_. k)"
  by (auto simp: fun_eq_iff split: sum.split)

interpretation chosen: searcher ChosenSearcher chosen_rep "\<lambda>c. {}"
  using either_searcher [OF core.searcher_axioms shared_core.interleaved]
  unfolding ChosenSearcher_def chosen_rep_def case_sum_const .

interpretation batched: searcher BatchedSearcher batched_rep "\<lambda>c. {}"
  using either_searcher [OF chosen.searcher_axioms chosen.batching]
  unfolding BatchedSearcher_def batched_rep_def case_sum_const by simp

interpretation user: searcher UserSearcher user_rep user_paused
  using either_searcher [OF batched.searcher_axioms batched.deepening]
  unfolding UserSearcher_def user_rep_def user_paused_def by simp

subsection \<open>The first searcher\<close>

text \<open>Before a searcher is constructed, the tree has one node and no tags; every construction takes the next mask.\<close>

definition masks_from :: "nat \<Rightarrow> core list \<Rightarrow> bool" where
  "masks_from k cs \<longleftrightarrow> (\<forall>m. CorePath m \<in> set cs \<longrightarrow> (\<exists>j\<ge>k. j < 3 \<and> m = push_bit j 1))
     \<and> (\<forall>i<length cs. \<forall>j<length cs. i \<noteq> j \<longrightarrow> core_apart (cs ! i) (cs ! j))"

definition fresh_tree :: "nat \<Rightarrow> nat \<Rightarrow> engine \<Rightarrow> bool" where
  "fresh_tree st k g \<longleftrightarrow> processTree g = (PTree_new st)\<lparr>registeredIds := k\<rparr>"

lemma fresh_rep:
  assumes "fresh_tree st k g" "m \<noteq> 0"
  shows "path_rep g m {}"
  using assms by (simp add: fresh_tree_def path_rep_def owned_but_def wants_def tag_at_def ours_def PTree_new_def PTreeNode_new_def childPtr_def)

lemma mask_nonzero: "j < 3 \<Longrightarrow> push_bit j 1 \<noteq> (0 :: 8 word)"
  by (auto simp: numeral_3_eq_3 less_Suc_eq)

lemma masks_apart: "i < j \<Longrightarrow> j < 3 \<Longrightarrow> push_bit i 1 AND push_bit j 1 = (0 :: 8 word)"
  by (auto simp: numeral_3_eq_3 less_Suc_eq)

lemma core_apart_sym: "core_apart c d = core_apart d c"
  by (auto simp: core_apart_def and.commute split: core.split)

lemma masks_from_Cons:
  assumes "masks_from k' cs" "k \<le> k'" "\<And>m. c = CorePath m \<Longrightarrow> k < k' \<and> k < 3 \<and> m = push_bit k 1"
  shows "masks_from k (c # cs)"
proof -
  have "core_apart c d" if "d \<in> set cs" for d
  proof (cases "\<exists>m m'. c = CorePath m \<and> d = CorePath m'")
    case True
    then obtain m m' where cd: "c = CorePath m" "d = CorePath m'" by blast
    with that assms(1) obtain j where "k' \<le> j" "j < 3" "m' = push_bit j 1" by (auto simp: masks_from_def)
    with assms(3) [OF cd(1)] masks_apart [of k j] cd show ?thesis by (simp add: core_apart_def)
  qed (auto simp: core_apart_def split: core.split)
  moreover have "core_apart d c" if "d \<in> set cs" for d
    using calculation that core_apart_sym [of d c] by blast
  ultimately have "core_apart ((c # cs) ! i) ((c # cs) ! j)" if "i < length (c # cs)" "j < length (c # cs)" "i \<noteq> j" for i j
    using that assms(1) by (cases i; cases j) (auto simp: masks_from_def)
  moreover have "\<exists>j\<ge>k. j < 3 \<and> m = push_bit j 1" if "CorePath m \<in> set (c # cs)" for m
  proof (cases "c = CorePath m")
    case False
    with that assms(1) obtain j where "k' \<le> j" "j < 3" "m = push_bit j 1" by (auto simp: masks_from_def)
    with assms(2) show ?thesis by (intro exI [of _ j]) simp
  qed (use assms(3) in blast)
  ultimately show ?thesis by (simp add: masks_from_def)
qed

lemma getNewSearcher_ok:
  assumes "fresh_tree st k g" "k + count_list [ty] RandomPath \<le> 3"
  shows "succeeds (getNewSearcher ty g) (\<lambda>(c, g'). theRNG g' = theRNG g \<and> ptreeNode_of g' = ptreeNode_of g \<and> fresh_tree st (k + count_list [ty] RandomPath) g'
    \<and> (\<forall>m. c = CorePath m \<longrightarrow> ty = RandomPath \<and> m = push_bit k 1) \<and> (\<forall>k g. fresh_tree st k g \<longrightarrow> core_rep g c {}))"
  using assms mask_nonzero [of k] fresh_rep
  by (cases ty) (auto simp: getNewSearcher_def getNextId_def PtrBitCount_def fresh_tree_def core_rep_def list_rep_def Let_def)

lemma getNewSearchers_ok:
  assumes "fresh_tree st k g" "k + count_list tys RandomPath \<le> 3"
  shows "succeeds (getNewSearchers tys g) (\<lambda>(cs, g'). theRNG g' = theRNG g \<and> ptreeNode_of g' = ptreeNode_of g \<and> fresh_tree st (k + count_list tys RandomPath) g'
    \<and> length cs = length tys \<and> masks_from k cs \<and> (\<forall>c\<in>set cs. \<forall>k g. fresh_tree st k g \<longrightarrow> core_rep g c {}))"
  using assms
proof (induction tys arbitrary: k g)
  case Nil
  then show ?case by (simp add: masks_from_def)
next
  case (Cons ty tys)
  let ?k = "k + count_list [ty] RandomPath"
  have k: "?k + count_list tys RandomPath = k + count_list (ty # tys) RandomPath" by simp
  from Cons.prems(2) have "k + count_list [ty] RandomPath \<le> 3" by (auto split: if_splits)
  from getNewSearcher_ok [OF Cons.prems(1) this] obtain c g1 where c: "getNewSearcher ty g = Some (c, g1)" "theRNG g1 = theRNG g" "ptreeNode_of g1 = ptreeNode_of g"
    "fresh_tree st ?k g1" "\<forall>m. c = CorePath m \<longrightarrow> ty = RandomPath \<and> m = push_bit k 1" "\<forall>k g. fresh_tree st k g \<longrightarrow> core_rep g c {}"
    by (rule succeedsE) blast
  from Cons.IH [OF c(4)] k Cons.prems(2) have "succeeds (getNewSearchers tys g1) (\<lambda>(cs, g2). theRNG g2 = theRNG g1 \<and> ptreeNode_of g2 = ptreeNode_of g1
    \<and> fresh_tree st (k + count_list (ty # tys) RandomPath) g2 \<and> length cs = length tys \<and> masks_from ?k cs \<and> (\<forall>c\<in>set cs. \<forall>k g. fresh_tree st k g \<longrightarrow> core_rep g c {}))"
    unfolding k by blast
  then obtain cs g2 where cs: "getNewSearchers tys g1 = Some (cs, g2)" "theRNG g2 = theRNG g1" "ptreeNode_of g2 = ptreeNode_of g1"
    "fresh_tree st (k + count_list (ty # tys) RandomPath) g2" "length cs = length tys" "masks_from ?k cs" "\<forall>c\<in>set cs. \<forall>k g. fresh_tree st k g \<longrightarrow> core_rep g c {}"
    by (rule succeedsE) blast
  have m: "masks_from k (c # cs)" using c(5) Cons.prems(2) by (intro masks_from_Cons [OF cs(6)]) auto
  have r: "\<forall>c\<in>set (c # cs). \<forall>k g. fresh_tree st k g \<longrightarrow> core_rep g c {}" using c(6) cs(7) by auto
  show ?case using m r c(1-3) cs(1-5) by simp
qed

lemma fresh_engine:
  assumes "fresh_tree st k g" "rng_ok (theRNG g)" "ptreeNode_of g = [st \<mapsto> 0]"
  shows "engine_ok g" "attached g = {st}"
proof -
  have sh: "same_shape (PTree_new st) (processTree g)" using assms(1) same_shape_refl [of "PTree_new st"] by (simp add: fresh_tree_def same_shape_def)
  have "nodes (processTree g) 0 \<noteq> None" using assms(1) by (simp add: fresh_tree_def PTree_new_def)
  then have "nodes (processTree g) \<noteq> Map.empty" by auto
  moreover have "tracks (ptreeNode_of g) (PTree_new st)" using assms(3) by (simp add: tracks_def state_at_new)
  ultimately show "engine_ok g" using assms(2) same_shape_ok [OF ptree_ok_new sh] tracks_shape [OF sh] by (simp add: engine_ok_def)
  show "attached g = {st}" using same_shape_state_at [OF sh] by (simp add: attached_def state_at_new)
qed

lemma constructUserSearcher_ok:
  assumes "fresh_tree st 0 g" "rng_ok (theRNG g)" "ptreeNode_of g = [st \<mapsto> 0]" "CoreSearch opts \<noteq> []" "count_list (CoreSearch opts) RandomPath \<le> 3"
  shows "succeeds (constructUserSearcher opts g) (\<lambda>(c, g'). engine_ok g' \<and> attached g' = {st} \<and> user_paused c = {} \<and> user_rep g' c {})"
proof -
  obtain ty tys where ty: "CoreSearch opts = ty # tys" using assms(4) by (cases "CoreSearch opts") auto
  let ?made = "getNewSearcher ty g \<bind> (\<lambda>(c, g). if tys \<noteq> [] then getNewSearchers tys g \<bind> (\<lambda>(cs, g). Some (Inr (c # cs, 1), g)) else Some (Inl c, g))"
  from getNewSearchers_ok [OF assms(1), of "ty # tys"] ty assms(5) obtain cs g1 where cs: "getNewSearchers (ty # tys) g = Some (cs, g1)"
    "theRNG g1 = theRNG g" "ptreeNode_of g1 = ptreeNode_of g" "fresh_tree st (count_list (ty # tys) RandomPath) g1" "length cs = length (ty # tys)"
    "masks_from 0 cs" "\<forall>c\<in>set cs. \<forall>k g. fresh_tree st k g \<longrightarrow> core_rep g c {}"
    by (auto elim!: succeedsE)
  have ok: "engine_ok g1" "attached g1 = {st}" using fresh_engine [OF cs(4)] cs(2,3) assms(2,3) by simp_all
  have "?made = Some (if tys \<noteq> [] then Inr (cs, 1) else Inl (hd cs), g1)"
    using cs(1) by (auto simp: bind_eq_Some_conv split: if_splits)
  moreover have "chosen_rep g1 (if tys \<noteq> [] then Inr (cs, 1) else Inl (hd cs)) {}"
    using cs(4-7) by (cases cs) (auto simp: chosen_rep_def either_rep_def interleaved_rep_def masks_from_def)
  ultimately obtain ch where ch: "?made = Some (ch, g1)" "chosen_rep g1 ch {}" by blast
  have run: "constructUserSearcher opts g = Some (let b = (if UseBatchingSearch opts then Inr (BatchingSearcher_new ch (BatchTime opts) (BatchInstructions opts)) else Inl ch)
      in if UseIterativeDeepeningTimeSearch opts then Inr (IterativeDeepeningTimeSearcher_new b) else Inl b, g1)"
    using ch(1) by (auto simp: constructUserSearcher_def ty bind_eq_Some_conv Let_def split: if_splits)
  with ch(2) ok show ?thesis
    by (simp add: Let_def user_rep_def batched_rep_def either_rep_def deepening_rep_def batching_rep_def BatchingSearcher_new_def
        IterativeDeepeningTimeSearcher_new_def user_paused_def)
qed

text \<open>C36: the searchers never lose a state. The searcher that the options ask for (a core searcher, depth first, breadth first,
  random or on random paths, or several in turn, in batches or not, deepening or not) can be constructed with up to
  three searchers on random paths, and then represents the empty set of states. From then on it represents a set of states:
  it is empty exactly if there are none, otherwise \<open>selectState\<close> returns one of them, and \<open>update\<close> adds and
  removes exactly the states it is told about. No assertion of the searchers fails, and what
  they share with the engine stays consistent.\<close>

theorem searchers_keep_states:
  "(fresh_tree st 0 g \<and> rng_ok (theRNG g) \<and> ptreeNode_of g = [st \<mapsto> 0] \<and> CoreSearch opts \<noteq> [] \<and> count_list (CoreSearch opts) RandomPath \<le> 3 \<longrightarrow>
      succeeds (constructUserSearcher opts g) (\<lambda>(c, g'). engine_ok g' \<and> attached g' = {st} \<and> user_paused c = {} \<and> user_rep g' c {}))
    \<and> (engine_ok g \<and> user_rep g c S \<and> S \<noteq> {} \<longrightarrow>
        succeeds (selectState UserSearcher g c) (\<lambda>(st, c', g'). st \<in> S \<and> st \<notin> user_paused c' \<and> user_rep g' c' S \<and> engine_step g g'))
    \<and> (engine_ok g \<and> user_rep g c S \<and> changes g (user_paused c) S current added removed \<longrightarrow>
        succeeds (update UserSearcher current added removed g c) (\<lambda>(c', g'). user_rep g' c' (S \<union> set added - set removed) \<and> engine_step g g'))
    \<and> (engine_ok g \<and> user_rep g c S \<longrightarrow> (isEmpty UserSearcher g c \<longleftrightarrow> S = {}))"
  using constructUserSearcher_ok user.select user.updates user.is_empty by blast

definition ex_engine :: engine where
  "ex_engine = \<lparr>theRNG = RNG_seed 5489, processTree = PTree_new 7, ptreeNode_of = [7 \<mapsto> 0], wallTime = 0, instructions = 0\<rparr>"

definition ex_options :: search_options where
  "ex_options = \<lparr>CoreSearch = [DFS, RandomPath], UseBatchingSearch = True, BatchTime = 5000000, BatchInstructions = 10000,
     UseIterativeDeepeningTimeSearch = True\<rparr>"

theorem searchers_keep_states_witness:
  "\<exists>c g c' g' c'' g''. constructUserSearcher ex_options ex_engine = Some (c, g)
     \<and> update UserSearcher None [7] [] g c = Some (c', g') \<and> selectState UserSearcher g' c' = Some (7, c'', g'')"
proof -
  have "fresh_tree 7 0 ex_engine" by (simp add: fresh_tree_def ex_engine_def PTree_new_def)
  moreover have "rng_ok (theRNG ex_engine)" "ptreeNode_of ex_engine = [7 \<mapsto> 0]" by (simp_all add: ex_engine_def rng_ok_seed)
  ultimately obtain c g where c: "constructUserSearcher ex_options ex_engine = Some (c, g)"
      "engine_ok g" "attached g = {7}" "user_paused c = {}" "user_rep g c {}"
    using searchers_keep_states [of 7 ex_engine ex_options, THEN conjunct1] by (auto simp: ex_options_def elim!: succeedsE)
  have "changes g (user_paused c) {} None [7] []" using c(3) by (simp add: changes_def)
  then obtain c' g' where c': "update UserSearcher None [7] [] g c = Some (c', g')" "user_rep g' c' {7}" "engine_step g g'"
    using searchers_keep_states [of undefined g undefined c "{}" None "[7]" "[]", THEN conjunct2, THEN conjunct2, THEN conjunct1] c(2,5)
    by (auto elim!: succeedsE)
  then obtain c'' g'' where "selectState UserSearcher g' c' = Some (7, c'', g'')"
    using searchers_keep_states [of undefined g' undefined c' "{7}", THEN conjunct2, THEN conjunct1] engine_stepD(1)
    by (auto elim!: succeedsE)
  with c(1) c'(1) show ?thesis by blast
qed

end
