(* ===== verification/ExecutorStates.thy ===== *)
theory ExecutorStates
  imports ExecutionState Searcher
begin

text \<open>
  The states of the engine, from \<^verbatim>\<open>lib/Core/Executor.cpp\<close>: how states are added, terminated and handed to the
  searcher. A state is known by its address; the states live in a heap, and \<open>operator new\<close> may return any address
  that is not in use, also one of a deleted state: it is an argument of the operations that allocate. Seeds are not
  modelled (\<open>seedMap\<close> is empty), nor is what the operations report to the user.
  \<open>None\<close> is a failed assertion or undefined behaviour.
\<close>

section \<open>The model\<close>

record executor =
  es_heap :: "nat \<Rightarrow> ExecutionState option"
  states :: "nat set"
  addedStates :: "nat list"
  removedStates :: "nat list"
  eng :: engine
  searcher_of :: "user_searcher option"
  nextID :: nat
  forks :: nat
  atMemoryLimit :: bool
  inhibitForking :: bool
  replayPosition :: nat
  pathsExplored :: nat
  haltExecution :: bool
  BB_targetBB_counter :: "string \<Rightarrow> int option"

text \<open>\<open>delete &state\<close>, after its node was removed from the process tree.\<close>

definition deleteState :: "bool \<Rightarrow> nat \<Rightarrow> executor \<Rightarrow> executor option" where
  "deleteState compressProcessTree st x =
     ptreeNode_of (eng x) st \<bind> (\<lambda>n.
     PTree_remove compressProcessTree (processTree (eng x)) n \<bind> (\<lambda>t.
     Some (x\<lparr>es_heap := (es_heap x)(st := None), eng := (eng x)\<lparr>processTree := t, ptreeNode_of := (ptreeNode_of (eng x))(st := None)\<rparr>\<rparr>)))"

definition terminateState :: "bool \<Rightarrow> nat \<Rightarrow> executor \<Rightarrow> executor option" where
  "terminateState compressProcessTree st x =
     es_heap x st \<bind> (\<lambda>s.
     let x = x\<lparr>pathsExplored := pathsExplored x + 1\<rparr> in
     if st \<notin> set (addedStates x)
     then Some (x\<lparr>es_heap := (es_heap x)(st \<mapsto> s\<lparr>pc := prevPC s\<rparr>), removedStates := removedStates x @ [st]\<rparr>)
     else deleteState compressProcessTree st (x\<lparr>addedStates := remove1 st (addedStates x)\<rparr>))"

text \<open>
  What \<open>fork\<close> and \<open>branch\<close> do to create a state: \<open>branch()\<close>, \<open>addedStates.push_back\<close> and \<open>processTree->attach\<close>, which stores the new
  nodes in the states. \<open>ns\<close> is the address of the new state.
\<close>

definition branchState :: "nat \<Rightarrow> nat \<Rightarrow> executor \<Rightarrow> executor option" where
  "branchState st ns x =
     (if es_heap x ns \<noteq> None then None
      else es_heap x st \<bind> (\<lambda>s.
        ExecutionState_branch s (nextID x) \<bind> (\<lambda>(s, f, next).
        let x = x\<lparr>es_heap := (es_heap x)(st \<mapsto> s, ns \<mapsto> f), nextID := next, addedStates := addedStates x @ [ns]\<rparr>; g = eng x in
        ptreeNode_of g st \<bind> (\<lambda>n.
        PTree_attach (processTree g) n ns st (ptreeNode_of g st) \<bind> (\<lambda>(l, r, t).
        Some (x\<lparr>eng := g\<lparr>processTree := t, ptreeNode_of := (ptreeNode_of g)(ns \<mapsto> l, st \<mapsto> r)\<rparr>\<rparr>))))))"

fun eraseStates :: "bool \<Rightarrow> nat list \<Rightarrow> executor \<Rightarrow> executor option" where
  "eraseStates cp [] x = Some x"
| "eraseStates cp (st # ss) x =
     (if st \<notin> states x then None else deleteState cp st (x\<lparr>states := states x - {st}\<rparr>) \<bind> eraseStates cp ss)"

definition updateSearcher :: "nat option \<Rightarrow> nat list \<Rightarrow> nat list \<Rightarrow> executor \<Rightarrow> executor option" where
  "updateSearcher current news olds x =
     (case searcher_of x of
        None \<Rightarrow> Some x
      | Some c \<Rightarrow> update UserSearcher current news olds (eng x) c \<bind> (\<lambda>(c, g). Some (x\<lparr>searcher_of := Some c, eng := g\<rparr>)))"

definition updateStates :: "bool \<Rightarrow> nat option \<Rightarrow> executor \<Rightarrow> executor option" where
  "updateStates cp current x =
     updateSearcher current (addedStates x) (removedStates x) x \<bind> (\<lambda>x.
     eraseStates cp (removedStates x) (x\<lparr>states := states x \<union> set (addedStates x), addedStates := []\<rparr>) \<bind> (\<lambda>x.
     Some (x\<lparr>removedStates := []\<rparr>)))"

definition selectNext :: "executor \<Rightarrow> (nat \<times> executor) option" where
  "selectNext x = searcher_of x \<bind> (\<lambda>c. selectState UserSearcher (eng x) c \<bind> (\<lambda>(st, c, g). Some (st, x\<lparr>searcher_of := Some c, eng := g\<rparr>)))"

text \<open>The set \<open>states\<close> is ordered by \<open>ExecutionStateIDCompare\<close>.\<close>

definition state_order :: "executor \<Rightarrow> nat list" where
  "state_order x = sort_key (\<lambda>st. case es_heap x st of Some s \<Rightarrow> state_id s | None \<Rightarrow> 0) (sorted_list_of_set (states x))"

text \<open>The search for states to kill when the memory limit is exceeded. The usage is an argument, in MB.\<close>

fun killStates :: "bool \<Rightarrow> nat \<Rightarrow> nat list \<Rightarrow> executor \<Rightarrow> executor option" where
  "killStates cp 0 arr x = Some x"
| "killStates cp (Suc toKill) arr x =
     (if arr = [] then Some x
      else let N = length arr in
        RNG_getInt32 (theRNG (eng x)) \<bind> (\<lambda>(y, rng).
        let idx = unat y mod N; x = x\<lparr>eng := (eng x)\<lparr>theRNG := rng\<rparr>\<rparr> in
        es_heap x (arr ! idx) \<bind> (\<lambda>s.
        (if coveredNew s
         then RNG_getInt32 (theRNG (eng x)) \<bind> (\<lambda>(y, rng). Some (unat y mod N, x\<lparr>eng := (eng x)\<lparr>theRNG := rng\<rparr>\<rparr>))
         else Some (idx, x)) \<bind> (\<lambda>(idx, x).
        let arr = (arr[idx := arr ! (N - 1)])[N - 1 := arr ! idx] in
        terminateState cp (arr ! (N - 1)) x \<bind> killStates cp toKill (butlast arr)))))"

definition checkMemoryUsage :: "bool \<Rightarrow> nat \<Rightarrow> nat \<Rightarrow> executor \<Rightarrow> (bool \<times> executor) option" where
  "checkMemoryUsage cp MaxMemory totalUsage x =
     (if MaxMemory = 0 \<or> instructions (eng x) mod 65536 \<noteq> 0 then Some (True, x)
      else let x = x\<lparr>atMemoryLimit := totalUsage > MaxMemory\<rparr> in
        if \<not> atMemoryLimit x \<or> totalUsage \<le> MaxMemory + 100 then Some (True, x)
        else let numStates = card (states x); toKill = max 1 (numStates - numStates * MaxMemory div totalUsage) in
          killStates cp toKill (state_order x) x \<bind> (\<lambda>x. Some (False, x)))"

text \<open>The engine when \<open>runFunctionAsMain\<close> calls \<open>run\<close>, and the beginning of \<open>run\<close>.\<close>

definition Executor_new :: "RNG \<Rightarrow> nat \<Rightarrow> ExecutionState \<Rightarrow> nat \<Rightarrow> executor" where
  "Executor_new rng st s next =
     \<lparr>es_heap = [st \<mapsto> s], states = {}, addedStates = [], removedStates = [],
      eng = \<lparr>theRNG = rng, processTree = PTree_new st, ptreeNode_of = [st \<mapsto> 0], wallTime = 0, instructions = 0\<rparr>,
      searcher_of = None, nextID = next, forks = 0, atMemoryLimit = False, inhibitForking = False, replayPosition = 0, pathsExplored = 0,
      haltExecution = False, BB_targetBB_counter = Map.empty\<rparr>"

definition run_start :: "search_options \<Rightarrow> nat \<Rightarrow> executor \<Rightarrow> executor option" where
  "run_start opts st x =
     (let x = x\<lparr>states := insert st (states x)\<rparr> in
      constructUserSearcher opts (eng x) \<bind> (\<lambda>(c, g).
      update UserSearcher None (state_order x) [] g c \<bind> (\<lambda>(c, g).
      Some (x\<lparr>searcher_of := Some c, eng := g\<rparr>))))"

text \<open>The end of \<open>run\<close>: the searcher is deleted, and the remaining states are terminated if \<open>DumpStatesOnHalt\<close> is set.\<close>

fun terminateAll :: "bool \<Rightarrow> nat list \<Rightarrow> executor \<Rightarrow> executor option" where
  "terminateAll cp [] x = Some x"
| "terminateAll cp (st # ss) x = terminateState cp st x \<bind> terminateAll cp ss"

definition doDumpStates :: "bool \<Rightarrow> bool \<Rightarrow> executor \<Rightarrow> executor option" where
  "doDumpStates DumpStatesOnHalt cp x =
     (if \<not> DumpStatesOnHalt \<or> states x = {} then Some x else terminateAll cp (state_order x) x \<bind> updateStates cp None)"

definition run_end :: "bool \<Rightarrow> bool \<Rightarrow> executor \<Rightarrow> executor option" where
  "run_end DumpStatesOnHalt cp x = doDumpStates DumpStatesOnHalt cp (x\<lparr>searcher_of := None\<rparr>)"

text \<open>
  The main loop of \<open>run\<close>. An instruction branches and terminates states that are not terminated already, changes
  them, counts branches and may halt the engine; what it executes is left open. After it the searcher is told about the states, the memory is checked, and
  the engine halts if its time is over.
\<close>

datatype phase = Idle executor | Busy nat executor

definition live :: "executor \<Rightarrow> nat set" where
  "live x = states x \<union> set (addedStates x) - set (removedStates x)"

inductive run_loop :: "bool \<Rightarrow> nat \<Rightarrow> executor \<Rightarrow> phase \<Rightarrow> bool" for cp MaxMemory x0 where
  start: "run_loop cp MaxMemory x0 (Idle x0)"
| select: "run_loop cp MaxMemory x0 (Idle x) \<Longrightarrow> states x \<noteq> {} \<Longrightarrow> \<not> haltExecution x \<Longrightarrow> selectNext x = Some (st, x') \<Longrightarrow> run_loop cp MaxMemory x0 (Busy st x')"
| branch: "run_loop cp MaxMemory x0 (Busy st x) \<Longrightarrow> k \<in> live x \<Longrightarrow> branchState k ns x = Some x' \<Longrightarrow> run_loop cp MaxMemory x0 (Busy st x')"
| terminate: "run_loop cp MaxMemory x0 (Busy st x) \<Longrightarrow> k \<in> live x \<Longrightarrow> terminateState cp k x = Some x' \<Longrightarrow> run_loop cp MaxMemory x0 (Busy st x')"
| change: "run_loop cp MaxMemory x0 (Busy st x) \<Longrightarrow> k \<in> live x \<Longrightarrow> state_ok s \<Longrightarrow> run_loop cp MaxMemory x0 (Busy st (x\<lparr>es_heap := (es_heap x)(k \<mapsto> s)\<rparr>))"
| count: "run_loop cp MaxMemory x0 (Busy st x) \<Longrightarrow> run_loop cp MaxMemory x0 (Busy st (x\<lparr>BB_targetBB_counter := c\<rparr>))"
| halt: "run_loop cp MaxMemory x0 (Busy st x) \<Longrightarrow> run_loop cp MaxMemory x0 (Busy st (x\<lparr>haltExecution := True\<rparr>))"
| timeout: "run_loop cp MaxMemory x0 (Idle x) \<Longrightarrow> run_loop cp MaxMemory x0 (Idle (x\<lparr>haltExecution := True\<rparr>))"
| finish: "run_loop cp MaxMemory x0 (Busy st x) \<Longrightarrow> updateStates cp (Some st) x = Some x' \<Longrightarrow> run_loop cp MaxMemory x0 (Idle x')"
| memory_ok: "run_loop cp MaxMemory x0 (Idle x) \<Longrightarrow> checkMemoryUsage cp MaxMemory usage x = Some (True, x') \<Longrightarrow> run_loop cp MaxMemory x0 (Idle x')"
| memory: "run_loop cp MaxMemory x0 (Idle x) \<Longrightarrow> states x \<noteq> {} \<Longrightarrow> checkMemoryUsage cp MaxMemory usage x = Some (False, x1) \<Longrightarrow>
    updateStates cp None x1 = Some x' \<Longrightarrow> run_loop cp MaxMemory x0 (Idle x')"

section \<open>The invariant\<close>

text \<open>
  The live states are at the leaves of the process tree and in the heap; the searcher has some of them.
\<close>

definition live_ok :: "nat set \<Rightarrow> nat set \<Rightarrow> executor \<Rightarrow> bool" where
  "live_ok L S x \<longleftrightarrow> rng_ok (theRNG (eng x)) \<and> ptree_ok (processTree (eng x)) \<and> tracks (ptreeNode_of (eng x)) (processTree (eng x))
     \<and> attached (eng x) = L \<and> dom (es_heap x) = L \<and> S \<subseteq> L
     \<and> (\<forall>st s. es_heap x st = Some s \<longrightarrow> state_ok s) \<and> (\<forall>c. searcher_of x = Some c \<longrightarrow> user_rep (eng x) c S)"

definition executor_ok :: "executor \<Rightarrow> bool" where
  "executor_ok x \<longleftrightarrow> live_ok (states x \<union> set (addedStates x)) (states x) x
     \<and> finite (states x) \<and> distinct (addedStates x) \<and> states x \<inter> set (addedStates x) = {}
     \<and> distinct (removedStates x) \<and> set (removedStates x) \<subseteq> states x"

lemma live_okD:
  assumes "live_ok L S x"
  shows "rng_ok (theRNG (eng x))" "ptree_ok (processTree (eng x))" "tracks (ptreeNode_of (eng x)) (processTree (eng x))"
    "attached (eng x) = L" "dom (es_heap x) = L" "S \<subseteq> L" "es_heap x st = Some s \<Longrightarrow> state_ok s" "searcher_of x = Some c \<Longrightarrow> user_rep (eng x) c S"
  using assms unfolding live_ok_def by blast+

lemma executor_okD:
  assumes "executor_ok x"
  shows "live_ok (states x \<union> set (addedStates x)) (states x) x" "finite (states x)" "distinct (addedStates x)" "states x \<inter> set (addedStates x) = {}"
    "distinct (removedStates x)" "set (removedStates x) \<subseteq> states x"
  using assms unfolding executor_ok_def by blast+

lemma ran_remove:
  assumes "m n = Some v" "\<And>k. m k = Some v \<Longrightarrow> k = n"
  shows "ran (m(n := None)) = ran m - {v}"
proof
  show "ran (m(n := None)) \<subseteq> ran m - {v}"
  proof
    fix w assume "w \<in> ran (m(n := None))"
    then obtain k where k: "k \<noteq> n" "m k = Some w" by (auto simp: ran_def split: if_splits)
    with assms(2) have "w \<noteq> v" by blast
    with k(2) show "w \<in> ran m - {v}" by (simp add: ranI)
  qed
  show "ran m - {v} \<subseteq> ran (m(n := None))"
  proof
    fix w assume "w \<in> ran m - {v}"
    then obtain k where "m k = Some w" "w \<noteq> v" by (auto simp: ran_def)
    with assms(1) show "w \<in> ran (m(n := None))" by (intro ranI [of _ k]) auto
  qed
qed

lemma ran_split:
  assumes "m n = Some v" "m l = None" "m r = None" "l \<noteq> r"
  shows "ran (m(n := None, l \<mapsto> a, r \<mapsto> v)) = insert a (ran m)"
proof (rule set_eqI)
  fix w
  have "(\<exists>k. (m(n := None, l \<mapsto> a, r \<mapsto> v)) k = Some w) \<longleftrightarrow> w = a \<or> (\<exists>k. m k = Some w)"
  proof
    assume "\<exists>k. (m(n := None, l \<mapsto> a, r \<mapsto> v)) k = Some w"
    then show "w = a \<or> (\<exists>k. m k = Some w)" using assms(1) by (auto split: if_splits)
  next
    assume "w = a \<or> (\<exists>k. m k = Some w)"
    then consider "w = a" | "w = v" | k where "m k = Some w" "k \<noteq> n" using assms(1) by (metis option.inject)
    then show "\<exists>k. (m(n := None, l \<mapsto> a, r \<mapsto> v)) k = Some w"
    proof cases
      case 1
      with assms(4) show ?thesis by (intro exI [of _ l]) simp
    next
      case 2
      then show ?thesis by (intro exI [of _ r]) simp
    next
      case 3
      with assms show ?thesis by (intro exI [of _ k]) auto
    qed
  qed
  then show "w \<in> ran (m(n := None, l \<mapsto> a, r \<mapsto> v)) \<longleftrightarrow> w \<in> insert a (ran m)" by (simp add: ran_def)
qed

text \<open>The leaf of a state.\<close>

lemma attached_node:
  assumes "tracks pt (processTree g)" "st \<in> attached g"
  obtains n where "state_at (processTree g) n = Some st" "pt st = Some n"
  using assms by (auto simp: attached_def ran_def tracks_def)

text \<open>A searcher keeps its states if the tags of the tree stay right.\<close>

lemma user_rep_frame:
  assumes rep: "user_rep g c S" and sub: "S \<subseteq> attached g'"
    and own: "\<And>m T. T \<subseteq> S \<Longrightarrow> owned m T (processTree g) \<Longrightarrow> owned m T (processTree g')"
  shows "user_rep g' c S"
proof -
  have path: "path_rep g m T \<Longrightarrow> T \<subseteq> S \<Longrightarrow> path_rep g' m T" for m T using own sub by (auto simp: path_rep_def)
  have core: "core_rep g d T \<Longrightarrow> T \<subseteq> S \<Longrightarrow> core_rep g' d T" for d T
    using path by (auto simp: core_rep_def list_rep_def split: core.splits)
  have chosen: "chosen_rep g d T \<Longrightarrow> T \<subseteq> S \<Longrightarrow> chosen_rep g' d T" for d T
    using core by (cases d) (auto simp: chosen_rep_def either_rep_def interleaved_rep_def)
  have batched: "batched_rep g d T \<Longrightarrow> T \<subseteq> S \<Longrightarrow> batched_rep g' d T" for d T
    using chosen by (cases d) (auto simp: batched_rep_def either_rep_def batching_rep_def)
  show ?thesis
  proof (cases c)
    case (Inl d)
    with rep batched show ?thesis by (simp add: user_rep_def either_rep_def)
  next
    case (Inr d)
    with rep batched [of "d_base d" "S - pausedStates d"] sub show ?thesis by (auto simp: user_rep_def either_rep_def deepening_rep_def)
  qed
qed

lemma user_rep_subset:
  assumes "user_rep g c S" shows "finite S"
  using assms by (rule user.rep_attached)

section \<open>Every operation keeps the invariant\<close>

lemma deleteState_ok:
  assumes ok: "live_ok L S x" and st: "st \<in> L" "st \<notin> S"
  shows "succeeds (deleteState cp st x) (\<lambda>x'. live_ok (L - {st}) S x'
    \<and> x' = x\<lparr>es_heap := (es_heap x)(st := None), eng := eng x'\<rparr>)"
proof -
  note d = live_okD [OF ok]
  from attached_node [OF d(3), of st] d(4) st(1) obtain n where n: "state_at (processTree (eng x)) n = Some st" "ptreeNode_of (eng x) st = Some n"
    by blast
  from remove_ok [OF d(2), of n cp] n(1) obtain t where t: "PTree_remove cp (processTree (eng x)) n = Some t" "ptree_ok t"
    "state_at t = (state_at (processTree (eng x)))(n := None)" by (auto elim: succeedsE)
  let ?g = "(eng x)\<lparr>processTree := t, ptreeNode_of := (ptreeNode_of (eng x))(st := None)\<rparr>"
  let ?x = "x\<lparr>es_heap := (es_heap x)(st := None), eng := ?g\<rparr>"
  have only: "state_at (processTree (eng x)) k = Some st \<Longrightarrow> k = n" for k using d(3) n by (auto simp: tracks_def)
  have tr: "tracks (ptreeNode_of ?g) t" using d(3) only by (auto simp: tracks_def t(3))
  have at: "attached ?g = L - {st}" using ran_remove [of "state_at (processTree (eng x))", OF n(1) only] d(4) by (simp add: attached_def t(3))
  have rep: "user_rep ?g c S" if "searcher_of x = Some c" for c
  proof (rule user_rep_frame [OF d(8) [OF that]])
    show "S \<subseteq> attached ?g" using at d(6) st(2) by auto
    show "owned m T (processTree ?g)" if "T \<subseteq> S" "owned m T (processTree (eng x))" for m T
      using remove_owned [OF d(2) that(2) n(1) _ t(1)] that(1) st(2) by auto
  qed
  have "live_ok (L - {st}) S ?x"
    unfolding live_ok_def using d(1) t(2) tr at
  proof (intro conjI)
    show "dom (es_heap ?x) = L - {st}" using d(5) by simp
    show "S \<subseteq> L - {st}" using d(6) st(2) by blast
    show "\<forall>k s. es_heap ?x k = Some s \<longrightarrow> state_ok s" using d(7) by simp
    show "\<forall>c. searcher_of ?x = Some c \<longrightarrow> user_rep (eng ?x) c S" using rep by simp
  qed simp_all
  then show ?thesis using n(2) t(1) by (simp add: deleteState_def)
qed

lemma branchState_ok:
  assumes ok: "live_ok L S x" and st: "st \<in> L" "ns \<notin> L"
  shows "succeeds (branchState st ns x) (\<lambda>x'. live_ok (insert ns L) S x'
    \<and> (\<exists>s t f next. es_heap x st = Some s \<and> ExecutionState_branch s (nextID x) = Some (t, f, next)
        \<and> x' = x\<lparr>es_heap := (es_heap x)(st \<mapsto> t, ns \<mapsto> f), nextID := next, addedStates := addedStates x @ [ns], eng := eng x'\<rparr>))"
proof -
  note d = live_okD [OF ok]
  from d(5) st obtain s where s: "es_heap x st = Some s" "es_heap x ns = None" by auto
  from branch_returns [OF d(7) [OF s(1)]] obtain t f nx where b: "ExecutionState_branch s (nextID x) = Some (t, f, nx)" by blast
  note bo = branch_ok [OF d(7) [OF s(1)] b]
  from attached_node [OF d(3), of st] d(4) st(1) obtain n where n: "state_at (processTree (eng x)) n = Some st" "ptreeNode_of (eng x) st = Some n"
    by blast
  from attach_ok [OF d(2) n(1), of ns] obtain l r tr where a: "PTree_attach (processTree (eng x)) n ns st (Some n) = Some (l, r, tr)"
    "ptree_ok tr" "l \<noteq> r" "nodes (processTree (eng x)) l = None" "nodes (processTree (eng x)) r = None"
    "state_at tr = (state_at (processTree (eng x)))(n := None, l \<mapsto> ns, r \<mapsto> st)" by (auto elim: succeedsE)
  let ?g = "(eng x)\<lparr>processTree := tr, ptreeNode_of := (ptreeNode_of (eng x))(ns \<mapsto> l, st \<mapsto> r)\<rparr>"
  let ?x = "x\<lparr>es_heap := (es_heap x)(st \<mapsto> t, ns \<mapsto> f), nextID := nx, addedStates := addedStates x @ [ns], eng := ?g\<rparr>"
  have only: "state_at (processTree (eng x)) k = Some st \<Longrightarrow> k = n" for k using d(3) n by (auto simp: tracks_def)
  have no: "state_at (processTree (eng x)) k \<noteq> Some ns" for k using d(4) st(2) by (auto simp: attached_def ran_def)
  have free: "state_at (processTree (eng x)) l = None" "state_at (processTree (eng x)) r = None" using a(4,5) by (simp_all add: state_at_def)
  have ne: "st \<noteq> ns" using st by auto
  have tk: "tracks (ptreeNode_of ?g) tr" using d(3) only no ne a(3) by (auto simp: tracks_def a(6) split: if_splits)
  have at: "attached ?g = insert ns L"
    using ran_split [of "state_at (processTree (eng x))", OF n(1) free a(3)] d(4) by (simp add: attached_def a(6))
  have rep: "user_rep ?g c S" if "searcher_of x = Some c" for c
  proof (rule user_rep_frame [OF d(8) [OF that]])
    show "S \<subseteq> attached ?g" using at d(6) by auto
    show "owned m T (processTree ?g)" if "T \<subseteq> S" "owned m T (processTree (eng x))" for m T
      using attach_owned [OF d(2) that(2) n(1) _ a(1)] that(1) st(2) d(6) by auto
  qed
  have "live_ok (insert ns L) S ?x"
    unfolding live_ok_def using d(1) a(2) tk at
  proof (intro conjI)
    show "dom (es_heap ?x) = insert ns L" using d(5) st(1) by auto
    show "S \<subseteq> insert ns L" using d(6) by blast
    show "\<forall>k s. es_heap ?x k = Some s \<longrightarrow> state_ok s" using d(7) bo(6,7) by simp
    show "\<forall>c. searcher_of ?x = Some c \<longrightarrow> user_rep (eng ?x) c S" using rep by simp
  qed simp_all
  then show ?thesis using n(2) a(1) s b ne by (auto simp: branchState_def Let_def)
qed

lemma live_ok_fields [simp]:
  "live_ok L S (x\<lparr>states := a\<rparr>) = live_ok L S x" "live_ok L S (x\<lparr>addedStates := b\<rparr>) = live_ok L S x"
  "live_ok L S (x\<lparr>removedStates := b\<rparr>) = live_ok L S x" "live_ok L S (x\<lparr>pathsExplored := n\<rparr>) = live_ok L S x"
  "live_ok L S (x\<lparr>forks := n\<rparr>) = live_ok L S x" "live_ok L S (x\<lparr>replayPosition := n\<rparr>) = live_ok L S x"
  "live_ok L S (x\<lparr>atMemoryLimit := c\<rparr>) = live_ok L S x" "live_ok L S (x\<lparr>haltExecution := c\<rparr>) = live_ok L S x"
  "live_ok L S (x\<lparr>BB_targetBB_counter := m\<rparr>) = live_ok L S x"
  by (simp_all add: live_ok_def)

text \<open>A change of a state that keeps the shape of its stack.\<close>

lemma live_ok_heap:
  assumes "live_ok L S x" "st \<in> L" "state_ok s"
  shows "live_ok L S (x\<lparr>es_heap := (es_heap x)(st \<mapsto> s)\<rparr>)"
  using assms by (auto simp: live_ok_def)

lemma live_ok_rng:
  assumes "live_ok L S x" "rng_ok rng"
  shows "live_ok L S (x\<lparr>eng := (eng x)\<lparr>theRNG := rng\<rparr>\<rparr>)"
proof -
  note d = live_okD [OF assms(1)]
  have "user_rep ((eng x)\<lparr>theRNG := rng\<rparr>) c S" if "searcher_of x = Some c" for c
    by (rule user_rep_frame [OF d(8) [OF that]]) (use d(4,6) in \<open>simp_all add: attached_def\<close>)
  with assms d show ?thesis by (simp add: live_ok_def attached_def)
qed

lemma terminateState_ok:
  assumes ok: "executor_ok x" and st: "st \<in> states x \<union> set (addedStates x)" "st \<notin> set (removedStates x)"
  shows "succeeds (terminateState cp st x) (\<lambda>x'. executor_ok x' \<and> states x' = states x \<and> searcher_of x' = searcher_of x
    \<and> (if st \<in> states x then addedStates x' = addedStates x \<and> removedStates x' = removedStates x @ [st]
       else addedStates x' = remove1 st (addedStates x) \<and> removedStates x' = removedStates x)
    \<and> (\<forall>k. k \<noteq> st \<longrightarrow> es_heap x' k = es_heap x k) \<and> theRNG (eng x') = theRNG (eng x))"
proof -
  note e = executor_okD [OF ok]
  note d = live_okD [OF e(1)]
  obtain s where s: "es_heap x st = Some s" using d(5) st(1) by auto
  let ?x = "x\<lparr>pathsExplored := pathsExplored x + 1\<rparr>"
  show ?thesis
  proof (cases "st \<in> set (addedStates x)")
    case False
    let ?y = "?x\<lparr>es_heap := (es_heap x)(st \<mapsto> s\<lparr>pc := prevPC s\<rparr>), removedStates := removedStates x @ [st]\<rparr>"
    have "state_ok (s\<lparr>pc := prevPC s\<rparr>)" using d(7) [OF s] by (simp add: state_ok_def)
    from live_ok_heap [OF e(1) st(1) this] e(2-6) st False have "executor_ok ?y"
      by (auto simp: executor_ok_def live_ok_def attached_def)
    then show ?thesis using s False st(1) by (simp add: terminateState_def Let_def)
  next
    case True
    let ?y = "?x\<lparr>addedStates := remove1 st (addedStates x)\<rparr>"
    have "st \<notin> states x" using True e(4) by auto
    from deleteState_ok [of "states x \<union> set (addedStates x)" "states x" ?y st cp] e(1) st(1) this obtain x' where
      x': "deleteState cp st ?y = Some x'" "live_ok (states x \<union> set (addedStates x) - {st}) (states x) x'"
        "x' = ?y\<lparr>es_heap := (es_heap ?y)(st := None), eng := eng x'\<rparr>"
      by (auto elim: succeedsE)
    have eq: "states x' = states x" "addedStates x' = remove1 st (addedStates x)" "removedStates x' = removedStates x" "searcher_of x' = searcher_of x"
      "\<forall>k. k \<noteq> st \<longrightarrow> es_heap x' k = es_heap x k" by (subst x'(3), simp)+
    have L: "states x \<union> set (addedStates x) - {st} = states x' \<union> set (addedStates x')"
      using eq e(3) \<open>st \<notin> states x\<close> by auto
    have "executor_ok x'" using x'(2)[unfolded L] e(2-6) eq set_remove1_subset [of st "addedStates x"] by (auto simp: executor_ok_def)
    moreover have "theRNG (eng x') = theRNG (eng x)"
      using x'(1) by (auto simp: deleteState_def bind_eq_Some_conv)
    ultimately show ?thesis using s True x'(1) eq \<open>st \<notin> states x\<close> by (simp add: terminateState_def Let_def)
  qed
qed

lemma eraseStates_ok:
  assumes "live_ok (states x) S x" "distinct ss" "set ss \<subseteq> states x" "set ss \<inter> S = {}"
  shows "succeeds (eraseStates cp ss x) (\<lambda>x'. live_ok (states x') S x' \<and> states x' = states x - set ss
    \<and> addedStates x' = addedStates x \<and> removedStates x' = removedStates x \<and> searcher_of x' = searcher_of x
    \<and> (\<forall>k. k \<notin> set ss \<longrightarrow> es_heap x' k = es_heap x k))"
  using assms
proof (induction ss arbitrary: x)
  case (Cons st ss)
  from Cons.prems have "live_ok (states x) S (x\<lparr>states := states x - {st}\<rparr>)" "st \<in> states x" "st \<notin> S" by auto
  from deleteState_ok [OF this, of cp] obtain x1 where x1: "deleteState cp st (x\<lparr>states := states x - {st}\<rparr>) = Some x1"
    "live_ok (states x - {st}) S x1" "x1 = x\<lparr>states := states x - {st}, es_heap := (es_heap x)(st := None), eng := eng x1\<rparr>"
    by (auto elim: succeedsE)
  have eq: "states x1 = states x - {st}" "addedStates x1 = addedStates x" "removedStates x1 = removedStates x" "searcher_of x1 = searcher_of x"
    "es_heap x1 = (es_heap x)(st := None)" by (subst x1(3), simp)+
  have "set ss \<subseteq> states x1" using Cons.prems(2,3) eq(1) by auto
  from Cons.IH [of x1] x1(2) eq Cons.prems(2,4) this have
    "succeeds (eraseStates cp ss x1) (\<lambda>x'. live_ok (states x') S x' \<and> states x' = states x1 - set ss
      \<and> addedStates x' = addedStates x1 \<and> removedStates x' = removedStates x1 \<and> searcher_of x' = searcher_of x1
      \<and> (\<forall>k. k \<notin> set ss \<longrightarrow> es_heap x' k = es_heap x1 k))" by simp
  then have "succeeds (eraseStates cp ss x1) (\<lambda>x'. live_ok (states x') S x' \<and> states x' = states x - set (st # ss)
      \<and> addedStates x' = addedStates x \<and> removedStates x' = removedStates x \<and> searcher_of x' = searcher_of x
      \<and> (\<forall>k. k \<notin> set (st # ss) \<longrightarrow> es_heap x' k = es_heap x k))"
    by (rule succeeds_mono) (use eq in auto)
  then show ?case using x1(1) \<open>st \<in> states x\<close> by simp
qed simp

lemma live_engine_ok: "live_ok L S x \<Longrightarrow> L \<noteq> {} \<Longrightarrow> engine_ok (eng x)"
  by (auto simp: live_ok_def engine_ok_def attached_def state_at_def ran_def)

lemma live_ok_step:
  assumes ok: "live_ok L S x" and g: "engine_step (eng x) g" and rep: "user_rep g c S'" "S' \<subseteq> L"
  shows "live_ok L S' (x\<lparr>searcher_of := Some c, eng := g\<rparr>)"
  using assms engine_stepD [OF g] by (auto simp: live_ok_def engine_ok_def)

text \<open>The state that is running is one that the searcher may be told about.\<close>

definition running :: "executor \<Rightarrow> nat \<Rightarrow> bool" where
  "running x st \<longleftrightarrow> st \<in> states x \<and> (\<forall>c. searcher_of x = Some c \<longrightarrow> st \<notin> user_paused c)"

lemma updateStates_ok:
  assumes ok: "executor_ok x" and ne: "states x \<noteq> {}" and cur: "\<And>st. current = Some st \<Longrightarrow> running x st"
  shows "succeeds (updateStates cp current x) (\<lambda>x'. executor_ok x' \<and> states x' = states x \<union> set (addedStates x) - set (removedStates x)
    \<and> addedStates x' = [] \<and> removedStates x' = [] \<and> (searcher_of x' = None \<longleftrightarrow> searcher_of x = None)
    \<and> (\<forall>k. k \<notin> set (removedStates x) \<longrightarrow> es_heap x' k = es_heap x k))"
proof -
  note e = executor_okD [OF ok]
  let ?L = "states x \<union> set (addedStates x)" and ?S = "states x \<union> set (addedStates x) - set (removedStates x)"
  have "succeeds (updateSearcher current (addedStates x) (removedStates x) x) (\<lambda>x1. live_ok ?L ?S x1 \<and> states x1 = states x
    \<and> addedStates x1 = addedStates x \<and> removedStates x1 = removedStates x \<and> es_heap x1 = es_heap x \<and> (searcher_of x1 = None \<longleftrightarrow> searcher_of x = None))"
  proof (cases "searcher_of x")
    case None
    with e(1) show ?thesis by (auto simp: updateSearcher_def live_ok_def)
  next
    case (Some c)
    have "changes (eng x) (user_paused c) (states x) current (addedStates x) (removedStates x)"
      using e live_okD(4) [OF e(1)] cur Some by (auto simp: changes_def running_def)
    from user.updates [OF live_engine_ok [OF e(1)] live_okD(8) [OF e(1) Some] this] ne obtain c' g' where
      u: "update UserSearcher current (addedStates x) (removedStates x) (eng x) c = Some (c', g')" "user_rep g' c' ?S" "engine_step (eng x) g'"
      by (auto elim: succeedsE)
    from live_ok_step [OF e(1) u(3,2)] Some u(1) show ?thesis by (auto simp: updateSearcher_def)
  qed
  then obtain x1 where x1: "updateSearcher current (addedStates x) (removedStates x) x = Some x1" "live_ok ?L ?S x1" "states x1 = states x"
    "addedStates x1 = addedStates x" "removedStates x1 = removedStates x" "es_heap x1 = es_heap x" "searcher_of x1 = None \<longleftrightarrow> searcher_of x = None"
    by (auto elim: succeedsE)
  let ?y = "x1\<lparr>states := states x1 \<union> set (addedStates x1), addedStates := []\<rparr>"
  have "succeeds (eraseStates cp (removedStates x1) ?y) (\<lambda>x'. live_ok (states x') ?S x' \<and> states x' = states ?y - set (removedStates x1)
    \<and> addedStates x' = addedStates ?y \<and> removedStates x' = removedStates ?y \<and> searcher_of x' = searcher_of ?y
    \<and> (\<forall>k. k \<notin> set (removedStates x1) \<longrightarrow> es_heap x' k = es_heap ?y k))"
    by (rule eraseStates_ok) (use x1 e in auto)
  then obtain x2 where x2: "eraseStates cp (removedStates x1) ?y = Some x2" "live_ok (states x2) ?S x2" "states x2 = ?S"
    "addedStates x2 = []" "removedStates x2 = removedStates x" "searcher_of x2 = searcher_of x1" "\<forall>k. k \<notin> set (removedStates x) \<longrightarrow> es_heap x2 k = es_heap x k"
    using x1 by (auto elim: succeedsE)
  have "executor_ok (x2\<lparr>removedStates := []\<rparr>)" using x2 e(2) by (simp add: executor_ok_def)
  then show ?thesis using x1(1,7) x2 by (simp add: updateStates_def)
qed

lemma selectNext_ok:
  assumes ok: "executor_ok x" and ne: "states x \<noteq> {}" and c: "searcher_of x \<noteq> None"
  shows "succeeds (selectNext x) (\<lambda>(st, x'). executor_ok x' \<and> running x' st
    \<and> states x' = states x \<and> addedStates x' = addedStates x \<and> removedStates x' = removedStates x \<and> es_heap x' = es_heap x \<and> searcher_of x' \<noteq> None)"
proof -
  note e = executor_okD [OF ok]
  obtain c where c: "searcher_of x = Some c" using c by blast
  from user.select [OF live_engine_ok [OF e(1)] live_okD(8) [OF e(1) c] ne] ne obtain st c' g' where
    s: "selectState UserSearcher (eng x) c = Some (st, c', g')" "st \<in> states x" "st \<notin> user_paused c'" "user_rep g' c' (states x)" "engine_step (eng x) g'"
    by (auto elim: succeedsE)
  let ?y = "x\<lparr>searcher_of := Some c', eng := g'\<rparr>"
  have "live_ok (states x \<union> set (addedStates x)) (states x) ?y" by (rule live_ok_step [OF e(1) s(5,4)]) simp
  then have "executor_ok ?y" using e(2-6) by (simp add: executor_ok_def)
  then show ?thesis using c s by (simp add: selectNext_def running_def)
qed

lemma executor_ok_rng: "executor_ok x \<Longrightarrow> rng_ok rng \<Longrightarrow> executor_ok (x\<lparr>eng := (eng x)\<lparr>theRNG := rng\<rparr>\<rparr>)"
  using live_ok_rng by (simp add: executor_ok_def)

lemma swap_last:
  assumes "i < length arr"
  shows "set ((arr[i := arr ! (length arr - 1)])[length arr - 1 := arr ! i]) = set arr"
    "distinct ((arr[i := arr ! (length arr - 1)])[length arr - 1 := arr ! i]) = distinct arr"
    "((arr[i := arr ! (length arr - 1)])[length arr - 1 := arr ! i]) ! (length arr - 1) = arr ! i"
  using assms set_swap [of i arr "length arr - 1"] distinct_swap [of i arr "length arr - 1"] by simp_all

lemma state_order_set:
  assumes "finite (states x)"
  shows "set (state_order x) = states x" "distinct (state_order x)" "length (state_order x) = card (states x)"
  using assms by (simp_all add: state_order_def)

text \<open>Killing states marks as many of them as asked for, or all of them; each only once.\<close>

lemma killStates_ok:
  assumes "executor_ok x" "distinct arr" "set arr \<subseteq> states x - set (removedStates x)"
  shows "succeeds (killStates cp k arr x) (\<lambda>x'. executor_ok x' \<and> states x' = states x \<and> addedStates x' = addedStates x \<and> searcher_of x' = searcher_of x
    \<and> length (removedStates x') = length (removedStates x) + min k (length arr))"
  using assms
proof (induction k arbitrary: arr x)
  case (Suc k)
  show ?case
  proof (cases "arr = []")
    case False
    let ?N = "length arr"
    have pull: "\<exists>y rng. RNG_getInt32 (theRNG (eng z)) = Some (y, rng) \<and> rng_ok rng \<and> unat y mod ?N < ?N" if "executor_ok z" for z
      using RNG_getInt32_ok [OF live_okD(1) [OF executor_okD(1) [OF that]]] False by (auto elim!: succeedsE)
    from pull [OF Suc.prems(1)] obtain y rng where y: "RNG_getInt32 (theRNG (eng x)) = Some (y, rng)" "rng_ok rng" "unat y mod ?N < ?N" by blast
    let ?x = "x\<lparr>eng := (eng x)\<lparr>theRNG := rng\<rparr>\<rparr>"
    have ok1: "executor_ok ?x" by (rule executor_ok_rng [OF Suc.prems(1) y(2)])
    have "arr ! (unat y mod ?N) \<in> states x" using Suc.prems(3) nth_mem [OF y(3)] by blast
    then obtain s where s: "es_heap ?x (arr ! (unat y mod ?N)) = Some s"
      using live_okD(5) [OF executor_okD(1) [OF Suc.prems(1)]] by auto
    let ?choose = "if coveredNew s
         then RNG_getInt32 (theRNG (eng ?x)) \<bind> (\<lambda>(y, rng). Some (unat y mod ?N, ?x\<lparr>eng := (eng ?x)\<lparr>theRNG := rng\<rparr>\<rparr>))
         else Some (unat y mod ?N, ?x)"
    have "succeeds ?choose (\<lambda>(i, x2). i < ?N \<and> executor_ok x2 \<and> states x2 = states x \<and> addedStates x2 = addedStates x
      \<and> removedStates x2 = removedStates x \<and> searcher_of x2 = searcher_of x)"
    proof (cases "coveredNew s")
      case True
      from pull [OF ok1] obtain z rng' where z: "RNG_getInt32 (theRNG (eng ?x)) = Some (z, rng')" "rng_ok rng'" "unat z mod ?N < ?N" by blast
      with executor_ok_rng [OF ok1 z(2)] True show ?thesis by simp
    qed (use ok1 y(3) in simp)
    then obtain i x2 where c: "?choose = Some (i, x2)" "i < ?N" "executor_ok x2" "states x2 = states x" "addedStates x2 = addedStates x"
      "removedStates x2 = removedStates x" "searcher_of x2 = searcher_of x" by (auto elim: succeedsE)
    let ?arr = "(arr[i := arr ! (?N - 1)])[?N - 1 := arr ! i]"
    note sw = swap_last [OF c(2)]
    have len: "length ?arr = ?N" by simp
    then have ne: "?arr \<noteq> []" using False by (metis length_0_conv)
    have last: "last ?arr = arr ! i" using sw(3) len ne by (simp add: last_conv_nth)
    have set: "set ?arr = set arr" "distinct ?arr" using sw(1,2) Suc.prems(2) by simp_all
    have split: "?arr = butlast ?arr @ [arr ! i]" using append_butlast_last_id [OF ne] last by simp
    have mem: "arr ! i \<in> states x2" "arr ! i \<notin> set (removedStates x2)" using subsetD [OF Suc.prems(3) nth_mem [OF c(2)]] c(4,6) by simp_all
    from terminateState_ok [OF c(3) _ mem(2), of cp] mem(1) obtain x3 where t: "terminateState cp (arr ! i) x2 = Some x3" "executor_ok x3" "states x3 = states x2"
      "addedStates x3 = addedStates x2" "removedStates x3 = removedStates x2 @ [arr ! i]" "searcher_of x3 = searcher_of x2"
      by (auto elim: succeedsE)
    have di: "distinct (butlast ?arr)" using set(2) by (rule distinct_butlast)
    have notin: "arr ! i \<notin> set (butlast ?arr)" using set(2) by (subst (asm) split) simp
    have "set (butlast ?arr) \<subseteq> states x3 - set (removedStates x3)"
      using notin set(1) Suc.prems(3) t c in_set_butlastD [of _ ?arr] by auto
    from Suc.IH [OF t(2) di this] t c len have "succeeds (killStates cp k (butlast ?arr) x3) (\<lambda>x'. executor_ok x' \<and> states x' = states x
      \<and> addedStates x' = addedStates x \<and> searcher_of x' = searcher_of x \<and> length (removedStates x') = length (removedStates x) + min (Suc k) ?N)"
      using False by (elim succeeds_mono) (auto simp: min_def Suc_le_eq)
    moreover have "killStates cp (Suc k) arr x = killStates cp k (butlast ?arr) x3"
      using False y(1) s c(1) t(1) sw(3) by (simp add: Let_def)
    ultimately show ?thesis by simp
  qed (use Suc.prems in simp)
qed simp

lemma checkMemoryUsage_ok:
  assumes ok: "executor_ok x" and none: "removedStates x = []"
  shows "succeeds (checkMemoryUsage cp MaxMemory usage x) (\<lambda>(b, x'). executor_ok x' \<and> states x' = states x \<and> addedStates x' = addedStates x
    \<and> searcher_of x' = searcher_of x \<and> (b \<longrightarrow> removedStates x' = []) \<and> (\<not> b \<and> states x \<noteq> {} \<longrightarrow> removedStates x' \<noteq> []))"
proof -
  let ?x = "x\<lparr>atMemoryLimit := usage > MaxMemory\<rparr>" let ?n = "card (states x)" and ?arr = "state_order ?x"
  have ok': "executor_ok ?x" using ok by (simp add: executor_ok_def)
  have fin: "finite (states ?x)" using executor_okD(2) [OF ok] by simp
  note state_order = state_order_set [OF fin]
  have "succeeds (killStates cp (max 1 (?n - ?n * MaxMemory div usage)) ?arr ?x) (\<lambda>x'. executor_ok x' \<and> states x' = states ?x
    \<and> addedStates x' = addedStates ?x \<and> searcher_of x' = searcher_of ?x \<and> length (removedStates x') = length (removedStates ?x) + min (max 1 (?n - ?n * MaxMemory div usage)) (length ?arr))"
    by (rule killStates_ok [OF ok']) (use state_order fin none in simp_all)
  then obtain x' where "killStates cp (max 1 (?n - ?n * MaxMemory div usage)) ?arr ?x = Some x'" "executor_ok x'" "states x' = states x"
    "addedStates x' = addedStates x" "searcher_of x' = searcher_of x" "length (removedStates x') = min (max 1 (?n - ?n * MaxMemory div usage)) ?n"
    using none fin state_order(3) by (auto elim: succeedsE)
  moreover have "removedStates x' \<noteq> []" if "states x \<noteq> {}"
    using calculation(6) that fin card_gt_0_iff [of "states x"] by auto
  ultimately show ?thesis using ok ok' none by (cases "usage > MaxMemory") (simp_all add: checkMemoryUsage_def Let_def)
qed

lemma terminateAll_ok:
  assumes "executor_ok x" "distinct ss" "set ss \<subseteq> states x - set (removedStates x)"
  shows "succeeds (terminateAll cp ss x) (\<lambda>x'. executor_ok x' \<and> states x' = states x \<and> addedStates x' = addedStates x \<and> searcher_of x' = searcher_of x
    \<and> removedStates x' = removedStates x @ ss)"
  using assms
proof (induction ss arbitrary: x)
  case (Cons st ss)
  from Cons.prems have st: "st \<in> states x" "st \<notin> set (removedStates x)" by auto
  from terminateState_ok [OF Cons.prems(1) _ st(2), of cp] st(1) obtain y where y: "terminateState cp st x = Some y" "executor_ok y"
    "states y = states x" "addedStates y = addedStates x" "removedStates y = removedStates x @ [st]" "searcher_of y = searcher_of x"
    by (auto elim: succeedsE)
  from Cons.IH [OF y(2)] Cons.prems y show ?case by auto
qed simp

lemma run_end_ok:
  assumes ok: "executor_ok x" and none: "addedStates x = []" "removedStates x = []"
  shows "succeeds (run_end dump cp x) (\<lambda>x'. executor_ok x' \<and> states x' = (if dump then {} else states x) \<and> dom (es_heap x') = states x')"
proof -
  let ?x = "x\<lparr>searcher_of := None\<rparr>"
  have ok': "executor_ok ?x" using ok by (auto simp: executor_ok_def live_ok_def)
  have dom: "dom (es_heap y) = states y" if "executor_ok y" "addedStates y = []" for y
    using live_okD(5) [OF executor_okD(1) [OF that(1)]] that(2) by simp
  show ?thesis
  proof (cases "\<not> dump \<or> states x = {}")
    case True
    then show ?thesis using ok' dom [OF ok'] none by (auto simp: run_end_def doDumpStates_def)
  next
    case False
    have fin: "finite (states ?x)" using executor_okD(2) [OF ok] by simp
    note o = state_order_set [OF fin]
    from terminateAll_ok [OF ok' o(2), of cp] o none obtain y where y: "terminateAll cp (state_order ?x) ?x = Some y" "executor_ok y" "states y = states x"
      "addedStates y = []" "set (removedStates y) = states x" by (auto elim: succeedsE)
    from updateStates_ok [OF y(2), of None cp] False y obtain z where "updateStates cp None y = Some z" "executor_ok z" "states z = {}" "addedStates z = []"
      by (auto elim: succeedsE)
    with y False dom [of z] show ?thesis by (simp add: run_end_def doDumpStates_def)
  qed
qed

section \<open>The main loop\<close>

lemma executor_ok_branch:
  assumes ok: "executor_ok x" and k: "k \<in> live x" and ns: "es_heap x ns = None"
  shows "succeeds (branchState k ns x) (\<lambda>x'. executor_ok x' \<and> states x' = states x \<and> addedStates x' = addedStates x @ [ns]
    \<and> removedStates x' = removedStates x \<and> searcher_of x' = searcher_of x)"
proof -
  note e = executor_okD [OF ok]
  have ns': "ns \<notin> states x \<union> set (addedStates x)" using ns live_okD(5) [OF e(1)] by auto
  have k': "k \<in> states x \<union> set (addedStates x)" using k by (simp add: live_def)
  from branchState_ok [OF e(1) k' ns'] show ?thesis
  proof (rule succeeds_mono)
    fix x' assume "live_ok (insert ns (states x \<union> set (addedStates x))) (states x) x' \<and> (\<exists>s t f next. es_heap x k = Some s
      \<and> ExecutionState_branch s (nextID x) = Some (t, f, next)
      \<and> x' = x\<lparr>es_heap := (es_heap x)(k \<mapsto> t, ns \<mapsto> f), nextID := next, addedStates := addedStates x @ [ns], eng := eng x'\<rparr>)"
    then obtain h nx where l: "live_ok (insert ns (states x \<union> set (addedStates x))) (states x) x'"
      and x': "x' = x\<lparr>es_heap := h, nextID := nx, addedStates := addedStates x @ [ns], eng := eng x'\<rparr>" by blast
    have eq: "states x' = states x" "addedStates x' = addedStates x @ [ns]" "removedStates x' = removedStates x" "searcher_of x' = searcher_of x"
      by (subst x', simp)+
    have "states x' \<union> set (addedStates x') = insert ns (states x \<union> set (addedStates x))" using eq by auto
    with l e(2-6) ns' eq show "executor_ok x' \<and> states x' = states x \<and> addedStates x' = addedStates x @ [ns]
      \<and> removedStates x' = removedStates x \<and> searcher_of x' = searcher_of x" by (simp add: executor_ok_def)
  qed
qed

lemma executor_ok_change:
  assumes "executor_ok x" "k \<in> live x" "state_ok s"
  shows "executor_ok (x\<lparr>es_heap := (es_heap x)(k \<mapsto> s)\<rparr>)"
  using assms live_ok_heap [of "states x \<union> set (addedStates x)" "states x" x k s] by (auto simp: executor_ok_def live_def)

lemma executor_ok_fields [simp]:
  "executor_ok (x\<lparr>haltExecution := c\<rparr>) = executor_ok x" "executor_ok (x\<lparr>BB_targetBB_counter := m\<rparr>) = executor_ok x"
  "live (x\<lparr>haltExecution := c\<rparr>) = live x" "live (x\<lparr>BB_targetBB_counter := m\<rparr>) = live x"
  by (simp_all add: executor_ok_def live_def)

text \<open>What holds between instructions and during one.\<close>

definition phase_ok :: "phase \<Rightarrow> bool" where
  "phase_ok p = (case p of
     Idle x \<Rightarrow> executor_ok x \<and> addedStates x = [] \<and> removedStates x = [] \<and> searcher_of x \<noteq> None
   | Busy st x \<Rightarrow> executor_ok x \<and> running x st \<and> searcher_of x \<noteq> None)"

lemma updates_phase:
  assumes "executor_ok x" "searcher_of x \<noteq> None" "states x \<noteq> {}" "\<And>st. current = Some st \<Longrightarrow> running x st"
  shows "succeeds (updateStates cp current x) (\<lambda>x'. phase_ok (Idle x') \<and> states x' = live x)"
  by (rule succeeds_mono [OF updateStates_ok [OF assms(1,3,4)]]) (use assms(2) in \<open>auto simp: phase_ok_def live_def\<close>)

lemma run_loop_ok:
  assumes "run_loop cp MaxMemory x0 p" "phase_ok (Idle x0)"
  shows "phase_ok p"
  using assms
proof (induction rule: run_loop.induct)
  case (select x st x')
  then have x: "executor_ok x" "addedStates x = []" "removedStates x = []" "searcher_of x \<noteq> None" by (simp_all add: phase_ok_def)
  from succeedsD [OF selectNext_ok [OF x(1) select(2) x(4)] select(4)] show ?case by (simp add: phase_ok_def)
next
  case (branch st x k ns x')
  then have x: "executor_ok x" "running x st" "searcher_of x \<noteq> None" by (simp_all add: phase_ok_def)
  have "es_heap x ns = None" using branch(3) by (auto simp: branchState_def split: if_splits)
  from succeedsD [OF executor_ok_branch [OF x(1) branch(2) this] branch(3)] x show ?case by (simp add: phase_ok_def running_def)
next
  case (terminate st x k x')
  then have x: "executor_ok x" "running x st" "searcher_of x \<noteq> None" by (simp_all add: phase_ok_def)
  have k: "k \<in> states x \<union> set (addedStates x)" "k \<notin> set (removedStates x)" using terminate(2) by (auto simp: live_def)
  from succeedsD [OF terminateState_ok [OF x(1) k] terminate(3)] x show ?case by (simp add: phase_ok_def running_def)
next
  case (change st x k s)
  then have x: "executor_ok x" "running x st" "searcher_of x \<noteq> None" by (simp_all add: phase_ok_def)
  from executor_ok_change [OF x(1) change(2,3)] x show ?case by (simp add: phase_ok_def running_def)
next
  case (finish st x x')
  then have x: "executor_ok x" "running x st" "searcher_of x \<noteq> None" by (simp_all add: phase_ok_def)
  have "states x \<noteq> {}" using x(2) by (auto simp: running_def)
  from succeedsD [OF updates_phase [OF x(1,3) this] finish(2)] x(2) show ?case by simp
next
  case (memory_ok x usage x')
  then have x: "executor_ok x" "addedStates x = []" "removedStates x = []" "searcher_of x \<noteq> None" by (simp_all add: phase_ok_def)
  from succeedsD [OF checkMemoryUsage_ok [OF x(1,3)] memory_ok(2)] x show ?case by (simp add: phase_ok_def)
next
  case (memory x usage x1 x')
  then have x: "executor_ok x" "addedStates x = []" "removedStates x = []" "searcher_of x \<noteq> None" by (simp_all add: phase_ok_def)
  from succeedsD [OF checkMemoryUsage_ok [OF x(1,3)] memory(3)] x have y: "executor_ok x1" "searcher_of x1 \<noteq> None" "states x1 \<noteq> {}"
    using memory(2) by simp_all
  from succeedsD [OF updates_phase [OF y, of None] memory(4)] show ?case by simp
qed (simp_all add: phase_ok_def running_def)

lemma run_start_ok:
  assumes "rng_ok rng" "state_ok s" "CoreSearch opts \<noteq> []" "count_list (CoreSearch opts) RandomPath \<le> 3"
  shows "succeeds (run_start opts st (Executor_new rng st s next)) (\<lambda>x. phase_ok (Idle x) \<and> states x = {st})"
proof -
  let ?x = "Executor_new rng st s next" let ?y = "?x\<lparr>states := {st}\<rparr>"
  have "fresh_tree st 0 (eng ?x)" by (simp add: fresh_tree_def Executor_new_def PTree_new_def)
  from constructUserSearcher_ok [OF this _ _ assms(3,4)] assms(1) obtain c g where c: "constructUserSearcher opts (eng ?x) = Some (c, g)"
    "engine_ok g" "attached g = {st}" "user_paused c = {}" "user_rep g c {}" by (auto simp: Executor_new_def elim: succeedsE)
  have "changes g (user_paused c) {} None [st] []" using c(3) by (simp add: changes_def)
  from user.updates [OF c(2,5) this] obtain c' g' where u: "update UserSearcher None [st] [] g c = Some (c', g')" "user_rep g' c' {st}" "engine_step g g'"
    by (auto elim: succeedsE)
  have g': "engine_ok g'" "attached g' = {st}" using engine_stepD [OF u(3)] c(3) by simp_all
  have "live_ok {st} {st} (?y\<lparr>searcher_of := Some c', eng := g'\<rparr>)"
    using g' u(2) assms(2) by (auto simp: live_ok_def engine_ok_def Executor_new_def)
  then have "phase_ok (Idle (?y\<lparr>searcher_of := Some c', eng := g'\<rparr>))" by (simp add: phase_ok_def executor_ok_def Executor_new_def)
  then show ?thesis using c(1) u(1) by (simp add: run_start_def state_order_def Executor_new_def)
qed

section \<open>Properties\<close>


definition ex_state :: ExecutionState where
  "ex_state = fst (ExecutionState_new 0 False \<lparr>kf_function = 1, numRegisters = 4, instructions_of = 100\<rparr> 1)"

lemma ex_state_ok: "state_ok ex_state" "path ex_state = []"
  by (simp_all add: ex_state_def ExecutionState_new_def setID_def pushFrame_def StackFrame_new_def state_ok_def frame_ok_def)


end
