(* ===== verification/ExecutorFork.thy ===== *)
theory ExecutorFork
  imports ExecutorStates
begin

text \<open>
  Forking in \<^verbatim>\<open>lib/Core/Executor.cpp\<close>: \<open>branchingPermitted\<close>, \<open>addConstraint\<close> and \<open>fork\<close>, without seeds. The solver is any solver of the chain.
  \<open>ivcEnabled\<close> is false since the constructor. \<open>None\<close> is a failed assertion, a fatal error, or a simplification of
  constraints that takes more than \<open>addFuel\<close> steps.
\<close>

section \<open>The model\<close>

record fork_options =
  MaxMemoryInhibit :: bool
  MaxForks :: nat
  MaxDepth :: nat
  CompressProcessTree :: bool
  replayPath :: "bool list option"
  replayKTest :: bool
  simplifyExprs :: "nat option"
  addFuel :: nat

definition branchingPermitted :: "fork_options \<Rightarrow> executor \<Rightarrow> ExecutionState \<Rightarrow> bool" where
  "branchingPermitted opt x s \<longleftrightarrow>
     \<not> (MaxMemoryInhibit opt \<and> atMemoryLimit x \<or> forkDisabled s \<or> inhibitForking x \<or> MaxForks opt \<noteq> 2 ^ 32 - 1 \<and> forks x \<ge> MaxForks opt)"

definition Executor_addConstraint :: "fork_options \<Rightarrow> nat \<Rightarrow> expr \<Rightarrow> executor \<Rightarrow> executor option" where
  "Executor_addConstraint opt st condition x =
     es_heap x st \<bind> (\<lambda>s.
     case dyn_cast_ConstantExpr condition of
       Some (w, v) \<Rightarrow> if ConstantExpr_isTrue w v then Some x else None
     | None \<Rightarrow> ExecutionState_addConstraint (addFuel opt) s condition \<bind> (\<lambda>s. Some (x\<lparr>es_heap := (es_heap x)(st \<mapsto> s)\<rparr>)))"

text \<open>The condition or \<open>Expr::createIsZero\<close> of it.\<close>

definition assume_branch :: "fork_options \<Rightarrow> nat \<Rightarrow> expr \<Rightarrow> bool \<Rightarrow> executor \<Rightarrow> executor option" where
  "assume_branch opt st condition b x =
     (if b then Executor_addConstraint opt st condition x else createIsZero condition \<bind> (\<lambda>c. Executor_addConstraint opt st c x))"

text \<open>
  If the statistics of the instruction are over their limits, the condition is fixed to one of its values. \<open>limited\<close> is the
  outcome of that test.
\<close>

definition fixCondition :: "fork_options \<Rightarrow> 's SolverImpl \<Rightarrow> bool \<Rightarrow> nat \<Rightarrow> expr \<Rightarrow> executor \<Rightarrow> 's \<Rightarrow> (expr \<times> executor \<times> 's) option" where
  "fixCondition opt impl limited st condition x s =
     (if limited \<and> \<not> isConstantExpr condition
      then es_heap x st \<bind> (\<lambda>e.
        TimingSolver_getValue (simplifyExprs opt) impl (path e) condition s \<bind> (\<lambda>(r, s).
        r \<bind> (\<lambda>value. EqExpr_create value condition \<bind> (\<lambda>c.
        Executor_addConstraint opt st c x \<bind> (\<lambda>x. Some (value, x, s))))))
      else Some (condition, x, s))"

text \<open>The path that is replayed decides, or a random number if forking is not permitted.\<close>

definition chooseBranch :: "fork_options \<Rightarrow> bool \<Rightarrow> nat \<Rightarrow> expr \<Rightarrow> Validity \<Rightarrow> executor \<Rightarrow> (Validity \<times> executor) option" where
  "chooseBranch opt isInternal st condition res x =
     (if replayPath opt \<noteq> None \<and> \<not> isInternal then
        let rp = the (replayPath opt) in
        if replayPosition x \<ge> length rp then None
        else let br = rp ! replayPosition x; x = x\<lparr>replayPosition := replayPosition x + 1\<rparr> in
          case res of
            VTrue \<Rightarrow> if br then Some (res, x) else None
          | VFalse \<Rightarrow> if br then None else Some (res, x)
          | VUnknown \<Rightarrow> assume_branch opt st condition br x \<bind> (\<lambda>x. Some (if br then VTrue else VFalse, x))
      else if res = VUnknown then
        if replayKTest opt then None
        else es_heap x st \<bind> (\<lambda>e.
          if branchingPermitted opt x e then Some (res, x)
          else RNG_getBool (theRNG (eng x)) \<bind> (\<lambda>(b, rng).
            assume_branch opt st condition b (x\<lparr>eng := (eng x)\<lparr>theRNG := rng\<rparr>\<rparr>) \<bind> (\<lambda>x. Some (if b then VTrue else VFalse, x))))
      else Some (res, x))"

text \<open>Both branches. \<open>ns\<close> is the address of the new state; a query that timed out leaves the constraints as they are.\<close>

definition splitState :: "fork_options \<Rightarrow> nat \<Rightarrow> nat \<Rightarrow> expr \<Rightarrow> bool \<Rightarrow> executor \<Rightarrow> ((nat option \<times> nat option) \<times> executor) option" where
  "splitState opt ns st condition notaddconstraint x =
     branchState st ns (x\<lparr>forks := forks x + 1\<rparr>) \<bind> (\<lambda>x.
     (if notaddconstraint then Some x
      else assume_branch opt st condition True x \<bind> assume_branch opt ns condition False) \<bind> (\<lambda>x.
     es_heap x st \<bind> (\<lambda>t.
     if MaxDepth opt \<noteq> 0 \<and> MaxDepth opt \<le> depth t
     then terminateState (CompressProcessTree opt) st x \<bind> terminateState (CompressProcessTree opt) ns \<bind> (\<lambda>x. Some ((None, None), x))
     else Some ((Some st, Some ns), x))))"

definition Executor_fork :: "fork_options \<Rightarrow> 's SolverImpl \<Rightarrow> bool \<Rightarrow> nat \<Rightarrow> nat \<Rightarrow> expr \<Rightarrow> bool \<Rightarrow> executor \<Rightarrow> 's \<Rightarrow>
    ((nat option \<times> nat option) \<times> executor \<times> 's) option" where
  "Executor_fork opt impl limited ns st condition isInternal x s =
     fixCondition opt impl limited st condition x s \<bind> (\<lambda>(condition, x, s).
     es_heap x st \<bind> (\<lambda>e.
     TimingSolver_evaluate (simplifyExprs opt) impl (path e) condition s \<bind> (\<lambda>(r, s).
     chooseBranch opt isInternal st condition (case r of None \<Rightarrow> VUnknown | Some v \<Rightarrow> v) x \<bind> (\<lambda>(res, x).
     case res of
       VTrue \<Rightarrow> Some ((Some st, None), x, s)
     | VFalse \<Rightarrow> Some ((None, Some st), x, s)
     | VUnknown \<Rightarrow> splitState opt ns st condition (r = None) x \<bind> (\<lambda>(p, x). Some (p, x, s))))))"

section \<open>Adding a branch condition\<close>

definition assumed :: "expr \<Rightarrow> bool \<Rightarrow> ExecutionState \<Rightarrow> ExecutionState \<Rightarrow> bool" where
  "assumed c b e e' \<longleftrightarrow> (\<exists>cs. e' = e\<lparr>path := cs\<rparr> \<and> path_wf cs \<and> (\<forall>\<sigma>. models cs \<sigma> \<longleftrightarrow> models (path e) \<sigma> \<and> eval \<sigma> c = Some (of_bool b)))"

lemma assumedD:
  assumes "assumed c b e e'"
  shows "path_wf (path e')" "models (path e') \<sigma> \<longleftrightarrow> models (path e) \<sigma> \<and> eval \<sigma> c = Some (of_bool b)" "stack e' = stack e" "depth e' = depth e"
proof -
  from assms obtain cs where "e' = e\<lparr>path := cs\<rparr>" "path_wf cs" "\<forall>\<sigma>. models cs \<sigma> \<longleftrightarrow> models (path e) \<sigma> \<and> eval \<sigma> c = Some (of_bool b)"
    unfolding assumed_def by blast
  then show "path_wf (path e')" "models (path e') \<sigma> \<longleftrightarrow> models (path e) \<sigma> \<and> eval \<sigma> c = Some (of_bool b)" "stack e' = stack e" "depth e' = depth e"
    by simp_all
qed

lemma addConstraint_assumed:
  assumes "Executor_addConstraint opt st c x = Some x'" "es_heap x st = Some e" "path_wf (path e)" "condition_ok (path e) c"
  shows "\<exists>e'. assumed c True e e' \<and> x' = x\<lparr>es_heap := (es_heap x)(st \<mapsto> e')\<rparr>"
proof (cases "dyn_cast_ConstantExpr c")
  case None
  with assms(1,2) obtain e' where e': "ExecutionState_addConstraint (addFuel opt) e c = Some e'" "x' = x\<lparr>es_heap := (es_heap x)(st \<mapsto> e')\<rparr>"
    by (auto simp: Executor_addConstraint_def bind_eq_Some_conv)
  from ExecutionState_addConstraint_ok [OF e'(1) assms(3,4)] have "assumed c True e e'" by (auto simp: assumed_def)
  with e'(2) show ?thesis by blast
next
  case (Some wv)
  then obtain w v where c: "c = ConstantExpr w v" by (cases c) auto
  with assms(1,2) have "ConstantExpr_isTrue w v" "x' = x" by (auto simp: Executor_addConstraint_def split: if_splits)
  moreover have "v < 2 ^ w" "getWidth c = 1" using assms(4) c by (auto simp: condition_ok_def wf_constraint_def)
  ultimately have ev: "eval \<sigma> c = Some 1" for \<sigma> using c by (auto simp: ConstantExpr_isTrue_def)
  have "assumed c True e e" unfolding assumed_def using assms(3) ev by (intro exI [of _ "path e"]) simp
  moreover have "x' = x\<lparr>es_heap := (es_heap x)(st \<mapsto> e)\<rparr>" using \<open>x' = x\<close> assms(2) by (simp add: fun_upd_idem)
  ultimately show ?thesis by blast
qed

lemma createIsZero_condition:
  assumes "condition_ok cs c" "createIsZero c = Some n"
  shows "condition_ok cs n" "models cs \<sigma> \<Longrightarrow> eval \<sigma> n = Some 1 \<longleftrightarrow> eval \<sigma> c = Some 0"
proof -
  have wf: "wf_expr c" "getWidth c = 1" using assms(1) by (auto simp: condition_ok_def wf_constraint_def)
  from createIsZero_simplifies [OF wf(1)] assms(2) have r: "refines n (BinaryExpr Eq c (ConstantExpr (getWidth c) 0))"
    by (auto elim: simplifiesE)
  have ev: "eval \<sigma> n = Some (of_bool (v = 0))" if "models cs \<sigma>" "eval \<sigma> c = Some v" for \<sigma> v
    using refines_eval [OF r models_wf [OF that(1)]] that(2) by simp
  have val: "\<exists>v. eval \<sigma> c = Some v" if "models cs \<sigma>" for \<sigma> using assms(1) that by (simp add: condition_ok_def)
  have "eval \<sigma> n \<noteq> None" if "models cs \<sigma>" for \<sigma> using val [OF that] ev [OF that] by auto
  with refines_wf [OF r] refines_width [OF r] show "condition_ok cs n" by (simp add: condition_ok_def wf_constraint_def)
  assume m: "models cs \<sigma>"
  with val obtain v where "eval \<sigma> c = Some v" by blast
  with ev [OF m this] show "eval \<sigma> n = Some 1 \<longleftrightarrow> eval \<sigma> c = Some 0" by simp
qed

lemma assume_branch_assumed:
  assumes "assume_branch opt st c b x = Some x'" "es_heap x st = Some e" "path_wf (path e)" "condition_ok (path e) c"
  shows "\<exists>e'. assumed c b e e' \<and> x' = x\<lparr>es_heap := (es_heap x)(st \<mapsto> e')\<rparr>"
proof (cases b)
  case True
  with assms addConstraint_assumed [of opt st c x x' e] show ?thesis by (simp add: assume_branch_def)
next
  case False
  with assms(1) obtain n where n: "createIsZero c = Some n" "Executor_addConstraint opt st n x = Some x'"
    by (auto simp: assume_branch_def bind_eq_Some_conv)
  note z = createIsZero_condition [OF assms(4) n(1)]
  from addConstraint_assumed [OF n(2) assms(2,3) z(1)] obtain e' where e': "assumed n True e e'" "x' = x\<lparr>es_heap := (es_heap x)(st \<mapsto> e')\<rparr>" by blast
  have "assumed c b e e'" using e'(1) z(2) False by (auto simp: assumed_def)
  with e'(2) show ?thesis by blast
qed

text \<open>Adding the condition, or its negation, to a path ends within the fuel and fails no assertion.\<close>

definition settles :: "fork_options \<Rightarrow> constraint_set \<Rightarrow> expr \<Rightarrow> bool" where
  "settles opt cs c \<longleftrightarrow> isConstantExpr c \<or> (\<exists>cs'. addConstraint (addFuel opt) c cs = Inr cs')"

definition ends :: "fork_options \<Rightarrow> constraint_set \<Rightarrow> expr \<Rightarrow> bool" where
  "ends opt cs c \<longleftrightarrow> settles opt cs c \<and> (\<forall>n. createIsZero c = Some n \<longrightarrow> settles opt cs n)"

lemma addConstraint_returns:
  assumes "es_heap x st = Some e" "condition_ok (path e) c" "settles opt (path e) c" "\<exists>\<sigma>. models (path e) \<sigma> \<and> eval \<sigma> c = Some 1"
  shows "Executor_addConstraint opt st c x \<noteq> None"
proof (cases "dyn_cast_ConstantExpr c")
  case None
  then have "\<not> isConstantExpr c" by (cases c) auto
  with assms(1,3) None show ?thesis by (auto simp: settles_def Executor_addConstraint_def ExecutionState_addConstraint_def)
next
  case (Some wv)
  then obtain w v where "c = ConstantExpr w v" by (cases c) auto
  with assms(1,2,4) show ?thesis by (auto simp: Executor_addConstraint_def ConstantExpr_isTrue_def condition_ok_def wf_constraint_def)
qed

lemma assume_branch_returns:
  assumes "es_heap x st = Some e" "condition_ok (path e) c" "ends opt (path e) c" "\<exists>\<sigma>. models (path e) \<sigma> \<and> eval \<sigma> c = Some (of_bool b)"
  shows "assume_branch opt st c b x \<noteq> None"
proof (cases b)
  case True
  with assms addConstraint_returns [of x st e c opt] show ?thesis by (simp add: assume_branch_def ends_def)
next
  case False
  have "wf_expr c" using assms(2) by (auto simp: condition_ok_def wf_constraint_def)
  from createIsZero_simplifies [OF this] obtain n where n: "createIsZero c = Some n" by (auto elim: simplifiesE)
  note z = createIsZero_condition [OF assms(2) n]
  have "\<exists>\<sigma>. models (path e) \<sigma> \<and> eval \<sigma> n = Some 1" using assms(4) z(2) False by auto
  from addConstraint_returns [OF assms(1) z(1) _ this] assms(3) n False show ?thesis by (simp add: assume_branch_def ends_def)
qed

section \<open>Forking\<close>

text \<open>The inputs that drive the program along the path of a state.\<close>

definition inputs :: "executor \<Rightarrow> nat \<Rightarrow> assignment set" where
  "inputs x k = {\<sigma>. \<exists>e. es_heap x k = Some e \<and> models (path e) \<sigma>}"

lemma inputs_iff: "es_heap x k = Some e \<Longrightarrow> \<sigma> \<in> inputs x k \<longleftrightarrow> models (path e) \<sigma>"
  by (simp add: inputs_def)

lemma assumed_executor_ok:
  assumes "executor_ok x" "k \<in> live x" "es_heap x k = Some e" "assumed c b e e'"
  shows "executor_ok (x\<lparr>es_heap := (es_heap x)(k \<mapsto> e')\<rparr>)"
proof (rule executor_ok_change [OF assms(1,2)])
  have "state_ok e" using live_okD(7) [OF executor_okD(1) [OF assms(1)] assms(3)] .
  then show "state_ok e'" using assumedD(3) [OF assms(4)] by (simp add: state_ok_def)
qed

text \<open>What a split leaves: two states with the given path conditions, or none if the paths are too deep.\<close>

definition split_result :: "fork_options \<Rightarrow> nat \<Rightarrow> nat \<Rightarrow> expr \<Rightarrow> bool \<Rightarrow> ExecutionState \<Rightarrow> (nat option \<times> nat option) \<Rightarrow> executor \<Rightarrow> bool" where
  "split_result opt ns st c timedOut e p x' \<longleftrightarrow>
     p = (Some st, Some ns) \<and> (\<exists>et ef. es_heap x' st = Some et \<and> es_heap x' ns = Some ef \<and> path_wf (path et) \<and> path_wf (path ef) \<and> live x' \<supseteq> {st, ns}
        \<and> (\<forall>\<sigma>. models (path et) \<sigma> \<longleftrightarrow> models (path e) \<sigma> \<and> (timedOut \<or> eval \<sigma> c = Some 1))
        \<and> (\<forall>\<sigma>. models (path ef) \<sigma> \<longleftrightarrow> models (path e) \<sigma> \<and> (timedOut \<or> eval \<sigma> c = Some 0)))
     \<or> p = (None, None) \<and> MaxDepth opt \<noteq> 0 \<and> MaxDepth opt \<le> (depth e + 1) mod 2 ^ 32"

lemma split_branch:
  assumes ok: "executor_ok x" and st: "st \<in> live x" "es_heap x st = Some e" and ns: "es_heap x ns = None"
  shows "succeeds (branchState st ns (x\<lparr>forks := forks x + 1\<rparr>)) (\<lambda>x1. executor_ok x1 \<and> st \<in> live x1 \<and> ns \<in> live x1
    \<and> (\<exists>t f. es_heap x1 = (es_heap x)(st \<mapsto> t, ns \<mapsto> f) \<and> path t = path e \<and> path f = path e \<and> depth t = (depth e + 1) mod 2 ^ 32))"
proof -
  let ?x = "x\<lparr>forks := forks x + 1\<rparr>"
  have ok0: "executor_ok ?x" "live ?x = live x" using ok by (simp_all add: executor_ok_def live_def)
  note e0 = executor_okD [OF ok0(1)]
  have st': "st \<in> states ?x \<union> set (addedStates ?x)" "ns \<notin> states ?x \<union> set (addedStates ?x)"
    using st live_okD(5) [OF e0(1)] ns by (auto simp: live_def)
  from branchState_ok [OF e0(1) st'] st(2) obtain x1 t f nx where b: "branchState st ns ?x = Some x1" "ExecutionState_branch e (nextID x) = Some (t, f, nx)"
    "x1 = ?x\<lparr>es_heap := (es_heap x)(st \<mapsto> t, ns \<mapsto> f), nextID := nx, addedStates := addedStates x @ [ns], eng := eng x1\<rparr>" by (auto elim!: succeedsE)
  have h: "es_heap x1 = (es_heap x)(st \<mapsto> t, ns \<mapsto> f)" by (subst b(3)) simp
  have "succeeds (branchState st ns ?x) (\<lambda>x'. executor_ok x' \<and> states x' = states ?x \<and> addedStates x' = addedStates ?x @ [ns]
    \<and> removedStates x' = removedStates ?x \<and> searcher_of x' = searcher_of ?x)" by (rule executor_ok_branch [OF ok0(1)]) (use st ns ok0(2) in simp_all)
  from succeedsD [OF this b(1)] have ok1: "executor_ok x1" and l1: "states x1 = states x" "addedStates x1 = addedStates x @ [ns]" "removedStates x1 = removedStates x" by simp_all
  have "st \<in> live x1" "ns \<in> live x1" using st(1) l1 e0(6) st'(2) by (auto simp: live_def)
  moreover have "es_heap ?x st = Some e" using st(2) by simp
  note branch_ok(1,2,13) [OF live_okD(7) [OF e0(1) this] b(2)]
  ultimately show ?thesis using ok1 h b(1) by (simp del: add_Suc_right) blast
qed

lemma split_assume:
  assumes run: "(if timedOut then Some x1 else assume_branch opt st c True x1 \<bind> assume_branch opt ns c False) = Some x2"
    and ok: "executor_ok x1" and lv: "st \<in> live x1" "ns \<in> live x1" and ne: "st \<noteq> ns"
    and h: "es_heap x1 st = Some t" "es_heap x1 ns = Some f" "path t = cs" "path f = cs" and p: "path_wf cs" "condition_ok cs c"
  shows "\<exists>t' f'. x2 = x1\<lparr>es_heap := (es_heap x1)(st \<mapsto> t', ns \<mapsto> f')\<rparr> \<and> executor_ok x2 \<and> path_wf (path t') \<and> path_wf (path f') \<and> depth t' = depth t
    \<and> (\<forall>\<sigma>. models (path t') \<sigma> \<longleftrightarrow> models cs \<sigma> \<and> (timedOut \<or> eval \<sigma> c = Some 1))
    \<and> (\<forall>\<sigma>. models (path f') \<sigma> \<longleftrightarrow> models cs \<sigma> \<and> (timedOut \<or> eval \<sigma> c = Some 0))"
proof (cases timedOut)
  case True
  with run have "x2 = x1" by simp
  moreover have "x1 = x1\<lparr>es_heap := (es_heap x1)(st \<mapsto> t, ns \<mapsto> f)\<rparr>" using h(1,2) ne by (simp add: fun_upd_idem)
  ultimately show ?thesis using True ok p(1) h(3,4) by (intro exI [of _ t] exI [of _ f]) simp
next
  case False
  with run obtain y where y: "assume_branch opt st c True x1 = Some y" "assume_branch opt ns c False y = Some x2" by (auto simp: bind_eq_Some_conv)
  have ht: "path_wf (path t)" "condition_ok (path t) c" using h(3) p by simp_all
  from assume_branch_assumed [OF y(1) h(1) ht] obtain t' where t': "assumed c True t t'" "y = x1\<lparr>es_heap := (es_heap x1)(st \<mapsto> t')\<rparr>" by blast
  have oky: "executor_ok y" unfolding t'(2) by (rule assumed_executor_ok [OF ok lv(1) h(1) t'(1)])
  have hf: "es_heap y ns = Some f" "path_wf (path f)" "condition_ok (path f) c" using h ne p t'(2) by simp_all
  from assume_branch_assumed [OF y(2) hf] obtain f' where f': "assumed c False f f'" "x2 = y\<lparr>es_heap := (es_heap y)(ns \<mapsto> f')\<rparr>" by blast
  have "ns \<in> live y" using lv(2) t'(2) by (simp add: live_def)
  from assumed_executor_ok [OF oky this hf(1) f'(1)] have ok2: "executor_ok x2" unfolding f'(2) .
  have "x2 = x1\<lparr>es_heap := (es_heap x1)(st \<mapsto> t', ns \<mapsto> f')\<rparr>" using f'(2) t'(2) by simp
  with ok2 assumedD [OF t'(1)] assumedD [OF f'(1)] h(3,4) False show ?thesis by (intro exI [of _ t'] exI [of _ f']) simp
qed

lemma split_terminate:
  assumes "executor_ok x" "st \<in> live x" "ns \<in> live x" "st \<noteq> ns"
  shows "succeeds (terminateState cp st x \<bind> terminateState cp ns) (\<lambda>x'. executor_ok x' \<and> (\<forall>k. k \<noteq> st \<longrightarrow> k \<noteq> ns \<longrightarrow> es_heap x' k = es_heap x k))"
proof -
  have in2: "st \<in> states x \<union> set (addedStates x)" "st \<notin> set (removedStates x)" using assms(2) by (auto simp: live_def)
  from terminateState_ok [OF assms(1) in2, of cp] obtain y where y: "terminateState cp st x = Some y" "executor_ok y" "states y = states x"
    "if st \<in> states x then addedStates y = addedStates x \<and> removedStates y = removedStates x @ [st] else addedStates y = remove1 st (addedStates x) \<and> removedStates y = removedStates x"
    "\<forall>k. k \<noteq> st \<longrightarrow> es_heap y k = es_heap x k" by (auto elim: succeedsE)
  have in3: "ns \<in> states y \<union> set (addedStates y)" "ns \<notin> set (removedStates y)"
    using y(3,4) assms(3,4) by (auto simp: live_def split: if_splits)
  from terminateState_ok [OF y(2) in3, of cp] y(1,5) show ?thesis by (auto elim!: succeedsE)
qed

lemma splitState_ok:
  assumes ok: "executor_ok x" and st: "st \<in> live x" "es_heap x st = Some e" and ns: "es_heap x ns = None"
    and p: "path_wf (path e)" "condition_ok (path e) c" and run: "splitState opt ns st c timedOut x = Some (r, x')"
  shows "executor_ok x' \<and> (\<forall>k. k \<noteq> st \<longrightarrow> k \<noteq> ns \<longrightarrow> es_heap x' k = es_heap x k) \<and> split_result opt ns st c timedOut e r x'"
proof -
  have ne: "st \<noteq> ns" using st(2) ns by auto
  from split_branch [OF ok st ns] obtain x1 t f where b: "branchState st ns (x\<lparr>forks := forks x + 1\<rparr>) = Some x1" "executor_ok x1" "st \<in> live x1" "ns \<in> live x1"
    "es_heap x1 = (es_heap x)(st \<mapsto> t, ns \<mapsto> f)" "path t = path e" "path f = path e" "depth t = (depth e + 1) mod 2 ^ 32" by (auto elim: succeedsE)
  from run b(1) obtain x2 where x2: "(if timedOut then Some x1 else assume_branch opt st c True x1 \<bind> assume_branch opt ns c False) = Some x2"
    by (auto simp: splitState_def bind_eq_Some_conv split: if_splits)
  have h1: "es_heap x1 st = Some t" "es_heap x1 ns = Some f" using b(5) ne by simp_all
  from split_assume [OF x2 b(2-4) ne h1 b(6,7) p] obtain t' f' where r: "x2 = x1\<lparr>es_heap := (es_heap x1)(st \<mapsto> t', ns \<mapsto> f')\<rparr>" "executor_ok x2"
    "path_wf (path t')" "path_wf (path f')" "depth t' = depth t"
    "\<forall>\<sigma>. models (path t') \<sigma> \<longleftrightarrow> models (path e) \<sigma> \<and> (timedOut \<or> eval \<sigma> c = Some 1)"
    "\<forall>\<sigma>. models (path f') \<sigma> \<longleftrightarrow> models (path e) \<sigma> \<and> (timedOut \<or> eval \<sigma> c = Some 0)" by blast
  have h2: "es_heap x2 st = Some t'" "es_heap x2 ns = Some f'" "\<And>k. k \<noteq> st \<Longrightarrow> k \<noteq> ns \<Longrightarrow> es_heap x2 k = es_heap x k" using r(1) b(5) ne by simp_all
  have lv: "st \<in> live x2" "ns \<in> live x2" using r(1) b(3,4) by (simp_all add: live_def)
  show ?thesis
  proof (cases "MaxDepth opt \<noteq> 0 \<and> MaxDepth opt \<le> depth t'")
    case False
    with run b(1) x2 h2(1) have "r = (Some st, Some ns)" "x' = x2" by (auto simp: splitState_def split: if_splits)
    then show ?thesis using r h2 lv unfolding split_result_def by blast
  next
    case True
    from split_terminate [OF r(2) lv ne, of "CompressProcessTree opt"] True run b(1) x2 h2(1) have "r = (None, None)" "executor_ok x'"
      "\<forall>k. k \<noteq> st \<longrightarrow> k \<noteq> ns \<longrightarrow> es_heap x' k = es_heap x2 k" by (auto simp: splitState_def bind_eq_Some_conv elim!: succeedsE)
    then show ?thesis using True r(5) b(8) h2(3) by (simp add: split_result_def)
  qed
qed

lemma splitState_returns:
  assumes ok: "executor_ok x" and st: "st \<in> live x" "es_heap x st = Some e" and ns: "es_heap x ns = None"
    and p: "path_wf (path e)" "condition_ok (path e) c"
    and ends: "timedOut \<or> ends opt (path e) c \<and> (\<forall>b. \<exists>\<sigma>. models (path e) \<sigma> \<and> eval \<sigma> c = Some (of_bool b))"
  shows "splitState opt ns st c timedOut x \<noteq> None"
proof -
  have ne: "st \<noteq> ns" using st(2) ns by auto
  from split_branch [OF ok st ns] obtain x1 t f where b: "branchState st ns (x\<lparr>forks := forks x + 1\<rparr>) = Some x1" "executor_ok x1" "st \<in> live x1" "ns \<in> live x1"
    "es_heap x1 = (es_heap x)(st \<mapsto> t, ns \<mapsto> f)" "path t = path e" "path f = path e" by (auto elim: succeedsE)
  have h: "es_heap x1 st = Some t" "es_heap x1 ns = Some f" using b(5) ne by simp_all
  obtain x2 where x2: "(if timedOut then Some x1 else assume_branch opt st c True x1 \<bind> assume_branch opt ns c False) = Some x2"
  proof (cases timedOut)
    case False
    with ends have e: "ends opt (path e) c" "\<And>b. \<exists>\<sigma>. models (path e) \<sigma> \<and> eval \<sigma> c = Some (of_bool b)" by auto
    from assume_branch_returns [OF h(1), of c opt True] b(6) p(2) e(1) e(2) [of True] obtain y where y: "assume_branch opt st c True x1 = Some y" by auto
    from assume_branch_assumed [OF y h(1)] b(6) p obtain t' where "y = x1\<lparr>es_heap := (es_heap x1)(st \<mapsto> t')\<rparr>" by auto
    then have "es_heap y ns = Some f" using h(2) ne by simp
    from assume_branch_returns [OF this, of c opt False] b(7) p(2) e(1) e(2) [of False] y False that show ?thesis by auto
  qed (use that in simp)
  from split_assume [OF x2 b(2-4) ne h b(6,7) p] obtain t' f' where r: "x2 = x1\<lparr>es_heap := (es_heap x1)(st \<mapsto> t', ns \<mapsto> f')\<rparr>" "executor_ok x2" by blast
  have lv: "st \<in> live x2" "ns \<in> live x2" "es_heap x2 st = Some t'" using r(1) b(3,4) ne by (simp_all add: live_def)
  from split_terminate [OF r(2) lv(1,2) ne, of "CompressProcessTree opt"] b(1) x2 lv(3) show ?thesis by (auto simp: splitState_def bind_eq_Some_conv elim!: succeedsE)
qed

lemma chooseBranch_ok:
  assumes ok: "executor_ok x" and st: "st \<in> live x" "es_heap x st = Some e"
    and p: "path_wf (path e)" "condition_ok (path e) c" and run: "chooseBranch opt isInternal st c res x = Some (res', x')"
  shows "executor_ok x' \<and> live x' = live x \<and>
    (res' = res \<and> es_heap x' = es_heap x
     \<or> res = VUnknown \<and> (\<not> branchingPermitted opt x e \<or> replayPath opt \<noteq> None \<and> \<not> isInternal) \<and>
       (\<exists>b e'. res' = (if b then VTrue else VFalse) \<and> assumed c b e e' \<and> es_heap x' = (es_heap x)(st \<mapsto> e')))"
proof -
  have asm: "executor_ok y' \<and> live y' = live x \<and> (\<exists>e'. assumed c b e e' \<and> es_heap y' = (es_heap x)(st \<mapsto> e'))"
    if y: "executor_ok y" "live y = live x" "es_heap y = es_heap x" "assume_branch opt st c b y = Some y'" for b y y'
  proof -
    from assume_branch_assumed [OF y(4)] st(2) p y(3) obtain e' where e': "assumed c b e e'" "y' = y\<lparr>es_heap := (es_heap y)(st \<mapsto> e')\<rparr>" by auto
    from assumed_executor_ok [OF y(1) _ _ e'(1)] st y(2,3) e' show ?thesis by (auto simp: live_def)
  qed
  have rp: "executor_ok (x\<lparr>replayPosition := n\<rparr>)" "live (x\<lparr>replayPosition := n\<rparr>) = live x" for n using ok by (simp_all add: executor_ok_def live_def)
  show ?thesis
  proof (cases "replayPath opt \<noteq> None \<and> \<not> isInternal")
    case True
    let ?x = "x\<lparr>replayPosition := replayPosition x + 1\<rparr>" and ?br = "the (replayPath opt) ! replayPosition x"
    show ?thesis
    proof (cases res)
      case VUnknown
      with run True obtain y where y: "assume_branch opt st c ?br ?x = Some y" "res' = (if ?br then VTrue else VFalse)" "x' = y"
        by (auto simp: chooseBranch_def Let_def bind_eq_Some_conv split: if_splits)
      have "es_heap ?x = es_heap x" by simp
      from asm [OF rp this y(1)] obtain e' where "executor_ok y" "live y = live x" "assumed c ?br e e'" "es_heap y = (es_heap x)(st \<mapsto> e')" by blast
      with y(2,3) True VUnknown show ?thesis by blast
    qed (use run True rp in \<open>auto simp: chooseBranch_def Let_def split: if_splits\<close>)
  next
    case no: False
    show ?thesis
    proof (cases "res = VUnknown \<and> \<not> branchingPermitted opt x e")
      case True
      with run no st(2) obtain b rng y where y: "RNG_getBool (theRNG (eng x)) = Some (b, rng)" "assume_branch opt st c b (x\<lparr>eng := (eng x)\<lparr>theRNG := rng\<rparr>\<rparr>) = Some y"
        "res' = (if b then VTrue else VFalse)" "x' = y"
        by (auto simp: chooseBranch_def bind_eq_Some_conv split: if_splits)
      have "rng_ok rng" using succeedsD [OF RNG_getBool_ok [OF live_okD(1) [OF executor_okD(1) [OF ok]]] y(1)] by simp
      from asm [OF executor_ok_rng [OF ok this] _ _ y(2)] obtain e' where "executor_ok y" "live y = live x" "assumed c b e e'" "es_heap y = (es_heap x)(st \<mapsto> e')"
        by (auto simp: live_def)
      with y(3,4) True show ?thesis by blast
    next
      case False
      with run no st(2) ok show ?thesis by (auto simp: chooseBranch_def split: if_splits)
    qed
  qed
qed

text \<open>An expression is fixed to a value that the solver found.\<close>

lemma pin_condition:
  assumes q: "admissible \<lparr>constraints = cs, q_expr = c\<rparr>" and v: "possible \<lparr>constraints = cs, q_expr = c\<rparr> v"
    and eq: "EqExpr_create l r = Some eq" "(l, r) = (ConstantExpr (getWidth c) v, c) \<or> (l, r) = (c, ConstantExpr (getWidth c) v)"
  shows "condition_ok cs eq" "models cs \<sigma> \<Longrightarrow> eval \<sigma> eq = Some 1 \<longleftrightarrow> eval \<sigma> c = Some v" "wf_expr (ConstantExpr (getWidth c) v)"
    "\<exists>\<sigma>. models cs \<sigma> \<and> eval \<sigma> c = Some v"
proof -
  have wf: "wf_expr c" using q by (simp add: admissible_def)
  from v show some: "\<exists>\<sigma>. models cs \<sigma> \<and> eval \<sigma> c = Some v" by (simp add: possible_def)
  then obtain \<sigma>0 where s0: "models cs \<sigma>0" "eval \<sigma>0 c = Some v" by blast
  show wv: "wf_expr (ConstantExpr (getWidth c) v)"
    using eval_less(1) [OF wf models_wf [OF s0(1)] s0(2)] wf_getWidth_pos [OF wf] by simp
  have "simplifies (EqExpr_create l r) (BinaryExpr Eq l r)" by (rule EqExpr_create_simplifies) (use wf wv eq(2) in auto)
  with eq(1) have ref: "refines eq (BinaryExpr Eq l r)" by (auto elim: simplifiesE)
  have ev: "eval \<sigma> eq = Some (of_bool (eval \<sigma> c = Some v))" if m: "models cs \<sigma>" for \<sigma>
  proof -
    obtain u where u: "eval \<sigma> c = Some u" using q m by (auto simp: admissible_def)
    have "eval \<sigma> (BinaryExpr Eq l r) = Some (of_bool (u = v))" using u eq(2) by (auto simp: of_bool_def)
    then show ?thesis using refines_eval [OF ref models_wf [OF m]] u by simp
  qed
  then show "condition_ok cs eq" using refines_wf [OF ref] refines_width [OF ref] by (simp add: condition_ok_def wf_constraint_def)
  show "eval \<sigma> eq = Some 1 \<longleftrightarrow> eval \<sigma> c = Some v" if "models cs \<sigma>" using ev [OF that] by (cases "eval \<sigma> c = Some v") simp_all
qed

lemma fixCondition_ok:
  assumes solver: "sound_solver N F I impl" "I s" "simplifyExprs opt \<noteq> None \<longrightarrow> N"
    and ok: "executor_ok x" and st: "st \<in> live x" "es_heap x st = Some e" and p: "path_ok (path e)" "condition_ok (path e) c"
    and run: "fixCondition opt impl limited st c x s = Some (c', x', s')"
  shows "I s' \<and> executor_ok x' \<and> live x' = live x \<and> (\<not> limited \<longrightarrow> c' = c \<and> x' = x \<and> s' = s)
    \<and> (\<exists>e'. es_heap x' = (es_heap x)(st \<mapsto> e') \<and> path_ok (path e') \<and> condition_ok (path e') c' \<and> (\<forall>\<sigma>. models (path e') \<sigma> \<longrightarrow> models (path e) \<sigma> \<and> eval \<sigma> c' = eval \<sigma> c))"
proof (cases "limited \<and> \<not> isConstantExpr c")
  case False
  with run have "c' = c" "x' = x" "s' = s" by (auto simp: fixCondition_def)
  with assms show ?thesis by (auto simp: fun_upd_idem intro!: exI [of _ e])
next
  case True
  let ?q = "\<lparr>constraints = path e, q_expr = c\<rparr>"
  note q = condition_ok_query [OF p]
  then have adm: "admissible ?q" by (simp add: bool_query_def)
  from run True st(2) obtain val eq where r: "TimingSolver_getValue (simplifyExprs opt) impl (path e) c s = Some (Some val, s')"
    "EqExpr_create val c = Some eq" "Executor_addConstraint opt st eq x = Some x'" "c' = val"
    by (auto simp: fixCondition_def bind_eq_Some_conv)
  from call_okD [OF sound_solver.timing_getValue [OF solver(1) adm solver(3)] solver(2)] r(1) obtain v where
    v: "I s'" "possible ?q v" "val = ConstantExpr (getWidth c) v" by auto
  have wc: "getWidth c = 1" using p(2) by (auto simp: condition_ok_def wf_constraint_def)
  have "(val, c) = (ConstantExpr (getWidth c) v, c) \<or> (val, c) = (c, ConstantExpr (getWidth c) v)" using v(3) by simp
  note pin = pin_condition [OF adm v(2) r(2) this]
  have wv: "wf_expr val" "getWidth val = 1" using v(3) pin(3) wc by simp_all
  have pw: "path_wf (path e)" using p(1) by (simp add: path_ok_def)
  from addConstraint_assumed [OF r(3) st(2) pw pin(1)] obtain e' where e': "assumed eq True e e'" "x' = x\<lparr>es_heap := (es_heap x)(st \<mapsto> e')\<rparr>" by blast
  have m': "models (path e') \<sigma> \<longleftrightarrow> models (path e) \<sigma> \<and> eval \<sigma> c = Some v" for \<sigma>
    using assumedD(2) [OF e'(1), of \<sigma>] pin(2) [of \<sigma>] by auto
  have "path_ok (path e')" using assumedD(1) [OF e'(1)] m' pin(4) by (auto simp: path_ok_def)
  moreover have "condition_ok (path e') c'" using wv r(4) v(3) by (simp add: condition_ok_def wf_constraint_def)
  moreover have "executor_ok x'" unfolding e'(2) by (rule assumed_executor_ok [OF ok st e'(1)])
  ultimately show ?thesis using v(1,3) e'(2) m' True r(4) by (auto simp: live_def)
qed

text \<open>A state that follows a branch: it is alive, its inputs are among the old ones, and unless the solver may time out it has some and all of them take the branch.\<close>

definition follows :: "bool \<Rightarrow> expr \<Rightarrow> bool \<Rightarrow> assignment set \<Rightarrow> executor \<Rightarrow> nat \<Rightarrow> bool" where
  "follows F c b A x' k \<longleftrightarrow> k \<in> live x' \<and> inputs x' k \<subseteq> A \<and> (\<not> F \<longrightarrow> inputs x' k \<noteq> {} \<and> (\<forall>\<sigma>\<in>inputs x' k. eval \<sigma> c = Some (of_bool b)))"

lemma followsI:
  assumes "es_heap x' k = Some e'" "k \<in> live x'" "\<And>\<sigma>. models (path e') \<sigma> \<Longrightarrow> \<sigma> \<in> A"
    and "\<not> F \<Longrightarrow> \<exists>\<sigma>. models (path e') \<sigma>" "\<And>\<sigma>. \<not> F \<Longrightarrow> models (path e') \<sigma> \<Longrightarrow> eval \<sigma> c = Some (of_bool b)"
  shows "follows F c b A x' k"
  using assms by (auto simp: follows_def inputs_def)

lemma evaluate_outcome:
  assumes "sound_solver N F I impl" "I s" "se \<noteq> None \<longrightarrow> N" "path_ok cs" "condition_ok cs c"
    and "TimingSolver_evaluate se impl cs c s = Some (r, s')"
  shows "I s'" "r = None \<Longrightarrow> F" "r = Some VTrue \<Longrightarrow> models cs \<sigma> \<Longrightarrow> eval \<sigma> c = Some 1" "r = Some VFalse \<Longrightarrow> models cs \<sigma> \<Longrightarrow> eval \<sigma> c = Some 0"
    "r = Some VUnknown \<Longrightarrow> \<exists>\<sigma>. models cs \<sigma> \<and> eval \<sigma> c = Some (of_bool b)"
proof -
  let ?q = "\<lparr>constraints = cs, q_expr = c\<rparr>"
  have q: "bool_query ?q" by (rule condition_ok_query [OF assms(4,5)])
  from call_okD [OF sound_solver.timing_evaluate [OF assms(1) q assms(3)] assms(2)] assms(6)
  have o: "I s' \<and> (case r of None \<Rightarrow> F | Some v \<Rightarrow> v = validity_of ?q)" by (cases r) simp_all
  then show "I s'" "r = None \<Longrightarrow> F" by auto
  have v: "r = Some v \<Longrightarrow> validity_of ?q = v" for v using o by simp
  show "r = Some VTrue \<Longrightarrow> models cs \<sigma> \<Longrightarrow> eval \<sigma> c = Some 1" using v [of VTrue] by (auto simp: validity_of_def valid_def split: if_splits)
  show "r = Some VFalse \<Longrightarrow> models cs \<sigma> \<Longrightarrow> eval \<sigma> c = Some 0" using v [of VFalse] by (auto simp: validity_of_def invalid_def split: if_splits)
  assume "r = Some VUnknown"
  with v [of VUnknown] have "\<not> valid ?q" "\<not> invalid ?q" by (auto simp: validity_of_def split: if_splits)
  then obtain \<sigma> \<tau> where "models cs \<sigma>" "eval \<sigma> c \<noteq> Some 1" "models cs \<tau>" "eval \<tau> c \<noteq> Some 0" by (auto simp: valid_def invalid_def)
  then show "\<exists>\<sigma>. models cs \<sigma> \<and> eval \<sigma> c = Some (of_bool b)"
    using condition_values [OF assms(5), of \<sigma>] condition_values [OF assms(5), of \<tau>] by (cases b) (metis of_bool_eq)+
qed

lemma fork_cases:
  assumes "Executor_fork opt impl limited ns st c isInternal x s = Some (tf, x', s')"
  obtains c1 x1 s1 e1 r res x2 where "fixCondition opt impl limited st c x s = Some (c1, x1, s1)" "es_heap x1 st = Some e1"
    "TimingSolver_evaluate (simplifyExprs opt) impl (path e1) c1 s1 = Some (r, s')"
    "chooseBranch opt isInternal st c1 (case r of None \<Rightarrow> VUnknown | Some v \<Rightarrow> v) x1 = Some (res, x2)"
    "res = VTrue \<and> tf = (Some st, None) \<and> x' = x2 \<or> res = VFalse \<and> tf = (None, Some st) \<and> x' = x2
     \<or> res = VUnknown \<and> splitState opt ns st c1 (r = None) x2 = Some (tf, x')"
  using assms by (auto simp: Executor_fork_def bind_eq_Some_conv split: Validity.splits) (use Validity.exhaust in blast)

text \<open>How the inputs \<open>A\<close> of a state are divided between the states that a fork returns; \<open>complete\<close>: none is lost.\<close>

definition divides :: "bool \<Rightarrow> expr \<Rightarrow> assignment set \<Rightarrow> bool \<Rightarrow> executor \<Rightarrow> nat option \<Rightarrow> nat option \<Rightarrow> bool" where
  "divides F c A complete x' t f \<longleftrightarrow> (\<forall>k. t = Some k \<longrightarrow> follows F c True A x' k) \<and> (\<forall>k. f = Some k \<longrightarrow> follows F c False A x' k)
     \<and> (complete \<longrightarrow> A \<subseteq> (\<Union>k\<in>set_option t \<union> set_option f. inputs x' k))"

lemma divides_one:
  assumes "es_heap x' st = Some e'" "st \<in> live x'" "\<And>\<sigma>. models (path e') \<sigma> \<Longrightarrow> \<sigma> \<in> A" "\<not> F \<Longrightarrow> \<exists>\<sigma>. models (path e') \<sigma>"
    and "\<And>\<sigma>. \<not> F \<Longrightarrow> models (path e') \<sigma> \<Longrightarrow> eval \<sigma> c = Some (of_bool b)" "complete \<Longrightarrow> A \<subseteq> {\<sigma>. models (path e') \<sigma>}"
    and "t = (if b then Some st else None)" "f = (if b then None else Some st)"
  shows "divides F c A complete x' t f"
proof -
  have "follows F c b A x' st" by (rule followsI) (use assms in auto)
  with assms(1,6-8) show ?thesis by (cases b) (auto simp: divides_def inputs_def)
qed

lemma divides_split:
  assumes "split_result opt ns st c' timedOut e' (t, f) x'" "timedOut \<Longrightarrow> F" "condition_ok (path e') c'"
    and sub: "\<And>\<sigma>. models (path e') \<sigma> \<Longrightarrow> \<sigma> \<in> A \<and> eval \<sigma> c' = eval \<sigma> c" and some: "\<And>b. \<not> F \<Longrightarrow> \<exists>\<sigma>. models (path e') \<sigma> \<and> eval \<sigma> c' = Some (of_bool b)"
    and all: "complete \<Longrightarrow> A \<subseteq> {\<sigma>. models (path e') \<sigma>} \<and> (MaxDepth opt = 0 \<or> (depth e' + 1) mod 2 ^ 32 < MaxDepth opt)"
  shows "divides F c A complete x' t f"
  using assms(1) unfolding split_result_def
proof (elim disjE conjE exE)
  fix et ef assume tf: "(t, f) = (Some st, Some ns)" and h: "es_heap x' st = Some et" "es_heap x' ns = Some ef" and lv: "{st, ns} \<subseteq> live x'"
    and mt: "\<forall>\<sigma>. models (path et) \<sigma> \<longleftrightarrow> models (path e') \<sigma> \<and> (timedOut \<or> eval \<sigma> c' = Some 1)"
    and mf: "\<forall>\<sigma>. models (path ef) \<sigma> \<longleftrightarrow> models (path e') \<sigma> \<and> (timedOut \<or> eval \<sigma> c' = Some 0)"
  have "follows F c True A x' st" by (rule followsI [OF h(1)]) (use lv mt sub assms(2) some [of True] in auto)
  moreover have "follows F c False A x' ns" by (rule followsI [OF h(2)]) (use lv mf sub assms(2) some [of False] in auto)
  moreover have "\<sigma> \<in> inputs x' st \<union> inputs x' ns" if "models (path e') \<sigma>" for \<sigma>
    using mt mf h that condition_values [OF assms(3) that] by (auto simp: inputs_def)
  ultimately show ?thesis using tf all by (auto simp: divides_def)
qed (use all in \<open>auto simp: divides_def\<close>)

lemma fork_sound:
  assumes solver: "sound_solver N F I impl" "I s" "simplifyExprs opt \<noteq> None \<longrightarrow> N"
    and ok: "executor_ok x" and st: "st \<in> live x" "es_heap x st = Some e" and ns: "es_heap x ns = None"
    and p: "path_ok (path e)" "condition_ok (path e) condition"
    and run: "Executor_fork opt impl limited ns st condition isInternal x s = Some ((t, f), x', s')"
  shows "executor_ok x' \<and> I s' \<and> (\<forall>k. k \<noteq> st \<longrightarrow> k \<noteq> ns \<longrightarrow> es_heap x' k = es_heap x k)
    \<and> divides F condition (inputs x st)
        (\<not> limited \<and> branchingPermitted opt x e \<and> (replayPath opt = None \<or> isInternal) \<and> (MaxDepth opt = 0 \<or> (depth e + 1) mod 2 ^ 32 < MaxDepth opt)) x' t f"
    (is "_ \<and> _ \<and> _ \<and> divides F condition ?A ?complete x' t f")
  using run
proof (rule fork_cases)
  fix c1 x1 s1 e1 r res x2
  assume fc: "fixCondition opt impl limited st condition x s = Some (c1, x1, s1)" and h1: "es_heap x1 st = Some e1"
    and ev: "TimingSolver_evaluate (simplifyExprs opt) impl (path e1) c1 s1 = Some (r, s')"
    and ch: "chooseBranch opt isInternal st c1 (case r of None \<Rightarrow> VUnknown | Some v \<Rightarrow> v) x1 = Some (res, x2)"
    and rest: "res = VTrue \<and> (t, f) = (Some st, None) \<and> x' = x2 \<or> res = VFalse \<and> (t, f) = (None, Some st) \<and> x' = x2
     \<or> res = VUnknown \<and> splitState opt ns st c1 (r = None) x2 = Some ((t, f), x')"
  from fixCondition_ok [OF solver ok st p fc] obtain e1' where e1': "es_heap x1 = (es_heap x)(st \<mapsto> e1')" and f1': "I s1" "executor_ok x1" "live x1 = live x"
    "path_ok (path e1')" "condition_ok (path e1') c1" "\<forall>\<sigma>. models (path e1') \<sigma> \<longrightarrow> models (path e) \<sigma> \<and> eval \<sigma> c1 = eval \<sigma> condition"
    "\<not> limited \<longrightarrow> c1 = condition \<and> x1 = x" by blast
  moreover from h1 e1' have "e1' = e1" by simp
  ultimately have f1: "I s1" "executor_ok x1" "live x1 = live x" "es_heap x1 = (es_heap x)(st \<mapsto> e1)" "path_ok (path e1)" "condition_ok (path e1) c1"
    and m1: "\<And>\<sigma>. models (path e1) \<sigma> \<Longrightarrow> models (path e) \<sigma> \<and> eval \<sigma> c1 = eval \<sigma> condition" and lim: "\<not> limited \<Longrightarrow> c1 = condition \<and> x1 = x" by auto
  note out = evaluate_outcome [OF solver(1) f1(1) solver(3) f1(5,6) ev]
  have st1: "st \<in> live x1" "path_wf (path e1)" using st(1) f1(3,5) by (simp_all add: path_ok_def)
  have A: "\<sigma> \<in> ?A \<and> eval \<sigma> c1 = eval \<sigma> condition" if "models (path e1) \<sigma>" for \<sigma> using m1 [OF that] st(2) by (simp add: inputs_def)
  have all: "?A \<subseteq> {\<sigma>. models (path e1) \<sigma>} \<and> e1 = e" if "\<not> limited" using lim [OF that] h1 st(2) by (auto simp: inputs_def)
  have other: "es_heap x1 k = es_heap x k" if "k \<noteq> st" for k using f1(4) that by simp
  from chooseBranch_ok [OF f1(2) st1(1) h1 st1(2) f1(6) ch] consider
    (decided) "res \<noteq> VUnknown" "r = Some res" "es_heap x2 = es_heap x1" "executor_ok x2" "live x2 = live x1"
  | (split) "res = VUnknown" "r = None \<or> r = Some VUnknown" "es_heap x2 = es_heap x1" "executor_ok x2" "live x2 = live x1"
  | (chosen) b e' where "r = None \<or> r = Some VUnknown" "\<not> branchingPermitted opt x1 e1 \<or> replayPath opt \<noteq> None \<and> \<not> isInternal"
      "res = (if b then VTrue else VFalse)" "assumed c1 b e1 e'" "es_heap x2 = (es_heap x1)(st \<mapsto> e')" "executor_ok x2" "live x2 = live x1"
    by (cases res) (auto split: option.splits)
  then show ?thesis
  proof cases
    case decided
    with rest have tf: "t = (if res = VTrue then Some st else None)" "f = (if res = VTrue then None else Some st)" "x' = x2" by auto
    have "eval \<sigma> c1 = Some (of_bool (res = VTrue))" if "models (path e1) \<sigma>" for \<sigma> using out(3,4) [OF _ that] decided(1,2) by (cases res) simp_all
    then have "divides F condition ?A ?complete x2 t f"
      by (intro divides_one [OF _ _ _ _ _ _ tf(1,2), of x2 e1]) (use decided h1 st1(1) A all f1(5) in \<open>auto simp: path_ok_def\<close>)
    then show ?thesis using tf(3) decided out(1) other by simp
  next
    case split
    with rest have sp: "splitState opt ns st c1 (r = None) x2 = Some ((t, f), x')" by auto
    have x2: "es_heap x2 ns = None" "st \<in> live x2" "es_heap x2 st = Some e1" using ns split(3,5) f1(4) st(2) h1 st1(1) by auto
    note o = splitState_ok [OF split(4) x2(2,3,1) st1(2) f1(6) sp]
    have some: "\<not> F \<Longrightarrow> \<exists>\<sigma>. models (path e1) \<sigma> \<and> eval \<sigma> c1 = Some (of_bool b)" for b using out(2) out(5) [of b] split(2) by blast
    have "divides F condition ?A ?complete x' t f" by (rule divides_split [OF _ out(2) f1(6) A some, of opt ns st]) (use o all in auto)
    then show ?thesis using o out(1) other split(3) by auto
  next
    case chosen
    with rest have tf: "t = (if b then Some st else None)" "f = (if b then None else Some st)" "x' = x2" by (cases b; auto)+
    have some: "\<exists>\<sigma>. models (path e') \<sigma>" if "\<not> F" using out(2) out(5) [of b] chosen(1) that assumedD(2) [OF chosen(4)] by blast
    have "divides F condition ?A ?complete x2 t f"
      by (intro divides_one [OF _ _ _ _ _ _ tf(1,2), of x2 e']) (use chosen some assumedD(2) [OF chosen(4)] st1(1) A all lim in auto)
    then show ?thesis using tf(3) chosen out(1) other by simp
  qed
qed

text \<open>Without limits and replays, a fork returns if the solver fails no assertion and adding the condition ends.\<close>

lemma fork_returns:
  assumes solver: "sound_solver False F I impl" "I s" "simplifyExprs opt = None"
    and ok: "executor_ok x" and st: "st \<in> live x" "es_heap x st = Some e" and ns: "es_heap x ns = None"
    and p: "path_ok (path e)" "condition_ok (path e) condition" and ends: "ends opt (path e) condition"
    and opt: "replayPath opt = None \<or> isInternal" "\<not> replayKTest opt" "branchingPermitted opt x e \<or> \<not> F"
  shows "Executor_fork opt impl False ns st condition isInternal x s \<noteq> None"
proof -
  have q: "bool_query \<lparr>constraints = path e, q_expr = condition\<rparr>" by (rule condition_ok_query [OF p])
  from solver(3) have se: "simplifyExprs opt \<noteq> None \<longrightarrow> False" by simp
  from call_okD [OF sound_solver.timing_evaluate [OF solver(1) q se] solver(2)] obtain r s' where
    ev: "TimingSolver_evaluate (simplifyExprs opt) impl (path e) condition s = Some (r, s')"
    by (cases "TimingSolver_evaluate (simplifyExprs opt) impl (path e) condition s") auto
  note out = evaluate_outcome [OF solver(1,2) se p ev]
  have wf: "path_wf (path e)" using p(1) by (simp add: path_ok_def)
  have run: "Executor_fork opt impl False ns st condition isInternal x s = chooseBranch opt isInternal st condition (case r of None \<Rightarrow> VUnknown | Some v \<Rightarrow> v) x \<bind> (\<lambda>(res, x).
     case res of VTrue \<Rightarrow> Some ((Some st, None), x, s') | VFalse \<Rightarrow> Some ((None, Some st), x, s')
     | VUnknown \<Rightarrow> splitState opt ns st condition (r = None) x \<bind> (\<lambda>(p, x). Some (p, x, s')))"
    using ev st(2) by (simp add: Executor_fork_def fixCondition_def)
  have split: "splitState opt ns st condition (r = None) x \<noteq> None" if "r = None \<or> r = Some VUnknown"
    by (rule splitState_returns [OF ok st ns wf p(2)]) (use that ends out(5) in blast)
  show ?thesis
  proof (cases "(r = None \<or> r = Some VUnknown) \<and> \<not> branchingPermitted opt x e")
    case True
    then have r: "r = Some VUnknown" using opt(3) out(2) by auto
    obtain b rng where rng: "RNG_getBool (theRNG (eng x)) = Some (b, rng)"
      using RNG_getBool_ok [OF live_okD(1) [OF executor_okD(1) [OF ok]]] by (auto elim: succeedsE)
    let ?x = "x\<lparr>eng := (eng x)\<lparr>theRNG := rng\<rparr>\<rparr>"
    have "es_heap ?x st = Some e" using st(2) by simp
    from assume_branch_returns [OF this p(2) ends out(5) [OF r], of b] rng r True opt(1,2) st(2) show ?thesis
      by (auto simp: run chooseBranch_def)
  next
    case False
    with opt(1,2) st(2) have "chooseBranch opt isInternal st condition (case r of None \<Rightarrow> VUnknown | Some v \<Rightarrow> v) x = Some (case r of None \<Rightarrow> VUnknown | Some v \<Rightarrow> v, x)"
      by (auto simp: chooseBranch_def split: option.splits)
    with split show ?thesis by (auto simp: run split: option.splits Validity.splits)
  qed
qed

section \<open>Properties\<close>

text \<open>C5: a fork divides the inputs of a state. Of the states that \<open>fork\<close> returns, the inputs of the first satisfy the condition and
  those of the second falsify it, both have some inputs, and all are inputs of the state that was forked; if forking is permitted, nothing is replayed, no statistic is over its
  limit and the path is not too deep, every input of the state is an input of one of the two. A query that times out leaves the
  inputs of both as they were. No other state is touched, and the engine stays consistent. (\<open>F\<close>: the solver may time out;
  \<open>N\<close>: it may fail an assertion.) Without limits and replays a fork returns, whatever the solver answers and whether it times out or not, if
  the simplification ends that adds the condition or its negation to the path; where branching is not permitted, the solver may not time out.\<close>

theorem fork_divides_inputs:
  assumes solver: "sound_solver N F I impl" "I s" "simplifyExprs opt \<noteq> None \<longrightarrow> N"
    and ok: "executor_ok x" and st: "st \<in> live x" "es_heap x st = Some e" and ns: "es_heap x ns = None"
    and p: "path_ok (path e)" "condition_ok (path e) condition"
  shows "(\<forall>t f x' s'. Executor_fork opt impl limited ns st condition isInternal x s = Some ((t, f), x', s') \<longrightarrow>
      executor_ok x' \<and> I s' \<and> (\<forall>k. k \<noteq> st \<longrightarrow> k \<noteq> ns \<longrightarrow> es_heap x' k = es_heap x k)
      \<and> (\<forall>k. t = Some k \<longrightarrow> follows F condition True (inputs x st) x' k) \<and> (\<forall>k. f = Some k \<longrightarrow> follows F condition False (inputs x st) x' k)
      \<and> (\<not> limited \<and> branchingPermitted opt x e \<and> (replayPath opt = None \<or> isInternal) \<and> (MaxDepth opt = 0 \<or> (depth e + 1) mod 2 ^ 32 < MaxDepth opt)
          \<longrightarrow> inputs x st \<subseteq> (\<Union>k\<in>set_option t \<union> set_option f. inputs x' k)))
    \<and> (\<not> N \<and> \<not> limited \<and> (replayPath opt = None \<or> isInternal) \<and> \<not> replayKTest opt \<and> (branchingPermitted opt x e \<or> \<not> F) \<and> ends opt (path e) condition
        \<longrightarrow> Executor_fork opt impl limited ns st condition isInternal x s \<noteq> None)"
proof (intro conjI impI)
  show "\<forall>t f x' s'. Executor_fork opt impl limited ns st condition isInternal x s = Some ((t, f), x', s') \<longrightarrow>
      executor_ok x' \<and> I s' \<and> (\<forall>k. k \<noteq> st \<longrightarrow> k \<noteq> ns \<longrightarrow> es_heap x' k = es_heap x k)
      \<and> (\<forall>k. t = Some k \<longrightarrow> follows F condition True (inputs x st) x' k) \<and> (\<forall>k. f = Some k \<longrightarrow> follows F condition False (inputs x st) x' k)
      \<and> (\<not> limited \<and> branchingPermitted opt x e \<and> (replayPath opt = None \<or> isInternal) \<and> (MaxDepth opt = 0 \<or> (depth e + 1) mod 2 ^ 32 < MaxDepth opt)
          \<longrightarrow> inputs x st \<subseteq> (\<Union>k\<in>set_option t \<union> set_option f. inputs x' k))"
    using fork_sound [OF assms] unfolding divides_def by blast
  assume "\<not> N \<and> \<not> limited \<and> (replayPath opt = None \<or> isInternal) \<and> \<not> replayKTest opt \<and> (branchingPermitted opt x e \<or> \<not> F) \<and> ends opt (path e) condition"
  then show "Executor_fork opt impl limited ns st condition isInternal x s \<noteq> None"
    using fork_returns [of F I impl s opt x st e ns condition isInternal] assms by auto
qed

text \<open>An engine with one state and a solver that knows one contingent query.\<close>

definition ex_executor :: executor where
  "ex_executor = (Executor_new (RNG_seed 5489) 7 ex_state 2)\<lparr>states := {7}\<rparr>"

definition ex_fork_options :: fork_options where
  "ex_fork_options = \<lparr>MaxMemoryInhibit = True, MaxForks = 2 ^ 32 - 1, MaxDepth = 0, CompressProcessTree = False, replayPath = None, replayKTest = False,
     simplifyExprs = None, addFuel = 100\<rparr>"

definition ex_condition :: expr where
  "ex_condition = BinaryExpr Eq (ConstantExpr 8 7) (ex_read 0)"

definition ContingentSolver :: "unit SolverImpl" where
  "ContingentSolver =
     \<lparr>computeTruth = (\<lambda>q. failed),
      computeValidity = (\<lambda>q. if q = \<lparr>constraints = [], q_expr = ex_condition\<rparr> then ret VUnknown else failed),
      computeValue = (\<lambda>q. failed), computeInitialValues = (\<lambda>q objects. failed)\<rparr>"

lemma ex_condition_ok: "condition_ok [] ex_condition" "path_ok []"
  by (auto simp: condition_ok_def wf_constraint_def ex_condition_def ex_read_def path_ok_def path_wf_Nil models_def wf_asg_def intro: exI [of _ "\<lambda>a i. 0"])

lemma ex_condition_values: "\<exists>\<sigma>. models [] \<sigma> \<and> eval \<sigma> ex_condition = Some (of_bool b)"
proof -
  let ?\<sigma> = "\<lambda>a i. (if b then 7 else 0) mod 2 ^ arr_range a"
  have "models [] ?\<sigma>" by (simp add: models_def wf_asg_def)
  moreover have "eval ?\<sigma> ex_condition = Some (of_bool b)"
    by (simp add: ex_condition_def ex_read_def ex_array_def arr_init_def isConstantArray_def isSymbolicArray_def)
  ultimately show ?thesis by blast
qed

lemma ex_condition_contingent: "validity_of \<lparr>constraints = [], q_expr = ex_condition\<rparr> = VUnknown"
  using ex_condition_values [of True] ex_condition_values [of False] by (auto simp: validity_of_def valid_def invalid_def)

interpretation contingent_solver: sound_solver False True "\<lambda>s. True" ContingentSolver
  by unfold_locales (use ex_condition_contingent in \<open>auto simp: ContingentSolver_def intro!: call_intro\<close>)

lemma ex_executor_ok: "executor_ok ex_executor" "live ex_executor = {7}" "es_heap ex_executor = [7 \<mapsto> ex_state]"
proof -
  have "attached (eng ex_executor) = {7}" by (simp add: ex_executor_def Executor_new_def attached_def state_at_new)
  moreover have "tracks (ptreeNode_of (eng ex_executor)) (processTree (eng ex_executor))" by (simp add: ex_executor_def Executor_new_def tracks_def state_at_new)
  ultimately show "executor_ok ex_executor" using rng_ok_seed ptree_ok_new ex_state_ok
    by (simp add: executor_ok_def live_ok_def ex_executor_def Executor_new_def)
qed (simp_all add: live_def ex_executor_def Executor_new_def)

lemma ex_permitted: "branchingPermitted ex_fork_options ex_executor ex_state"
  by (simp add: branchingPermitted_def ex_fork_options_def ex_executor_def Executor_new_def ex_state_def ExecutionState_new_def setID_def pushFrame_def)

lemma ex_condition_added:
  "addConstraint 100 ex_condition [] = Inr [ex_condition]"
  "addConstraint 100 (BinaryExpr Eq (ConstantExpr 1 0) ex_condition) [] = Inr [BinaryExpr Eq (ConstantExpr 1 0) ex_condition]"
  by code_simp+

lemma ex_condition_ends: "ends ex_fork_options [] ex_condition"
proof -
  have "createIsZero ex_condition = Some (BinaryExpr Eq (ConstantExpr 1 0) ex_condition)" by code_simp
  then show ?thesis using ex_condition_added by (simp add: ends_def settles_def ex_fork_options_def)
qed

theorem fork_divides_inputs_witness:
  "\<exists>t f x'. Executor_fork ex_fork_options ContingentSolver False 8 7 ex_condition False ex_executor () = Some ((t, f), x', ())
     \<and> inputs ex_executor 7 \<subseteq> (\<Union>k\<in>set_option t \<union> set_option f. inputs x' k) \<and> executor_ok x'"
proof -
  have h: "es_heap ex_executor 7 = Some ex_state" "es_heap ex_executor 8 = None" "7 \<in> live ex_executor"
    "path_ok (path ex_state)" "condition_ok (path ex_state) ex_condition" "simplifyExprs ex_fork_options \<noteq> None \<longrightarrow> False"
    using ex_executor_ok ex_condition_ok ex_state_ok(2) by (simp_all add: ex_fork_options_def)
  note f = fork_divides_inputs [OF contingent_solver.sound_solver_axioms _ h(6) ex_executor_ok(1) h(3,1,2,4,5), where s = "()" and limited = False and isInternal = False]
  have o: "replayPath ex_fork_options = None" "MaxDepth ex_fork_options = 0" "\<not> replayKTest ex_fork_options" by (simp_all add: ex_fork_options_def)
  from f [THEN conjunct2] ex_condition_ends ex_permitted ex_state_ok(2) o obtain t f x' s' where
    run: "Executor_fork ex_fork_options ContingentSolver False 8 7 ex_condition False ex_executor () = Some ((t, f), x', s')" by auto
  with f [THEN conjunct1, rule_format, OF _ run] ex_permitted o show ?thesis by auto
qed

end
