(* ===== verification/ExecutorBranch.thy ===== *)
theory ExecutorBranch
  imports ExecutorFork
begin

text \<open>
  \<open>branch\<close> of \<^verbatim>\<open>lib/Core/Executor.cpp\<close>, the fork over many conditions, and the concretisation of values by \<open>toUnique\<close> and
  \<open>toConstant\<close>, without seeds. \<open>None\<close> is a failed assertion, a fatal error, or a simplification of constraints that takes more than \<open>addFuel\<close> steps.
\<close>

section \<open>The model\<close>

text \<open>
  \<open>branch\<close>: one state for every condition. The new states branch from a random one of those there are; if branching is not permitted, a
  random condition is followed. \<open>nss\<close> are the addresses of the new states.
\<close>

fun branchMore :: "nat list \<Rightarrow> nat list \<Rightarrow> executor \<Rightarrow> (nat list \<times> executor) option" where
  "branchMore [] result x = Some (result, x)"
| "branchMore (ns # nss) result x =
     RNG_getInt32 (theRNG (eng x)) \<bind> (\<lambda>(y, rng).
     branchState (result ! (unat y mod length result)) ns (x\<lparr>eng := (eng x)\<lparr>theRNG := rng\<rparr>\<rparr>) \<bind> (\<lambda>x. branchMore nss (result @ [ns]) x))"

fun addConditions :: "fork_options \<Rightarrow> (nat option \<times> expr) list \<Rightarrow> executor \<Rightarrow> executor option" where
  "addConditions opt [] x = Some x"
| "addConditions opt ((r, c) # rcs) x =
     (case r of None \<Rightarrow> Some x | Some st \<Rightarrow> Executor_addConstraint opt st c x) \<bind> addConditions opt rcs"

text \<open>The states that the conditions go to.\<close>

definition createStates :: "fork_options \<Rightarrow> nat list \<Rightarrow> nat \<Rightarrow> nat \<Rightarrow> executor \<Rightarrow> (nat option list \<times> executor) option" where
  "createStates opt nss st N x =
     es_heap x st \<bind> (\<lambda>e.
     if \<not> branchingPermitted opt x e then
       RNG_getInt32 (theRNG (eng x)) \<bind> (\<lambda>(y, rng).
       Some (map (\<lambda>i. if i = unat y mod N then Some st else None) [0..<N], x\<lparr>eng := (eng x)\<lparr>theRNG := rng\<rparr>\<rparr>))
     else
       branchMore (take (N - 1) nss) [st] (x\<lparr>forks := forks x + (N - 1)\<rparr>) \<bind> (\<lambda>(result, x). Some (map Some result, x)))"

definition Executor_branch :: "fork_options \<Rightarrow> nat list \<Rightarrow> nat \<Rightarrow> expr list \<Rightarrow> executor \<Rightarrow> (nat option list \<times> executor) option" where
  "Executor_branch opt nss st conditions x =
     (let N = length conditions in
      if N = 0 then None
      else createStates opt nss st N x \<bind> (\<lambda>(result, x).
        addConditions opt (zip result conditions) x \<bind> (\<lambda>x. Some (result, x))))"

text \<open>Concretisation; the expression optimiser is off, as it is by default.\<close>

definition toUnique :: "fork_options \<Rightarrow> 's SolverImpl \<Rightarrow> nat \<Rightarrow> expr \<Rightarrow> executor \<Rightarrow> 's \<Rightarrow> (expr \<times> 's) option" where
  "toUnique opt impl st e x s =
     (if isConstantExpr e then Some (e, s)
      else es_heap x st \<bind> (\<lambda>es.
        TimingSolver_getValue (simplifyExprs opt) impl (path es) e s \<bind> (\<lambda>(r, s).
        case r of
          None \<Rightarrow> Some (e, s)
        | Some value \<Rightarrow> EqExpr_create e value \<bind> (\<lambda>cond.
            TimingSolver_mustBeTrue (simplifyExprs opt) impl (path es) cond s \<bind> (\<lambda>(r, s).
            Some (if r = Some True then value else e, s))))))"

definition toConstant :: "fork_options \<Rightarrow> 's SolverImpl \<Rightarrow> nat \<Rightarrow> expr \<Rightarrow> executor \<Rightarrow> 's \<Rightarrow> (expr \<times> executor \<times> 's) option" where
  "toConstant opt impl st e x s =
     es_heap x st \<bind> (\<lambda>es.
     case simplifyExpr (addFuel opt) (path es) e of
       Inl err \<Rightarrow> None
     | Inr e \<Rightarrow>
         if isConstantExpr e then Some (e, x, s)
         else TimingSolver_getValue (simplifyExprs opt) impl (path es) e s \<bind> (\<lambda>(r, s).
           r \<bind> (\<lambda>value. EqExpr_create e value \<bind> (\<lambda>c. Executor_addConstraint opt st c x \<bind> (\<lambda>x. Some (value, x, s))))))"

section \<open>Branching on many conditions\<close>

lemma map_filter_one: "i < n \<Longrightarrow> List.map_filter id (map (\<lambda>j. if j = i then Some v else None) [0..<n]) = [v]"
proof -
  assume i: "i < n"
  have no: "i \<notin> set js \<Longrightarrow> List.map_filter id (map (\<lambda>j. if j = i then Some v else None) js) = []" for js
    by (induction js) (auto simp: map_filter_simps)
  have "[0..<n] = [0..<i] @ i # [Suc i..<n]" using i by (metis upt_add_eq_append upt_conv_Cons le0 less_imp_le_nat less_imp_add_positive)
  then show ?thesis using no [of "[0..<i]"] no [of "[Suc i..<n]"] by (simp add: map_filter_def)
qed

lemma in_map_filter_id: "k \<in> set (List.map_filter id xs) \<longleftrightarrow> Some k \<in> set xs"
  by (induction xs) (auto simp: map_filter_simps split: option.split)

lemma map_filter_fst_zip: "length xs = length ys \<Longrightarrow> List.map_filter fst (zip xs ys) = List.map_filter id xs"
  by (induction xs ys rule: list_induct2) (simp_all add: map_filter_simps split: option.split)

text \<open>The states that \<open>branch\<close> creates are copies of the state it is called on, as far as paths are concerned.\<close>

definition same_paths :: "executor \<Rightarrow> nat list \<Rightarrow> constraint_set \<Rightarrow> bool" where
  "same_paths x result cs \<longleftrightarrow> (\<forall>k\<in>set result. \<exists>e. es_heap x k = Some e \<and> path e = cs)"

lemma branchMore_ok:
  assumes "executor_ok x" "result \<noteq> []" "set result \<subseteq> live x" "distinct result" "same_paths x result cs"
    and "distinct nss" "\<forall>ns\<in>set nss. es_heap x ns = None"
  shows "succeeds (branchMore nss result x) (\<lambda>(result', x'). executor_ok x' \<and> result' = result @ nss \<and> set result' \<subseteq> live x' \<and> distinct result'
    \<and> same_paths x' result' cs \<and> (\<forall>k. k \<notin> set result' \<longrightarrow> es_heap x' k = es_heap x k))"
  using assms
proof (induction nss arbitrary: result x)
  case (Cons ns nss)
  obtain y rng where y: "RNG_getInt32 (theRNG (eng x)) = Some (y, rng)" "rng_ok rng"
    using RNG_getInt32_ok [OF live_okD(1) [OF executor_okD(1) [OF Cons.prems(1)]]] by (auto elim: succeedsE)
  let ?x = "x\<lparr>eng := (eng x)\<lparr>theRNG := rng\<rparr>\<rparr>" and ?k = "result ! (unat y mod length result)"
  have ok: "executor_ok ?x" by (rule executor_ok_rng [OF Cons.prems(1) y(2)])
  have k: "?k \<in> set result" using Cons.prems(2) by simp
  have kl: "?k \<in> live ?x" using k Cons.prems(3) by (auto simp: live_def)
  have ns: "es_heap ?x ns = None" "ns \<notin> set result" using Cons.prems(5,7) by (auto simp: same_paths_def)
  note e = executor_okD [OF ok]
  have L: "?k \<in> states ?x \<union> set (addedStates ?x)" "ns \<notin> states ?x \<union> set (addedStates ?x)"
    using kl live_okD(5) [OF e(1)] ns(1) by (auto simp: live_def)
  from branchState_ok [OF e(1) L] obtain x1 s t f nx where b: "branchState ?k ns ?x = Some x1" "es_heap ?x ?k = Some s" "ExecutionState_branch s (nextID ?x) = Some (t, f, nx)"
    "x1 = ?x\<lparr>es_heap := (es_heap ?x)(?k \<mapsto> t, ns \<mapsto> f), nextID := nx, addedStates := addedStates ?x @ [ns], eng := eng x1\<rparr>" by (auto elim: succeedsE)
  have ok1: "executor_ok x1" "states x1 = states x" "addedStates x1 = addedStates x @ [ns]" "removedStates x1 = removedStates x"
    using succeedsD [OF executor_ok_branch [OF ok kl ns(1)] b(1)] by simp_all
  have h1: "es_heap x1 = (es_heap x)(?k \<mapsto> t, ns \<mapsto> f)" by (subst b(4)) simp
  have ps: "path s = cs" using Cons.prems(5) k b(2) by (auto simp: same_paths_def)
  note bo = branch_ok [OF live_okD(7) [OF e(1) b(2)] b(3)]
  have sp: "same_paths x1 (result @ [ns]) cs" using Cons.prems(5) ns(2) ps bo(1,2) by (auto simp: same_paths_def h1)
  have lv: "set (result @ [ns]) \<subseteq> live x1" using Cons.prems(3) ok1 L(2) executor_okD(6) [OF ok1(1)] by (auto simp: live_def)
  have nn: "\<forall>n\<in>set nss. es_heap x1 n = None" using Cons.prems(6,7) k Cons.prems(5) by (auto simp: h1 same_paths_def)
  have "succeeds (branchMore nss (result @ [ns]) x1) (\<lambda>(result', x'). executor_ok x' \<and> result' = (result @ [ns]) @ nss \<and> set result' \<subseteq> live x' \<and> distinct result'
    \<and> same_paths x' result' cs \<and> (\<forall>k. k \<notin> set result' \<longrightarrow> es_heap x' k = es_heap x1 k))"
    by (rule Cons.IH [OF ok1(1) _ lv _ sp _ nn]) (use Cons.prems(4,6) ns(2) in simp_all)
  then have "succeeds (branchMore nss (result @ [ns]) x1) (\<lambda>(result', x'). executor_ok x' \<and> result' = result @ ns # nss \<and> set result' \<subseteq> live x' \<and> distinct result'
    \<and> same_paths x' result' cs \<and> (\<forall>k. k \<notin> set result' \<longrightarrow> es_heap x' k = es_heap x k))"
    by (rule succeeds_mono) (use k in \<open>auto simp: h1\<close>)
  then show ?case using y(1) b(1) by simp
qed simp

lemma addConditions_ok:
  assumes "addConditions opt rcs x = Some x'" "executor_ok x" "distinct (List.map_filter fst rcs)" "set (List.map_filter fst rcs) \<subseteq> live x"
    and "same_paths x (List.map_filter fst rcs) cs" "path_wf cs" "\<forall>(r, c)\<in>set rcs. condition_ok cs c"
  shows "executor_ok x' \<and> live x' = live x \<and> (\<forall>k. k \<notin> set (List.map_filter fst rcs) \<longrightarrow> es_heap x' k = es_heap x k)
    \<and> (\<forall>k c \<sigma>. (Some k, c) \<in> set rcs \<longrightarrow> (\<sigma> \<in> inputs x' k \<longleftrightarrow> models cs \<sigma> \<and> eval \<sigma> c = Some 1))"
  using assms
proof (induction rcs arbitrary: x)
  case (Cons rc rcs)
  obtain r c where rc: "rc = (r, c)" by (cases rc)
  show ?case
  proof (cases r)
    case None
    with rc Cons.prems Cons.IH [of x] show ?thesis by (simp add: map_filter_simps) 
  next
    case (Some k)
    from Cons.prems(1) rc Some obtain x1 where x1: "Executor_addConstraint opt k c x = Some x1" "addConditions opt rcs x1 = Some x'"
      by (auto simp: bind_eq_Some_conv)
    have fl: "List.map_filter fst (rc # rcs) = k # List.map_filter fst rcs" using rc Some by (simp add: map_filter_simps)
    from Cons.prems(5) obtain e where e: "es_heap x k = Some e" "path e = cs" unfolding fl same_paths_def by auto
    have c: "condition_ok (path e) c" "path_wf (path e)" using Cons.prems(6,7) rc e(2) by auto
    from addConstraint_assumed [OF x1(1) e(1) c(2,1)] obtain e' where e': "assumed c True e e'" "x1 = x\<lparr>es_heap := (es_heap x)(k \<mapsto> e')\<rparr>" by blast
    have kl: "k \<in> live x" using Cons.prems(4) unfolding fl by simp
    have ok1: "executor_ok x1" unfolding e'(2) by (rule assumed_executor_ok [OF Cons.prems(2) kl e(1) e'(1)])
    have l1: "live x1 = live x" using e'(2) by (simp add: live_def)
    have nk: "k \<notin> set (List.map_filter fst rcs)" "distinct (List.map_filter fst rcs)" using Cons.prems(3) unfolding fl by simp_all
    have "same_paths x1 (List.map_filter fst rcs) cs" using Cons.prems(5) nk(1) unfolding fl by (auto simp: same_paths_def e'(2))
    then have ih: "executor_ok x' \<and> live x' = live x1 \<and> (\<forall>k. k \<notin> set (List.map_filter fst rcs) \<longrightarrow> es_heap x' k = es_heap x1 k)
      \<and> (\<forall>k c \<sigma>. (Some k, c) \<in> set rcs \<longrightarrow> (\<sigma> \<in> inputs x' k \<longleftrightarrow> models cs \<sigma> \<and> eval \<sigma> c = Some 1))"
      using Cons.IH [OF x1(2) ok1 nk(2)] Cons.prems(4,6,7) l1 unfolding fl by auto
    then have "es_heap x' k = Some e'" using nk(1) e'(2) by simp
    then have "\<sigma> \<in> inputs x' k \<longleftrightarrow> models cs \<sigma> \<and> eval \<sigma> c = Some 1" for \<sigma>
      using assumedD(2) [OF e'(1), of \<sigma>] e(2) by (simp add: inputs_def)
    moreover have "\<forall>j. j \<notin> set (k # List.map_filter fst rcs) \<longrightarrow> es_heap x' j = es_heap x j" using ih e'(2) by simp
    ultimately show ?thesis using ih l1 rc Some unfolding fl by auto
  qed
qed (simp add: map_filter_simps)

lemma addConditions_returns:
  assumes "executor_ok x" "distinct (List.map_filter fst rcs)" "set (List.map_filter fst rcs) \<subseteq> live x"
    and "same_paths x (List.map_filter fst rcs) cs" "path_wf cs"
    and "\<forall>(r, c)\<in>set rcs. condition_ok cs c \<and> settles opt cs c \<and> (\<exists>\<sigma>. models cs \<sigma> \<and> eval \<sigma> c = Some 1)"
  shows "addConditions opt rcs x \<noteq> None"
  using assms
proof (induction rcs arbitrary: x)
  case (Cons rc rcs)
  obtain r c where rc: "rc = (r, c)" by (cases rc)
  show ?case
  proof (cases r)
    case None
    with rc Cons.prems Cons.IH [of x] show ?thesis by (simp add: map_filter_simps)
  next
    case (Some k)
    have fl: "List.map_filter fst (rc # rcs) = k # List.map_filter fst rcs" using rc Some by (simp add: map_filter_simps)
    from Cons.prems(4) obtain e where e: "es_heap x k = Some e" "path e = cs" unfolding fl same_paths_def by auto
    have c: "condition_ok (path e) c" "settles opt (path e) c" "\<exists>\<sigma>. models (path e) \<sigma> \<and> eval \<sigma> c = Some 1" "path_wf (path e)"
      using Cons.prems(5,6) rc e(2) by auto
    from addConstraint_returns [OF e(1) c(1-3)] obtain x1 where x1: "Executor_addConstraint opt k c x = Some x1" by blast
    from addConstraint_assumed [OF x1 e(1) c(4,1)] obtain e' where e': "assumed c True e e'" "x1 = x\<lparr>es_heap := (es_heap x)(k \<mapsto> e')\<rparr>" by blast
    have kl: "k \<in> live x" using Cons.prems(3) unfolding fl by simp
    have ok1: "executor_ok x1" unfolding e'(2) by (rule assumed_executor_ok [OF Cons.prems(1) kl e(1) e'(1)])
    have l1: "live x1 = live x" using e'(2) by (simp add: live_def)
    have nk: "k \<notin> set (List.map_filter fst rcs)" "distinct (List.map_filter fst rcs)" using Cons.prems(2) unfolding fl by simp_all
    have "same_paths x1 (List.map_filter fst rcs) cs" using Cons.prems(4) nk(1) unfolding fl by (auto simp: same_paths_def e'(2))
    from Cons.IH [OF ok1 nk(2) _ this] Cons.prems(3,5,6) l1 x1 rc Some show ?thesis unfolding fl by auto
  qed
qed simp

lemma createStates_ok:
  assumes ok: "executor_ok x" and st: "st \<in> live x" "es_heap x st = Some e"
    and nss: "N \<le> length nss + 1" "distinct nss" "\<forall>ns\<in>set nss. es_heap x ns = None" and N: "0 < N"
  shows "succeeds (createStates opt nss st N x) (\<lambda>(result, x1). executor_ok x1 \<and> length result = N \<and> distinct (List.map_filter id result)
    \<and> set (List.map_filter id result) \<subseteq> live x1 \<and> same_paths x1 (List.map_filter id result) (path e)
    \<and> (if branchingPermitted opt x e then None \<notin> set result else List.map_filter id result = [st])
    \<and> (\<forall>k. k \<notin> set (List.map_filter id result) \<longrightarrow> es_heap x1 k = es_heap x k))"
proof (cases "branchingPermitted opt x e")
  case False
  obtain y rng where y: "RNG_getInt32 (theRNG (eng x)) = Some (y, rng)" "rng_ok rng"
    using RNG_getInt32_ok [OF live_okD(1) [OF executor_okD(1) [OF ok]]] by (auto elim: succeedsE)
  have "List.map_filter id (map (\<lambda>i. if i = unat y mod N then Some st else None) [0..<N]) = [st]" using N by (simp add: map_filter_one)
  then show ?thesis using y st False executor_ok_rng [OF ok y(2)] by (simp add: createStates_def live_def same_paths_def)
next
  case True
  let ?x = "x\<lparr>forks := forks x + (N - 1)\<rparr>"
  have "executor_ok ?x" using ok by (simp add: executor_ok_def)
  moreover have "same_paths ?x [st] (path e)" using st(2) by (simp add: same_paths_def)
  moreover have "\<forall>ns\<in>set (take (N - 1) nss). es_heap ?x ns = None" using nss(3) by (auto dest: in_set_takeD)
  moreover have "set [st] \<subseteq> live ?x" using st(1) by (simp add: live_def)
  ultimately have "succeeds (branchMore (take (N - 1) nss) [st] ?x) (\<lambda>(result', x'). executor_ok x' \<and> result' = [st] @ take (N - 1) nss \<and> set result' \<subseteq> live x' \<and> distinct result'
    \<and> same_paths x' result' (path e) \<and> (\<forall>k. k \<notin> set result' \<longrightarrow> es_heap x' k = es_heap ?x k))"
    using nss(2) by (intro branchMore_ok) simp_all
  then obtain ks x1 where ks: "branchMore (take (N - 1) nss) [st] ?x = Some (ks, x1)" "executor_ok x1" "ks = [st] @ take (N - 1) nss" "set ks \<subseteq> live x1"
    "distinct ks" "same_paths x1 ks (path e)" "\<forall>k. k \<notin> set ks \<longrightarrow> es_heap x1 k = es_heap x k" by (auto elim!: succeedsE)
  have fl: "List.map_filter id (map Some ks) = ks" by (simp add: map_filter_def comp_def)
  have "length ks = N" using ks(3) nss(1) N by simp
  then show ?thesis using ks(1,2,4-7) True st(2) fl by (auto simp: createStates_def)
qed

section \<open>Values that become constants\<close>

lemma possible_wf:
  assumes "admissible \<lparr>constraints = cs, q_expr = e\<rparr>" "possible \<lparr>constraints = cs, q_expr = e\<rparr> v"
  shows "wf_expr (ConstantExpr (getWidth e) v)"
proof -
  have wf: "wf_expr e" using assms(1) by (simp add: admissible_def)
  from assms(2) obtain \<sigma> where "models cs \<sigma>" "eval \<sigma> e = Some v" by (auto simp: possible_def)
  with eval_less(1) [OF wf models_wf] wf_getWidth_pos [OF wf] show ?thesis by simp
qed

lemma pin_exists:
  assumes "admissible \<lparr>constraints = cs, q_expr = e\<rparr>" "possible \<lparr>constraints = cs, q_expr = e\<rparr> v"
  shows "\<exists>eq. EqExpr_create e (ConstantExpr (getWidth e) v) = Some eq"
proof -
  have "wf_expr e" "getWidth e = getWidth (ConstantExpr (getWidth e) v)" using assms(1) by (simp_all add: admissible_def)
  from EqExpr_create_simplifies [OF this(1) possible_wf [OF assms] this(2)] show ?thesis by (auto elim: simplifiesE)
qed

lemma pin_constraint:
  assumes ok: "executor_ok x" and st: "st \<in> live x" "es_heap x st = Some es" and p: "path_ok (path es)" "admissible \<lparr>constraints = path es, q_expr = e\<rparr>"
    and n: "possible \<lparr>constraints = path es, q_expr = e\<rparr> n" and eq: "EqExpr_create e (ConstantExpr (getWidth e) n) = Some eq"
  shows "case Executor_addConstraint opt st eq x of None \<Rightarrow> \<not> settles opt (path es) eq
    | Some x' \<Rightarrow> executor_ok x' \<and> (\<exists>\<sigma>. \<sigma> \<in> inputs x' st) \<and> (\<forall>\<sigma>. \<sigma> \<in> inputs x' st \<longleftrightarrow> models (path es) \<sigma> \<and> eval \<sigma> e = Some n)
       \<and> (\<forall>k. k \<noteq> st \<longrightarrow> es_heap x' k = es_heap x k)"
proof -
  have "(e, ConstantExpr (getWidth e) n) = (ConstantExpr (getWidth e) n, e) \<or> (e, ConstantExpr (getWidth e) n) = (e, ConstantExpr (getWidth e) n)" by simp
  note pin = pin_condition [OF p(2) n eq this]
  have pw: "path_wf (path es)" using p(1) by (simp add: path_ok_def)
  show ?thesis
  proof (cases "Executor_addConstraint opt st eq x")
    case None
    with addConstraint_returns [OF st(2) pin(1), of opt] pin(2,4) show ?thesis by auto
  next
    case (Some x')
    from addConstraint_assumed [OF Some st(2) pw pin(1)] obtain e' where e': "assumed eq True es e'" "x' = x\<lparr>es_heap := (es_heap x)(st \<mapsto> e')\<rparr>" by blast
    have "\<sigma> \<in> inputs x' st \<longleftrightarrow> models (path es) \<sigma> \<and> eval \<sigma> e = Some n" for \<sigma>
      using assumedD(2) [OF e'(1), of \<sigma>] pin(2) [of \<sigma>] e'(2) by (auto simp: inputs_def)
    moreover have "executor_ok x'" unfolding e'(2) by (rule assumed_executor_ok [OF ok st e'(1)])
    ultimately show ?thesis using Some pin(4) e'(2) by auto
  qed
qed

lemma toUnique_sound:
  assumes solver: "sound_solver N F I impl" "I s" "simplifyExprs opt \<noteq> None \<longrightarrow> N"
    and st: "es_heap x st = Some es" and p: "path_ok (path es)" "wf_expr e" "\<forall>\<sigma>. models (path es) \<sigma> \<longrightarrow> eval \<sigma> e \<noteq> None"
  shows "case toUnique opt impl st e x s of None \<Rightarrow> N
    | Some (r, s') \<Rightarrow> I s' \<and> (r = e \<or> isConstantExpr r) \<and> (\<forall>\<sigma>. models (path es) \<sigma> \<longrightarrow> eval \<sigma> r = eval \<sigma> e)"
proof (cases "isConstantExpr e")
  case False
  have adm: "admissible \<lparr>constraints = path es, q_expr = e\<rparr>" using p by (auto simp: admissible_def path_ok_def path_wf_def)
  have out: "outcome_ok N F I (\<lambda>c. \<exists>v. possible \<lparr>constraints = path es, q_expr = e\<rparr> v \<and> c = ConstantExpr (getWidth e) v) (TimingSolver_getValue (simplifyExprs opt) impl (path es) e s)"
    using call_okD [OF sound_solver.timing_getValue [OF solver(1) adm solver(3)] solver(2)] by simp
  show ?thesis
  proof (cases "TimingSolver_getValue (simplifyExprs opt) impl (path es) e s" rule: outcome_cases)
    case (returns c s1)
    with out obtain v where v: "I s1" "possible \<lparr>constraints = path es, q_expr = e\<rparr> v" "c = ConstantExpr (getWidth e) v" by auto
    from pin_exists [OF adm v(2)] v(3) obtain cond where cond: "EqExpr_create e c = Some cond" by blast
    have "(e, c) = (ConstantExpr (getWidth e) v, e) \<or> (e, c) = (e, ConstantExpr (getWidth e) v)" using v(3) by simp
    note pin = pin_condition [OF adm v(2) cond this]
    have q: "bool_query \<lparr>constraints = path es, q_expr = cond\<rparr>" by (rule condition_ok_query [OF p(1) pin(1)])
    have o: "outcome_ok N F I (\<lambda>b. b = valid \<lparr>constraints = path es, q_expr = cond\<rparr>) (TimingSolver_mustBeTrue (simplifyExprs opt) impl (path es) cond s1)"
      using call_okD [OF sound_solver.timing_mustBeTrue [OF solver(1) q solver(3)] v(1)] by simp
    have eq: "eval \<sigma> c = eval \<sigma> e" if "valid \<lparr>constraints = path es, q_expr = cond\<rparr>" "models (path es) \<sigma>" for \<sigma>
      using that pin(2) [OF that(2)] v(3) by (simp add: valid_def)
    show ?thesis
      using returns cond False st o eq v(3)
      by (cases "TimingSolver_mustBeTrue (simplifyExprs opt) impl (path es) cond s1" rule: outcome_cases) (auto simp: toUnique_def)
  qed (use out False st in \<open>simp_all add: toUnique_def\<close>)
qed (use solver(2) in \<open>simp add: toUnique_def\<close>)

text \<open>Simplifying the expression, and adding that it equals one of its values, ends within the fuel.\<close>

definition concretizes :: "fork_options \<Rightarrow> constraint_set \<Rightarrow> expr \<Rightarrow> bool" where
  "concretizes opt cs e \<longleftrightarrow> (\<exists>e1. simplifyExpr (addFuel opt) cs e = Inr e1 \<and>
     (\<forall>v c. EqExpr_create e1 (ConstantExpr (getWidth e1) v) = Some c \<longrightarrow> settles opt cs c))"

lemma toConstant_sound:
  assumes solver: "sound_solver N F I impl" "I s" "simplifyExprs opt \<noteq> None \<longrightarrow> N"
    and ok: "executor_ok x" and st: "st \<in> live x" "es_heap x st = Some es"
    and p: "path_ok (path es)" "wf_expr e" "\<forall>\<sigma>. models (path es) \<sigma> \<longrightarrow> eval \<sigma> e \<noteq> None"
  shows "case toConstant opt impl st e x s of None \<Rightarrow> N \<or> F \<or> \<not> concretizes opt (path es) e
    | Some (v, x', s') \<Rightarrow> I s' \<and> executor_ok x' \<and> isConstantExpr v \<and> (\<exists>\<sigma>. \<sigma> \<in> inputs x' st)
       \<and> (\<forall>\<sigma>. \<sigma> \<in> inputs x' st \<longleftrightarrow> models (path es) \<sigma> \<and> eval \<sigma> e = eval \<sigma> v) \<and> (\<forall>k. k \<noteq> st \<longrightarrow> es_heap x' k = es_heap x k)"
proof (cases "simplifyExpr (addFuel opt) (path es) e")
  case (Inr e1)
  have adm: "admissible \<lparr>constraints = path es, q_expr = e\<rparr>" using p by (auto simp: admissible_def path_ok_def path_wf_def)
  from timingSimplify_ok [OF adm, of "Some (addFuel opt)" e1] Inr have "same_question \<lparr>constraints = path es, q_expr = e\<rparr> \<lparr>constraints = path es, q_expr = e1\<rparr>"
    by (simp add: timingSimplify_def withExpr_def)
  then have adm1: "admissible \<lparr>constraints = path es, q_expr = e1\<rparr>" and ev1: "\<And>\<sigma>. models (path es) \<sigma> \<Longrightarrow> eval \<sigma> e1 = eval \<sigma> e" by (auto simp: same_question_def)
  have inp: "\<sigma> \<in> inputs x st \<longleftrightarrow> models (path es) \<sigma>" for \<sigma> using st(2) by (simp add: inputs_def)
  show ?thesis
  proof (cases "isConstantExpr e1")
    case True
    moreover have "\<exists>\<sigma>. \<sigma> \<in> inputs x st" using p(1) inp by (auto simp: path_ok_def)
    ultimately show ?thesis using Inr st(2) ok solver(2) ev1 inp by (auto simp: toConstant_def)
  next
    case False
    have out: "outcome_ok N F I (\<lambda>c. \<exists>v. possible \<lparr>constraints = path es, q_expr = e1\<rparr> v \<and> c = ConstantExpr (getWidth e1) v) (TimingSolver_getValue (simplifyExprs opt) impl (path es) e1 s)"
      using call_okD [OF sound_solver.timing_getValue [OF solver(1) adm1 solver(3)] solver(2)] by simp
    show ?thesis
    proof (cases "TimingSolver_getValue (simplifyExprs opt) impl (path es) e1 s" rule: outcome_cases)
      case (returns v s')
      with out obtain n where n: "I s'" "possible \<lparr>constraints = path es, q_expr = e1\<rparr> n" "v = ConstantExpr (getWidth e1) n" by auto
      from pin_exists [OF adm1 n(2)] n(3) obtain eq where eq: "EqExpr_create e1 v = Some eq" by blast
      have run: "toConstant opt impl st e x s = Executor_addConstraint opt st eq x \<bind> (\<lambda>x. Some (v, x, s'))"
        using Inr False returns eq st(2) by (simp add: toConstant_def)
      from pin_constraint [OF ok st p(1) adm1 n(2) eq [unfolded n(3)], of opt] Inr eq n(1,3) ev1 show ?thesis
        by (cases "Executor_addConstraint opt st eq x") (auto simp: run concretizes_def)
    qed (use out Inr False st(2) in \<open>auto simp: toConstant_def\<close>)
  qed
qed (use st(2) in \<open>simp add: toConstant_def concretizes_def\<close>)

section \<open>Properties\<close>

text \<open>C14: a branch on many conditions divides the inputs of a state. If branching is permitted, \<open>branch\<close> returns a state for every condition, otherwise
  the state itself for one of them; the inputs of a returned state are exactly those inputs of the state that satisfy its condition. The states are different, alive,
  no other state is touched, and the engine stays consistent. It returns if every condition can be satisfied and adding it to the path ends.\<close>

theorem branch_divides_inputs:
  assumes ok: "executor_ok x" and st: "st \<in> live x" "es_heap x st = Some e" and p: "path_wf (path e)" "\<forall>c\<in>set conditions. condition_ok (path e) c"
    and nss: "length conditions \<le> length nss + 1" "distinct nss" "\<forall>ns\<in>set nss. es_heap x ns = None" "conditions \<noteq> []"
  shows "(\<forall>result x'. Executor_branch opt nss st conditions x = Some (result, x') \<longrightarrow>
      executor_ok x' \<and> length result = length conditions \<and> distinct (List.map_filter id result)
      \<and> (\<forall>i<length conditions. \<forall>k. result ! i = Some k \<longrightarrow> k \<in> live x' \<and> inputs x' k = {\<sigma> \<in> inputs x st. eval \<sigma> (conditions ! i) = Some 1})
      \<and> (if branchingPermitted opt x e then None \<notin> set result else List.map_filter id result = [st])
      \<and> (\<forall>k. k \<notin> set (List.map_filter id result) \<longrightarrow> es_heap x' k = es_heap x k))
    \<and> ((\<forall>c\<in>set conditions. settles opt (path e) c \<and> (\<exists>\<sigma>\<in>inputs x st. eval \<sigma> c = Some 1)) \<longrightarrow> Executor_branch opt nss st conditions x \<noteq> None)"
proof -
  let ?N = "length conditions"
  have N: "0 < ?N" using nss(4) by simp
  from createStates_ok [OF ok st nss(1-3) N, of opt] obtain result x1 where m: "createStates opt nss st ?N x = Some (result, x1)"
    and made: "executor_ok x1" "length result = ?N" "distinct (List.map_filter id result)" "set (List.map_filter id result) \<subseteq> live x1" "same_paths x1 (List.map_filter id result) (path e)"
      "if branchingPermitted opt x e then None \<notin> set result else List.map_filter id result = [st]" "\<forall>k. k \<notin> set (List.map_filter id result) \<longrightarrow> es_heap x1 k = es_heap x k"
    by (auto elim!: succeedsE)
  have run: "Executor_branch opt nss st conditions x = addConditions opt (zip result conditions) x1 \<bind> (\<lambda>x. Some (result, x))"
    using m N by (simp add: Executor_branch_def)
  have fl: "List.map_filter fst (zip result conditions) = List.map_filter id result" using made(2) by (simp add: map_filter_fst_zip)
  note z = made(1) made(3-5) [folded fl] p(1)
  have cond: "\<forall>(r, c)\<in>set (zip result conditions). condition_ok (path e) c" using p(2) by (auto dest: set_zip_rightD)
  { fix x' assume "addConditions opt (zip result conditions) x1 = Some x'"
    from addConditions_ok [OF this z cond] have a: "executor_ok x'" "live x' = live x1" "\<forall>k. k \<notin> set (List.map_filter id result) \<longrightarrow> es_heap x' k = es_heap x1 k"
      "\<And>k c \<sigma>. (Some k, c) \<in> set (zip result conditions) \<Longrightarrow> \<sigma> \<in> inputs x' k \<longleftrightarrow> models (path e) \<sigma> \<and> eval \<sigma> c = Some 1" unfolding fl by blast+
    have "k \<in> live x' \<and> inputs x' k = {\<sigma> \<in> inputs x st. eval \<sigma> (conditions ! i) = Some 1}" if i: "i < ?N" "result ! i = Some k" for i k
    proof -
      have "(Some k, conditions ! i) \<in> set (zip result conditions)" using i made(2) unfolding set_zip by (intro CollectI exI [of _ i]) simp
      moreover have "k \<in> set (List.map_filter id result)" using i made(2) nth_mem [of i result] by (simp add: in_map_filter_id)
      ultimately show ?thesis using a(2,4) made(4) st(2) by (auto simp: inputs_def)
    qed
    note this a(1,3) }
  note added = this
  have "addConditions opt (zip result conditions) x1 \<noteq> None" if "\<forall>c\<in>set conditions. settles opt (path e) c \<and> (\<exists>\<sigma>\<in>inputs x st. eval \<sigma> c = Some 1)"
    by (rule addConditions_returns [OF z]) (use that p(2) st(2) in \<open>fastforce simp: inputs_def dest: set_zip_rightD\<close>)
  then show ?thesis using added made(2,3,6,7) unfolding run by (auto simp: bind_eq_Some_conv)
qed

text \<open>C15: values are made concrete soundly. \<open>toUnique\<close> returns the expression itself, or a constant that is its value for every input of the state. \<open>toConstant\<close> returns a
  constant that is a possible value, and the state keeps exactly the inputs for which the expression has it; there are some. Both return if the solver fails no assertion; for
  \<open>toConstant\<close> the solver may not time out, and the simplifications have to end.\<close>

theorem concretization_sound:
  assumes solver: "sound_solver N F I impl" "I s" "simplifyExprs opt \<noteq> None \<longrightarrow> N"
    and ok: "executor_ok x" and st: "st \<in> live x" "es_heap x st = Some es"
    and p: "path_ok (path es)" "wf_expr e" "\<forall>\<sigma>. models (path es) \<sigma> \<longrightarrow> eval \<sigma> e \<noteq> None"
  shows "(case toUnique opt impl st e x s of None \<Rightarrow> N
      | Some (r, s') \<Rightarrow> I s' \<and> (r = e \<or> isConstantExpr r) \<and> (\<forall>\<sigma>\<in>inputs x st. eval \<sigma> r = eval \<sigma> e))
    \<and> (case toConstant opt impl st e x s of None \<Rightarrow> N \<or> F \<or> \<not> concretizes opt (path es) e
      | Some (v, x', s') \<Rightarrow> I s' \<and> executor_ok x' \<and> isConstantExpr v
         \<and> inputs x' st = {\<sigma> \<in> inputs x st. eval \<sigma> e = eval \<sigma> v} \<and> inputs x' st \<noteq> {} \<and> (\<forall>k. k \<noteq> st \<longrightarrow> es_heap x' k = es_heap x k))"
proof (intro conjI)
  have inp: "\<sigma> \<in> inputs x st \<longleftrightarrow> models (path es) \<sigma>" for \<sigma> using st(2) by (simp add: inputs_def)
  show "case toUnique opt impl st e x s of None \<Rightarrow> N
      | Some (r, s') \<Rightarrow> I s' \<and> (r = e \<or> isConstantExpr r) \<and> (\<forall>\<sigma>\<in>inputs x st. eval \<sigma> r = eval \<sigma> e)"
    using toUnique_sound [OF solver st(2) p] inp by (auto split: option.splits)
  show "case toConstant opt impl st e x s of None \<Rightarrow> N \<or> F \<or> \<not> concretizes opt (path es) e
      | Some (v, x', s') \<Rightarrow> I s' \<and> executor_ok x' \<and> isConstantExpr v
         \<and> inputs x' st = {\<sigma> \<in> inputs x st. eval \<sigma> e = eval \<sigma> v} \<and> inputs x' st \<noteq> {} \<and> (\<forall>k. k \<noteq> st \<longrightarrow> es_heap x' k = es_heap x k)"
    using toConstant_sound [OF solver ok st p] inp by (auto split: option.splits)
qed

theorem branch_divides_inputs_witness:
  "\<exists>r x'. Executor_branch ex_fork_options [8] 7 [ex_condition, BinaryExpr Eq (ConstantExpr 1 0) ex_condition] ex_executor = Some (r, x')
     \<and> length r = 2 \<and> None \<notin> set r \<and> executor_ok x'"
proof -
  let ?cs = "[ex_condition, BinaryExpr Eq (ConstantExpr 1 0) ex_condition]"
  have c: "\<forall>c\<in>set ?cs. condition_ok (path ex_state) c" "path_wf (path ex_state)" using ex_condition_ok(1) ex_state_ok(2) path_wf_Nil
    by (auto simp: condition_ok_def wf_constraint_def ex_condition_def)
  have h: "7 \<in> live ex_executor" "es_heap ex_executor 7 = Some ex_state" "\<forall>ns\<in>set [8]. es_heap ex_executor ns = None" using ex_executor_ok(2,3) by simp_all
  note b = branch_divides_inputs [OF ex_executor_ok(1) h(1,2) c(2,1) _ _ h(3), of ex_fork_options]
  have "\<forall>c\<in>set ?cs. settles ex_fork_options (path ex_state) c \<and> (\<exists>\<sigma>\<in>inputs ex_executor 7. eval \<sigma> c = Some 1)"
    using ex_condition_added ex_condition_values [of True] ex_condition_values [of False] h(2) ex_state_ok(2) by (fastforce simp: settles_def inputs_def ex_fork_options_def)
  with b obtain r x' where run: "Executor_branch ex_fork_options [8] 7 ?cs ex_executor = Some (r, x')" by auto
  with b [THEN conjunct1, rule_format, OF _ _ _ run] ex_permitted show ?thesis by auto
qed

theorem concretization_sound_witness:
  "toUnique ex_fork_options LiteralSolver 7 (ex_read 0) (ex_executor\<lparr>es_heap := [7 \<mapsto> ex_state\<lparr>path := constraints ex_query\<rparr>]\<rparr>) () = Some (ConstantExpr 8 5, ())
   \<and> inputs (ex_executor\<lparr>es_heap := [7 \<mapsto> ex_state\<lparr>path := constraints ex_query\<rparr>]\<rparr>) 7 \<subseteq> {\<sigma>. eval \<sigma> (ex_read 0) = Some 5}"
proof -
  let ?es = "ex_state\<lparr>path := constraints ex_query\<rparr>" let ?x = "ex_executor\<lparr>es_heap := [7 \<mapsto> ?es]\<rparr>"
  have eq: "EqExpr_create (ex_read 0) (ConstantExpr 8 5) = Some (BinaryExpr Eq (ConstantExpr 8 5) (ex_read 0))" by code_simp
  have w: "getWidth (ex_read 0) = 8" "isConstantExpr (ex_read 0) = False" "dyn_cast_ConstantExpr (ex_read 0) = None" by (simp_all add: ex_read_def)
  have run: "toUnique ex_fork_options LiteralSolver 7 (ex_read 0) ?x () = Some (ConstantExpr 8 5, ())"
    by (simp add: toUnique_def TimingSolver_getValue_def TimingSolver_mustBeTrue_def timingSimplify_def ex_fork_options_def Solver_getValue_def Solver_mustBeTrue_def
        LiteralSolver_def literalValue_def ex_query_def build_def map_filter_simps andThen_def ret_def eq w)
  have "state_ok ?es" using ex_state_ok(1) by (simp add: state_ok_def)
  from executor_ok_change [OF ex_executor_ok(1) _ this, of 7] ex_executor_ok(2,3) have ok: "executor_ok ?x" by simp
  have "guarded (constraints ex_query)" by (auto simp: guarded_def models_def ex_query_def not_false_def ex_read_def split: if_splits)
  with ex_query_bool have p: "path_ok (constraints ex_query)" by (auto simp: bool_query_def admissible_def path_ok_def path_wf_def)
  have h: "simplifyExprs ex_fork_options \<noteq> None \<longrightarrow> False" "7 \<in> live ?x" "es_heap ?x 7 = Some ?es" "path_ok (path ?es)" "wf_expr (ex_read 0)"
    "\<forall>\<sigma>. models (path ?es) \<sigma> \<longrightarrow> eval \<sigma> (ex_read 0) \<noteq> None"
    using ex_executor_ok(2) p by (simp_all add: ex_fork_options_def live_def ex_read_def)
  from concretization_sound [OF literal_solver.sound_solver_axioms _ h(1) ok h(2-6), of "()", THEN conjunct1] run
  have "\<forall>\<sigma>\<in>inputs ?x 7. eval \<sigma> (ConstantExpr 8 5) = eval \<sigma> (ex_read 0)" by simp
  with run show ?thesis by auto
qed

end
