(* ===== verification/KInstruction.thy ===== *)
theory KInstruction
  imports ExecutionState
begin

text \<open>
  Instructions as the engine sees them (\<^verbatim>\<open>include/klee/Module/KInstruction.h\<close>) and the access to their operands and results
  (\<open>Executor::eval\<close>, \<open>un_eval\<close>, \<open>bindLocal\<close> in \<^verbatim>\<open>lib/Core/Executor.cpp\<close>). What the engine asks LLVM about an instruction is part of
  the record: the opcode, with the width of the loaded value for a load and the name of the called function, if it is known, for a call.
  \<open>None\<close> is a failed assertion, an access out of bounds or the use of a null reference.
\<close>

section \<open>The model\<close>

datatype opcode = Load nat | Store | GetElementPtr | Call "string option" | OtherInst

record KInstruction =
  opcode :: opcode
  operands :: "int list"
  dest :: nat

text \<open>The cell of an operand: a constant of the module or a register of the topmost frame.\<close>

datatype cell = Constant nat | Register nat

definition operand_cell :: "KInstruction \<Rightarrow> nat \<Rightarrow> cell option" where
  "operand_cell ki index =
     (if index \<ge> length (operands ki) then None
      else let vnumber = operands ki ! index in
        if vnumber = -1 then None
        else if vnumber < 0 then Some (Constant (nat (- vnumber - 2))) else Some (Register (nat vnumber)))"

definition Executor_eval :: "expr option list \<Rightarrow> KInstruction \<Rightarrow> nat \<Rightarrow> ExecutionState \<Rightarrow> expr option" where
  "Executor_eval constantTable ki index es =
     operand_cell ki index \<bind> (\<lambda>c.
     case c of
       Constant i \<Rightarrow> if i < length constantTable then constantTable ! i else None
     | Register i \<Rightarrow> if stack es \<noteq> [] \<and> i < length (locals (last (stack es))) then locals (last (stack es)) ! i else None)"

definition set_register :: "nat \<Rightarrow> expr \<Rightarrow> ExecutionState \<Rightarrow> ExecutionState option" where
  "set_register i v es =
     (if stack es \<noteq> [] \<and> i < length (locals (last (stack es)))
      then let f = last (stack es) in Some (es\<lparr>stack := butlast (stack es) @ [f\<lparr>locals := (locals f)[i := Some v]\<rparr>]\<rparr>)
      else None)"

text \<open>\<open>un_eval(ki, index, state).value = v\<close>: the assignment may change a constant of the module.\<close>

definition un_eval :: "KInstruction \<Rightarrow> nat \<Rightarrow> expr \<Rightarrow> expr option list \<Rightarrow> ExecutionState \<Rightarrow> (expr option list \<times> ExecutionState) option" where
  "un_eval ki index v constantTable es =
     operand_cell ki index \<bind> (\<lambda>c.
     case c of
       Constant i \<Rightarrow> if i < length constantTable then Some (constantTable[i := Some v], es) else None
     | Register i \<Rightarrow> set_register i v es \<bind> (\<lambda>es. Some (constantTable, es)))"

definition bindLocal :: "KInstruction \<Rightarrow> ExecutionState \<Rightarrow> expr \<Rightarrow> ExecutionState option" where
  "bindLocal target es v = set_register (dest target) v es"

section \<open>Reading back what was assigned\<close>

lemma set_register_frame:
  assumes "set_register i v es = Some es'"
  shows "path es' = path es" "addressSpace es' = addressSpace es" "OOBW es' = OOBW es" "stack es' \<noteq> []" "length (stack es') = length (stack es)"
    "locals (last (stack es')) = (locals (last (stack es)))[i := Some v]" "butlast (stack es') = butlast (stack es)"
    "kf (last (stack es')) = kf (last (stack es))" "map_symbolic_address es' = map_symbolic_address es" "map_address_symbolic es' = map_address_symbolic es"
  using assms by (auto simp: set_register_def Let_def split: if_splits)

lemma un_eval_cases:
  assumes "un_eval ki index v ct es = Some (ct', es')"
  obtains (const) i where "operand_cell ki index = Some (Constant i)" "i < length ct" "ct' = ct[i := Some v]" "es' = es"
  | (reg) i where "operand_cell ki index = Some (Register i)" "set_register i v es = Some es'" "ct' = ct"
proof -
  from assms obtain c where c: "operand_cell ki index = Some c" by (auto simp: un_eval_def bind_eq_Some_conv)
  show thesis
  proof (cases c)
    case (Constant i)
    with assms c have "i < length ct" "ct' = ct[i := Some v]" "es' = es" by (simp_all add: un_eval_def split: if_splits)
    with Constant c show thesis by (intro that(1)) simp_all
  next
    case (Register i)
    with assms c have "set_register i v es = Some es'" "ct' = ct" by (auto simp: un_eval_def bind_eq_Some_conv)
    with Register c show thesis by (intro that(2)) simp_all
  qed
qed

lemma set_register_eq:
  "set_register i v es = Some es' \<longleftrightarrow> stack es \<noteq> [] \<and> i < length (locals (last (stack es)))
     \<and> es' = es\<lparr>stack := butlast (stack es) @ [last (stack es)\<lparr>locals := (locals (last (stack es)))[i := Some v]\<rparr>]\<rparr>"
  by (auto simp: set_register_def Let_def)

lemma un_eval_eval:
  assumes "un_eval ki index v ct es = Some (ct', es')"
  shows "Executor_eval ct' ki index es' = Some v"
  using assms by (cases rule: un_eval_cases) (auto simp: Executor_eval_def set_register_eq)

lemma un_eval_frame:
  assumes "un_eval ki index v ct es = Some (ct', es')"
  shows "path es' = path es" "addressSpace es' = addressSpace es" "OOBW es' = OOBW es" "length ct' = length ct" "length (stack es') = length (stack es)"
    "map_symbolic_address es' = map_symbolic_address es" "map_address_symbolic es' = map_address_symbolic es"
  using assms by (cases rule: un_eval_cases; auto simp: set_register_eq)+

lemma operand_cases:
  assumes "Executor_eval ct ki index es = Some v"
  obtains (const) i where "operand_cell ki index = Some (Constant i)" "i < length ct" "ct ! i = Some v"
  | (reg) i where "operand_cell ki index = Some (Register i)" "stack es \<noteq> []" "i < length (locals (last (stack es)))" "locals (last (stack es)) ! i = Some v"
proof -
  from assms obtain c where c: "operand_cell ki index = Some c" by (auto simp: Executor_eval_def bind_eq_Some_conv)
  with assms that show thesis by (cases c) (auto simp: Executor_eval_def split: if_splits)
qed

lemma un_eval_returns:
  assumes "Executor_eval ct ki index es = Some v"
  shows "\<exists>ct' es'. un_eval ki index v' ct es = Some (ct', es')"
  using assms by (cases rule: operand_cases) (auto simp: un_eval_def set_register_def Let_def)

text \<open>Assigning the value it has, or assigning twice.\<close>

lemma un_eval_same:
  assumes "Executor_eval ct ki index es = Some v"
  shows "un_eval ki index v ct es = Some (ct, es)"
  using assms
proof (cases rule: operand_cases)
  case (reg i)
  then have "(locals (last (stack es)))[i := Some v] = locals (last (stack es))" by (simp add: list_update_same_conv)
  with reg show ?thesis by (simp add: un_eval_def set_register_def)
qed (simp add: un_eval_def list_update_same_conv)

lemma un_eval_twice:
  assumes "un_eval ki index v ct es = Some (ct', es')"
  shows "un_eval ki index v' ct' es' = un_eval ki index v' ct es"
  using assms
proof (cases rule: un_eval_cases)
  case (reg i)
  then have "set_register i v' es' = set_register i v' es" unfolding set_register_eq by (auto simp: set_register_def Let_def)
  with reg show ?thesis by (simp add: un_eval_def)
qed (simp add: un_eval_def)

end
