(* ===== verification/OOBCheck.thy ===== *)
theory OOBCheck
  imports KInstruction AddressResolve ExprCompare
begin

text \<open>
  The search for out-of-bounds accesses in \<^verbatim>\<open>lib/Kernel/Listener/UCListener.cpp\<close>: before an instruction is executed, \<open>OOBWcheck\<close>
  looks for the object its address points into, by the constants of the address, and asks the solver whether the access is always in
  bounds; if not, it sets the flag \<open>OOBW\<close> of the state. The width of pointers is a parameter of \<open>Context\<close>; \<open>hv\<close> is the hash of LLVM's integers, which
  the order of expressions uses. \<open>None\<close> is a failed assertion or the use of a null reference.
\<close>

section \<open>The model\<close>

text \<open>\<open>std::set<ref<Expr>>\<close>, as the list of its elements in their order.\<close>

fun setInsert :: "(nat \<Rightarrow> nat \<Rightarrow> 32 word) \<Rightarrow> expr \<Rightarrow> expr list \<Rightarrow> expr list" where
  "setInsert hv e [] = [e]"
| "setInsert hv e (x # xs) =
     (if Expr_compare hv e x < 0 then e # x # xs else if Expr_compare hv e x = 0 then x # xs else x # setInsert hv e xs)"

text \<open>The constants and the symbolic parts of an expression.\<close>

fun separateConstantAndSymbolic :: "(nat \<Rightarrow> nat \<Rightarrow> 32 word) \<Rightarrow> expr \<Rightarrow> expr list \<times> expr list \<Rightarrow> expr list \<times> expr list" where
  "separateConstantAndSymbolic hv (ConstantExpr w v) (cs, ss) = (setInsert hv (ConstantExpr w v) cs, ss)"
| "separateConstantAndSymbolic hv (ReadExpr a us i) (cs, ss) = (cs, setInsert hv (ReadExpr a us i) ss)"
| "separateConstantAndSymbolic hv (ConcatExpr l r) (cs, ss) = (cs, setInsert hv (ConcatExpr l r) ss)"
| "separateConstantAndSymbolic hv (NotOptimizedExpr e) p = separateConstantAndSymbolic hv e p"
| "separateConstantAndSymbolic hv (SelectExpr c t f) p =
     separateConstantAndSymbolic hv f (separateConstantAndSymbolic hv t (separateConstantAndSymbolic hv c p))"
| "separateConstantAndSymbolic hv (ExtractExpr e off w) p = separateConstantAndSymbolic hv e p"
| "separateConstantAndSymbolic hv (CastExpr k e w) p = separateConstantAndSymbolic hv e p"
| "separateConstantAndSymbolic hv (NotExpr e) p = separateConstantAndSymbolic hv e p"
| "separateConstantAndSymbolic hv (BinaryExpr k l r) p = separateConstantAndSymbolic hv r (separateConstantAndSymbolic hv l p)"

text \<open>
  The loop of \<open>extract_baseaddr\<close>: the last constant above 1000000 is taken for the address of an object. The value of a constant
  has to fit in 64 bits.
\<close>

fun lastAddress :: "expr list \<Rightarrow> expr \<Rightarrow> expr option" where
  "lastAddress [] baseaddr = Some baseaddr"
| "lastAddress (c # cs) baseaddr = (if cv c \<ge> 2 ^ 64 then None else lastAddress cs (if cv c > 1000000 then c else baseaddr))"

definition extract_baseaddr :: "(nat \<Rightarrow> nat \<Rightarrow> 32 word) \<Rightarrow> expr \<Rightarrow> expr \<Rightarrow> expr option" where
  "extract_baseaddr hv symaddr baseaddr = lastAddress (fst (separateConstantAndSymbolic hv symaddr ([], []))) baseaddr"

text \<open>\<open>CE->getZExtValue()\<close>\<close>

definition getZExtValue :: "expr \<Rightarrow> nat option" where
  "getZExtValue c = (if isConstantExpr c \<and> cw c \<le> 64 then Some (cv c) else None)"

text \<open>Asks whether \<open>check\<close> always holds; a timeout leaves the flag as it is.\<close>

definition flagUnless :: "nat option \<Rightarrow> 's SolverImpl \<Rightarrow> expr \<Rightarrow> ExecutionState \<Rightarrow> 's \<Rightarrow> (ExecutionState \<times> 's) option" where
  "flagUnless se impl check es s =
     TimingSolver_mustBeTrue se impl (path es) check s \<bind> (\<lambda>(r, s).
     Some (if r = Some False then es\<lparr>OOBW := True\<rparr> else es, s))"

text \<open>The check of an access of \<open>bytes\<close> bytes; an object may have a symbolic size.\<close>

definition boundsCheck :: "nat \<Rightarrow> MemoryObject \<Rightarrow> expr \<Rightarrow> nat \<Rightarrow> expr option" where
  "boundsCheck pw mo targetaddr bytes =
     getOffsetExpr pw mo targetaddr \<bind> (\<lambda>offset.
     getBoundsCheckOffset_bytes pw mo offset bytes \<bind> (\<lambda>check.
     case mo_symsize mo of
       None \<Rightarrow> Some check
     | Some symsize \<Rightarrow> ConstantExpr_create bytes pw \<bind> (\<lambda>b. AddExpr_create offset b \<bind> (\<lambda>offset2. UleExpr_create offset2 symsize))))"

definition OOB_check :: "(nat \<Rightarrow> nat \<Rightarrow> 32 word) \<Rightarrow> nat \<Rightarrow> nat option \<Rightarrow> 's SolverImpl \<Rightarrow> expr \<Rightarrow> nat \<Rightarrow> ExecutionState \<Rightarrow> 's \<Rightarrow> (ExecutionState \<times> 's) option" where
  "OOB_check hv pw se impl targetaddr bytes es s =
     extract_baseaddr hv targetaddr (ConstantExpr pw 0) \<bind> (\<lambda>baseaddress.
     getZExtValue baseaddress \<bind> (\<lambda>a.
     case resolveOne_const (addressSpace es) a of
       None \<Rightarrow> Some (es\<lparr>OOBW := True\<rparr>, s)
     | Some b \<Rightarrow> boundsCheck pw (fst b) targetaddr bytes \<bind> (\<lambda>check. flagUnless se impl check es s)))"

text \<open>An address without a large constant points outside the objects of the engine: then the length itself is checked.\<close>

definition OOB_check2 :: "(nat \<Rightarrow> nat \<Rightarrow> 32 word) \<Rightarrow> nat \<Rightarrow> nat option \<Rightarrow> 's SolverImpl \<Rightarrow> expr \<Rightarrow> expr \<Rightarrow> nat \<Rightarrow> ExecutionState \<Rightarrow> 's \<Rightarrow> (ExecutionState \<times> 's) option" where
  "OOB_check2 hv pw se impl targetaddr len thresholdlen es s =
     (if isConstantExpr len then Some (es, s)
      else extract_baseaddr hv targetaddr (ConstantExpr pw 0) \<bind> (\<lambda>baseaddress.
        getZExtValue baseaddress \<bind> (\<lambda>a.
        if a = 0 then ConstantExpr_create thresholdlen (getWidth len) \<bind> (\<lambda>t. UleExpr_create len t \<bind> (\<lambda>check. flagUnless se impl check es s))
        else Some (es, s))))"

text \<open>The last byte of a block of memory.\<close>

definition lastByte :: "nat \<Rightarrow> expr \<Rightarrow> expr \<Rightarrow> expr option" where
  "lastByte pw addr len = AddExpr_create addr len \<bind> (\<lambda>a. SubExpr_create a (ConstantExpr pw 1))"

definition checkCall :: "(nat \<Rightarrow> nat \<Rightarrow> 32 word) \<Rightarrow> nat \<Rightarrow> nat option \<Rightarrow> 's SolverImpl \<Rightarrow> (nat \<Rightarrow> expr option) \<Rightarrow> string \<Rightarrow> ExecutionState \<Rightarrow> 's \<Rightarrow>
    (ExecutionState \<times> 's) option" where
  "checkCall hv pw se impl arg name es s =
     (if name = ''memcpy'' then
        arg 1 \<bind> (\<lambda>targetaddr. arg 2 \<bind> (\<lambda>srcaddr. arg 3 \<bind> (\<lambda>len.
        if isConstantExpr len \<and> cw len > 64 then None
        else if isConstantExpr len \<and> cv len = 0 then Some (es, s)
        else OOB_check2 hv pw se impl srcaddr len 512 es s \<bind> (\<lambda>(es, s).
          OOB_check2 hv pw se impl targetaddr len 512 es s \<bind> (\<lambda>(es, s).
          lastByte pw targetaddr len \<bind> (\<lambda>t. lastByte pw srcaddr len \<bind> (\<lambda>r.
          OOB_check hv pw se impl t 1 es s \<bind> (\<lambda>(es, s). OOB_check hv pw se impl r 1 es s))))))))
      else if name = ''memset'' then
        arg 1 \<bind> (\<lambda>targetaddr. arg 3 \<bind> (\<lambda>len.
        OOB_check2 hv pw se impl targetaddr len 512 es s \<bind> (\<lambda>(es, s).
        lastByte pw targetaddr len \<bind> (\<lambda>t. OOB_check hv pw se impl t 1 es s))))
      else Some (es, s))"

definition OOBWcheck :: "(nat \<Rightarrow> nat \<Rightarrow> 32 word) \<Rightarrow> nat \<Rightarrow> nat option \<Rightarrow> 's SolverImpl \<Rightarrow> expr option list \<Rightarrow> KInstruction \<Rightarrow> ExecutionState \<Rightarrow> 's \<Rightarrow>
    (ExecutionState \<times> 's) option" where
  "OOBWcheck hv pw se impl constantTable ki es s =
     (if OOBW es then Some (es, s)
      else let operand = (\<lambda>i. Executor_eval constantTable ki i es) in
        case opcode ki of
          Load w \<Rightarrow> operand 0 \<bind> (\<lambda>base. OOB_check hv pw se impl base ((w + 7) div 8) es s)
        | Store \<Rightarrow> operand 1 \<bind> (\<lambda>base. operand 0 \<bind> (\<lambda>v. OOB_check hv pw se impl base ((getWidth v + 7) div 8) es s))
        | GetElementPtr \<Rightarrow> operand 0 \<bind> (\<lambda>baseaddr. operand 1 \<bind> (\<lambda>index. OOB_check2 hv pw se impl baseaddr index 16 es s))
        | Call None \<Rightarrow> Some (es, s)
        | Call (Some name) \<Rightarrow> checkCall hv pw se impl operand name es s
        | OtherInst \<Rightarrow> Some (es, s))"

section \<open>The constants of an address\<close>

lemma setInsert_constants: "\<forall>c\<in>set (e # cs). isConstantExpr c \<Longrightarrow> \<forall>c\<in>set (setInsert hv e cs). isConstantExpr c"
  by (induction cs) (auto simp del: Expr_compare.simps)

lemma separate_constants:
  "\<forall>c\<in>set (fst p). isConstantExpr c \<Longrightarrow> \<forall>c\<in>set (fst (separateConstantAndSymbolic hv e p)). isConstantExpr c"
proof (induction hv e p rule: separateConstantAndSymbolic.induct)
  case (1 hv w v cs ss)
  then show ?case using setInsert_constants [of "ConstantExpr w v" cs hv] by (simp del: Expr_compare.simps setInsert.simps)
qed (unfold separateConstantAndSymbolic.simps fst_conv, blast+)

lemma lastAddress_constant: "lastAddress cs b = Some c \<Longrightarrow> \<forall>c\<in>set (b # cs). isConstantExpr c \<Longrightarrow> isConstantExpr c"
  by (induction cs b rule: lastAddress.induct) (auto split: if_splits)

lemma extract_baseaddr_constant: "extract_baseaddr hv e (ConstantExpr pw 0) = Some c \<Longrightarrow> isConstantExpr c"
  using lastAddress_constant separate_constants [of "([], [])" hv e] unfolding extract_baseaddr_def by fastforce

section \<open>The check of an access\<close>

text \<open>What the check asks of an access at \<open>v\<close>: for an object of a fixed size, that it lies within the object; for a symbolic size, that
  the end of the access, as an offset of 64 bits, is not above the size.\<close>

definition access_ok :: "assignment \<Rightarrow> MemoryObject \<Rightarrow> nat \<Rightarrow> nat \<Rightarrow> bool" where
  "access_ok \<sigma> mo v bytes = (case mo_symsize mo of
     None \<Rightarrow> mo_address mo \<le> v \<and> v + bytes \<le> mo_address mo + mo_size mo
   | Some z \<Rightarrow> (v + 2 ^ 64 - mo_address mo + bytes) mod 2 ^ 64 \<le> the (eval \<sigma> z))"

text \<open>The addresses and sizes of objects that the check relies on.\<close>

definition object_ok :: "constraint_set \<Rightarrow> MemoryObject \<Rightarrow> bool" where
  "object_ok cs mo \<longleftrightarrow> mo_address mo + mo_size mo < 2 ^ 64 \<and> mo_size mo < 2 ^ 32
     \<and> (\<forall>z. mo_symsize mo = Some z \<longrightarrow> wf_expr z \<and> getWidth z = 64 \<and> (\<forall>\<sigma>. models cs \<sigma> \<longrightarrow> eval \<sigma> z \<noteq> None))"

definition address_ok :: "constraint_set \<Rightarrow> expr \<Rightarrow> bool" where
  "address_ok cs e \<longleftrightarrow> wf_expr e \<and> getWidth e = 64 \<and> (\<forall>\<sigma>. models cs \<sigma> \<longrightarrow> eval \<sigma> e \<noteq> None)"

text \<open>What a check does: it sets the flag of the state to \<open>flag\<close> and nothing else, or times out.\<close>

definition reports :: "bool \<Rightarrow> bool \<Rightarrow> ('s \<Rightarrow> bool) \<Rightarrow> ExecutionState \<Rightarrow> bool \<Rightarrow> (ExecutionState \<times> 's) option \<Rightarrow> bool" where
  "reports N F I es flag r = (case r of None \<Rightarrow> N | Some (es', s') \<Rightarrow> I s' \<and> (F \<and> es' = es \<or> es' = es\<lparr>OOBW := flag\<rparr>))"

lemma check_condition:
  assumes "simplifies m c" "getWidth c = 1" "\<And>\<sigma>. models cs \<sigma> \<Longrightarrow> eval \<sigma> c = Some (of_bool (P \<sigma>))"
  shows "\<exists>e. m = Some e \<and> condition_ok cs e \<and> (\<forall>\<sigma>. models cs \<sigma> \<longrightarrow> (eval \<sigma> e = Some 1 \<longleftrightarrow> P \<sigma>))"
proof -
  from assms(1) obtain e where e: "m = Some e" "refines e c" by (rule simplifiesE)
  have ev: "eval \<sigma> e = Some (of_bool (P \<sigma>))" if "models cs \<sigma>" for \<sigma> using refines_eval [OF e(2) models_wf [OF that]] assms(3) [OF that] by simp
  then have "condition_ok cs e" using refines_wf [OF e(2)] refines_width [OF e(2)] assms(2) by (simp add: condition_ok_def wf_constraint_def)
  with e(1) ev show ?thesis by auto
qed

lemma flagUnless_ok:
  assumes solver: "sound_solver N F I impl" "I s" "se \<noteq> None \<longrightarrow> N" and p: "path_ok (path es)" "condition_ok (path es) c"
    and P: "\<forall>\<sigma>. models (path es) \<sigma> \<longrightarrow> (eval \<sigma> c = Some 1 \<longleftrightarrow> P \<sigma>)"
  shows "reports N F I es (OOBW es \<or> (\<exists>\<sigma>. models (path es) \<sigma> \<and> \<not> P \<sigma>)) (flagUnless se impl c es s)"
proof -
  let ?q = "\<lparr>constraints = path es, q_expr = c\<rparr>"
  have q: "bool_query ?q" by (rule condition_ok_query [OF p])
  have v: "(\<exists>\<sigma>. models (path es) \<sigma> \<and> \<not> P \<sigma>) \<longleftrightarrow> \<not> valid ?q" using P by (auto simp: valid_def)
  have out: "outcome_ok N F I (\<lambda>b. b = valid ?q) (TimingSolver_mustBeTrue se impl (path es) c s)"
    using call_okD [OF sound_solver.timing_mustBeTrue [OF solver(1) q solver(3)] solver(2)] by simp
  then show ?thesis
    by (cases "TimingSolver_mustBeTrue se impl (path es) c s" rule: outcome_cases) (auto simp: flagUnless_def reports_def v)
qed

lemma offset_within:
  fixes v a n k :: nat
  assumes "v < 2 ^ 64" "a + n < 2 ^ 64" "0 < k" "k \<le> n"
  shows "(v + 2 ^ 64 - a) mod 2 ^ 64 < n - k + 1 \<longleftrightarrow> a \<le> v \<and> v + k \<le> a + n"
proof (cases "a \<le> v")
  case True
  then have "(v + 2 ^ 64 - a) mod 2 ^ 64 = v - a" using assms(1) by (simp add: mod_if)
  with True assms(3,4) show ?thesis by auto
next
  case False
  then have "(v + 2 ^ 64 - a) mod 2 ^ 64 = v + 2 ^ 64 - a" using assms(1) by simp
  with False assms(2) show ?thesis by auto
qed

lemma offset_ok:
  assumes t: "address_ok cs t" and mo: "object_ok cs mo"
  shows "\<exists>off. getOffsetExpr 64 mo t = Some off \<and> wf_expr off \<and> getWidth off = 64
    \<and> (\<forall>\<sigma>. models cs \<sigma> \<longrightarrow> the (eval \<sigma> t) < 2 ^ 64 \<and> eval \<sigma> off = Some ((the (eval \<sigma> t) + 2 ^ 64 - mo_address mo) mod 2 ^ 64))"
proof -
  let ?a = "ConstantExpr 64 (mo_address mo)"
  have wt: "wf_expr t" "getWidth t = 64" and base: "getBaseExpr 64 mo = ?a" and wa: "wf_expr ?a" using t mo by (auto simp: address_ok_def object_ok_def getBaseExpr_def)
  from SubExpr_create_simplifies [OF wt(1) wa] wt(2) obtain off where off: "SubExpr_create t ?a = Some off" "refines off (BinaryExpr Sub t ?a)" by (auto elim: simplifiesE)
  have wo: "wf_expr off" "getWidth off = 64" using refines_wf [OF off(2)] refines_width [OF off(2)] wt(2) by simp_all
  have "the (eval \<sigma> t) < 2 ^ 64 \<and> eval \<sigma> off = Some ((the (eval \<sigma> t) + 2 ^ 64 - mo_address mo) mod 2 ^ 64)" if m: "models cs \<sigma>" for \<sigma>
  proof -
    from t m obtain v where v: "eval \<sigma> t = Some v" by (auto simp: address_ok_def)
    with eval_less(1) [OF wt(1) models_wf [OF m] v] wt(2) bv_sub_address [of "mo_address mo" v] mo refines_eval [OF off(2) models_wf [OF m]]
    show ?thesis by (auto simp: object_ok_def)
  qed
  with off(1) wo base show ?thesis by (simp add: getOffsetExpr_def)
qed

lemma fixed_check:
  assumes off: "wf_expr off" "getWidth off = 64" and mo: "object_ok cs mo" and bytes: "0 < bytes"
    and ev: "\<forall>\<sigma>. models cs \<sigma> \<longrightarrow> v \<sigma> < 2 ^ 64 \<and> eval \<sigma> off = Some ((v \<sigma> + 2 ^ 64 - mo_address mo) mod 2 ^ 64)"
  shows "\<exists>e. getBoundsCheckOffset_bytes 64 mo off bytes = Some e \<and> condition_ok cs e
    \<and> (\<forall>\<sigma>. models cs \<sigma> \<longrightarrow> (eval \<sigma> e = Some 1 \<longleftrightarrow> mo_address mo \<le> v \<sigma> \<and> v \<sigma> + bytes \<le> mo_address mo + mo_size mo))"
proof (cases "bytes \<le> mo_size mo")
  case True
  let ?n = "ConstantExpr 64 (mo_size mo - bytes + 1)"
  have n: "(mo_size mo - bytes + 1) mod 2 ^ 32 mod 2 ^ 64 = mo_size mo - bytes + 1" "wf_expr ?n" using True bytes mo by (auto simp: object_ok_def intro!: mod_less)
  have "simplifies (UltExpr_create off ?n) (BinaryExpr Ult off ?n)" by (rule less_create_simplifies(1) [OF off(1) n(2)]) (simp add: off(2))
  from check_condition [OF this, of cs "\<lambda>\<sigma>. mo_address mo \<le> v \<sigma> \<and> v \<sigma> + bytes \<le> mo_address mo + mo_size mo"]
  show ?thesis using True n(1) ev offset_within [OF _ _ bytes True, of _ "mo_address mo"] mo
    by (simp add: getBoundsCheckOffset_bytes_def object_ok_def)
qed (auto simp: getBoundsCheckOffset_bytes_def condition_ok_def wf_constraint_def)

lemma symbolic_check:
  assumes off: "wf_expr off" "getWidth off = 64" and z: "wf_expr z" "getWidth z = 64" "\<forall>\<sigma>. models cs \<sigma> \<longrightarrow> eval \<sigma> z \<noteq> None"
    and bytes: "bytes < 2 ^ 64" and ev: "\<forall>\<sigma>. models cs \<sigma> \<longrightarrow> eval \<sigma> off = Some (u \<sigma> mod 2 ^ 64)"
  shows "\<exists>o2 e. AddExpr_create off (ConstantExpr 64 bytes) = Some o2 \<and> UleExpr_create o2 z = Some e \<and> condition_ok cs e
    \<and> (\<forall>\<sigma>. models cs \<sigma> \<longrightarrow> (eval \<sigma> e = Some 1 \<longleftrightarrow> (u \<sigma> + bytes) mod 2 ^ 64 \<le> the (eval \<sigma> z)))"
proof -
  let ?b = "ConstantExpr 64 bytes"
  have wb: "wf_expr ?b" "getWidth off = getWidth ?b" using bytes off(2) by simp_all
  from AddExpr_create_simplifies [OF off(1) wb] obtain o2 where o2: "AddExpr_create off ?b = Some o2" "refines o2 (BinaryExpr Add off ?b)" by (auto elim: simplifiesE)
  have w2: "wf_expr o2" "getWidth o2 = getWidth z" using refines_wf [OF o2(2)] refines_width [OF o2(2)] off(2) z(2) by simp_all
  have "eval \<sigma> (BinaryExpr Ule o2 z) = Some (of_bool ((u \<sigma> + bytes) mod 2 ^ 64 \<le> the (eval \<sigma> z)))" if m: "models cs \<sigma>" for \<sigma>
  proof -
    have "eval \<sigma> (BinaryExpr Add off ?b) = Some ((u \<sigma> mod 2 ^ 64 + bytes) mod 2 ^ 64)"
      using ev m off(2) by (simp add: bv_add_def wrap_def nat_mod_distrib nat_add_distrib nat_power_eq zmod_int flip: of_nat_add)
    with refines_eval [OF o2(2) models_wf [OF m]] have "eval \<sigma> o2 = Some ((u \<sigma> + bytes) mod 2 ^ 64)" by (simp add: mod_add_left_eq)
    with z(3) m show ?thesis by auto
  qed
  from check_condition [OF less_create_simplifies(2) [OF w2(1) z(1) w2(2)] _ this] o2(1) show ?thesis by auto
qed

lemma boundsCheck_ok:
  assumes t: "address_ok cs t" and mo: "object_ok cs mo" and bytes: "0 < bytes" "bytes < 2 ^ 64"
  shows "\<exists>e. boundsCheck 64 mo t bytes = Some e \<and> condition_ok cs e
    \<and> (\<forall>\<sigma>. models cs \<sigma> \<longrightarrow> (eval \<sigma> e = Some 1 \<longleftrightarrow> access_ok \<sigma> mo (the (eval \<sigma> t)) bytes))"
proof -
  from offset_ok [OF t mo] obtain off where off: "getOffsetExpr 64 mo t = Some off" "wf_expr off" "getWidth off = 64"
    "\<forall>\<sigma>. models cs \<sigma> \<longrightarrow> the (eval \<sigma> t) < 2 ^ 64 \<and> eval \<sigma> off = Some ((the (eval \<sigma> t) + 2 ^ 64 - mo_address mo) mod 2 ^ 64)" by blast
  from fixed_check [OF off(2,3) mo bytes(1) off(4)] obtain e where e: "getBoundsCheckOffset_bytes 64 mo off bytes = Some e" "condition_ok cs e"
    "\<forall>\<sigma>. models cs \<sigma> \<longrightarrow> (eval \<sigma> e = Some 1 \<longleftrightarrow> mo_address mo \<le> the (eval \<sigma> t) \<and> the (eval \<sigma> t) + bytes \<le> mo_address mo + mo_size mo)" by blast
  show ?thesis
  proof (cases "mo_symsize mo")
    case None
    with off(1) e show ?thesis by (simp add: boundsCheck_def access_ok_def)
  next
    case (Some z)
    with mo have z: "wf_expr z" "getWidth z = 64" "\<forall>\<sigma>. models cs \<sigma> \<longrightarrow> eval \<sigma> z \<noteq> None" by (auto simp: object_ok_def)
    have "\<forall>\<sigma>. models cs \<sigma> \<longrightarrow> eval \<sigma> off = Some ((the (eval \<sigma> t) + 2 ^ 64 - mo_address mo) mod 2 ^ 64)" using off(4) by blast
    from symbolic_check [OF off(2,3) z bytes(2) this] obtain o2 e2 where "AddExpr_create off (ConstantExpr 64 bytes) = Some o2" "UleExpr_create o2 z = Some e2" "condition_ok cs e2"
      "\<forall>\<sigma>. models cs \<sigma> \<longrightarrow> (eval \<sigma> e2 = Some 1 \<longleftrightarrow> (the (eval \<sigma> t) + 2 ^ 64 - mo_address mo + bytes) mod 2 ^ 64 \<le> the (eval \<sigma> z))" by blast
    with off(1) e(1) Some bytes(2) show ?thesis by (simp add: boundsCheck_def access_ok_def ConstantExpr_create_def)
  qed
qed

text \<open>The base address of the access, as the check sees it.\<close>

definition base_of :: "(nat \<Rightarrow> nat \<Rightarrow> 32 word) \<Rightarrow> expr \<Rightarrow> nat option" where
  "base_of hv t = extract_baseaddr hv t (ConstantExpr 64 0) \<bind> getZExtValue"

lemma OOB_check_exact:
  assumes solver: "sound_solver N F I impl" "I s" "se \<noteq> None \<longrightarrow> N" and p: "path_ok (path es)" and t: "address_ok (path es) t" "base_of hv t = Some a"
    and objs: "layout_ok (addressSpace es)" "\<forall>b\<in>set (inorder (objects (addressSpace es))). object_ok (path es) (fst b)" and bytes: "0 < bytes" "bytes < 2 ^ 64"
  shows "reports N F I es (OOBW es \<or> (case resolveOne_const (addressSpace es) a of None \<Rightarrow> True
      | Some b \<Rightarrow> \<exists>\<sigma>. models (path es) \<sigma> \<and> \<not> access_ok \<sigma> (fst b) (the (eval \<sigma> t)) bytes)) (OOB_check hv 64 se impl t bytes es s)"
proof -
  from t(2) obtain c where c: "extract_baseaddr hv t (ConstantExpr 64 0) = Some c" "getZExtValue c = Some a" by (auto simp: base_of_def bind_eq_Some_conv)
  have run: "OOB_check hv 64 se impl t bytes es s = (case resolveOne_const (addressSpace es) a of None \<Rightarrow> Some (es\<lparr>OOBW := True\<rparr>, s)
     | Some b \<Rightarrow> boundsCheck 64 (fst b) t bytes \<bind> (\<lambda>check. flagUnless se impl check es s))" using c by (simp add: OOB_check_def)
  show ?thesis
  proof (cases "resolveOne_const (addressSpace es) a")
    case (Some b)
    then have "b \<in> set (inorder (objects (addressSpace es)))"
      using tree_store.previous_greatest(1) [OF layout_okD(1) [OF objs(1)]] by (auto simp: resolveOne_const_def Let_def split: option.splits if_splits)
    with objs(2) have "object_ok (path es) (fst b)" by blast
    from boundsCheck_ok [OF t(1) this bytes] obtain e where e: "boundsCheck 64 (fst b) t bytes = Some e" "condition_ok (path es) e"
      "\<forall>\<sigma>. models (path es) \<sigma> \<longrightarrow> (eval \<sigma> e = Some 1 \<longleftrightarrow> access_ok \<sigma> (fst b) (the (eval \<sigma> t)) bytes)" by blast
    from flagUnless_ok [OF solver p e(2,3)] show ?thesis by (simp add: run Some e(1))
  qed (use solver(2) in \<open>simp add: run reports_def\<close>)
qed

lemma OOB_check2_exact:
  assumes solver: "sound_solver N F I impl" "I s" "se \<noteq> None \<longrightarrow> N" and p: "path_ok (path es)" and t: "base_of hv t = Some a"
    and len: "wf_expr len" "\<not> isConstantExpr len" "\<forall>\<sigma>. models (path es) \<sigma> \<longrightarrow> eval \<sigma> len \<noteq> None" "n < 2 ^ getWidth len"
  shows "reports N F I es (OOBW es \<or> a = 0 \<and> (\<exists>\<sigma>. models (path es) \<sigma> \<and> n < the (eval \<sigma> len))) (OOB_check2 hv 64 se impl t len n es s)"
proof -
  from t obtain c where c: "extract_baseaddr hv t (ConstantExpr 64 0) = Some c" "getZExtValue c = Some a" by (auto simp: base_of_def bind_eq_Some_conv)
  show ?thesis
  proof (cases "a = 0")
    case True
    let ?n = "ConstantExpr (getWidth len) n"
    have n: "ConstantExpr_create n (getWidth len) = Some ?n" "wf_expr ?n" using len(1,4) wf_getWidth_pos [OF len(1)] by (auto simp: ConstantExpr_create_def)
    have "eval \<sigma> (BinaryExpr Ule len ?n) = Some (of_bool (\<not> n < the (eval \<sigma> len)))" if "models (path es) \<sigma>" for \<sigma> using len(3) that by (auto simp: not_less)
    from check_condition [OF less_create_simplifies(2) [OF len(1) n(2)] _ this] obtain e where e: "UleExpr_create len ?n = Some e" "condition_ok (path es) e"
      "\<forall>\<sigma>. models (path es) \<sigma> \<longrightarrow> (eval \<sigma> e = Some 1 \<longleftrightarrow> \<not> n < the (eval \<sigma> len))" by auto
    from flagUnless_ok [OF solver p e(2,3)] show ?thesis using c len(2) n(1) e(1) True by (simp add: OOB_check2_def)
  qed (use c len(2) solver(2) in \<open>simp add: OOB_check2_def reports_def\<close>)
qed

lemma OOBWcheck_access:
  assumes solver: "sound_solver N F I impl" "I s" "se \<noteq> None \<longrightarrow> N" and p: "path_ok (path es)" "\<not> OOBW es"
    and ki: "opcode ki = Load w \<and> 0 < w \<and> i = 0 \<and> n = (w + 7) div 8
      \<or> opcode ki = Store \<and> i = 1 \<and> (\<exists>v. Executor_eval ct ki 0 es = Some v \<and> wf_expr v \<and> n = (getWidth v + 7) div 8)"
    and t: "Executor_eval ct ki i es = Some t" "address_ok (path es) t" "base_of hv t = Some a" "n < 2 ^ 64"
    and objs: "layout_ok (addressSpace es)" "\<forall>b\<in>set (inorder (objects (addressSpace es))). object_ok (path es) (fst b)"
  shows "reports N F I es (case resolveOne_const (addressSpace es) a of None \<Rightarrow> True
      | Some b \<Rightarrow> \<exists>\<sigma>. models (path es) \<sigma> \<and> \<not> access_ok \<sigma> (fst b) (the (eval \<sigma> t)) n) (OOBWcheck hv 64 se impl ct ki es s)"
proof -
  have "0 < n" using ki wf_getWidth_pos by fastforce
  from OOB_check_exact [OF solver p(1) t(2,3) objs this t(4)] ki t(1) p(2) show ?thesis by (auto simp: OOBWcheck_def)
qed

section \<open>Properties\<close>


text \<open>Indexing memory that the engine did not allocate is reported exactly if the index may exceed 16. The check concerns an address without any constant above 1000000; with such a constant,
  and for a constant index, nothing is reported.\<close>

theorem OOBWcheck_index:
  assumes solver: "sound_solver N F I impl" "I s" "se \<noteq> None \<longrightarrow> N" and p: "path_ok (path es)" "\<not> OOBW es"
    and ki: "opcode ki = GetElementPtr" "Executor_eval ct ki 0 es = Some t" "Executor_eval ct ki 1 es = Some index"
    and t: "base_of hv t = Some a" and index: "wf_expr index" "4 < getWidth index" "\<forall>\<sigma>. models (path es) \<sigma> \<longrightarrow> eval \<sigma> index \<noteq> None"
  shows "reports N F I es (\<not> isConstantExpr index \<and> a = 0 \<and> (\<exists>\<sigma>. models (path es) \<sigma> \<and> 16 < the (eval \<sigma> index))) (OOBWcheck hv 64 se impl ct ki es s)"
proof (cases "isConstantExpr index")
  case False
  have "2 ^ 5 \<le> (2::nat) ^ getWidth index" using index(2) by (intro power_increasing) simp_all
  then have "(16::nat) < 2 ^ getWidth index" by simp
  from OOB_check2_exact [OF solver p(1) t index(1) False index(3) this] ki p(2) False show ?thesis by (auto simp: OOBWcheck_def)
qed (use ki p(2) solver(2) in \<open>simp add: OOBWcheck_def OOB_check2_def reports_def\<close>)

text \<open>C8: the check misses accesses that end where an object of symbolic size begins. If every input of the path puts the access right below the object, it is not reported: the end of
  the access is computed in 64 bits, wraps around to offset zero, and is not above the size.\<close>

theorem OOBWcheck_misses_underflow:
  assumes solver: "sound_solver N F I impl" "I s" "se \<noteq> None \<longrightarrow> N" and p: "path_ok (path es)" "\<not> OOBW es"
    and ki: "opcode ki = Load w" "0 < w" "w < 2 ^ 60" "Executor_eval ct ki 0 es = Some t" "address_ok (path es) t" "base_of hv t = Some a"
    and objs: "layout_ok (addressSpace es)" "\<forall>b\<in>set (inorder (objects (addressSpace es))). object_ok (path es) (fst b)"
    and b: "resolveOne_const (addressSpace es) a = Some b" "mo_symsize (fst b) \<noteq> None"
    and low: "\<forall>\<sigma>. models (path es) \<sigma> \<longrightarrow> the (eval \<sigma> t) + (w + 7) div 8 = mo_address (fst b)"
  shows "reports N F I es False (OOBWcheck hv 64 se impl ct ki es s)"
proof -
  obtain z where z: "mo_symsize (fst b) = Some z" using b(2) by blast
  have n: "0 < (w + 7) div 8" "(w + 7) div 8 < 2 ^ 64" using ki(2,3) by auto
  have "access_ok \<sigma> (fst b) (the (eval \<sigma> t)) ((w + 7) div 8)" if "models (path es) \<sigma>" for \<sigma>
  proof -
    have e: "the (eval \<sigma> t) + 2 ^ 64 - mo_address (fst b) + (w + 7) div 8 = 2 ^ 64" using low that n by auto
    show ?thesis unfolding access_ok_def z option.case e by simp
  qed
  then have no: "\<not> (\<exists>\<sigma>. models (path es) \<sigma> \<and> \<not> access_ok \<sigma> (fst b) (the (eval \<sigma> t)) ((w + 7) div 8))" by blast
  from OOB_check_exact [OF solver p(1) ki(5,6) objs n] ki p(2) b(1) no show ?thesis by (simp add: OOBWcheck_def)
qed

text \<open>Clearing no memory at all is reported. A \<open>memset\<close> of length zero at the start of an object is taken for an access to the byte before it.\<close>

lemma memset_zero_reported:
  assumes "opcode ki = Call (Some ''memset'')" "Executor_eval ct ki 1 es = Some (ConstantExpr 64 a)" "Executor_eval ct ki 3 es = Some (ConstantExpr 64 0)"
    and "1000001 < a" "a < 2 ^ 64" "\<not> OOBW es" "resolveOne_const (addressSpace es) (a - 1) = None"
  shows "OOBWcheck hv 64 se impl ct ki es s = Some (es\<lparr>OOBW := True\<rparr>, s)"
proof -
  have l: "lastByte 64 (ConstantExpr 64 a) (ConstantExpr 64 0) = Some (ConstantExpr 64 (a - 1))"
  proof -
    have "bv_sub 64 a 1 = a - 1" using bv_sub_address [of 1 a] assms(4,5) by (simp add: mod_if)
    then show ?thesis using assms(4,5) by (simp add: lastByte_def AddExpr_create.simps [of "ConstantExpr 64 a"] SubExpr_create.simps [of "ConstantExpr 64 a"] bv_add_def wrap_def)
  qed
  have "base_of hv (ConstantExpr 64 (a - 1)) = Some (a - 1)"
    using assms(4,5) by (auto simp: base_of_def extract_baseaddr_def getZExtValue_def)
  then obtain c where "extract_baseaddr hv (ConstantExpr 64 (a - 1)) (ConstantExpr 64 0) = Some c" "getZExtValue c = Some (a - 1)" by (auto simp: base_of_def bind_eq_Some_conv)
  with assms l show ?thesis by (simp add: OOBWcheck_def checkCall_def OOB_check2_def OOB_check_def)
qed

section \<open>Examples\<close>

text \<open>A state with a buffer of four bytes, and instructions that access it at a symbolic offset or index memory through a symbolic pointer.\<close>

definition ex_buffer :: "expr option \<Rightarrow> MemoryObject" where
  "ex_buffer z = \<lparr>mo_id = 7, mo_address = 2000000, mo_size = 4, mo_isUserSpecified = False, mo_symsize = z\<rparr>"

definition ex_index_expr :: expr where
  "ex_index_expr = CastExpr ZExt (ex_read 0) 64"

definition ex_access :: "castkind \<Rightarrow> expr" where
  "ex_access k = BinaryExpr Add (ConstantExpr 64 2000000) (CastExpr k (ex_read 0) 64)"

definition ex_checked :: "expr option \<Rightarrow> constraint_set \<Rightarrow> expr list \<Rightarrow> ExecutionState" where
  "ex_checked z cs rs =
     (fst (ExecutionState_new 0 False \<lparr>kf_function = 1, numRegisters = length rs, instructions_of = 100\<rparr> 1))
       \<lparr>path := cs, addressSpace := \<lparr>cowKey = 1, objects = newNode Terminator (ex_buffer z, 0) Terminator\<rparr>,
        stack := [(StackFrame_new None \<lparr>kf_function = 1, numRegisters = length rs, instructions_of = 100\<rparr>)\<lparr>locals := map Some rs\<rparr>]\<rparr>"

text \<open>A solver that knows the answers to two questions and fails an assertion on others.\<close>

definition BoundsSolver :: "unit SolverImpl" where
  "BoundsSolver =
     \<lparr>computeTruth = (\<lambda>q. if q = \<lparr>constraints = [], q_expr = BinaryExpr Ult ex_index_expr (ConstantExpr 64 4)\<rparr>
          \<or> q = \<lparr>constraints = [], q_expr = BinaryExpr Ule ex_index_expr (ConstantExpr 64 16)\<rparr> then ret False else asserted),
      computeValidity = (\<lambda>q. asserted), computeValue = (\<lambda>q. asserted), computeInitialValues = (\<lambda>q objects. asserted)\<rparr>"

lemma ex_index_values: "\<exists>\<sigma>. models [] \<sigma> \<and> eval \<sigma> ex_index_expr = Some 200"
  by (rule exI [of _ "\<lambda>a i. 200 mod 2 ^ arr_range a"])
    (simp add: models_def wf_asg_def ex_index_expr_def ex_read_def ex_array_def arr_init_def isConstantArray_def isSymbolicArray_def)

lemma ex_questions: "\<not> valid \<lparr>constraints = [], q_expr = BinaryExpr Ult ex_index_expr (ConstantExpr 64 4)\<rparr>"
  "\<not> valid \<lparr>constraints = [], q_expr = BinaryExpr Ule ex_index_expr (ConstantExpr 64 16)\<rparr>"
  using ex_index_values by (auto simp: valid_def)

lemma call_asserted: "call_ok True F I asserted P"
  by (simp add: call_ok_def asserted_def)

interpretation bounds_solver: sound_solver True False "\<lambda>s. True" BoundsSolver
  by unfold_locales (use ex_questions in \<open>auto simp: BoundsSolver_def call_asserted intro!: call_intro\<close>)

lemma ex_checked_simps:
  "path (ex_checked z cs rs) = cs" "\<not> OOBW (ex_checked z cs rs)" "stack (ex_checked z cs rs) \<noteq> []" "locals (last (stack (ex_checked z cs rs))) = map Some rs"
  "objects (addressSpace (ex_checked z cs rs)) = newNode Terminator (ex_buffer z, 0) Terminator"
  by (simp_all add: ex_checked_def ExecutionState_new_def setID_def pushFrame_def)

lemma ex_checked_layout: "layout_ok (addressSpace (ex_checked z cs rs))"
  "resolveOne_const (addressSpace (ex_checked z cs rs)) 2000000 = Some (ex_buffer z, 0)"
  "resolveOne_const (addressSpace (ex_checked z cs rs)) 1999999 = None"
  by (simp_all add: layout_ok_def tree_ok_def sorted_by_def resolveOne_const_def lookup_previous_def ex_checked_simps newNode_def as_key_def ex_buffer_def Let_def)

lemma ex_access_ok:
  "address_ok cs (ex_access k)" "wf_expr ex_index_expr" "getWidth ex_index_expr = 64" "address_ok cs ex_index_expr"
  "base_of (\<lambda>w v. 0) (ex_access k) = Some 2000000" "base_of (\<lambda>w v. 0) ex_index_expr = Some 0"
  by (simp_all add: address_ok_def ex_access_def ex_index_expr_def ex_read_def base_of_def extract_baseaddr_def getZExtValue_def)

lemma ex_bounds_check: "boundsCheck 64 (ex_buffer None) (ex_access ZExt) (Suc 0) = Some (BinaryExpr Ult ex_index_expr (ConstantExpr 64 4))"
  by (simp add: boundsCheck_def ex_buffer_def ex_access_def ex_index_expr_def getOffsetExpr_def getBaseExpr_def SubExpr_create.simps getBoundsCheckOffset_bytes_def
      ex_read_def SubExpr_createPartial_def AddExpr_createPartial_def AddExpr_createPartialR.simps AddExpr_create_cl.simps constant_on_left_def ConstantExpr_isZero_def bv_sub_def bv_add_def wrap_def UltExpr_create_def BCREATE_def)

lemma ex_flagged:
  assumes "c = BinaryExpr Ult ex_index_expr (ConstantExpr 64 4) \<or> c = BinaryExpr Ule ex_index_expr (ConstantExpr 64 16)" "path es = []"
  shows "flagUnless None BoundsSolver c es () = Some (es\<lparr>OOBW := True\<rparr>, ())"
  using assms by (auto simp: flagUnless_def TimingSolver_mustBeTrue_def timingSimplify_def Solver_mustBeTrue_def BoundsSolver_def ret_def build_def)

lemma OOBW_update_inject: "es\<lparr>OOBW := a\<rparr> = es\<lparr>OOBW := b\<rparr> \<longleftrightarrow> a = b"
proof
  assume "es\<lparr>OOBW := a\<rparr> = es\<lparr>OOBW := b\<rparr>"
  then have "OOBW (es\<lparr>OOBW := a\<rparr>) = OOBW (es\<lparr>OOBW := b\<rparr>)" by (rule arg_cong)
  then show "a = b" by simp
qed simp

lemma OOBW_set: "\<not> OOBW es \<Longrightarrow> es\<lparr>OOBW := True\<rparr> \<noteq> es"
proof
  assume "\<not> OOBW es" "es\<lparr>OOBW := True\<rparr> = es"
  from this(2) have "OOBW (es\<lparr>OOBW := True\<rparr>) = OOBW es" by (rule arg_cong)
  with \<open>\<not> OOBW es\<close> show False by simp
qed

lemma ex_path_ok: "path_ok []"
  by (auto simp: path_ok_def path_wf_Nil models_def wf_asg_def intro: exI [of _ "\<lambda>a i. 0"])

definition ex_load :: KInstruction where
  "ex_load = \<lparr>opcode = Load 8, operands = [0], dest = 1\<rparr>"

lemma ex_load_checked:
  "Executor_eval [] ex_load 0 (ex_checked None [] [ex_access ZExt]) = Some (ex_access ZExt)"
  "OOBWcheck (\<lambda>w v. 0) 64 None BoundsSolver [] ex_load (ex_checked None [] [ex_access ZExt]) () = Some ((ex_checked None [] [ex_access ZExt])\<lparr>OOBW := True\<rparr>, ())"
  "\<forall>b\<in>set (inorder (objects (addressSpace (ex_checked None [] [ex_access ZExt])))). object_ok [] (fst b)"
proof -
  let ?es = "ex_checked None [] [ex_access ZExt]"
  show ev: "Executor_eval [] ex_load 0 ?es = Some (ex_access ZExt)" by (simp add: Executor_eval_def operand_cell_def ex_load_def ex_checked_simps)
  from ex_access_ok(5) [of ZExt] obtain c where "extract_baseaddr (\<lambda>w v. 0) (ex_access ZExt) (ConstantExpr 64 0) = Some c" "getZExtValue c = Some 2000000"
    by (auto simp: base_of_def bind_eq_Some_conv)
  with ev show "OOBWcheck (\<lambda>w v. 0) 64 None BoundsSolver [] ex_load ?es () = Some (?es\<lparr>OOBW := True\<rparr>, ())"
    using ex_flagged [of _ ?es] by (simp add: OOBWcheck_def OOB_check_def ex_load_def ex_checked_simps ex_checked_layout ex_bounds_check)
  show "\<forall>b\<in>set (inorder (objects (addressSpace ?es))). object_ok [] (fst b)" by (simp add: ex_checked_simps newNode_def object_ok_def ex_buffer_def)
qed


definition ex_index :: KInstruction where
  "ex_index = \<lparr>opcode = GetElementPtr, operands = [0, 0], dest = 1\<rparr>"

theorem OOBWcheck_index_witness:
  "OOBWcheck (\<lambda>w v. 0) 64 None BoundsSolver [] ex_index (ex_checked None [] [ex_index_expr]) () = Some ((ex_checked None [] [ex_index_expr])\<lparr>OOBW := True\<rparr>, ())
   \<and> (\<exists>\<sigma>. models [] \<sigma> \<and> 16 < the (eval \<sigma> ex_index_expr))"
proof -
  let ?es = "ex_checked None [] [ex_index_expr]"
  have ev: "Executor_eval [] ex_index 0 ?es = Some ex_index_expr" "Executor_eval [] ex_index 1 ?es = Some ex_index_expr"
    by (simp_all add: Executor_eval_def operand_cell_def ex_index_def ex_checked_simps)
  from ex_access_ok(6) obtain c where "extract_baseaddr (\<lambda>w v. 0) ex_index_expr (ConstantExpr 64 0) = Some c" "getZExtValue c = Some 0"
    by (auto simp: base_of_def bind_eq_Some_conv)
  moreover have "UleExpr_create ex_index_expr (ConstantExpr 64 16) = Some (BinaryExpr Ule ex_index_expr (ConstantExpr 64 16))" "\<not> isConstantExpr ex_index_expr"
    by (simp_all add: UleExpr_create_def BCREATE_def ex_index_expr_def)
  ultimately have run: "OOBWcheck (\<lambda>w v. 0) 64 None BoundsSolver [] ex_index ?es () = Some (?es\<lparr>OOBW := True\<rparr>, ())"
    using ev ex_flagged [of _ ?es] ex_access_ok(3) by (simp add: OOBWcheck_def OOB_check2_def ex_index_def ex_checked_simps ConstantExpr_create_def)
  have "reports True False (\<lambda>s. True) ?es (\<not> isConstantExpr ex_index_expr \<and> 0 = (0::nat) \<and> (\<exists>\<sigma>. models (path ?es) \<sigma> \<and> 16 < the (eval \<sigma> ex_index_expr)))
      (OOBWcheck (\<lambda>w v. 0) 64 None BoundsSolver [] ex_index ?es ())"
    by (rule OOBWcheck_index [OF bounds_solver.sound_solver_axioms])
      (use ev ex_access_ok ex_path_ok in \<open>simp_all add: ex_index_def ex_checked_simps address_ok_def\<close>)
  moreover have "?es\<lparr>OOBW := True\<rparr> \<noteq> ?es" by (rule OOBW_set [OF ex_checked_simps(2)])
  ultimately show ?thesis unfolding run by (simp add: reports_def ex_checked_simps OOBW_update_inject)
qed

text \<open>The offset is a byte that the path binds to 255, with its sign: the access is at the byte below the buffer.\<close>

definition ex_minus_one :: constraint_set where
  "ex_minus_one = [BinaryExpr Eq (ConstantExpr 8 255) (ex_read 0)]"

lemma of_bool_one: "of_bool P = Suc 0 \<longleftrightarrow> P"
  by (cases P) simp_all

theorem OOBWcheck_misses_underflow_witness:
  "reports False True (\<lambda>s. True) (ex_checked (Some ex_index_expr) ex_minus_one [ex_access SExt]) False
     (OOBWcheck (\<lambda>w v. 0) 64 None LiteralSolver [] ex_load (ex_checked (Some ex_index_expr) ex_minus_one [ex_access SExt]) ())
   \<and> {\<sigma>. models ex_minus_one \<sigma>} \<subseteq> {\<sigma>. eval \<sigma> (ex_access SExt) = Some (2000000 - 1)}"
proof -
  let ?es = "ex_checked (Some ex_index_expr) ex_minus_one [ex_access SExt]"
  have low: "eval \<sigma> (ex_access SExt) = Some (2000000 - 1)" if "models ex_minus_one \<sigma>" for \<sigma>
    using that by (auto simp: models_def ex_minus_one_def ex_access_def ex_read_def bv_add_def bv_sext_def sval_def wrap_def of_bool_one split: if_splits)
  have "models ex_minus_one (\<lambda>a i. 255 mod 2 ^ arr_range a)"
    by (simp add: models_def wf_asg_def ex_minus_one_def ex_read_def ex_array_def arr_init_def isConstantArray_def isSymbolicArray_def)
  moreover have "guarded ex_minus_one" by (auto simp: guarded_def models_def ex_minus_one_def not_false_def ex_read_def split: if_splits)
  ultimately have p: "path_ok ex_minus_one" by (auto simp: path_ok_def path_wf_def ex_minus_one_def wf_constraint_def ex_read_def)
  have ev: "Executor_eval [] ex_load 0 ?es = Some (ex_access SExt)" by (simp add: Executor_eval_def operand_cell_def ex_load_def ex_checked_simps)
  have "reports False True (\<lambda>s. True) ?es False (OOBWcheck (\<lambda>w v. 0) 64 None LiteralSolver [] ex_load ?es ())"
    by (rule OOBWcheck_misses_underflow [OF literal_solver.sound_solver_axioms, where w = 8 and t = "ex_access SExt" and a = 2000000 and b = "(ex_buffer (Some ex_index_expr), 0)"])
      (use ev ex_access_ok p low ex_checked_layout in \<open>simp_all add: ex_load_def ex_checked_simps newNode_def object_ok_def ex_buffer_def address_ok_def\<close>)
  with low show ?thesis by auto
qed

end
