(* ===== verification/BasicBlocks.thy ===== *)
theory BasicBlocks
  imports Prelude
begin

text \<open>
  The search in the control flow graph that decides which successor of a branch is tried first (\<open>BB_reachableBBs\<close>, \<open>BB1_reach_BB2\<close> and \<open>Isaloop\<close> in
  \<^verbatim>\<open>lib/Core/Executor.cpp\<close>). A basic block is its address, \<open>succs\<close> is \<open>llvm::successors\<close>. The loop does not return (\<open>None\<close>) on an infinite graph.
\<close>

section \<open>The model\<close>

text \<open>The loop over the successors of a block: the worklist is a queue.\<close>

fun visitSuccessors :: "nat list \<Rightarrow> nat list \<Rightarrow> nat set \<Rightarrow> nat list \<times> nat set" where
  "visitSuccessors [] worklist reachable = (worklist, reachable)"
| "visitSuccessors (b # bs) worklist reachable =
     (if b \<notin> reachable then visitSuccessors bs (worklist @ [b]) (insert b reachable) else visitSuccessors bs worklist reachable)"

partial_function (option) reachLoop :: "(nat \<Rightarrow> nat list) \<Rightarrow> nat list \<Rightarrow> nat set \<Rightarrow> nat set option" where
  "reachLoop succs worklist reachable =
     (case worklist of
       [] \<Rightarrow> Some reachable
     | front # worklist \<Rightarrow> (case visitSuccessors (succs front) worklist reachable of (worklist, reachable) \<Rightarrow> reachLoop succs worklist reachable))"

definition BB_reachableBBs :: "(nat \<Rightarrow> nat list) \<Rightarrow> nat \<Rightarrow> nat set option" where
  "BB_reachableBBs succs BB = reachLoop succs [BB] {}"

definition BB1_reach_BB2 :: "(nat \<Rightarrow> nat list) \<Rightarrow> nat \<Rightarrow> nat \<Rightarrow> bool option" where
  "BB1_reach_BB2 succs A B = map_option (\<lambda>R. B \<in> R) (BB_reachableBBs succs A)"

definition Isaloop :: "(nat \<Rightarrow> nat list) \<Rightarrow> nat \<Rightarrow> nat \<Rightarrow> nat \<Rightarrow> bool option" where
  "Isaloop succs A B C = (case BB1_reach_BB2 succs B A of Some False \<Rightarrow> BB1_reach_BB2 succs C A | r \<Rightarrow> r)"

section \<open>The loop\<close>

text \<open>The successors of all blocks.\<close>

definition edges :: "(nat \<Rightarrow> nat list) \<Rightarrow> (nat \<times> nat) set" where
  "edges succs = {(a, b). b \<in> set (succs a)}"

lemma visitSuccessors_eq:
  "\<exists>new. visitSuccessors bs w R = (w @ new, R \<union> set bs) \<and> set new = set bs - R \<and> distinct new"
proof (induction bs w R rule: visitSuccessors.induct)
  case (2 b bs w R)
  then show ?case by (cases "b \<in> R") fastforce+
qed simp

text \<open>The blocks that were seen are the start and blocks it reaches; those that are not in the queue any more have all their successors among them.\<close>

definition search_inv :: "(nat \<Rightarrow> nat list) \<Rightarrow> nat \<Rightarrow> nat list \<Rightarrow> nat set \<Rightarrow> bool" where
  "search_inv succs A w R \<longleftrightarrow> R \<subseteq> {b. (A, b) \<in> (edges succs)\<^sup>+} \<and> set w \<subseteq> insert A R
     \<and> (\<forall>a\<in>insert A R - set w. set (succs a) \<subseteq> R)"

lemma search_inv_step:
  assumes "search_inv succs A (a # w) R" "set new = set (succs a) - R"
  shows "search_inv succs A (w @ new) (R \<union> set (succs a))"
proof -
  have "(A, b) \<in> (edges succs)\<^sup>+" if "b \<in> set (succs a)" for b
  proof -
    have "(a, b) \<in> edges succs" using that by (simp add: edges_def)
    moreover have "a = A \<or> (A, a) \<in> (edges succs)\<^sup>+" using assms(1) by (auto simp: search_inv_def)
    ultimately show ?thesis by (auto intro: trancl_into_trancl)
  qed
  with assms show ?thesis by (auto simp: search_inv_def)
qed

lemma search_inv_end:
  assumes "search_inv succs A [] R"
  shows "R = {b. (A, b) \<in> (edges succs)\<^sup>+}"
proof -
  have "b \<in> R" if "(A, b) \<in> (edges succs)\<^sup>+" for b
    using that by induction (use assms in \<open>auto simp: search_inv_def edges_def\<close>)
  with assms show ?thesis by (auto simp: search_inv_def)
qed

lemma reachLoop_reaches:
  assumes "finite {b. (A, b) \<in> (edges succs)\<^sup>+}" "search_inv succs A w R"
  shows "reachLoop succs w R = Some {b. (A, b) \<in> (edges succs)\<^sup>+}"
  using assms(2)
proof (induction "card ({b. (A, b) \<in> (edges succs)\<^sup>+} - R) + length w" arbitrary: w R rule: less_induct)
  case less
  let ?T = "{b. (A, b) \<in> (edges succs)\<^sup>+}"
  show ?case
  proof (cases w)
    case Nil
    with less.prems search_inv_end show ?thesis by (subst reachLoop.simps) simp
  next
    case (Cons a w')
    obtain new where new: "visitSuccessors (succs a) w' R = (w' @ new, R \<union> set (succs a))" "set new = set (succs a) - R" "distinct new"
      using visitSuccessors_eq by blast
    have inv: "search_inv succs A (w' @ new) (R \<union> set (succs a))" using search_inv_step less.prems new(2) Cons by blast
    have "set new \<subseteq> ?T - R" using inv new(2) by (auto simp: search_inv_def)
    moreover have "?T - (R \<union> set (succs a)) = (?T - R) - set new" using new(2) by blast
    ultimately have "card (?T - (R \<union> set (succs a))) + length new = card (?T - R)"
      using assms(1) card_mono [of "?T - R" "set new"] by (simp add: card_Diff_subset distinct_card [OF new(3), symmetric])
    with less.hyps [OF _ inv] Cons new(1) show ?thesis by (subst reachLoop.simps) simp
  qed
qed

lemma BB_reachableBBs_eq: "finite {b. (A, b) \<in> (edges succs)\<^sup>+} \<Longrightarrow> BB_reachableBBs succs A = Some {b. (A, b) \<in> (edges succs)\<^sup>+}"
  unfolding BB_reachableBBs_def by (rule reachLoop_reaches) (auto simp: search_inv_def)

lemma BB1_reach_BB2_eq: "finite {b. (A, b) \<in> (edges succs)\<^sup>+} \<Longrightarrow> BB1_reach_BB2 succs A B = Some ((A, B) \<in> (edges succs)\<^sup>+)"
  by (simp add: BB1_reach_BB2_def BB_reachableBBs_eq)

text \<open>A graph whose blocks are finitely many, as those of a function are.\<close>

lemma finite_reachable:
  assumes "finite V" "\<And>a. a \<in> V \<Longrightarrow> set (succs a) \<subseteq> V" "a \<in> V"
  shows "finite {b. (a, b) \<in> (edges succs)\<^sup>+}"
proof -
  have "b \<in> V" if "(a, b) \<in> (edges succs)\<^sup>+" for b using that by induction (use assms in \<open>auto simp: edges_def\<close>)
  then show ?thesis using assms(1) by (auto intro: finite_subset)
qed

section \<open>Properties\<close>

text \<open>C12: the search of the control flow graph ends and finds exactly the blocks that can be reached by one edge or more, however the graph
  loops, if they are finitely many; a branch is in a loop if its block can be reached again from one of its successors.\<close>

theorem BB_reachableBBs_closure:
  assumes "finite V" "\<forall>a\<in>V. set (succs a) \<subseteq> V" "{A, B, C} \<subseteq> V"
  shows "BB_reachableBBs succs A = Some {b. (A, b) \<in> (edges succs)\<^sup>+}
    \<and> BB1_reach_BB2 succs A B = Some ((A, B) \<in> (edges succs)\<^sup>+)
    \<and> Isaloop succs A B C = Some ((B, A) \<in> (edges succs)\<^sup>+ \<or> (C, A) \<in> (edges succs)\<^sup>+)"
proof -
  have "finite {b. (a, b) \<in> (edges succs)\<^sup>+}" if "a \<in> V" for a using finite_reachable assms(1,2) that by blast
  with assms(3) show ?thesis by (simp add: BB_reachableBBs_eq BB1_reach_BB2_eq Isaloop_def split: bool.split)
qed

text \<open>A loop of two blocks with an exit.\<close>

definition ex_blocks :: "nat \<Rightarrow> nat list" where
  "ex_blocks a = (if a = 1 then [2, 3] else if a = 2 then [1] else [])"

theorem BB_reachableBBs_closure_witness:
  "Isaloop ex_blocks 1 2 3 = Some True \<and> BB_reachableBBs ex_blocks 1 = Some {b. (1, b) \<in> (edges ex_blocks)\<^sup>+}"
proof -
  have "(2, 1) \<in> (edges ex_blocks)\<^sup>+" by (auto simp: edges_def ex_blocks_def)
  with BB_reachableBBs_closure [of "{1, 2, 3}" ex_blocks 1 2 3] show ?thesis by (simp add: ex_blocks_def)
qed

end
