(* ===== verification/LineInfo.thy ===== *)
theory LineInfo
  imports Prelude
begin

text \<open>
  The source lines the listeners compare with the configuration: \<open>simplifylineinfo\<close> in \<^verbatim>\<open>lib/Kernel/Listener/PathListener.cpp\<close> removes \<open>.\<close> and \<open>..\<close> from a
  path, \<open>dump_inst_sourceinfo\<close> and \<open>get_real_function_name\<close> in \<^verbatim>\<open>lib/Kernel/ToolLib/llvm_related.cpp\<close> print where an instruction comes from.
  \<open>None\<close> is an exception.
\<close>

section \<open>The model\<close>

text \<open>\<open>std::getline\<close> until the end of the stream, with the delimiter \<open>/\<close>.\<close>

fun getlines :: "string \<Rightarrow> string list" where
  "getlines [] = []"
| "getlines (c # s) =
     (if c = CHR ''/'' then [] # getlines s else case getlines s of [] \<Rightarrow> [[c]] | segment # seglist \<Rightarrow> (c # segment) # seglist)"

text \<open>The loop that removes the first \<open>..\<close> and the segment before it; a range that starts at \<open>pos-1\<close> before the beginning is too large for a vector.\<close>

function removeParents :: "string list \<Rightarrow> string list option" where
  "removeParents seglist =
     (if ''..'' \<in> set seglist
      then let pos = length (takeWhile (\<lambda>s. s \<noteq> ''..'') seglist) in
        if pos = 0 then None else removeParents (take (pos - 1) seglist @ drop (pos + 1) seglist)
      else Some seglist)"
  by auto
termination
proof (relation "measure length")
  fix seglist :: "string list" and pos
  assume "''..'' \<in> set seglist" and pos: "pos = length (takeWhile (\<lambda>s. s \<noteq> ''..'') seglist)" "pos \<noteq> 0"
  from split_list_first [OF this(1)] obtain ns rest where "seglist = ns @ ''..'' # rest" "''..'' \<notin> set ns" by blast
  then have "pos < length seglist" using length_takeWhile_le [of "\<lambda>s. s \<noteq> ''..''" ns] unfolding pos(1) by (simp add: takeWhile_tail)
  with pos(2) show "(take (pos - 1) seglist @ drop (pos + 1) seglist, seglist) \<in> measure length" by simp
qed simp

declare removeParents.simps [simp del]

definition simplifylineinfo :: "string \<Rightarrow> string option" where
  "simplifylineinfo lineinfo =
     removeParents (getlines lineinfo) \<bind> (\<lambda>seglist. Some (butlast (concat (map (\<lambda>s. s @ ''/'') (filter (\<lambda>s. s \<noteq> ''.'') seglist)))))"

fun to_string :: "nat \<Rightarrow> string" where
  "to_string n = (if n < 10 then [char_of (48 + n)] else to_string (n div 10) @ [char_of (48 + n mod 10)])"

definition dump_inst_sourceinfo :: "string \<Rightarrow> nat \<Rightarrow> string" where
  "dump_inst_sourceinfo Path line = (if line = 1 then '''' else Path @ '':'' @ to_string line)"

definition dump_inst_booltin :: "string \<Rightarrow> nat \<Rightarrow> string \<Rightarrow> string" where
  "dump_inst_booltin Path line version =
     (if line = 1 then '''' else ''/home/zzhan173/Qemu/OOBW/pocs/'' @ version @ ''/source/'' @ Path @ ''#L'' @ to_string line)"

definition get_real_function_name :: "string \<Rightarrow> string" where
  "get_real_function_name name = takeWhile (\<lambda>c. c \<noteq> CHR ''.'') name"

text \<open>\<open>line_info.substr(line_info.find("source/") + 1)\<close>: the whole string if it is not found.\<close>

fun find_source :: "string \<Rightarrow> nat option" where
  "find_source s = (if take 7 s = ''source/'' then Some 0 else if s = [] then None else map_option Suc (find_source (tl s)))"

declare to_string.simps [simp del] find_source.simps [simp del]

definition line_key :: "string \<Rightarrow> string" where
  "line_key s = (case find_source s of None \<Rightarrow> s | Some pos \<Rightarrow> drop (pos + 1) s)"

section \<open>Paths\<close>

text \<open>The directory a path leads to, with a stack: \<open>..\<close> goes up, and not above the start.\<close>

fun walk :: "string list \<Rightarrow> string list \<Rightarrow> string list option" where
  "walk [] st = Some (rev st)"
| "walk (g # gs) st = (if g = ''..'' then (case st of [] \<Rightarrow> None | s # st \<Rightarrow> walk gs st) else walk gs (g # st))"

lemma walk_down: "''..'' \<notin> set gs \<Longrightarrow> walk (gs @ hs) st = walk hs (rev gs @ st)"
  by (induction gs arbitrary: st) auto

lemma walk_names: "''..'' \<notin> set gs \<Longrightarrow> walk gs st = Some (rev st @ gs)"
  using walk_down [of gs "[]" st] by simp

lemma walk_above: "walk gs st = Some p \<Longrightarrow> walk gs (st @ base) = Some (rev base @ p)"
  by (induction gs st arbitrary: p rule: walk.induct) (auto split: if_splits list.splits)

lemma walk_set: "walk gs st = Some p \<Longrightarrow> set p \<subseteq> (set gs - {''..''}) \<union> set st"
  by (induction gs st arbitrary: p rule: walk.induct) (fastforce split: if_splits list.splits)+

lemma removeParents_walk: "removeParents seglist = walk seglist []"
proof (induction seglist rule: removeParents.induct)
  case (1 seglist)
  let ?names = "takeWhile (\<lambda>s. s \<noteq> ''..'') seglist"
  show ?case
  proof (cases "''..'' \<in> set seglist")
    case True
    from split_list_first [OF this] obtain ns rest where s: "seglist = ns @ ''..'' # rest" and n: "''..'' \<notin> set ns" by blast
    have names: "?names = ns" using n by (auto simp: s takeWhile_tail)
    show ?thesis
    proof (cases ns rule: rev_cases)
      case Nil
      then show ?thesis using True names by (subst removeParents.simps) (simp add: s)
    next
      case (snoc ms a)
      have e: "take (length ?names - 1) seglist @ drop (length ?names + 1) seglist = ms @ rest" unfolding names by (simp add: s snoc)
      have "removeParents seglist = removeParents (ms @ rest)" using True e names snoc by (subst removeParents.simps) (simp add: Let_def)
      also have "\<dots> = walk (ms @ rest) []" using 1 [OF True refl] e names snoc by simp
      also have "\<dots> = walk seglist []" using n by (auto simp: s snoc walk_down)
      finally show ?thesis .
    qed
  qed (simp add: removeParents.simps walk_names)
qed

lemma getlines_no_slash: "s \<in> set (getlines l) \<Longrightarrow> CHR ''/'' \<notin> set s"
  by (induction l arbitrary: s rule: getlines.induct) (auto split: if_splits list.splits)

lemma getlines_segment: "CHR ''/'' \<notin> set s \<Longrightarrow> getlines (s @ CHR ''/'' # l) = s # getlines l"
  by (induction s) auto

lemma getlines_last: "CHR ''/'' \<notin> set s \<Longrightarrow> s \<noteq> [] \<Longrightarrow> getlines s = [s]"
proof (induction s rule: getlines.induct)
  case (2 c s)
  then show ?case by (cases "s = []") auto
qed simp

lemma getlines_join:
  assumes "\<And>s. s \<in> set p \<Longrightarrow> CHR ''/'' \<notin> set s" "p \<noteq> []" "last p \<noteq> []"
  shows "getlines (butlast (concat (map (\<lambda>s. s @ ''/'') p))) = p"
  using assms
proof (induction p)
  case (Cons s p)
  show ?case
  proof (cases p)
    case Nil
    with Cons.prems show ?thesis by (simp add: butlast_append getlines_last)
  next
    case (Cons t q)
    then have "concat (map (\<lambda>s. s @ ''/'') p) \<noteq> []" by simp
    then have "butlast (concat (map (\<lambda>s. s @ ''/'') (s # p))) = s @ CHR ''/'' # butlast (concat (map (\<lambda>s. s @ ''/'') p))" by (simp add: butlast_append)
    with Cons Cons.IH Cons.prems show ?thesis by (simp add: getlines_segment)
  qed
qed simp

section \<open>Properties\<close>

text \<open>C13: lines are compared by canonical paths. For a path that starts with any number of \<open>.\<close>, has no other \<open>.\<close>, does not lead above its start and does not end in a slash,
  \<open>simplifylineinfo\<close> returns the path that its segments lead to, in one pass with a stack, and that is its own simplification.\<close>

theorem simplifylineinfo_canonical:
  assumes "getlines s = replicate n ''.'' @ segs" "''.'' \<notin> set segs" "walk segs [] = Some p" "p \<noteq> []" "last p \<noteq> []"
  shows "\<exists>t. simplifylineinfo s = Some t \<and> getlines t = p \<and> simplifylineinfo t = Some t"
proof -
  let ?t = "butlast (concat (map (\<lambda>s. s @ ''/'') p))"
  have p: "set p \<subseteq> set segs - {''..''}" using walk_set [OF assms(3)] by auto
  have slash: "CHR ''/'' \<notin> set g" if "g \<in> set p" for g using getlines_no_slash [of g s] assms(1) p that by auto
  have "''..'' \<notin> set (replicate n ''.'')" by simp
  then have "removeParents (getlines s) = Some (replicate n ''.'' @ p)"
    using walk_above [OF assms(3), of "replicate n ''.''"] by (simp add: removeParents_walk assms(1) walk_down)
  moreover have f: "filter (\<lambda>s. s \<noteq> ''.'') p = p" using assms(2) p by (auto intro: filter_True)
  ultimately have "simplifylineinfo s = Some ?t" by (simp add: simplifylineinfo_def)
  moreover have g: "getlines ?t = p" by (rule getlines_join [OF slash assms(4,5)])
  moreover have "simplifylineinfo ?t = Some ?t"
  proof -
    have "''..'' \<notin> set p" using p by blast
    with f show ?thesis by (simp add: simplifylineinfo_def removeParents_walk g walk_names)
  qed
  ultimately show ?thesis by blast
qed

theorem simplifylineinfo_canonical_witness:
  "\<exists>t. simplifylineinfo ''./net/core/../ipv4/tcp.c:7'' = Some t \<and> getlines t = [''net'', ''ipv4'', ''tcp.c:7''] \<and> simplifylineinfo t = Some t"
  by (rule simplifylineinfo_canonical [where n = 1 and segs = "[''net'', ''core'', ''..'', ''ipv4'', ''tcp.c:7'']"]) simp_all

end
