(* ===== verification/PathListener.thy ===== *)
theory PathListener
  imports LineInfo ExecutorStates KInstruction
begin

text \<open>
  \<^verbatim>\<open>lib/Kernel/Listener/PathListener.cpp\<close>: what steers the exploration before and after an instruction, by the lists of the
  configuration. \<open>place\<close> is what LLVM and the debug information say about the instruction. The functions of the module, by name, and the target of a
  call are arguments. \<open>None\<close> is an exception, a failed assertion or the use of a deleted state.
\<close>

section \<open>The model\<close>

datatype call = NoCall | KnownCall | IndirectCall

record place =
  bb_of :: string
  function_of :: string
  path_of :: string
  line_of :: nat
  call_of :: call

text \<open>The sets of the configuration; those of \<open>whitelist_map\<close> are in their order.\<close>

record PathListener =
  target_lines :: "string set"
  target_bbs :: "string set"
  low_priority_bbs :: "string set"
  low_priority_functions :: "string set"
  low_priority_lines :: "string set"
  indirectcall_map :: "string \<Rightarrow> string option"
  whitelist_map :: "string \<Rightarrow> string list option"
  low_priority_lines_counter :: "string \<Rightarrow> int option"

text \<open>The loop over the lines that must have been executed before. It goes on after the state was terminated.\<close>

fun checkWhitelist :: "bool \<Rightarrow> string set \<Rightarrow> string list \<Rightarrow> nat \<Rightarrow> executor \<Rightarrow> executor option" where
  "checkWhitelist cp coveredlines [] st x = Some x"
| "checkWhitelist cp coveredlines (whiteline # ls) st x =
     (if whiteline \<notin> coveredlines then terminateState cp st x \<bind> checkWhitelist cp coveredlines ls st else checkWhitelist cp coveredlines ls st x)"

definition coverLine :: "bool \<Rightarrow> PathListener \<Rightarrow> string \<Rightarrow> nat \<Rightarrow> executor \<Rightarrow> executor option" where
  "coverLine cp pl line_info st x =
     es_heap x st \<bind> (\<lambda>s.
     let s = s\<lparr>completecoveredLines := insert line_info (completecoveredLines s)\<rparr>; x = x\<lparr>es_heap := (es_heap x)(st \<mapsto> s)\<rparr> in
     case whitelist_map pl line_info of None \<Rightarrow> Some x | Some ls \<Rightarrow> checkWhitelist cp (completecoveredLines s) ls st x)"

text \<open>\<open>Expr::createPointer\<close>, and the callee of an indirect call that the configuration names.\<close>

definition pickCallee :: "nat \<Rightarrow> PathListener \<Rightarrow> (string \<Rightarrow> nat option) \<Rightarrow> KInstruction \<Rightarrow> string \<Rightarrow> nat \<Rightarrow> expr option list \<times> executor \<Rightarrow>
    (expr option list \<times> executor) option" where
  "pickCallee pw pl functions ki line_info st p = (case p of (ct, x) \<Rightarrow>
     simplifylineinfo line_info \<bind> (\<lambda>line_info.
     case indirectcall_map pl line_info of
       None \<Rightarrow> Some (ct, x)
     | Some callee_func \<Rightarrow> (case functions callee_func of
         None \<Rightarrow> Some (ct, x\<lparr>haltExecution := True\<rparr>)
       | Some f \<Rightarrow> ConstantExpr_create f pw \<bind> (\<lambda>f_address. es_heap x st \<bind> (\<lambda>s.
           un_eval ki 0 f_address ct s \<bind> (\<lambda>(ct, s). Some (ct, x\<lparr>es_heap := (es_heap x)(st \<mapsto> s)\<rparr>)))))))"

definition PathListener_before :: "nat \<Rightarrow> bool \<Rightarrow> PathListener \<Rightarrow> (string \<Rightarrow> nat option) \<Rightarrow> place \<Rightarrow> KInstruction \<Rightarrow> nat \<Rightarrow> expr option list \<times> executor \<Rightarrow>
    (expr option list \<times> executor) option" where
  "PathListener_before pw cp pl functions place ki st p = (case p of (ct, x) \<Rightarrow>
     let line_info = dump_inst_sourceinfo (path_of place) (line_of place) in
     (if line_info \<noteq> '''' then coverLine cp pl (line_key line_info) st x else Some x) \<bind> (\<lambda>x.
     es_heap x st \<bind> (\<lambda>s.
     if stack s = [] then None
     else if call_of place = IndirectCall then pickCallee pw pl functions ki (line_key line_info) st (ct, x)
     else Some (ct, x))))"

text \<open>A state at a line of low priority is terminated ten times; afterwards the line is ignored. The counters are of type \<open>int\<close>.\<close>

definition lowPriority :: "bool \<Rightarrow> PathListener \<Rightarrow> place \<Rightarrow> string \<Rightarrow> nat \<Rightarrow> executor \<Rightarrow> (PathListener \<times> executor) option" where
  "lowPriority cp pl place line st x =
     (if bb_of place \<in> low_priority_bbs pl \<or> get_real_function_name (function_of place) \<in> low_priority_functions pl
      then terminateState cp st x \<bind> (\<lambda>x. Some (pl, x))
      else if line \<in> low_priority_lines pl
      then let n = (case low_priority_lines_counter pl line of None \<Rightarrow> 1 | Some n \<Rightarrow> n + 1) in
        if n \<ge> 2 ^ 31 then None
        else let pl = pl\<lparr>low_priority_lines_counter := (low_priority_lines_counter pl)(line \<mapsto> n)\<rparr> in
          if n > 10 then Some (pl, x) else terminateState cp st x \<bind> (\<lambda>x. Some (pl, x))
      else Some (pl, x))"

definition PathListener_after :: "bool \<Rightarrow> PathListener \<Rightarrow> place \<Rightarrow> nat \<Rightarrow> executor \<Rightarrow> (PathListener \<times> executor) option" where
  "PathListener_after cp pl place st x =
     simplifylineinfo (dump_inst_sourceinfo (path_of place) (line_of place)) \<bind> (\<lambda>line.
     lowPriority cp pl place line st (if bb_of place \<in> target_bbs pl then x\<lparr>haltExecution := True\<rparr> else x) \<bind> (\<lambda>(pl, x).
     es_heap x st \<bind> (\<lambda>s.
     let x = (if line \<in> target_lines pl \<and> OOBW s then x\<lparr>haltExecution := True\<rparr> else x) in
     Some (pl, x\<lparr>es_heap := (es_heap x)(st \<mapsto> s\<lparr>OOBW := False\<rparr>)\<rparr>))))"

section \<open>Before an instruction\<close>

lemma executor_ok_heap:
  assumes "executor_ok x" "k \<in> states x" "state_ok s"
  shows "executor_ok (x\<lparr>es_heap := (es_heap x)(k \<mapsto> s)\<rparr>)"
  using assms live_ok_heap [of "states x \<union> set (addedStates x)" "states x" x k s] by (auto simp: executor_ok_def)

text \<open>The loop over the whitelist terminates the state once for each line that is missing.\<close>

definition missing :: "string set \<Rightarrow> string list \<Rightarrow> nat" where
  "missing covered ls = length (filter (\<lambda>l. l \<notin> covered) ls)"

fun terminateTimes :: "bool \<Rightarrow> nat \<Rightarrow> nat \<Rightarrow> executor \<Rightarrow> executor option" where
  "terminateTimes cp st 0 x = Some x"
| "terminateTimes cp st (Suc n) x = terminateState cp st x \<bind> terminateTimes cp st n"

lemma checkWhitelist_times: "checkWhitelist cp cov ls st x = terminateTimes cp st (missing cov ls) x"
proof (induction ls arbitrary: x)
  case (Cons l ls)
  then show ?case by (cases "terminateState cp st x") (auto simp: missing_def)
qed (simp add: missing_def)

lemma terminateTimes_old:
  assumes "st \<notin> set (addedStates x)" "es_heap x st = Some s"
  shows "\<exists>x' s'. terminateTimes cp st n x = Some x' \<and> states x' = states x \<and> addedStates x' = addedStates x
    \<and> removedStates x' = removedStates x @ replicate n st \<and> es_heap x' st = Some s' \<and> stack s' = stack s"
  using assms
proof (induction n arbitrary: x s)
  case (Suc n)
  let ?y = "x\<lparr>pathsExplored := pathsExplored x + 1, es_heap := (es_heap x)(st \<mapsto> s\<lparr>pc := prevPC s\<rparr>), removedStates := removedStates x @ [st]\<rparr>"
  have "terminateState cp st x = Some ?y" using Suc.prems by (simp add: terminateState_def Let_def)
  moreover obtain x' s' where "terminateTimes cp st n ?y = Some x'" "states x' = states x" "addedStates x' = addedStates x"
    "removedStates x' = removedStates x @ st # replicate n st" "es_heap x' st = Some s'" "stack s' = stack s"
    using Suc.IH [of ?y "s\<lparr>pc := prevPC s\<rparr>"] Suc.prems(1) by auto
  ultimately show ?case by auto
qed simp

lemma deleteState_states: "deleteState cp st x = Some y \<Longrightarrow> states y = states x"
  by (auto simp: deleteState_def bind_eq_Some_conv)

lemma eraseStates_distinct: "eraseStates cp ss x = Some x' \<Longrightarrow> distinct ss \<and> set ss \<subseteq> states x \<and> states x' = states x - set ss"
proof (induction cp ss x arbitrary: x' rule: eraseStates.induct)
  case (2 cp st ss x)
  have st: "st \<in> states x" using "2.prems" by (simp split: if_splits)
  then obtain y where y: "deleteState cp st (x\<lparr>states := states x - {st}\<rparr>) = Some y" "eraseStates cp ss y = Some x'"
    using "2.prems" by (cases "deleteState cp st (x\<lparr>states := states x - {st}\<rparr>)") simp_all
  have "states y = states x - {st}" by (rule deleteState_states [OF y(1), simplified])
  moreover have "distinct ss \<and> set ss \<subseteq> states y \<and> states x' = states y - set ss" using "2.IH" st y by blast
  ultimately show ?case using st by auto
qed simp

text \<open>\<open>updateStates\<close> fails its assertion if a state was removed twice.\<close>

lemma updateStates_twice:
  assumes "\<not> distinct (removedStates x)"
  shows "updateStates cp current x = None"
proof -
  have "removedStates y = removedStates x" if "updateSearcher current (addedStates x) (removedStates x) x = Some y" for y
    using that by (auto simp: updateSearcher_def bind_eq_Some_conv split: option.splits)
  moreover have "eraseStates cp (removedStates x) y = None" for y using eraseStates_distinct assms by (meson not_None_eq)
  ultimately show ?thesis by (cases "updateSearcher current (addedStates x) (removedStates x) x") (simp_all add: updateStates_def)
qed

section \<open>After an instruction\<close>

lemma terminateState_halt: "terminateState cp st x = Some x' \<Longrightarrow> haltExecution x' = haltExecution x \<and> BB_targetBB_counter x' = BB_targetBB_counter x"
  by (auto simp: terminateState_def deleteState_def Let_def bind_eq_Some_conv split: if_splits)

lemma terminateState_old:
  assumes "executor_ok x" "st \<in> states x" "st \<notin> set (removedStates x)" "es_heap x st = Some s"
  shows "terminateState cp st x = Some (x\<lparr>pathsExplored := pathsExplored x + 1, es_heap := (es_heap x)(st \<mapsto> s\<lparr>pc := prevPC s\<rparr>), removedStates := removedStates x @ [st]\<rparr>)"
proof -
  have "st \<notin> set (addedStates x)" using executor_okD(4) [OF assms(1)] assms(2) by blast
  with assms(4) show ?thesis by (simp add: terminateState_def Let_def)
qed

text \<open>Whether the place of the instruction has low priority.\<close>

definition low_priority :: "PathListener \<Rightarrow> place \<Rightarrow> string \<Rightarrow> bool" where
  "low_priority pl place line \<longleftrightarrow> bb_of place \<in> low_priority_bbs pl \<or> get_real_function_name (function_of place) \<in> low_priority_functions pl
     \<or> line \<in> low_priority_lines pl \<and> (\<forall>n. low_priority_lines_counter pl line = Some n \<longrightarrow> n < 10)"


text \<open>The counter of a line of low priority must not overflow.\<close>

definition counter_ok :: "PathListener \<Rightarrow> string \<Rightarrow> bool" where
  "counter_ok pl line \<longleftrightarrow> (\<forall>n. low_priority_lines_counter pl line = Some n \<longrightarrow> n < 2 ^ 31 - 1)"

lemma lowPriority_eq:
  assumes "counter_ok pl line"
  shows "\<exists>pl'. target_lines pl' = target_lines pl
    \<and> lowPriority cp pl place line st x = (if low_priority pl place line then terminateState cp st x \<bind> (\<lambda>x. Some (pl', x)) else Some (pl', x))"
proof (cases "bb_of place \<in> low_priority_bbs pl \<or> get_real_function_name (function_of place) \<in> low_priority_functions pl \<or> line \<notin> low_priority_lines pl")
  case True
  then show ?thesis by (intro exI [of _ pl]) (auto simp: lowPriority_def low_priority_def)
next
  case False
  let ?n = "case low_priority_lines_counter pl line of None \<Rightarrow> 1 | Some n \<Rightarrow> n + 1"
  let ?pl = "pl\<lparr>low_priority_lines_counter := (low_priority_lines_counter pl)(line \<mapsto> ?n)\<rparr>"
  have n: "?n < 2 ^ 31" "low_priority pl place line \<longleftrightarrow> \<not> 10 < ?n" using assms False by (auto simp: counter_ok_def low_priority_def split: option.splits)
  show ?thesis by (intro exI [of _ ?pl]) (use False n in \<open>simp add: lowPriority_def Let_def\<close>)
qed

lemma lowPriority_ok:
  assumes "executor_ok x" "st \<in> states x" "st \<notin> set (removedStates x)" "es_heap x st = Some s" "counter_ok pl line"
  shows "\<exists>pl' y t. lowPriority cp pl place line st x = Some (pl', y) \<and> target_lines pl' = target_lines pl \<and> executor_ok y \<and> st \<in> states y
    \<and> es_heap y st = Some t \<and> OOBW t = OOBW s \<and> path t = path s \<and> haltExecution y = haltExecution x
    \<and> live y = (if low_priority pl place line then live x - {st} else live x)"
proof -
  obtain pl' where pl': "target_lines pl' = target_lines pl" and low: "lowPriority cp pl place line st x =
      (if low_priority pl place line then terminateState cp st x \<bind> (\<lambda>x. Some (pl', x)) else Some (pl', x))"
    using lowPriority_eq [OF assms(5)] by blast
  show ?thesis
  proof (cases "low_priority pl place line")
    case True
    obtain y where y: "terminateState cp st x = Some y" "executor_ok y" "states y = states x" "addedStates y = addedStates x" "removedStates y = removedStates x @ [st]"
      using terminateState_ok [OF assms(1), of st cp] assms(2,3) by (auto elim!: succeedsE)
    with terminateState_old [OF assms(1-4), of cp] have h: "es_heap y st = Some (s\<lparr>pc := prevPC s\<rparr>)" by simp
    have "live y = live x - {st}" using y(3-5) by (auto simp: live_def)
    moreover have "haltExecution y = haltExecution x" using terminateState_halt [OF y(1)] by simp
    ultimately show ?thesis using low True y assms(2) h pl' by simp
  qed (use low pl' assms in simp)
qed

lemma PathListener_after_ok:
  assumes "executor_ok x" "st \<in> states x" "st \<notin> set (removedStates x)" "es_heap x st = Some s"
    and "simplifylineinfo (dump_inst_sourceinfo (path_of place) (line_of place)) = Some line" "counter_ok pl line"
  shows "\<exists>pl' x' s'. PathListener_after cp pl place st x = Some (pl', x') \<and> executor_ok x' \<and> es_heap x' st = Some s' \<and> \<not> OOBW s' \<and> path s' = path s
    \<and> (haltExecution x' \<longleftrightarrow> haltExecution x \<or> bb_of place \<in> target_bbs pl \<or> line \<in> target_lines pl \<and> OOBW s)
    \<and> live x' = (if low_priority pl place line then live x - {st} else live x)"
proof -
  let ?x = "if bb_of place \<in> target_bbs pl then x\<lparr>haltExecution := True\<rparr> else x"
  have x: "executor_ok ?x" "st \<in> states ?x" "st \<notin> set (removedStates ?x)" "es_heap ?x st = Some s" "live ?x = live x" using assms(1-4) by simp_all
  from lowPriority_ok [OF x(1-4) assms(6), of cp place] obtain pl' y t where y: "lowPriority cp pl place line st ?x = Some (pl', y)" "target_lines pl' = target_lines pl"
    "executor_ok y" "st \<in> states y" "es_heap y st = Some t" "OOBW t = OOBW s" "path t = path s" "haltExecution y = haltExecution ?x"
    "live y = (if low_priority pl place line then live ?x - {st} else live ?x)" by blast
  let ?z = "(if line \<in> target_lines pl' \<and> OOBW t then y\<lparr>haltExecution := True\<rparr> else y)"
  let ?w = "?z\<lparr>es_heap := (es_heap ?z)(st \<mapsto> t\<lparr>OOBW := False\<rparr>)\<rparr>"
  have "state_ok (t\<lparr>OOBW := False\<rparr>)" using live_okD(7) [OF executor_okD(1) [OF y(3)] y(5)] by (simp add: state_ok_def)
  then have "executor_ok ?w" by (intro executor_ok_heap) (use y(3,4) in simp_all)
  moreover have "PathListener_after cp pl place st x = Some (pl', ?w)" using assms(5) y(1,5) by (simp add: PathListener_after_def Let_def)
  moreover have "live ?w = live y" by (simp add: live_def)
  ultimately show ?thesis using y(2,6-9) x(5) by (intro exI [of _ pl'] exI [of _ ?w] exI [of _ "t\<lparr>OOBW := False\<rparr>"]) auto
qed

section \<open>Properties\<close>


text \<open>C11: a line with a whitelist is only executed by states that covered the lines of the whitelist. A state that did not is terminated; if exactly one line is missing the
  engine stays consistent, but the loop goes on and removes the state once for each line that is missing: with two of them the next \<open>updateStates\<close> fails its assertion.\<close>

theorem whitelist_terminates:
  assumes x: "executor_ok x" "st \<in> states x" "removedStates x = []" "es_heap x st = Some s" "stack s \<noteq> []"
    and place: "line_of place \<noteq> 1" "call_of place \<noteq> IndirectCall" "l = line_key (dump_inst_sourceinfo (path_of place) (line_of place))" "whitelist_map pl l = Some ls"
    and n: "n = missing (insert l (completecoveredLines s)) ls"
  shows "\<exists>x'. PathListener_before pw cp pl functions place ki st (ct, x) = Some (ct, x') \<and> removedStates x' = replicate n st
    \<and> (n \<le> 1 \<longrightarrow> executor_ok x' \<and> live x' = (if n = 0 then live x else live x - {st}))
    \<and> (n \<ge> 2 \<longrightarrow> updateStates cp current x' = None)"
proof -
  let ?s = "s\<lparr>completecoveredLines := insert l (completecoveredLines s)\<rparr>" let ?x = "x\<lparr>es_heap := (es_heap x)(st \<mapsto> ?s)\<rparr>"
  have "state_ok ?s" using live_okD(7) [OF executor_okD(1) [OF x(1)] x(4)] by (simp add: state_ok_def)
  then have ok: "executor_ok ?x" by (intro executor_ok_heap x(1,2))
  have st: "st \<notin> set (addedStates ?x)" "es_heap ?x st = Some ?s" using executor_okD(4) [OF x(1)] x(2) by auto
  from terminateTimes_old [OF st, of cp n] obtain x' s' where t: "terminateTimes cp st n ?x = Some x'" "states x' = states x" "addedStates x' = addedStates x"
    "removedStates x' = replicate n st" "es_heap x' st = Some s'" "stack s' = stack s" using x(3) by auto
  have run: "PathListener_before pw cp pl functions place ki st (ct, x) = Some (ct, x')"
    using x(4,5) place t(1,5,6) by (simp add: PathListener_before_def coverLine_def checkWhitelist_times Let_def dump_inst_sourceinfo_def n)
  have lv: "live x' = (if n = 0 then live x else live x - {st})" using t(2-4) x(3) by (auto simp: live_def)
  have "executor_ok x'" if "n \<le> 1"
  proof (cases "n = 0")
    case False
    with that have "terminateState cp st ?x = Some x'" using t(1) by (cases n) (auto simp: bind_eq_Some_conv)
    from succeedsD [OF terminateState_ok [OF ok, of st cp] this] x(2,3) show ?thesis by auto
  qed (use t(1) ok in auto)
  moreover have "updateStates cp current x' = None" if "n \<ge> 2"
  proof (rule updateStates_twice)
    from that obtain m where "n = Suc (Suc m)" by (metis Suc_le_D numeral_2_eq_2 Suc_le_mono)
    with t(4) show "\<not> distinct (removedStates x')" by simp
  qed
  ultimately show ?thesis using run t(4) lv by auto
qed

text \<open>The whitelist, and an engine that stops at a line with a flagged access.\<close>

definition ex_listener :: PathListener where
  "ex_listener = \<lparr>target_lines = {''net/x.c:7''}, target_bbs = {}, low_priority_bbs = {}, low_priority_functions = {''printk''}, low_priority_lines = {''net/x.c:7''},
     indirectcall_map = Map.empty, whitelist_map = [''net/x.c:7'' \<mapsto> [''net/x.c:3'', ''net/x.c:4'']], low_priority_lines_counter = [''net/x.c:7'' \<mapsto> 3]\<rparr>"

definition ex_place :: place where
  "ex_place = \<lparr>bb_of = ''bc-x-1'', function_of = ''f.17'', path_of = ''./net/core/../x.c'', line_of = 7, call_of = NoCall\<rparr>"

definition ex_flagged_executor :: executor where
  "ex_flagged_executor = (Executor_new (RNG_seed 5489) 7 (ex_state\<lparr>OOBW := True\<rparr>) 2)\<lparr>states := {7}\<rparr>"

lemma ex_flagged_executor_ok:
  "executor_ok ex_flagged_executor" "7 \<in> states ex_flagged_executor" "removedStates ex_flagged_executor = []" "es_heap ex_flagged_executor 7 = Some (ex_state\<lparr>OOBW := True\<rparr>)"
  "live ex_flagged_executor = {7}"
proof -
  have "state_ok (ex_state\<lparr>OOBW := True\<rparr>)" using ex_state_ok(1) by (simp add: state_ok_def)
  moreover have "attached (eng ex_flagged_executor) = {7}" "tracks (ptreeNode_of (eng ex_flagged_executor)) (processTree (eng ex_flagged_executor))"
    by (simp_all add: ex_flagged_executor_def Executor_new_def attached_def tracks_def state_at_new)
  ultimately show "executor_ok ex_flagged_executor" using rng_ok_seed ptree_ok_new
    by (simp add: executor_ok_def live_ok_def ex_flagged_executor_def Executor_new_def)
qed (simp_all add: ex_flagged_executor_def Executor_new_def live_def)

lemma ex_place_line: "simplifylineinfo (dump_inst_sourceinfo (path_of ex_place) (line_of ex_place)) = Some ''net/x.c:7''"
  by code_simp


theorem whitelist_terminates_witness:
  "\<exists>x'. PathListener_before 64 False ex_listener Map.empty (ex_place\<lparr>path_of := ''net/x.c''\<rparr>) (\<lparr>opcode = OtherInst, operands = [], dest = 0\<rparr>) 7 ([], ex_flagged_executor) = Some ([], x')
     \<and> removedStates x' = [7, 7] \<and> updateStates False (Some 7) x' = None"
proof -
  have l: "line_key (dump_inst_sourceinfo (path_of (ex_place\<lparr>path_of := ''net/x.c''\<rparr>)) (line_of (ex_place\<lparr>path_of := ''net/x.c''\<rparr>))) = ''net/x.c:7''" by code_simp
  have s: "stack (ex_state\<lparr>OOBW := True\<rparr>) \<noteq> []" "completecoveredLines (ex_state\<lparr>OOBW := True\<rparr>) = {}"
    by (simp_all add: ex_state_def ExecutionState_new_def setID_def pushFrame_def)
  have "missing (insert ''net/x.c:7'' (completecoveredLines (ex_state\<lparr>OOBW := True\<rparr>))) [''net/x.c:3'', ''net/x.c:4''] = 2" by (simp add: s(2) missing_def)
  with whitelist_terminates [OF ex_flagged_executor_ok(1-4) s(1) _ _ l [symmetric] _ refl, of ex_listener "[''net/x.c:3'', ''net/x.c:4'']" 64 False Map.empty _ "[]" "Some 7"]
  show ?thesis by (simp add: ex_place_def ex_listener_def numeral_2_eq_2)
qed

end
