(* ===== verification/ExecutorBr.thy ===== *)
theory ExecutorBr
  imports ExecutorFork BasicBlocks PathListener
begin

text \<open>
  The branch instruction in \<^verbatim>\<open>lib/Core/Executor.cpp\<close> (\<open>Instruction::Br\<close> in \<open>executeInstruction\<close>): the engine forks on the condition, in the order that the
  control flow graph suggests, moves the states to their successors, counts how often a block was left in a loop and forces branches to
  blocks that the configuration asks for. Blocks, functions and instructions are numbers; what LLVM says about them and the
  configuration are in \<open>env\<close>. Random numbers, and the address of the state that a fork creates, are arguments. The optimiser of array expressions is off by
  default and returns its argument. \<open>None\<close> is a failed assertion or the use of a deleted state.
\<close>

section \<open>The model\<close>

record br_env =
  successors_of :: "nat \<Rightarrow> nat list"
  bb_name :: "nat \<Rightarrow> string"
  function_name :: "nat \<Rightarrow> string"
  basicBlockEntry :: "nat \<Rightarrow> nat \<Rightarrow> nat"
  phi_index :: "nat \<Rightarrow> nat \<Rightarrow> nat option"
  print_expr :: "expr \<Rightarrow> string"
  BB_targetBB :: "string \<Rightarrow> string option"
  looplimit :: nat
  kernelversion :: string

record BranchInst =
  bi_parent :: nat
  bi_successor0 :: nat
  bi_successor1 :: "nat option"

definition transferToBasicBlock :: "br_env \<Rightarrow> nat \<Rightarrow> nat \<Rightarrow> nat \<Rightarrow> executor \<Rightarrow> executor option" where
  "transferToBasicBlock env dst src st x =
     es_heap x st \<bind> (\<lambda>s.
     if stack s = [] then None
     else let f = kf (last (stack s)); s = s\<lparr>pc := instructions_of f + basicBlockEntry env (kf_function f) dst\<rparr>;
            s = (case phi_index env (pc s) src of None \<Rightarrow> s | Some i \<Rightarrow> s\<lparr>incomingBBIndex := i\<rparr>) in
          Some (x\<lparr>es_heap := (es_heap x)(st \<mapsto> s)\<rparr>))"

definition getCalltrace :: "br_env \<Rightarrow> ExecutionState \<Rightarrow> string option" where
  "getCalltrace env s =
     (if stack s = [] then None else Some (butlast (butlast (concat (map (\<lambda>f. function_name env (kf_function (kf f)) @ ''--'') (stack s))))))"

text \<open>The rest of a string after the first occurrence of another one.\<close>

fun afterFirst :: "string \<Rightarrow> string \<Rightarrow> string option" where
  "afterFirst p s = (if take (length p) s = p then Some (drop (length p) s) else if s = [] then None else afterFirst p (tl s))"

declare afterFirst.simps [simp del]

definition BBkey :: "br_env \<Rightarrow> string \<Rightarrow> ExecutionState \<Rightarrow> string option" where
  "BBkey env BBname s = getCalltrace env s \<bind> (\<lambda>calltrace. Some (calltrace @ ''-'' @ (case afterFirst ''-'' BBname of None \<Rightarrow> BBname | Some r \<Rightarrow> r)))"

definition checkLoopLimit :: "br_env \<Rightarrow> bool \<Rightarrow> string \<Rightarrow> nat \<Rightarrow> bool \<Rightarrow> nat \<Rightarrow> executor \<Rightarrow> (bool \<times> executor) option" where
  "checkLoopLimit env cp bb limit terminate st x =
     (case afterFirst ''bc-'' bb of
       None \<Rightarrow> Some (False, x)
     | Some BBname \<Rightarrow>
       es_heap x st \<bind> (\<lambda>s. BBkey env BBname s \<bind> (\<lambda>key.
       let n = (case BBcount s key of None \<Rightarrow> 1 | Some n \<Rightarrow> (n + 1) mod 2 ^ 32);
           x = x\<lparr>es_heap := (es_heap x)(st \<mapsto> s\<lparr>BBcount := (BBcount s)(key \<mapsto> n)\<rparr>)\<rparr> in
       if n > limit then (if terminate then terminateState cp st x else Some x) \<bind> (\<lambda>x. Some (True, x)) else Some (False, x))))"

definition logNewConstraint :: "br_env \<Rightarrow> place \<Rightarrow> nat \<Rightarrow> executor \<Rightarrow> executor option" where
  "logNewConstraint env place st x =
     es_heap x st \<bind> (\<lambda>s.
     if path s = [] then Some x
     else let text = print_expr env (last (path s)); lines = (case constraint_lines s text of None \<Rightarrow> {} | Some l \<Rightarrow> l);
            l = dump_inst_booltin (path_of place) (line_of place) (kernelversion env) in
          Some (x\<lparr>es_heap := (es_heap x)(st \<mapsto> s\<lparr>constraint_lines := (constraint_lines s)(text \<mapsto> insert l lines)\<rparr>)\<rparr>))"

definition targetBB :: "br_env \<Rightarrow> string \<Rightarrow> string" where
  "targetBB env currentBB = (case BB_targetBB env currentBB of None \<Rightarrow> '''' | Some b \<Rightarrow> b)"

text \<open>\<open>ListenerService::afterExecuteInstruction\<close> for a branch: \<open>UCListener\<close> does nothing.\<close>

definition ListenerService_after :: "bool \<Rightarrow> PathListener \<Rightarrow> place \<Rightarrow> nat \<Rightarrow> executor \<Rightarrow> (PathListener \<times> executor) option" where
  "ListenerService_after cp pl place st x = (if st \<in> set (removedStates x) then Some (pl, x) else PathListener_after cp pl place st x)"

text \<open>Whether the condition is negated, so that the state that continues takes the second successor: the successor that reaches the other one is tried first.\<close>

definition branchOrder :: "br_env \<Rightarrow> nat \<Rightarrow> nat \<Rightarrow> nat \<Rightarrow> bool \<Rightarrow> bool option" where
  "branchOrder env A B C r =
     Isaloop (successors_of env) A B C \<bind> (\<lambda>loop.
     if loop then Some r
     else BB1_reach_BB2 (successors_of env) B C \<bind> (\<lambda>b.
       if b then Some True else BB1_reach_BB2 (successors_of env) C B \<bind> (\<lambda>c. Some (if c then False else r))))"

text \<open>The states for the first and the second successor, and the second state that \<open>fork\<close> returns.\<close>

definition forkInOrder :: "fork_options \<Rightarrow> 's SolverImpl \<Rightarrow> bool \<Rightarrow> nat \<Rightarrow> bool \<Rightarrow> nat \<Rightarrow> expr \<Rightarrow> executor \<Rightarrow> 's \<Rightarrow>
    ((nat option \<times> nat option) \<times> nat option \<times> executor \<times> 's) option" where
  "forkInOrder opt impl limited ns swap st cond x s =
     (if swap then createIsZero cond else Some cond) \<bind> (\<lambda>c.
     Executor_fork opt impl limited ns st c False x s \<bind> (\<lambda>((a, b), x, s). Some (if swap then (b, a) else (a, b), b, x, s)))"

definition transferSome :: "br_env \<Rightarrow> nat \<Rightarrow> nat \<Rightarrow> nat option \<Rightarrow> executor \<Rightarrow> executor option" where
  "transferSome env dst src st x = (case st of None \<Rightarrow> Some x | Some st \<Rightarrow> transferToBasicBlock env dst src st x)"

text \<open>After a fork into two states; \<open>newstate\<close> is the one \<open>fork\<close> created.\<close>

definition bothBranches :: "br_env \<Rightarrow> bool \<Rightarrow> PathListener \<Rightarrow> place \<Rightarrow> nat \<Rightarrow> nat \<Rightarrow> executor \<Rightarrow> (PathListener \<times> executor) option" where
  "bothBranches env cp pl place st newstate x =
     logNewConstraint env place st x \<bind> (\<lambda>x. logNewConstraint env place newstate x \<bind> (\<lambda>x.
     checkLoopLimit env cp (bb_of place) (looplimit env) False st x \<bind> (\<lambda>(_, x).
     checkLoopLimit env cp (bb_of place) (looplimit env) True newstate x \<bind> (\<lambda>(_, x).
     ListenerService_after cp pl place newstate x))))"

text \<open>If only one successor is possible, a block that was left more than 129 times is left at random.\<close>

definition oneBranch :: "br_env \<Rightarrow> bool \<Rightarrow> place \<Rightarrow> nat \<Rightarrow> nat \<Rightarrow> nat \<Rightarrow> executor \<Rightarrow> executor option" where
  "oneBranch env cp place dst src st x =
     checkLoopLimit env cp (bb_of place) 129 False st x \<bind> (\<lambda>(reached, x). if reached then transferToBasicBlock env dst src st x else Some x)"

text \<open>How often a block was left, but not to its target. The counters are of type \<open>int\<close>.\<close>

definition countTarget :: "br_env \<Rightarrow> string \<Rightarrow> nat \<Rightarrow> nat \<Rightarrow> nat option \<Rightarrow> nat option \<Rightarrow> executor \<Rightarrow> executor option" where
  "countTarget env currentBB B C t f x =
     (let TargetBB = targetBB env currentBB; counter = BB_targetBB_counter x in
      if TargetBB = '''' then Some x
      else if TargetBB = bb_name env B \<and> t = None \<or> TargetBB = bb_name env C \<and> f = None
      then let n = (case counter currentBB of None \<Rightarrow> 1 | Some n \<Rightarrow> n + 1) in
        if n \<ge> 2 ^ 31 then None else Some (x\<lparr>BB_targetBB_counter := counter(currentBB \<mapsto> n)\<rparr>)
      else if counter currentBB \<noteq> None then Some (x\<lparr>BB_targetBB_counter := counter(currentBB \<mapsto> 0)\<rparr>) else Some x)"

text \<open>The conditional branch without a forced target; \<open>ra\<close> and \<open>rb\<close> are random.\<close>

definition branchOnCondition :: "br_env \<Rightarrow> fork_options \<Rightarrow> 's SolverImpl \<Rightarrow> bool \<Rightarrow> nat \<Rightarrow> bool \<Rightarrow> bool \<Rightarrow> place \<Rightarrow> nat \<Rightarrow> nat \<Rightarrow> nat \<Rightarrow> nat \<Rightarrow> expr \<Rightarrow>
    PathListener \<times> executor \<times> 's \<Rightarrow> (PathListener \<times> executor \<times> 's) option" where
  "branchOnCondition env opt impl limited ns ra rb place A B C st cond p = (case p of (pl, x, s) \<Rightarrow>
     branchOrder env A B C ra \<bind> (\<lambda>swap.
     forkInOrder opt impl limited ns swap st cond x s \<bind> (\<lambda>((t, f), state2, x, s).
     transferSome env B A t x \<bind> (\<lambda>x. transferSome env C A f x \<bind> (\<lambda>x.
     (if t \<noteq> None \<and> f \<noteq> None then state2 \<bind> (\<lambda>newstate. bothBranches env (CompressProcessTree opt) pl place st newstate x)
      else oneBranch env (CompressProcessTree opt) place (if rb then C else B) A st x \<bind> (\<lambda>x. Some (pl, x))) \<bind> (\<lambda>(pl, x).
     countTarget env (bb_of place) B C t f x \<bind> (\<lambda>x. Some (pl, x, s))))))))"

definition Executor_Br :: "br_env \<Rightarrow> fork_options \<Rightarrow> 's SolverImpl \<Rightarrow> bool \<Rightarrow> nat \<Rightarrow> bool \<Rightarrow> bool \<Rightarrow> expr option list \<Rightarrow> place \<Rightarrow> BranchInst \<Rightarrow> KInstruction \<Rightarrow> nat \<Rightarrow>
    PathListener \<times> executor \<times> 's \<Rightarrow> (PathListener \<times> executor \<times> 's) option" where
  "Executor_Br env opt impl limited ns ra rb constantTable place bi ki st p = (case p of (pl, x, s) \<Rightarrow>
     let A = bi_parent bi; B = bi_successor0 bi; currentBB = bb_of place in
     case bi_successor1 bi of
       None \<Rightarrow> transferToBasicBlock env B A st x \<bind> (\<lambda>x. Some (pl, x, s))
     | Some C \<Rightarrow>
       if (case BB_targetBB_counter x currentBB of None \<Rightarrow> False | Some n \<Rightarrow> n > 5)
       then transferToBasicBlock env (if targetBB env currentBB = bb_name env B then B else C) A st x \<bind> (\<lambda>x.
         Some (pl, x\<lparr>BB_targetBB_counter := (BB_targetBB_counter x)(currentBB \<mapsto> 0)\<rparr>, s))
       else es_heap x st \<bind> (\<lambda>e. Executor_eval constantTable ki 0 e \<bind> (\<lambda>cond.
         branchOnCondition env opt impl limited ns ra rb place A B C st cond p)))"

section \<open>What a fork keeps\<close>

text \<open>The number of times the branch of a block was taken, after this time. It depends on the counters and the functions on the stack.\<close>

definition loopCount :: "br_env \<Rightarrow> string \<Rightarrow> ExecutionState \<Rightarrow> nat" where
  "loopCount env bb s = (case afterFirst ''bc-'' bb \<bind> (\<lambda>n. BBkey env n s) of
     None \<Rightarrow> 0 | Some key \<Rightarrow> (case BBcount s key of None \<Rightarrow> 1 | Some n \<Rightarrow> (n + 1) mod 2 ^ 32))"

definition trace_of :: "ExecutionState \<Rightarrow> (string \<Rightarrow> nat option) \<times> KFunction list" where
  "trace_of s = (BBcount s, map kf (stack s))"

lemma getCalltrace_functions:
  "getCalltrace env s = (if map kf (stack s) = [] then None
     else Some (butlast (butlast (concat (map (\<lambda>f. function_name env (kf_function f) @ ''--'') (map kf (stack s)))))))"
  by (simp add: getCalltrace_def o_def)

lemma trace_of_eq:
  assumes "trace_of s' = trace_of s"
  shows "loopCount env bb s' = loopCount env bb s" "stack s' = [] \<longleftrightarrow> stack s = []"
proof -
  have k: "map kf (stack s') = map kf (stack s)" and c: "BBcount s' = BBcount s" using assms by (simp_all add: trace_of_def)
  have t: "getCalltrace env s' = getCalltrace env s" unfolding getCalltrace_functions k ..
  show "loopCount env bb s' = loopCount env bb s" unfolding loopCount_def BBkey_def c t ..
  from k show "stack s' = [] \<longleftrightarrow> stack s = []" by (metis map_is_Nil_conv)
qed

definition keeps :: "executor \<Rightarrow> executor \<Rightarrow> bool" where
  "keeps x x' \<longleftrightarrow> states x' = states x \<and> addedStates x' = addedStates x \<and> removedStates x' = removedStates x \<and> BB_targetBB_counter x' = BB_targetBB_counter x
     \<and> (\<forall>k. map_option trace_of (es_heap x' k) = map_option trace_of (es_heap x k))"

lemma keeps_refl [simp]: "keeps x x"
  by (simp add: keeps_def)

lemma keeps_trans: "keeps x y \<Longrightarrow> keeps y z \<Longrightarrow> keeps x z"
  by (simp add: keeps_def)

lemma keeps_path: "es_heap x st = Some e \<Longrightarrow> keeps x (x\<lparr>es_heap := (es_heap x)(st \<mapsto> e\<lparr>path := cs\<rparr>)\<rparr>)"
  by (simp add: keeps_def trace_of_def)

lemma addConstraint_keeps:
  assumes "Executor_addConstraint opt st c x = Some x'"
  shows "keeps x x'"
proof (cases "dyn_cast_ConstantExpr c")
  case None
  with assms obtain e e' where e: "es_heap x st = Some e" "ExecutionState_addConstraint (addFuel opt) e c = Some e'" "x' = x\<lparr>es_heap := (es_heap x)(st \<mapsto> e')\<rparr>"
    by (auto simp: Executor_addConstraint_def bind_eq_Some_conv)
  then obtain cs where "e' = e\<lparr>path := cs\<rparr>" by (cases "addConstraint (addFuel opt) c (path e)") (auto simp: ExecutionState_addConstraint_def)
  with e keeps_path show ?thesis by simp
qed (use assms in \<open>auto simp: Executor_addConstraint_def bind_eq_Some_conv split: if_splits\<close>)

lemma assume_branch_keeps: "assume_branch opt st c b x = Some x' \<Longrightarrow> keeps x x'"
  by (auto simp: assume_branch_def bind_eq_Some_conv addConstraint_keeps split: if_splits)

lemma fixCondition_keeps: "fixCondition opt impl limited st c x s = Some (c', x', s') \<Longrightarrow> keeps x x'"
  by (auto simp: fixCondition_def bind_eq_Some_conv addConstraint_keeps split: if_splits)

lemma chooseBranch_keeps:
  assumes "chooseBranch opt isInternal st c res x = Some (res', x')"
  shows "keeps x x'"
proof -
  have "keeps x y" if "assume_branch opt st c b (x\<lparr>replayPosition := n\<rparr>) = Some y" for b n y
    using assume_branch_keeps [OF that] by (simp add: keeps_def)
  moreover have "keeps x y" if "assume_branch opt st c b (x\<lparr>eng := g\<rparr>) = Some y" for b g y
    using assume_branch_keeps [OF that] by (simp add: keeps_def)
  moreover have "keeps x (x\<lparr>replayPosition := n\<rparr>)" for n by (simp add: keeps_def)
  ultimately show ?thesis using assms
    by (auto simp: chooseBranch_def Let_def bind_eq_Some_conv split: if_splits Validity.splits)
qed

lemma copyStack_functions: "copyStack ss = Some ts \<Longrightarrow> map kf ts = map kf ss"
  by (induction ss arbitrary: ts) (auto simp: StackFrame_copy_def bind_eq_Some_conv split: if_splits)

lemma branchState_trace:
  assumes "branchState st ns x = Some x'" "es_heap x st = Some e"
  shows "states x' = states x" "addedStates x' = addedStates x @ [ns]" "removedStates x' = removedStates x" "BB_targetBB_counter x' = BB_targetBB_counter x"
    "es_heap x ns = None" "map_option trace_of (es_heap x' st) = Some (trace_of e)" "map_option trace_of (es_heap x' ns) = Some (trace_of e)"
proof -
  from assms obtain t f n where b: "ExecutionState_branch e (nextID x) = Some (t, f, n)" "es_heap x' = (es_heap x)(st \<mapsto> t, ns \<mapsto> f)" "es_heap x ns = None"
    "states x' = states x" "addedStates x' = addedStates x @ [ns]" "removedStates x' = removedStates x" "BB_targetBB_counter x' = BB_targetBB_counter x"
    by (auto simp: branchState_def bind_eq_Some_conv Let_def split: if_splits)
  from b(1) have "trace_of t = trace_of e" "trace_of f = trace_of e"
    by (cases "AddressSpace_copy (addressSpace e)",
        auto simp: ExecutionState_branch_def ExecutionState_copy_def setID_def trace_of_def bind_eq_Some_conv copyStack_functions)+
  with b assms(2) show "states x' = states x" "addedStates x' = addedStates x @ [ns]" "removedStates x' = removedStates x" "BB_targetBB_counter x' = BB_targetBB_counter x"
    "es_heap x ns = None" "map_option trace_of (es_heap x' st) = Some (trace_of e)" "map_option trace_of (es_heap x' ns) = Some (trace_of e)" by auto
qed

text \<open>The states a fork returns; they have the counters and the functions of the state that was forked.\<close>

lemma fork_shape:
  assumes run: "Executor_fork opt impl limited ns st c isInternal x s = Some ((a, b), x', s')" and e: "es_heap x st = Some e"
  shows "(a, b) = (None, None) \<or> ((a, b) = (Some st, None) \<or> (a, b) = (None, Some st)) \<and> keeps x x'
    \<or> (a, b) = (Some st, Some ns) \<and> es_heap x ns = None \<and> states x' = states x \<and> addedStates x' = addedStates x @ [ns] \<and> removedStates x' = removedStates x
      \<and> BB_targetBB_counter x' = BB_targetBB_counter x \<and> map_option trace_of (es_heap x' st) = Some (trace_of e) \<and> map_option trace_of (es_heap x' ns) = Some (trace_of e)"
  using run
proof (rule fork_cases)
  fix c1 x1 s1 e1 r res x2
  assume fc: "fixCondition opt impl limited st c x s = Some (c1, x1, s1)" and h1: "es_heap x1 st = Some e1"
    and ch: "chooseBranch opt isInternal st c1 (case r of None \<Rightarrow> VUnknown | Some v \<Rightarrow> v) x1 = Some (res, x2)"
    and rest: "res = VTrue \<and> (a, b) = (Some st, None) \<and> x' = x2 \<or> res = VFalse \<and> (a, b) = (None, Some st) \<and> x' = x2
     \<or> res = VUnknown \<and> splitState opt ns st c1 (r = None) x2 = Some ((a, b), x')"
  have k: "keeps x x2" using keeps_trans fixCondition_keeps [OF fc] chooseBranch_keeps [OF ch] by blast
  show ?thesis
  proof (cases "res = VUnknown \<and> (a, b) \<noteq> (None, None)")
    case True
    with rest have "splitState opt ns st c1 (r = None) x2 = Some ((a, b), x')" by auto
    then obtain y where y: "branchState st ns (x2\<lparr>forks := forks x2 + 1\<rparr>) = Some y" "(a, b) = (Some st, Some ns)"
      "(if r = None then Some y else assume_branch opt st c1 True y \<bind> assume_branch opt ns c1 False) = Some x'"
      using True by (auto simp: splitState_def bind_eq_Some_conv split: if_splits)
    have ky: "keeps y x'" using y(3) by (auto simp: bind_eq_Some_conv split: if_splits intro: keeps_trans [OF assume_branch_keeps assume_branch_keeps])
    obtain e2 where e2: "es_heap x2 st = Some e2" "trace_of e2 = trace_of e" using k e unfolding keeps_def by (metis (no_types, lifting) map_option_eq_Some)
    have "es_heap (x2\<lparr>forks := forks x2 + 1\<rparr>) st = Some e2" using e2(1) by simp
    note t = branchState_trace [OF y(1) this]
    have "es_heap x ns = None" using t(5) k by (simp add: keeps_def) (metis map_option_is_None)
    then show ?thesis using y(2) t ky k e2(2) by (simp add: keeps_def)
  qed (use rest k in auto)
qed

lemma forkInOrder_shape:
  assumes "forkInOrder opt impl limited ns swap st cond x s = Some ((t, f), state2, x', s')" "es_heap x st = Some e"
  shows "t = None \<and> f = None \<or> (t = None \<and> f = Some st \<or> t = Some st \<and> f = None) \<and> keeps x x'
    \<or> (t, f) = (if swap then (Some ns, Some st) else (Some st, Some ns)) \<and> state2 = Some ns \<and> es_heap x ns = None
      \<and> states x' = states x \<and> addedStates x' = addedStates x @ [ns] \<and> removedStates x' = removedStates x
      \<and> BB_targetBB_counter x' = BB_targetBB_counter x \<and> map_option trace_of (es_heap x' st) = Some (trace_of e) \<and> map_option trace_of (es_heap x' ns) = Some (trace_of e)"
proof -
  from assms(1) obtain c a b where r: "Executor_fork opt impl limited ns st c False x s = Some ((a, b), x', s')" "(t, f) = (if swap then (b, a) else (a, b))" "state2 = b"
    by (auto simp: forkInOrder_def bind_eq_Some_conv split: prod.splits)
  from fork_shape [OF r(1) assms(2)] r(2,3) show ?thesis by (cases swap) auto
qed

text \<open>The inputs are divided by the condition itself, whichever order was chosen.\<close>

lemma forkInOrder_sound:
  assumes solver: "sound_solver N F I impl" "I s" "simplifyExprs opt \<noteq> None \<longrightarrow> N"
    and ok: "executor_ok x" and st: "st \<in> live x" "es_heap x st = Some e" and ns: "es_heap x ns = None"
    and p: "path_ok (path e)" "condition_ok (path e) cond"
    and run: "forkInOrder opt impl limited ns swap st cond x s = Some ((t, f), state2, x', s')"
  shows "executor_ok x' \<and> I s' \<and> (\<forall>k. k \<noteq> st \<longrightarrow> k \<noteq> ns \<longrightarrow> es_heap x' k = es_heap x k)
    \<and> divides F cond (inputs x st)
        (\<not> limited \<and> branchingPermitted opt x e \<and> replayPath opt = None \<and> (MaxDepth opt = 0 \<or> (depth e + 1) mod 2 ^ 32 < MaxDepth opt)) x' t f"
proof (cases swap)
  case False
  with run have "Executor_fork opt impl limited ns st cond False x s = Some ((t, f), x', s')" by (auto simp: forkInOrder_def bind_eq_Some_conv)
  from fork_sound [OF solver ok st ns p this] show ?thesis by simp
next
  case True
  with run obtain n where n: "createIsZero cond = Some n" "Executor_fork opt impl limited ns st n False x s = Some ((f, t), x', s')"
    by (auto simp: forkInOrder_def bind_eq_Some_conv)
  note z = createIsZero_condition [OF p(2) n(1)]
  have v: "eval \<sigma> cond = Some (of_bool (\<not> b))" if "\<sigma> \<in> inputs x st" "eval \<sigma> n = Some (of_bool b)" for \<sigma> b
    using that z(2) [of \<sigma>] condition_values [OF p(2), of \<sigma>] st(2) by (cases b) (auto simp: inputs_def)
  have fl: "follows F cond (\<not> b) (inputs x st) x' k" if "follows F n b (inputs x st) x' k" for b k
    using that v by (auto simp: follows_def)
  from fork_sound [OF solver ok st ns p(1) z(1) n(2)] show ?thesis using fl [of True] fl [of False] by (auto simp: divides_def)
qed

section \<open>What happens to the states afterwards\<close>

text \<open>A change of the states, and of the flag that halts the engine, that keeps a part of each state.\<close>

definition touches :: "(ExecutionState \<Rightarrow> 'a) \<Rightarrow> executor \<Rightarrow> executor \<Rightarrow> bool" where
  "touches part x x' \<longleftrightarrow> (\<exists>h b. x' = x\<lparr>es_heap := h, haltExecution := b\<rparr>
     \<and> (\<forall>k. map_option part (h k) = map_option part (es_heap x k)))"

definition core :: "ExecutionState \<Rightarrow> constraint_set \<times> StackFrame list" where
  "core s = (path s, stack s)"

definition position :: "ExecutionState \<Rightarrow> nat \<times> constraint_set \<times> StackFrame list" where
  "position s = (pc s, core s)"

lemma touches_refl [simp]: "touches part x x"
  unfolding touches_def by (intro exI [of _ "es_heap x"] exI [of _ "haltExecution x"]) simp

lemma touches_trans:
  assumes "touches part x y" "touches part y z"
  shows "touches part x z"
proof -
  from assms obtain h b h' b' where "y = x\<lparr>es_heap := h, haltExecution := b\<rparr>" "\<forall>k. map_option part (h k) = map_option part (es_heap x k)"
    "z = y\<lparr>es_heap := h', haltExecution := b'\<rparr>" "\<forall>k. map_option part (h' k) = map_option part (es_heap y k)" unfolding touches_def by blast
  then show ?thesis unfolding touches_def by (intro exI [of _ h'] exI [of _ b']) simp
qed

lemma touches_heap: "es_heap x k = Some s \<Longrightarrow> part s' = part s \<Longrightarrow> touches part x (x\<lparr>es_heap := (es_heap x)(k \<mapsto> s')\<rparr>)"
  unfolding touches_def by (intro exI [of _ "(es_heap x)(k \<mapsto> s')"] exI [of _ "haltExecution x"]) simp

lemma touches_halt: "touches part x (x\<lparr>haltExecution := b\<rparr>)"
  unfolding touches_def by (intro exI [of _ "es_heap x"] exI [of _ b]) simp

lemma touches_core: "touches position x x' \<Longrightarrow> touches core x x'"
proof -
  assume "touches position x x'"
  moreover have "map_option core m = map_option core n" if "map_option position m = map_option position n" for m n
    using that by (cases m; cases n) (simp_all add: position_def)
  ultimately show ?thesis unfolding touches_def by blast
qed

lemma touches_sets:
  assumes "touches part x x'"
  shows "states x' = states x" "addedStates x' = addedStates x" "removedStates x' = removedStates x" "live x' = live x"
    "BB_targetBB_counter x' = BB_targetBB_counter x" "map_option part (es_heap x' k) = map_option part (es_heap x k)"
  using assms by (auto simp: touches_def live_def)

lemma touches_some:
  assumes "touches part x x'" "es_heap x k = Some s"
  shows "\<exists>s'. es_heap x' k = Some s' \<and> part s' = part s"
  using touches_sets(6) [OF assms(1), of k] assms(2) by auto

lemma touches_executor_ok:
  assumes "touches core x x'" "executor_ok x"
  shows "executor_ok x'"
proof -
  from assms(1) obtain h b where x': "x' = x\<lparr>es_heap := h, haltExecution := b\<rparr>" "\<And>k. map_option core (h k) = map_option core (es_heap x k)"
    unfolding touches_def by blast
  have "h k = None \<longleftrightarrow> es_heap x k = None" for k using x'(2) [of k] by (metis map_option_is_None)
  then have "dom h = dom (es_heap x)" by (simp add: dom_def)
  moreover have "state_ok s" if "h k = Some s" for k s
  proof -
    from x'(2) [of k] that obtain s0 where "es_heap x k = Some s0" "stack s = stack s0" by (cases "es_heap x k") (auto simp: core_def)
    with live_okD(7) [OF executor_okD(1) [OF assms(2)]] show ?thesis by (simp add: state_ok_def)
  qed
  ultimately show ?thesis using assms(2) unfolding x'(1) by (simp add: executor_ok_def live_ok_def)
qed

lemma touches_inputs: "touches core x x' \<Longrightarrow> inputs x' k = inputs x k"
  using touches_sets(6) [of core x x' k] by (cases "es_heap x k"; cases "es_heap x' k") (simp_all add: inputs_def core_def)

lemma touches_divides:
  assumes "touches core x x'" "divides F c A complete x t f"
  shows "divides F c A complete x' t f"
  using assms(2) touches_inputs [OF assms(1)] touches_sets(4) [OF assms(1)] by (simp add: divides_def follows_def)

text \<open>The state is at the entry of a block of its function.\<close>

definition entry_of :: "br_env \<Rightarrow> nat \<Rightarrow> ExecutionState \<Rightarrow> nat" where
  "entry_of env dst s = instructions_of (kf (last (stack s))) + basicBlockEntry env (kf_function (kf (last (stack s)))) dst"

definition at_block :: "br_env \<Rightarrow> nat \<Rightarrow> executor \<Rightarrow> nat \<Rightarrow> bool" where
  "at_block env dst x k \<longleftrightarrow> (\<exists>s. es_heap x k = Some s \<and> pc s = entry_of env dst s)"

lemma touches_at_block: "touches position x x' \<Longrightarrow> at_block env dst x k \<Longrightarrow> at_block env dst x' k"
  using touches_some [of position x x' k] by (auto simp: at_block_def entry_of_def position_def core_def)

lemma transfer_touches:
  assumes "transferToBasicBlock env dst src st x = Some x'"
  shows "touches core x x'" "at_block env dst x' st" "k \<noteq> st \<Longrightarrow> es_heap x' k = es_heap x k"
proof -
  from assms obtain s where s: "es_heap x st = Some s" "stack s \<noteq> []" by (auto simp: transferToBasicBlock_def bind_eq_Some_conv split: if_splits)
  define s1 where "s1 = s\<lparr>pc := entry_of env dst s\<rparr>"
  define s2 where "s2 = (case phi_index env (pc s1) src of None \<Rightarrow> s1 | Some i \<Rightarrow> s1\<lparr>incomingBBIndex := i\<rparr>)"
  have e: "stack s2 = stack s" "path s2 = path s" "pc s2 = entry_of env dst s" by (simp_all add: s2_def s1_def split: option.split)
  have x': "x' = x\<lparr>es_heap := (es_heap x)(st \<mapsto> s2)\<rparr>" using assms s
    by (cases "phi_index env (entry_of env dst s) src") (simp_all add: transferToBasicBlock_def Let_def s2_def s1_def entry_of_def)
  show "touches core x x'" unfolding x' by (rule touches_heap [OF s(1)]) (simp add: core_def e)
  show "at_block env dst x' st" using e by (simp add: x' at_block_def entry_of_def)
  show "k \<noteq> st \<Longrightarrow> es_heap x' k = es_heap x k" by (simp add: x')
qed

lemma transferSome_touches:
  assumes "transferSome env dst src t x = Some x'"
  shows "touches core x x'" "t = Some k \<Longrightarrow> at_block env dst x' k" "t \<noteq> Some k \<Longrightarrow> es_heap x' k = es_heap x k"
proof -
  show "touches core x x'" using assms transfer_touches(1) by (cases t) (auto simp: transferSome_def)
  show "t = Some k \<Longrightarrow> at_block env dst x' k" using assms transfer_touches(2) by (simp add: transferSome_def)
  show "t \<noteq> Some k \<Longrightarrow> es_heap x' k = es_heap x k" using assms transfer_touches(3) by (cases t) (auto simp: transferSome_def)
qed

lemma log_touches: "logNewConstraint env place st x = Some x' \<Longrightarrow> touches position x x'"
  by (auto simp: logNewConstraint_def bind_eq_Some_conv Let_def position_def core_def intro!: touches_heap split: if_splits)

lemma checkLoopLimit_eq:
  assumes "es_heap x st = Some s" "stack s \<noteq> []"
  shows "\<exists>x1 s1. checkLoopLimit env cp bb limit terminate st x =
      (if loopCount env bb s > limit then (if terminate then terminateState cp st x1 else Some x1) \<bind> (\<lambda>x. Some (True, x)) else Some (False, x1))
    \<and> x1 = x\<lparr>es_heap := (es_heap x)(st \<mapsto> s1)\<rparr> \<and> position s1 = position s"
proof (cases "afterFirst ''bc-'' bb")
  case None
  then show ?thesis using assms by (intro exI [of _ x] exI [of _ s]) (simp add: checkLoopLimit_def loopCount_def fun_upd_idem)
next
  case (Some name)
  obtain key where key: "BBkey env name s = Some key" using assms(2) by (simp add: BBkey_def getCalltrace_def)
  let ?n = "case BBcount s key of None \<Rightarrow> 1 | Some n \<Rightarrow> (n + 1) mod 2 ^ 32"
  have "loopCount env bb s = ?n" by (simp only: loopCount_def Some key bind.bind_lunit option.case)
  moreover have "checkLoopLimit env cp bb limit terminate st x = (let x = x\<lparr>es_heap := (es_heap x)(st \<mapsto> s\<lparr>BBcount := (BBcount s)(key \<mapsto> ?n)\<rparr>)\<rparr> in
       if ?n > limit then (if terminate then terminateState cp st x else Some x) \<bind> (\<lambda>x. Some (True, x)) else Some (False, x))"
    by (simp only: checkLoopLimit_def Some option.case assms(1) key bind.bind_lunit Let_def)
  ultimately show ?thesis
    by (intro exI [of _ "x\<lparr>es_heap := (es_heap x)(st \<mapsto> s\<lparr>BBcount := (BBcount s)(key \<mapsto> ?n)\<rparr>)\<rparr>"] exI [of _ "s\<lparr>BBcount := (BBcount s)(key \<mapsto> ?n)\<rparr>"])
      (simp only: Let_def position_def core_def; simp)
qed

lemma checkLoopLimit_cases:
  assumes "checkLoopLimit env cp bb limit terminate st x = Some (reached, x')"
  shows "\<exists>x1. touches position x x1 \<and> (\<forall>k. k \<noteq> st \<longrightarrow> es_heap x1 k = es_heap x k)
    \<and> (if terminate \<and> reached then terminateState cp st x1 = Some x' else x' = x1)"
    "es_heap x st = Some s \<Longrightarrow> stack s \<noteq> [] \<Longrightarrow> reached \<longleftrightarrow> loopCount env bb s > limit"
proof -
  show "\<exists>x1. touches position x x1 \<and> (\<forall>k. k \<noteq> st \<longrightarrow> es_heap x1 k = es_heap x k) \<and> (if terminate \<and> reached then terminateState cp st x1 = Some x' else x' = x1)"
  proof (cases "afterFirst ''bc-'' bb")
    case None
    with assms show ?thesis by (intro exI [of _ x]) (simp add: checkLoopLimit_def)
  next
    case (Some name)
    with assms obtain s key where s: "es_heap x st = Some s" "BBkey env name s = Some key" by (auto simp: checkLoopLimit_def bind_eq_Some_conv)
    then have "stack s \<noteq> []" by (auto simp: BBkey_def getCalltrace_def)
    from checkLoopLimit_eq [OF s(1) this, of env cp bb limit terminate] obtain x1 s1 where
      eq: "checkLoopLimit env cp bb limit terminate st x =
        (if loopCount env bb s > limit then (if terminate then terminateState cp st x1 else Some x1) \<bind> (\<lambda>x. Some (True, x)) else Some (False, x1))"
      and x1: "x1 = x\<lparr>es_heap := (es_heap x)(st \<mapsto> s1)\<rparr>" "position s1 = position s" by blast
    have "if terminate \<and> reached then terminateState cp st x1 = Some x' else x' = x1"
      using assms unfolding eq by (cases "terminateState cp st x1") (auto split: if_splits)
    then show ?thesis using touches_heap [of x st s position s1] s(1) x1 by (intro exI [of _ x1]) simp
  qed
  assume "es_heap x st = Some s" "stack s \<noteq> []"
  from checkLoopLimit_eq [OF this, of env cp bb limit terminate] obtain x1 where
    eq: "checkLoopLimit env cp bb limit terminate st x =
      (if loopCount env bb s > limit then (if terminate then terminateState cp st x1 else Some x1) \<bind> (\<lambda>x. Some (True, x)) else Some (False, x1))" by blast
  show "reached \<longleftrightarrow> loopCount env bb s > limit" using assms unfolding eq by (cases "terminateState cp st x1") (auto split: if_splits)
qed

lemma checkLoopLimit_touches:
  assumes "checkLoopLimit env cp bb limit False st x = Some (reached, x')"
  shows "touches position x x'" "k \<noteq> st \<Longrightarrow> es_heap x' k = es_heap x k"
  using checkLoopLimit_cases(1) [OF assms] by auto

text \<open>A state that was just created is deleted at once when it is terminated; the listeners then use a deleted state.\<close>

lemma terminateState_new:
  assumes "terminateState cp st x = Some x'" "st \<in> set (addedStates x)"
  shows "es_heap x' st = None" "removedStates x' = removedStates x"
  using assms by (auto simp: terminateState_def deleteState_def Let_def bind_eq_Some_conv)

lemma lowPriority_cases: "lowPriority cp pl place line st x = Some (pl', y) \<Longrightarrow> y = x \<or> terminateState cp st x = Some y"
  by (auto simp: lowPriority_def Let_def bind_eq_Some_conv split: if_splits)

lemma after_cases:
  assumes "PathListener_after cp pl place st x = Some (pl', x')"
  obtains x0 line y s where "x0 = x \<or> x0 = x\<lparr>haltExecution := True\<rparr>" "lowPriority cp pl place line st x0 = Some (pl', y)" "es_heap y st = Some s"
    "x' = (if line \<in> target_lines pl' \<and> OOBW s then y\<lparr>haltExecution := True\<rparr> else y)\<lparr>es_heap := (es_heap y)(st \<mapsto> s\<lparr>OOBW := False\<rparr>)\<rparr>"
proof -
  define x0 where "x0 = (if bb_of place \<in> target_bbs pl then x\<lparr>haltExecution := True\<rparr> else x)"
  note d = PathListener_after_def [of cp pl place st x, folded x0_def]
  from assms obtain line where l: "simplifylineinfo (dump_inst_sourceinfo (path_of place) (line_of place)) = Some line" unfolding d by (auto simp: bind_eq_Some_conv)
  with assms obtain pl1 y where y: "lowPriority cp pl place line st x0 = Some (pl1, y)" unfolding d by (cases "lowPriority cp pl place line st x0") auto
  with assms l obtain s where s: "es_heap y st = Some s" unfolding d by (cases "es_heap y st") auto
  from assms l y s have "pl1 = pl'" "x' = (if line \<in> target_lines pl1 \<and> OOBW s then y\<lparr>haltExecution := True\<rparr> else y)\<lparr>es_heap := (es_heap y)(st \<mapsto> s\<lparr>OOBW := False\<rparr>)\<rparr>"
    unfolding d by (auto simp: Let_def split: if_splits)
  with y s show ?thesis by (intro that [of x0 line y s]) (simp_all add: x0_def)
qed

lemma after_deleted:
  assumes "es_heap x st = None"
  shows "PathListener_after cp pl place st x = None"
proof (rule ccontr)
  assume "PathListener_after cp pl place st x \<noteq> None"
  then obtain pl' x' where "PathListener_after cp pl place st x = Some (pl', x')" by auto
  then obtain x0 line y s where y: "x0 = x \<or> x0 = x\<lparr>haltExecution := True\<rparr>" "lowPriority cp pl place line st x0 = Some (pl', y)" "es_heap y st = Some s" by (rule after_cases)
  have "es_heap x0 st = None" using y(1) assms by auto
  moreover from this have "terminateState cp st x0 = None" by (simp add: terminateState_def)
  ultimately show False using lowPriority_cases [OF y(2)] y(3) by auto
qed

lemma after_touches:
  assumes "PathListener_after cp pl place st x = Some (pl', x')" "st \<in> set (addedStates x)"
  shows "touches position x x'"
proof -
  from assms(1) obtain x0 line y s where y: "x0 = x \<or> x0 = x\<lparr>haltExecution := True\<rparr>" "lowPriority cp pl place line st x0 = Some (pl', y)" "es_heap y st = Some s"
    "x' = (if line \<in> target_lines pl' \<and> OOBW s then y\<lparr>haltExecution := True\<rparr> else y)\<lparr>es_heap := (es_heap y)(st \<mapsto> s\<lparr>OOBW := False\<rparr>)\<rparr>" by (rule after_cases)
  have "st \<in> set (addedStates x0)" using y(1) assms(2) by auto
  then have "y = x0" using lowPriority_cases [OF y(2)] terminateState_new(1) y(3) by fastforce
  define z where "z = (if line \<in> target_lines pl' \<and> OOBW s then y\<lparr>haltExecution := True\<rparr> else y)"
  have "touches position x y" using y(1) touches_halt \<open>y = x0\<close> by auto
  moreover have "touches position y z" by (simp add: z_def touches_halt)
  moreover have h: "es_heap z = es_heap y" by (simp add: z_def)
  have "touches position z (z\<lparr>es_heap := (es_heap z)(st \<mapsto> s\<lparr>OOBW := False\<rparr>)\<rparr>)" by (rule touches_heap) (use y(3) h in \<open>simp_all add: position_def core_def\<close>)
  then have "touches position z x'" using y(4) h by (simp add: z_def [symmetric])
  ultimately show ?thesis using touches_trans by blast
qed

lemma bothBranches_touches:
  assumes run: "bothBranches env cp pl place st ns x = Some (pl', x')" and ok: "executor_ok x" and ns: "ns \<in> set (addedStates x)"
  shows "touches position x x'"
proof -
  from run obtain x1 x2 x3 x4 r r' where c: "logNewConstraint env place st x = Some x1" "logNewConstraint env place ns x1 = Some x2"
    "checkLoopLimit env cp (bb_of place) (looplimit env) False st x2 = Some (r, x3)" "checkLoopLimit env cp (bb_of place) (looplimit env) True ns x3 = Some (r', x4)"
    "ListenerService_after cp pl place ns x4 = Some (pl', x')" by (auto simp: bothBranches_def bind_eq_Some_conv)
  have t3: "touches position x x3" using touches_trans log_touches c(1,2) checkLoopLimit_touches(1) [OF c(3)] by blast
  have ns3: "ns \<in> set (addedStates x3)" "ns \<notin> set (removedStates x3)"
    using touches_sets(2,3) [OF t3] ns executor_okD(4,6) [OF ok] by auto
  from checkLoopLimit_cases(1) [OF c(4)] obtain y where y: "touches position x3 y" "if r' then terminateState cp ns y = Some x4 else x4 = y" by auto
  have ny: "ns \<in> set (addedStates y)" "ns \<notin> set (removedStates y)" using touches_sets(2,3) [OF y(1)] ns3 by simp_all
  have "\<not> r'"
  proof
    assume "r'"
    with y(2) have "terminateState cp ns y = Some x4" by simp
    from terminateState_new [OF this ny(1)] ny(2) c(5) show False using after_deleted [of x4 ns cp pl place] by (simp add: ListenerService_after_def)
  qed
  with y ny have "touches position x3 x4 \<and> ns \<in> set (addedStates x4) \<and> ns \<notin> set (removedStates x4)" by simp
  moreover from this have "touches position x4 x'" using c(5) after_touches by (simp add: ListenerService_after_def)
  ultimately show ?thesis using t3 touches_trans by blast
qed

text \<open>If only one successor is possible, the state stays there unless the loop limit is exceeded.\<close>

lemma oneBranch_touches:
  assumes "oneBranch env cp place dst src st x = Some x'"
  shows "touches core x x'" "es_heap x st = Some s \<Longrightarrow> stack s \<noteq> [] \<Longrightarrow> loopCount env (bb_of place) s \<le> 129 \<Longrightarrow> touches position x x'"
    "k \<noteq> st \<Longrightarrow> es_heap x' k = es_heap x k"
proof -
  from assms obtain r y where y: "checkLoopLimit env cp (bb_of place) 129 False st x = Some (r, y)" "if r then transferToBasicBlock env dst src st y = Some x' else x' = y"
    by (auto simp: oneBranch_def bind_eq_Some_conv split: if_splits)
  note c = checkLoopLimit_touches [OF y(1)]
  show "touches core x x'" using touches_core [OF c(1)] y(2) transfer_touches(1) touches_trans by (metis (full_types))
  show "k \<noteq> st \<Longrightarrow> es_heap x' k = es_heap x k" using c(2) y(2) transfer_touches(3) by (metis (full_types))
  assume "es_heap x st = Some s" "stack s \<noteq> []" "loopCount env (bb_of place) s \<le> 129"
  with checkLoopLimit_cases(2) [OF y(1)] have "\<not> r" by simp
  with c(1) y(2) show "touches position x x'" by simp
qed

lemma countTarget_counter: "countTarget env bb B C t f x = Some x' \<Longrightarrow> \<exists>c. x' = x\<lparr>BB_targetBB_counter := c\<rparr>"
  by (auto simp: countTarget_def Let_def split: if_splits) (metis executor.surjective executor.update_convs(14))+

lemma transferSome_trace:
  assumes "transferSome env dst src t x = Some x'"
  shows "map_option trace_of (es_heap x' k) = map_option trace_of (es_heap x k)"
proof (cases t)
  case (Some st)
  with assms obtain s where s: "es_heap x st = Some s" "stack s \<noteq> []" by (auto simp: transferSome_def transferToBasicBlock_def bind_eq_Some_conv split: if_splits)
  with Some assms show ?thesis
    by (cases "phi_index env (entry_of env dst s) src") (auto simp: transferSome_def transferToBasicBlock_def Let_def entry_of_def trace_of_def)
qed (use assms in \<open>simp add: transferSome_def\<close>)

lemma loopCount_kept:
  assumes "map_option trace_of (es_heap x' st) = Some (trace_of e)" "stack e \<noteq> []"
  obtains s where "es_heap x' st = Some s" "stack s \<noteq> []" "loopCount env bb s = loopCount env bb e"
  using assms trace_of_eq by (metis map_option_eq_Some)

lemma divides_counter: "divides F c A complete (x\<lparr>BB_targetBB_counter := m\<rparr>) t f = divides F c A complete x t f"
  by (simp add: divides_def follows_def inputs_def)

section \<open>The branch\<close>

text \<open>After the states were moved to the successors, they stay there and keep their inputs.\<close>

lemma settled:
  assumes post: "(if t \<noteq> None \<and> f \<noteq> None then state2 \<bind> (\<lambda>newstate. bothBranches env cp pl place st newstate x)
      else oneBranch env cp place dst A st x \<bind> (\<lambda>x. Some (pl, x))) = Some (pl', x')" and ok: "executor_ok x"
    and both: "t \<noteq> None \<Longrightarrow> f \<noteq> None \<Longrightarrow> state2 = Some ns \<and> ns \<in> set (addedStates x)"
    and one: "(t = None) \<noteq> (f = None) \<Longrightarrow> map_option trace_of (es_heap x st) = Some (trace_of e)"
    and e: "stack e \<noteq> []" "loopCount env (bb_of place) e \<le> 129"
  shows "touches core x x'" "t \<noteq> None \<or> f \<noteq> None \<Longrightarrow> touches position x x'" "k \<noteq> st \<Longrightarrow> map_option position (es_heap x' k) = map_option position (es_heap x k)"
proof -
  have "touches core x x' \<and> (t \<noteq> None \<or> f \<noteq> None \<longrightarrow> touches position x x') \<and> (k \<noteq> st \<longrightarrow> map_option position (es_heap x' k) = map_option position (es_heap x k))" for k
  proof (cases "t \<noteq> None \<and> f \<noteq> None")
    case True
    with post both have "touches position x x'" by (auto intro: bothBranches_touches [OF _ ok])
    then show ?thesis using touches_core touches_sets(6) by blast
  next
    case False
    with post have o: "oneBranch env cp place dst A st x = Some x'" by (auto simp: bind_eq_Some_conv split: if_splits)
    have "touches position x x'" if "t \<noteq> None \<or> f \<noteq> None"
    proof -
      have "map_option trace_of (es_heap x st) = Some (trace_of e)" using one that False by auto
      then obtain s where "es_heap x st = Some s" "stack s \<noteq> []" "loopCount env (bb_of place) s = loopCount env (bb_of place) e" using e(1) by (rule loopCount_kept)
      with oneBranch_touches(2) [OF o] e(2) show ?thesis by simp
    qed
    with oneBranch_touches(1,3) [OF o] show ?thesis by simp
  qed
  then show "touches core x x'" "t \<noteq> None \<or> f \<noteq> None \<Longrightarrow> touches position x x'" "k \<noteq> st \<Longrightarrow> map_option position (es_heap x' k) = map_option position (es_heap x k)" by blast+
qed

lemma branchOnCondition_sound:
  assumes solver: "sound_solver N F I impl" "I s" "simplifyExprs opt \<noteq> None \<longrightarrow> N"
    and ok: "executor_ok x" and st: "st \<in> live x" "es_heap x st = Some e" "stack e \<noteq> []" and ns: "es_heap x ns = None"
    and p: "path_ok (path e)" "condition_ok (path e) cond" and limit: "loopCount env (bb_of place) e \<le> 129"
    and run: "branchOnCondition env opt impl limited ns ra rb place A B C st cond (pl, x, s) = Some (pl', x', s')"
  shows "\<exists>t f. executor_ok x' \<and> I s'
    \<and> divides F cond (inputs x st)
        (\<not> limited \<and> branchingPermitted opt x e \<and> replayPath opt = None \<and> (MaxDepth opt = 0 \<or> (depth e + 1) mod 2 ^ 32 < MaxDepth opt)) x' t f
    \<and> (\<forall>k. t = Some k \<longrightarrow> at_block env B x' k) \<and> (\<forall>k. f = Some k \<longrightarrow> at_block env C x' k)
    \<and> (\<forall>k. k \<noteq> st \<longrightarrow> k \<noteq> ns \<longrightarrow> map_option position (es_heap x' k) = map_option position (es_heap x k))"
proof -
  have ne: "st \<noteq> ns" using st(2) ns by auto
  from run obtain swap t f state2 x1 s1 x2 x3 pl4 x4 where
    fk: "forkInOrder opt impl limited ns swap st cond x s = Some ((t, f), state2, x1, s1)" and
    tr: "transferSome env B A t x1 = Some x2" "transferSome env C A f x2 = Some x3" and
    post: "(if t \<noteq> None \<and> f \<noteq> None then state2 \<bind> (\<lambda>newstate. bothBranches env (CompressProcessTree opt) pl place st newstate x3)
      else oneBranch env (CompressProcessTree opt) place (if rb then C else B) A st x3 \<bind> (\<lambda>x. Some (pl, x))) = Some (pl4, x4)" and
    cnt: "countTarget env (bb_of place) B C t f x4 = Some x'" "s' = s1"
    by (auto simp: branchOnCondition_def bind_eq_Some_conv)
  note sound = forkInOrder_sound [OF solver ok st(1,2) ns p fk] and shape = forkInOrder_shape [OF fk st(2)]
  have c13: "touches core x1 x3" using transferSome_touches(1) tr touches_trans by blast
  have ok3: "executor_ok x3" using touches_executor_ok [OF c13] sound by blast
  have tf: "t = Some k \<Longrightarrow> f \<noteq> Some k" for k using shape ne by (auto split: if_splits)
  have at: "t = Some k \<Longrightarrow> at_block env B x3 k" "f = Some k \<Longrightarrow> at_block env C x3 k" for k
    using transferSome_touches(2) [OF tr(1)] transferSome_touches(2) [OF tr(2)] transferSome_touches(3) [OF tr(2), of k] tf [of k] by (auto simp: at_block_def)
  have other3: "es_heap x3 k = es_heap x k" if "k \<noteq> st" "k \<noteq> ns" for k
    using sound that transferSome_touches(3) [OF tr(1), of k] transferSome_touches(3) [OF tr(2), of k] shape by (auto split: if_splits)
  have both: "t \<noteq> None \<Longrightarrow> f \<noteq> None \<Longrightarrow> state2 = Some ns \<and> ns \<in> set (addedStates x3)" using shape touches_sets(2) [OF c13] by (auto split: if_splits)
  have one: "map_option trace_of (es_heap x3 st) = Some (trace_of e)" if "(t = None) \<noteq> (f = None)"
  proof -
    have "keeps x x1" using shape that by (auto split: if_splits)
    then show ?thesis using transferSome_trace [OF tr(1), of st] transferSome_trace [OF tr(2), of st] st(2) by (simp add: keeps_def)
  qed
  note t4 = settled [OF post ok3 both one st(3) limit]
  obtain c where c: "x' = x4\<lparr>BB_targetBB_counter := c\<rparr>" using countTarget_counter [OF cnt(1)] by blast
  have "divides F cond (inputs x st)
      (\<not> limited \<and> branchingPermitted opt x e \<and> replayPath opt = None \<and> (MaxDepth opt = 0 \<or> (depth e + 1) mod 2 ^ 32 < MaxDepth opt)) x4 t f"
    using sound touches_divides [OF touches_trans [OF c13 t4(1)]] by blast
  moreover have "t = Some k \<Longrightarrow> at_block env B x4 k" "f = Some k \<Longrightarrow> at_block env C x4 k" for k using at t4(2) touches_at_block by blast+
  ultimately show ?thesis using touches_executor_ok [OF t4(1) ok3] sound cnt(2) t4(3) other3
    by (intro exI [of _ t] exI [of _ f]) (simp add: c divides_counter at_block_def)
qed

section \<open>The branch returns\<close>

lemma branchOrder_returns:
  assumes "finite V" "\<forall>a\<in>V. set (successors_of env a) \<subseteq> V" "{A, B, C} \<subseteq> V"
  obtains swap where "branchOrder env A B C r = Some swap"
proof -
  have f: "finite {b. (a, b) \<in> (edges (successors_of env))\<^sup>+}" if "a \<in> V" for a using finite_reachable assms(1,2) that by blast
  have "branchOrder env A B C r \<noteq> None" using assms(3) f by (auto simp: branchOrder_def Isaloop_def BB1_reach_BB2_eq split: bool.split)
  with that show ?thesis by blast
qed

lemma transferSome_returns:
  assumes "\<And>k. t = Some k \<Longrightarrow> \<exists>s. es_heap x k = Some s \<and> stack s \<noteq> []"
  obtains x' where "transferSome env dst src t x = Some x'"
proof (cases t)
  case (Some k)
  with assms obtain s where "es_heap x k = Some s" "stack s \<noteq> []" by blast
  with Some that show ?thesis by (simp add: transferSome_def transferToBasicBlock_def Let_def)
qed (use that in \<open>simp add: transferSome_def\<close>)

lemma log_trace:
  assumes "logNewConstraint env place st x = Some x'"
  shows "map_option trace_of (es_heap x' k) = map_option trace_of (es_heap x k)"
proof -
  from assms obtain s where "es_heap x st = Some s" by (auto simp: logNewConstraint_def bind_eq_Some_conv)
  with assms show ?thesis by (auto simp: logNewConstraint_def Let_def trace_of_def split: if_splits)
qed

lemma log_returns: "es_heap x st = Some s \<Longrightarrow> \<exists>x'. logNewConstraint env place st x = Some x'"
  by (cases "path s = []") (auto simp: logNewConstraint_def Let_def)

lemma checkLoopLimit_returns:
  assumes "es_heap x st = Some s" "stack s \<noteq> []" "terminate \<Longrightarrow> loopCount env bb s \<le> limit"
  obtains r x' where "checkLoopLimit env cp bb limit terminate st x = Some (r, x')" "touches position x x'" "\<And>k. k \<noteq> st \<Longrightarrow> es_heap x' k = es_heap x k"
proof -
  obtain x1 s1 where "checkLoopLimit env cp bb limit terminate st x =
      (if loopCount env bb s > limit then (if terminate then terminateState cp st x1 else Some x1) \<bind> (\<lambda>x. Some (True, x)) else Some (False, x1))"
    "x1 = x\<lparr>es_heap := (es_heap x)(st \<mapsto> s1)\<rparr>" "position s1 = position s" using checkLoopLimit_eq [OF assms(1,2)] by blast
  moreover from this(2,3) have "touches position x x1" using touches_heap assms(1) by simp
  ultimately show ?thesis using that [of _ x1] assms(3) by (cases "loopCount env bb s > limit"; cases terminate) auto
qed

text \<open>The place of the branch does not make the listener terminate the new state.\<close>

definition place_ok :: "PathListener \<Rightarrow> place \<Rightarrow> bool" where
  "place_ok pl place \<longleftrightarrow> (\<exists>line. simplifylineinfo (dump_inst_sourceinfo (path_of place) (line_of place)) = Some line \<and> \<not> low_priority pl place line \<and> counter_ok pl line)"

lemma after_returns:
  assumes "es_heap x st = Some s" "place_ok pl place"
  shows "ListenerService_after cp pl place st x \<noteq> None"
proof -
  from assms(2) obtain line where line: "simplifylineinfo (dump_inst_sourceinfo (path_of place) (line_of place)) = Some line" "\<not> low_priority pl place line" "counter_ok pl line"
    unfolding place_ok_def by blast
  define x0 where "x0 = (if bb_of place \<in> target_bbs pl then x\<lparr>haltExecution := True\<rparr> else x)"
  obtain pl' where "lowPriority cp pl place line st x0 = Some (pl', x0)" using lowPriority_eq [OF line(3), of cp place st x0] line(2) by auto
  moreover have "es_heap x0 st = Some s" using assms(1) by (simp add: x0_def)
  ultimately show ?thesis using line(1) by (simp add: ListenerService_after_def PathListener_after_def x0_def [symmetric] Let_def)
qed

lemma bothBranches_returns:
  assumes tr: "map_option trace_of (es_heap x st) = Some (trace_of e)" "map_option trace_of (es_heap x ns) = Some (trace_of e)" "st \<noteq> ns"
    and e: "stack e \<noteq> []" "loopCount env (bb_of place) e \<le> looplimit env" and place: "place_ok pl place"
  shows "bothBranches env cp pl place st ns x \<noteq> None"
proof -
  from tr(1) obtain s where s: "es_heap x st = Some s" by auto
  obtain x1 where x1: "logNewConstraint env place st x = Some x1" using log_returns [OF s] by blast
  from log_trace [OF x1, of ns] tr(2) obtain n where n: "es_heap x1 ns = Some n" by auto
  obtain x2 where x2: "logNewConstraint env place ns x1 = Some x2" using log_returns [OF n] by blast
  have tr2: "map_option trace_of (es_heap x2 k) = map_option trace_of (es_heap x k)" for k using log_trace [OF x1] log_trace [OF x2] by simp
  obtain s2 where s2: "es_heap x2 st = Some s2" "stack s2 \<noteq> []" using loopCount_kept [of x2 st e] tr2 tr(1) e(1) by metis
  obtain n2 where n2: "es_heap x2 ns = Some n2" "stack n2 \<noteq> []" "loopCount env (bb_of place) n2 = loopCount env (bb_of place) e"
    using loopCount_kept [of x2 ns e env "bb_of place"] tr2 tr(2) e(1) by metis
  obtain r x3 where x3: "checkLoopLimit env cp (bb_of place) (looplimit env) False st x2 = Some (r, x3)" "\<And>k. k \<noteq> st \<Longrightarrow> es_heap x3 k = es_heap x2 k"
    using checkLoopLimit_returns [OF s2, of False] by metis
  have n3: "es_heap x3 ns = Some n2" using x3(2) tr(3) n2(1) by simp
  obtain r' x4 where x4: "checkLoopLimit env cp (bb_of place) (looplimit env) True ns x3 = Some (r', x4)" "touches position x3 x4"
    using checkLoopLimit_returns [OF n3 n2(2), of True env "bb_of place" "looplimit env" cp] n2(3) e(2) by metis
  obtain n4 where "es_heap x4 ns = Some n4" using touches_some [OF x4(2) n3] by blast
  with after_returns place x1 x2 x3(1) x4(1) show ?thesis by (simp add: bothBranches_def)
qed

lemma oneBranch_returns:
  assumes "map_option trace_of (es_heap x st) = Some (trace_of e)" "stack e \<noteq> []"
  shows "oneBranch env cp place dst src st x \<noteq> None"
proof -
  from loopCount_kept [OF assms, of env "''''"] obtain s where s: "es_heap x st = Some s" "stack s \<noteq> []" by blast
  obtain r x1 where x1: "checkLoopLimit env cp (bb_of place) 129 False st x = Some (r, x1)" "touches position x x1" using checkLoopLimit_returns [OF s, of False] by metis
  from touches_some [OF x1(2) s(1)] s(2) obtain s1 where "es_heap x1 st = Some s1" "stack s1 \<noteq> []" by (auto simp: position_def core_def)
  then have "transferToBasicBlock env dst src st x1 \<noteq> None" by (simp add: transferToBasicBlock_def Let_def)
  with x1(1) show ?thesis by (simp add: oneBranch_def)
qed

lemma countTarget_returns:
  assumes "\<And>n. BB_targetBB_counter x bb = Some n \<Longrightarrow> n \<le> 5"
  shows "countTarget env bb B C t f x \<noteq> None"
proof -
  have "(case BB_targetBB_counter x bb of None \<Rightarrow> 1 | Some n \<Rightarrow> n + 1) < 2 ^ 31" using assms by (force split: option.split)
  then show ?thesis by (simp add: countTarget_def Let_def)
qed

lemma forkInOrder_returns:
  assumes solver: "sound_solver False F I impl" "I s" "simplifyExprs opt = None"
    and ok: "executor_ok x" and st: "st \<in> live x" "es_heap x st = Some e" and ns: "es_heap x ns = None"
    and p: "path_ok (path e)" "condition_ok (path e) cond"
    and ends: "ends opt (path e) cond" "\<And>n. createIsZero cond = Some n \<Longrightarrow> ends opt (path e) n"
    and opt: "replayPath opt = None" "\<not> replayKTest opt" "branchingPermitted opt x e"
  shows "forkInOrder opt impl False ns swap st cond x s \<noteq> None"
proof (cases swap)
  case False
  from fork_returns [OF solver ok st ns p ends(1), of False] opt False show ?thesis by (auto simp: forkInOrder_def)
next
  case True
  have "wf_expr cond" using p(2) by (simp add: condition_ok_def wf_constraint_def)
  then obtain n where n: "createIsZero cond = Some n" using createIsZero_simplifies by (metis simplifiesE)
  from fork_returns [OF solver ok st ns p(1) createIsZero_condition(1) [OF p(2) n] ends(2) [OF n], of False] opt True n show ?thesis by (auto simp: forkInOrder_def)
qed

lemma forkInOrder_traces:
  assumes "forkInOrder opt impl limited ns swap st cond x s = Some ((t, f), state2, x', s')" "es_heap x st = Some e" "t \<noteq> None \<or> f \<noteq> None"
  shows "map_option trace_of (es_heap x' st) = Some (trace_of e)" "BB_targetBB_counter x' = BB_targetBB_counter x"
    "t \<noteq> None \<Longrightarrow> f \<noteq> None \<Longrightarrow> state2 = Some ns \<and> ns \<in> set (addedStates x') \<and> map_option trace_of (es_heap x' ns) = Some (trace_of e)"
    "t = Some k \<or> f = Some k \<Longrightarrow> map_option trace_of (es_heap x' k) = Some (trace_of e)"
proof -
  have one: "map_option trace_of (es_heap x' st) = Some (trace_of e)" "BB_targetBB_counter x' = BB_targetBB_counter x" if "keeps x x'" using that assms(2) by (simp_all add: keeps_def)
  note shape = forkInOrder_shape [OF assms(1,2)]
  show a: "map_option trace_of (es_heap x' st) = Some (trace_of e)" "BB_targetBB_counter x' = BB_targetBB_counter x" using shape one assms(3) by (auto split: if_splits)
  show b: "t \<noteq> None \<Longrightarrow> f \<noteq> None \<Longrightarrow> state2 = Some ns \<and> ns \<in> set (addedStates x') \<and> map_option trace_of (es_heap x' ns) = Some (trace_of e)" using shape by (auto split: if_splits)
  show "t = Some k \<or> f = Some k \<Longrightarrow> map_option trace_of (es_heap x' k) = Some (trace_of e)" using shape a(1) b by (auto split: if_splits)
qed

lemma branchOnCondition_returns:
  assumes solver: "sound_solver False F I impl" "I s" "simplifyExprs opt = None"
    and ok: "executor_ok x" and st: "st \<in> live x" "es_heap x st = Some e" "stack e \<noteq> []" and ns: "es_heap x ns = None"
    and p: "path_ok (path e)" "condition_ok (path e) cond"
    and ends: "ends opt (path e) cond" "\<And>n. createIsZero cond = Some n \<Longrightarrow> ends opt (path e) n"
    and opt: "replayPath opt = None" "\<not> replayKTest opt" "branchingPermitted opt x e" "MaxDepth opt = 0"
    and cfg: "finite V" "\<forall>a\<in>V. set (successors_of env a) \<subseteq> V" "{A, B, C} \<subseteq> V"
    and place: "place_ok pl place" "loopCount env (bb_of place) e \<le> looplimit env" and counter: "\<And>n. BB_targetBB_counter x (bb_of place) = Some n \<Longrightarrow> n \<le> 5"
  shows "branchOnCondition env opt impl False ns ra rb place A B C st cond (pl, x, s) \<noteq> None"
proof -
  have ne: "st \<noteq> ns" using st(2) ns by auto
  obtain swap where swap: "branchOrder env A B C ra = Some swap" using branchOrder_returns [OF cfg] by blast
  obtain t f state2 x1 s1 where fk: "forkInOrder opt impl False ns swap st cond x s = Some ((t, f), state2, x1, s1)"
    using forkInOrder_returns [OF solver ok st(1,2) ns p ends opt(1-3), of swap] by (metis not_None_eq surj_pair)
  have se: "simplifyExprs opt \<noteq> None \<longrightarrow> False" using solver(3) by simp
  from forkInOrder_sound [OF solver(1,2) se ok st(1,2) ns p fk] opt have "inputs x st \<subseteq> (\<Union>k\<in>set_option t \<union> set_option f. inputs x1 k)" by (simp add: divides_def)
  moreover have "inputs x st \<noteq> {}" using p(1) st(2) by (auto simp: inputs_def path_ok_def)
  ultimately have some: "t \<noteq> None \<or> f \<noteq> None" by auto
  note tr1 = forkInOrder_traces [OF fk st(2) some]
  have stk: "\<exists>s. es_heap y k = Some s \<and> stack s \<noteq> []" if "map_option trace_of (es_heap y k) = Some (trace_of e)" for y k using that loopCount_kept st(3) by metis
  obtain x2 where x2: "transferSome env B A t x1 = Some x2" using transferSome_returns [of t x1] stk tr1(4) by metis
  note tr2 = transferSome_trace [OF x2]
  obtain x3 where x3: "transferSome env C A f x2 = Some x3" using transferSome_returns [of f x2] stk tr1(4) tr2 by metis
  note tr3 = transferSome_trace [OF x3]
  note c = touches_sets [OF transferSome_touches(1) [OF x2]] touches_sets [OF transferSome_touches(1) [OF x3]]
  have c3: "BB_targetBB_counter x3 = BB_targetBB_counter x" using c tr1(2) by simp
  have st3: "map_option trace_of (es_heap x3 st) = Some (trace_of e)" using tr1(1) tr2 tr3 by simp
  have ok3: "executor_ok x3" using touches_executor_ok [OF transferSome_touches(1) [OF x3]] touches_executor_ok [OF transferSome_touches(1) [OF x2]]
      forkInOrder_sound [OF solver(1,2) se ok st(1,2) ns p fk] by blast
  let ?post = "if t \<noteq> None \<and> f \<noteq> None then state2 \<bind> (\<lambda>newstate. bothBranches env (CompressProcessTree opt) pl place st newstate x3)
      else oneBranch env (CompressProcessTree opt) place (if rb then C else B) A st x3 \<bind> (\<lambda>x. Some (pl, x))"
  obtain pl4 x4 where post: "?post = Some (pl4, x4)" "BB_targetBB_counter x4 = BB_targetBB_counter x"
  proof (cases "t \<noteq> None \<and> f \<noteq> None")
    case True
    have "map_option trace_of (es_heap x3 ns) = Some (trace_of e)" using tr1(3) True tr2 tr3 by simp
    then obtain pl4 x4 where b: "bothBranches env (CompressProcessTree opt) pl place st ns x3 = Some (pl4, x4)"
      using bothBranches_returns [OF st3 _ ne st(3) place(2,1)] by fastforce
    have "ns \<in> set (addedStates x3)" using tr1(3) True c by simp
    with that b True tr1(3) c3 touches_sets(5) [OF bothBranches_touches [OF b ok3]] show ?thesis by simp
  next
    case False
    obtain x4 where o: "oneBranch env (CompressProcessTree opt) place (if rb then C else B) A st x3 = Some x4" using oneBranch_returns [OF st3 st(3)] by fastforce
    with that False c3 touches_sets(5) [OF oneBranch_touches(1) [OF o]] show ?thesis by auto
  qed
  have "countTarget env (bb_of place) B C t f x4 \<noteq> None" by (rule countTarget_returns) (use post(2) counter in simp)
  then obtain x5 where "countTarget env (bb_of place) B C t f x4 = Some x5" by blast
  with swap fk x2 x3 post(1) show ?thesis by (simp add: branchOnCondition_def)
qed

text \<open>If the new state exceeds the loop limit, it is deleted and the listeners are called for it.\<close>

lemma bothBranches_over:
  assumes ok: "executor_ok x" and ns: "ns \<in> set (addedStates x)" "st \<noteq> ns" "map_option trace_of (es_heap x ns) = Some (trace_of e)"
    and e: "stack e \<noteq> []" "loopCount env (bb_of place) e > looplimit env"
  shows "bothBranches env cp pl place st ns x = None"
proof (rule ccontr)
  assume "bothBranches env cp pl place st ns x \<noteq> None"
  then obtain pl' x' x1 x2 x3 x4 r r' where c: "logNewConstraint env place st x = Some x1" "logNewConstraint env place ns x1 = Some x2"
    "checkLoopLimit env cp (bb_of place) (looplimit env) False st x2 = Some (r, x3)" "checkLoopLimit env cp (bb_of place) (looplimit env) True ns x3 = Some (r', x4)"
    "ListenerService_after cp pl place ns x4 = Some (pl', x')" by (auto simp: bothBranches_def bind_eq_Some_conv)
  have t3: "touches position x x3" using touches_trans log_touches c(1,2) checkLoopLimit_touches(1) [OF c(3)] by blast
  have "map_option trace_of (es_heap x3 ns) = Some (trace_of e)" using log_trace [OF c(1), of ns] log_trace [OF c(2), of ns] checkLoopLimit_touches(2) [OF c(3)] ns(2,3) by metis
  then obtain n where "es_heap x3 ns = Some n" "stack n \<noteq> []" "loopCount env (bb_of place) n = loopCount env (bb_of place) e" using e(1) by (rule loopCount_kept)
  with checkLoopLimit_cases(2) [OF c(4)] e(2) have "r'" by simp
  with checkLoopLimit_cases(1) [OF c(4)] obtain y where y: "touches position x3 y" "terminateState cp ns y = Some x4" by auto
  have ny: "ns \<in> set (addedStates y)" "ns \<notin> set (removedStates y)" using touches_sets(2,3) [OF touches_trans [OF t3 y(1)]] ns(1) executor_okD(4,6) [OF ok] by auto
  from terminateState_new [OF y(2) ny(1)] ny(2) c(5) show False using after_deleted [of x4 ns cp pl place] by (simp add: ListenerService_after_def)
qed

section \<open>Properties\<close>

text \<open>C4: a conditional branch sends every input to the successor its condition selects, whatever order the engine tries the successors in. There are states \<open>t\<close> at the first
  and \<open>f\<close> at the second successor; the inputs of \<open>t\<close> satisfy the condition, those of \<open>f\<close> falsify it, both have some, and all are inputs of the state before the branch; if forking is permitted, nothing is replayed
  and the path is not too deep, every input of the state before is an input of \<open>t\<close> or \<open>f\<close>. No other state moves or changes its path, and the engine stays consistent. This holds for a branch that is
  not forced to a target and was not taken more than 129 times. On the control flow graph of a function, at a place without low priority and within the loop limit, the branch returns if the fork does.\<close>

theorem Br_divides_inputs:
  assumes solver: "sound_solver N F I impl" "I s" "simplifyExprs opt \<noteq> None \<longrightarrow> N"
    and ok: "executor_ok x" and st: "st \<in> live x" "es_heap x st = Some e" "stack e \<noteq> []" and ns: "es_heap x ns = None"
    and ki: "bi_successor1 bi = Some C" "Executor_eval ct ki 0 e = Some cond" and p: "path_ok (path e)" "condition_ok (path e) cond"
    and limit: "loopCount env (bb_of place) e \<le> 129" "\<forall>n. BB_targetBB_counter x (bb_of place) = Some n \<longrightarrow> n \<le> 5"
  shows "(\<forall>pl' x' s'. Executor_Br env opt impl limited ns ra rb ct place bi ki st (pl, x, s) = Some (pl', x', s') \<longrightarrow>
      (\<exists>t f. executor_ok x' \<and> I s'
        \<and> (\<forall>k. t = Some k \<longrightarrow> follows F cond True (inputs x st) x' k \<and> at_block env (bi_successor0 bi) x' k)
        \<and> (\<forall>k. f = Some k \<longrightarrow> follows F cond False (inputs x st) x' k \<and> at_block env C x' k)
        \<and> (\<not> limited \<and> branchingPermitted opt x e \<and> replayPath opt = None \<and> (MaxDepth opt = 0 \<or> (depth e + 1) mod 2 ^ 32 < MaxDepth opt)
            \<longrightarrow> inputs x st \<subseteq> (\<Union>k\<in>set_option t \<union> set_option f. inputs x' k))
        \<and> (\<forall>k. k \<noteq> st \<longrightarrow> k \<noteq> ns \<longrightarrow> map_option position (es_heap x' k) = map_option position (es_heap x k))))
    \<and> (\<not> N \<and> \<not> limited \<and> branchingPermitted opt x e \<and> replayPath opt = None \<and> \<not> replayKTest opt \<and> MaxDepth opt = 0
        \<and> ends opt (path e) cond \<and> (\<forall>n. createIsZero cond = Some n \<longrightarrow> ends opt (path e) n)
        \<and> finite V \<and> (\<forall>a\<in>V. set (successors_of env a) \<subseteq> V) \<and> {bi_parent bi, bi_successor0 bi, C} \<subseteq> V
        \<and> place_ok pl place \<and> loopCount env (bb_of place) e \<le> looplimit env
        \<longrightarrow> Executor_Br env opt impl limited ns ra rb ct place bi ki st (pl, x, s) \<noteq> None)"
proof -
  have br: "Executor_Br env opt impl limited ns ra rb ct place bi ki st (pl, x, s)
      = branchOnCondition env opt impl limited ns ra rb place (bi_parent bi) (bi_successor0 bi) C st cond (pl, x, s)"
    using ki st(2) limit(2) by (auto simp: Executor_Br_def Let_def split: option.split)
  show ?thesis unfolding br
  proof (intro conjI allI impI)
    fix pl' x' s' assume "branchOnCondition env opt impl limited ns ra rb place (bi_parent bi) (bi_successor0 bi) C st cond (pl, x, s) = Some (pl', x', s')"
    from branchOnCondition_sound [OF solver ok st ns p limit(1) this] obtain t f where tf: "executor_ok x'" "I s'"
      "divides F cond (inputs x st) (\<not> limited \<and> branchingPermitted opt x e \<and> replayPath opt = None \<and> (MaxDepth opt = 0 \<or> (depth e + 1) mod 2 ^ 32 < MaxDepth opt)) x' t f"
      "\<forall>k. t = Some k \<longrightarrow> at_block env (bi_successor0 bi) x' k" "\<forall>k. f = Some k \<longrightarrow> at_block env C x' k"
      "\<forall>k. k \<noteq> st \<longrightarrow> k \<noteq> ns \<longrightarrow> map_option position (es_heap x' k) = map_option position (es_heap x k)" by blast
    then show "\<exists>t f. executor_ok x' \<and> I s'
        \<and> (\<forall>k. t = Some k \<longrightarrow> follows F cond True (inputs x st) x' k \<and> at_block env (bi_successor0 bi) x' k)
        \<and> (\<forall>k. f = Some k \<longrightarrow> follows F cond False (inputs x st) x' k \<and> at_block env C x' k)
        \<and> (\<not> limited \<and> branchingPermitted opt x e \<and> replayPath opt = None \<and> (MaxDepth opt = 0 \<or> (depth e + 1) mod 2 ^ 32 < MaxDepth opt)
            \<longrightarrow> inputs x st \<subseteq> (\<Union>k\<in>set_option t \<union> set_option f. inputs x' k))
        \<and> (\<forall>k. k \<noteq> st \<longrightarrow> k \<noteq> ns \<longrightarrow> map_option position (es_heap x' k) = map_option position (es_heap x k))"
      by (intro exI [of _ t] exI [of _ f]) (simp add: divides_def)
  qed (use branchOnCondition_returns [of F I impl s opt x st e ns cond V env "bi_parent bi" "bi_successor0 bi" C pl place ra rb] solver ok st ns p limit in auto)
qed

text \<open>C10: the loop limit makes the engine use a deleted state. If a fork creates a second state and the branch was taken more often than the limit, the new state is
  terminated; it was never given to the searcher, so it is deleted at once, and the listeners are then called with it.\<close>

theorem Br_loop_limit_uses_deleted_state:
  assumes solver: "sound_solver N F I impl" "I s" "simplifyExprs opt \<noteq> None \<longrightarrow> N"
    and ok: "executor_ok x" and st: "st \<in> live x" "es_heap x st = Some e" "stack e \<noteq> []" and ns: "es_heap x ns = None"
    and ki: "bi_successor1 bi = Some C" "Executor_eval ct ki 0 e = Some cond" and p: "path_ok (path e)" "condition_ok (path e) cond"
    and fork: "branchOrder env (bi_parent bi) (bi_successor0 bi) C ra = Some swap" "forkInOrder opt impl limited ns swap st cond x s = Some ((Some t, Some f), state2, x1, s1)"
    and limit: "looplimit env < loopCount env (bb_of place) e" "\<forall>n. BB_targetBB_counter x (bb_of place) = Some n \<longrightarrow> n \<le> 5"
  shows "Executor_Br env opt impl limited ns ra rb ct place bi ki st (pl, x, s) = None"
proof (rule ccontr)
  assume no: "Executor_Br env opt impl limited ns ra rb ct place bi ki st (pl, x, s) \<noteq> None"
  have "Executor_Br env opt impl limited ns ra rb ct place bi ki st (pl, x, s)
      = branchOnCondition env opt impl limited ns ra rb place (bi_parent bi) (bi_successor0 bi) C st cond (pl, x, s)"
    using ki st(2) limit(2) by (auto simp: Executor_Br_def Let_def split: option.split)
  note tr1 = forkInOrder_traces [OF fork(2) st(2)]
  with no fork obtain x2 x3 where tr: "transferSome env (bi_successor0 bi) (bi_parent bi) (Some t) x1 = Some x2" "transferSome env C (bi_parent bi) (Some f) x2 = Some x3"
    and b: "bothBranches env (CompressProcessTree opt) pl place st ns x3 \<noteq> None"
    using \<open>Executor_Br _ _ _ _ _ _ _ _ _ _ _ _ _ = _\<close> by (auto simp: branchOnCondition_def bind_eq_Some_conv)
  note c = transferSome_touches(1) [OF tr(1)] transferSome_touches(1) [OF tr(2)]
  have "executor_ok x3" using touches_executor_ok c forkInOrder_sound [OF solver ok st(1,2) ns p fork(2)] by blast
  moreover have "ns \<in> set (addedStates x3)" "map_option trace_of (es_heap x3 ns) = Some (trace_of e)"
    using tr1(3) touches_sets(2) [OF c(1)] touches_sets(2) [OF c(2)] transferSome_trace [OF tr(1)] transferSome_trace [OF tr(2)] by simp_all
  moreover have "st \<noteq> ns" using st(2) ns by auto
  ultimately have "bothBranches env (CompressProcessTree opt) pl place st ns x3 = None" by (intro bothBranches_over [OF _ _ _ _ st(3) limit(1)])
  with b show False by simp
qed

text \<open>A branch without loops.\<close>

definition ex_env :: "nat \<Rightarrow> br_env" where
  "ex_env limit = \<lparr>successors_of = (\<lambda>a. if a = 1 then [2, 3] else []), bb_name = (\<lambda>b. ''bb''), function_name = (\<lambda>f. ''main''), basicBlockEntry = (\<lambda>f b. b),
     phi_index = (\<lambda>pc src. None), print_expr = (\<lambda>e. ''''), BB_targetBB = Map.empty, looplimit = limit, kernelversion = ''v5.4''\<rparr>"

definition ex_branch :: BranchInst where
  "ex_branch = \<lparr>bi_parent = 1, bi_successor0 = 2, bi_successor1 = Some 3\<rparr>"

definition ex_br_ki :: KInstruction where
  "ex_br_ki = \<lparr>opcode = OtherInst, operands = [-2], dest = 0\<rparr>"

definition ex_br_place :: place where
  "ex_br_place = \<lparr>bb_of = ''bc-x-1'', function_of = ''main'', path_of = ''x.c'', line_of = 3, call_of = NoCall\<rparr>"

lemma ex_br_facts:
  "bi_successor1 ex_branch = Some 3" "Executor_eval [Some ex_condition] ex_br_ki 0 ex_state = Some ex_condition" "stack ex_state \<noteq> []"
  "loopCount (ex_env limit) (bb_of ex_br_place) ex_state = 1" "BB_targetBB_counter ex_executor = Map.empty" "place_ok ex_listener ex_br_place"
proof -
  show st: "stack ex_state \<noteq> []" by (simp add: ex_state_def ExecutionState_new_def setID_def pushFrame_def)
  have bb: "afterFirst ''bc-'' ''bc-x-1'' = Some ''x-1''" by code_simp
  have "BBcount ex_state = Map.empty" by (simp add: ex_state_def ExecutionState_new_def setID_def pushFrame_def)
  with st bb show "loopCount (ex_env limit) (bb_of ex_br_place) ex_state = 1" by (simp add: loopCount_def ex_br_place_def BBkey_def getCalltrace_def)
  have "simplifylineinfo (dump_inst_sourceinfo (path_of ex_br_place) (line_of ex_br_place)) = Some ''x.c:3''" by code_simp
  moreover have "\<not> low_priority ex_listener ex_br_place ''x.c:3''" "counter_ok ex_listener ''x.c:3''"
    by (simp_all add: low_priority_def counter_ok_def ex_listener_def ex_br_place_def get_real_function_name_def)
  ultimately show "place_ok ex_listener ex_br_place" by (auto simp: place_ok_def)
qed (simp_all add: ex_branch_def ex_br_ki_def Executor_eval_def operand_cell_def ex_executor_def Executor_new_def)

lemma ex_condition_negated: "\<forall>n. createIsZero ex_condition = Some n \<longrightarrow> ends ex_fork_options [] n"
proof -
  have "createIsZero ex_condition = Some (BinaryExpr Eq (ConstantExpr 1 0) ex_condition)" "createIsZero (BinaryExpr Eq (ConstantExpr 1 0) ex_condition) = Some ex_condition" by code_simp+
  then show ?thesis using ex_condition_added by (simp add: ends_def settles_def ex_fork_options_def)
qed

theorem Br_divides_inputs_witness:
  "\<exists>pl' x' t f. Executor_Br (ex_env 10) ex_fork_options ContingentSolver False 8 False False [Some ex_condition] ex_br_place ex_branch ex_br_ki 7 (ex_listener, ex_executor, ()) = Some (pl', x', ())
     \<and> inputs ex_executor 7 \<subseteq> (\<Union>k\<in>set_option t \<union> set_option f. inputs x' k) \<and> set_option t \<subseteq> {k. at_block (ex_env 10) 2 x' k} \<and> set_option f \<subseteq> {k. at_block (ex_env 10) 3 x' k}"
proof -
  have h: "es_heap ex_executor 7 = Some ex_state" "es_heap ex_executor 8 = None" "7 \<in> live ex_executor" "path_ok (path ex_state)" "condition_ok (path ex_state) ex_condition"
    "simplifyExprs ex_fork_options \<noteq> None \<longrightarrow> False" using ex_executor_ok ex_condition_ok ex_state_ok(2) by (simp_all add: ex_fork_options_def)
  have l: "loopCount (ex_env 10) (bb_of ex_br_place) ex_state \<le> 129" "\<forall>n. BB_targetBB_counter ex_executor (bb_of ex_br_place) = Some n \<longrightarrow> n \<le> 5"
    using ex_br_facts(4,5) by simp_all
  note f = Br_divides_inputs [OF contingent_solver.sound_solver_axioms _ h(6) ex_executor_ok(1) h(3,1) ex_br_facts(3) h(2) ex_br_facts(1,2) h(4,5) l,
      where limited = False and ra = False and rb = False and pl = ex_listener and s = "()" and V = "{1, 2, 3}"]
  have o: "replayPath ex_fork_options = None" "MaxDepth ex_fork_options = 0" "\<not> replayKTest ex_fork_options" by (simp_all add: ex_fork_options_def)
  have g: "\<forall>a\<in>{1, 2, 3}. set (successors_of (ex_env 10) a) \<subseteq> {1, 2, 3}" "{bi_parent ex_branch, bi_successor0 ex_branch, 3} \<subseteq> {1, 2, 3}" "looplimit (ex_env 10) = 10"
    by (auto simp: ex_env_def ex_branch_def)
  from f [THEN conjunct2] ex_condition_ends ex_condition_negated ex_permitted ex_state_ok(2) o g ex_br_facts(4,6) obtain pl' x' s' where
    run: "Executor_Br (ex_env 10) ex_fork_options ContingentSolver False 8 False False [Some ex_condition] ex_br_place ex_branch ex_br_ki 7 (ex_listener, ex_executor, ()) = Some (pl', x', s')" by auto
  have b: "bi_successor0 ex_branch = 2" by (simp add: ex_branch_def)
  from f [THEN conjunct1, rule_format, OF _ run, unfolded b] ex_permitted o obtain t f where "inputs ex_executor 7 \<subseteq> (\<Union>k\<in>set_option t \<union> set_option f. inputs x' k)"
    "\<forall>k. t = Some k \<longrightarrow> at_block (ex_env 10) 2 x' k" "\<forall>k. f = Some k \<longrightarrow> at_block (ex_env 10) 3 x' k" by auto
  then have "inputs ex_executor 7 \<subseteq> (\<Union>k\<in>set_option t \<union> set_option f. inputs x' k)" "set_option t \<subseteq> {k. at_block (ex_env 10) 2 x' k}"
    "set_option f \<subseteq> {k. at_block (ex_env 10) 3 x' k}" by (auto simp: elem_set)
  with run show ?thesis by (metis old.unit.exhaust)
qed

theorem Br_loop_limit_uses_deleted_state_witness:
  "Executor_Br (ex_env 0) ex_fork_options ContingentSolver False 8 False False [Some ex_condition] ex_br_place ex_branch ex_br_ki 7 (ex_listener, ex_executor, ()) = None"
proof -
  have h: "es_heap ex_executor 7 = Some ex_state" "es_heap ex_executor 8 = None" "7 \<in> live ex_executor" "path_ok (path ex_state)" "condition_ok (path ex_state) ex_condition"
    "simplifyExprs ex_fork_options \<noteq> None \<longrightarrow> False" using ex_executor_ok ex_condition_ok ex_state_ok(2) by (simp_all add: ex_fork_options_def)
  have o: "replayPath ex_fork_options = None" "MaxDepth ex_fork_options = 0" "\<not> replayKTest ex_fork_options" "simplifyExprs ex_fork_options = None" by (simp_all add: ex_fork_options_def)
  have order: "branchOrder (ex_env 0) (bi_parent ex_branch) (bi_successor0 ex_branch) 3 False = Some False"
  proof -
    have "edges (successors_of (ex_env 0)) = {(1, 2), (1, 3)}" by (auto simp: edges_def ex_env_def split: if_splits)
    then have e: "(edges (successors_of (ex_env 0)))\<^sup>+ = {(1, 2), (1, 3)}" by (simp add: trancl_id trans_def)
    have "finite {b. (a, b) \<in> (edges (successors_of (ex_env 0)))\<^sup>+}" for a unfolding e by (rule finite_subset [of _ "{2, 3}"]) auto
    then show ?thesis by (simp add: branchOrder_def Isaloop_def BB1_reach_BB2_eq e ex_branch_def)
  qed
  have "ends ex_fork_options (path ex_state) ex_condition" "branchingPermitted ex_fork_options ex_executor ex_state" using ex_condition_ends ex_permitted ex_state_ok(2) by simp_all
  from fork_returns [OF contingent_solver.sound_solver_axioms _ o(4) ex_executor_ok(1) h(3,1,2,4,5) this(1), where s = "()" and isInternal = False] this(2) o obtain a b x1 where
    run: "Executor_fork ex_fork_options ContingentSolver False 8 7 ex_condition False ex_executor () = Some ((a, b), x1, ())" by auto
  have "TimingSolver_evaluate None ContingentSolver [] ex_condition () = Some (Some VUnknown, ())"
    by (simp add: TimingSolver_evaluate_def timingSimplify_def Solver_evaluate_def ContingentSolver_def ret_def build_def ex_condition_def ex_read_def)
  with run ex_permitted o h(1) ex_state_ok(2) have "splitState ex_fork_options 8 7 ex_condition False ex_executor = Some ((a, b), x1)"
    by (auto simp: Executor_fork_def fixCondition_def chooseBranch_def bind_eq_Some_conv)
  then have "(a, b) = (Some 7, Some 8)" using o(2) by (auto simp: splitState_def bind_eq_Some_conv)
  with run have "forkInOrder ex_fork_options ContingentSolver False 8 False 7 ex_condition ex_executor () = Some ((Some 7, Some 8), Some 8, x1, ())" by (simp add: forkInOrder_def)
  then show ?thesis
    by (intro Br_loop_limit_uses_deleted_state [OF contingent_solver.sound_solver_axioms _ h(6) ex_executor_ok(1) h(3,1) ex_br_facts(3) h(2) ex_br_facts(1,2) h(4,5) order])
      (use ex_br_facts(4,5) in \<open>simp_all add: ex_env_def\<close>)
qed


end
